(* ===== verification/Prelude.thy ===== *)
theory Prelude
  imports Main "HOL-Library.Word"
begin

text \<open>
  Shared vocabulary of the development: the machine integers of the C code, byte buffers, the
  calling convention of the C functions that write into a caller's buffer, and the generic list
  lemmas the components use.

  A C pointer with a length (\<open>buf, bufLen\<close>) that is only read is the list of its
  \<open>bufLen\<close> bytes; a \<open>NULL\<close> pointer with length 0 reads like the empty list. A buffer
  that is written is a \<open>bytes option\<close>: \<open>None\<close> is \<open>NULL\<close> (a size query) and
  \<open>Some m\<close> is memory of exactly \<open>length m\<close> bytes.
\<close>

unbundle bit_operations_syntax

type_synonym u8 = "8 word"
type_synonym u16 = "16 word"
type_synonym u32 = "32 word"
type_synonym u64 = "64 word"
type_synonym bytes = "u8 list"

text \<open>
  The result of a function that may fail: undefined behaviour (a read or write outside a buffer), \<open>NULL\<close>
  or 0, or a value.
\<close>

datatype 'a outcome = Undefined | Null | Returns 'a

named_theorems codec \<open>round trips of the byte level encoders and decoders\<close>
named_theorems codec_length \<open>lengths of encodings\<close>
named_theorems outbuf \<open>the effect of one step of a buffer writer\<close>

section \<open>Words\<close>

lemma and_ff: "(u :: 'a::len word) AND 255 = take_bit 8 u"
  by (simp add: take_bit_eq_mask mask_eq_exp_minus_1)

lemma bit_u8_high: "8 \<le> n \<Longrightarrow> \<not> bit (x :: u8) n"
  using bit_imp_le_length[of x n] by auto

lemma unat_u8_less: "unat (x :: u8) < 256"
  by (rule order_less_le_trans [OF unsigned_less]) simp

lemma ucast_ucast_small:
  assumes "unat (x :: 'b::len word) < 2 ^ LENGTH('a)"
  shows "ucast (ucast x :: 'a::len word) = x"
proof (rule word_unat_eq_iff [THEN iffD2])
  have "take_bit LENGTH('b) (unat x) = unat x" by (rule take_bit_nat_eq_self) simp
  with assms show "unat (ucast (ucast x :: 'a word) :: 'b word) = unat x"
    by (simp add: unsigned_ucast_eq unsigned_take_bit_eq take_bit_nat_eq_self)
qed

lemma unat_of_nat_small: "n < 2 ^ LENGTH('a) \<Longrightarrow> unat (of_nat n :: 'a::len word) = n"
  by (simp add: unsigned_of_nat take_bit_nat_eq_self)

lemma unat_ucast_u8_u32 [simp]: "unat (ucast (b :: u8) :: u32) = unat b"
  by (simp add: unsigned_ucast_eq take_bit_nat_eq_self order_less_trans [OF unat_u8_less])

section \<open>Lists\<close>

lemma take_drop_append_same: "k = length xs \<Longrightarrow> take k (xs @ ys) = xs"
  by simp

lemma drop_append_same: "k = length xs \<Longrightarrow> drop k (xs @ ys) = ys"
  by simp

lemma sum_list_map_le: "(\<And>x. x \<in> set xs \<Longrightarrow> f x \<le> g x) \<Longrightarrow> sum_list (map f xs) \<le> sum_list (map (g :: 'a \<Rightarrow> nat) xs)"
  by (rule sum_list_mono)

section \<open>Writing into a caller's buffer\<close>

text \<open>
  \<open>poke buf off bs\<close> is \<open>if (buf && off + len <= bufLen) memcpy(&buf[off], bs, len)\<close>: the
  write that the C code guards with the room that is left.
\<close>

fun poke :: "'a list option \<Rightarrow> nat \<Rightarrow> 'a list \<Rightarrow> 'a list option" where
  "poke None off bs = None"
| "poke (Some m) off bs =
     (if off + length bs \<le> length m then Some (take off m @ bs @ drop (off + length bs) m) else Some m)"

text \<open>\<open>room buf n\<close> is the test \<open>! buf || n <= bufLen\<close> of the return statements.\<close>

fun room :: "'a list option \<Rightarrow> nat \<Rightarrow> bool" where
  "room None n = True"
| "room (Some m) n = (n \<le> length m)"

text \<open>
  The serializers keep a running offset: \<open>if (data && off + n <= dataLen) memcpy(&data[off], bs, n);
  off += n;\<close> is \<open>put bs\<close>, and a call of another writer on the rest of the buffer, \<open>off += f((data ?
  &data[off] : NULL), (off <= dataLen ? dataLen - off : 0), \<dots>)\<close>, is \<open>put_with f\<close>.
\<close>

type_synonym 'a outbuf = "'a list option \<times> nat"

fun put :: "'a list \<Rightarrow> 'a outbuf \<Rightarrow> 'a outbuf" where
  "put bs (d, off) = (poke d off bs, off + length bs)"

fun put_with :: "('a list option \<Rightarrow> 'a list option \<times> nat) \<Rightarrow> 'a outbuf \<Rightarrow> 'a outbuf" where
  "put_with f (None, off) = (None, off + snd (f None))"
| "put_with f (Some m, off) =
     (case f (Some (drop off m)) of
        (Some m', r) \<Rightarrow> (Some (take off m @ m'), off + r)
      | (None, r) \<Rightarrow> (Some m, off + r))"

text \<open>\<open>return (! data || off <= dataLen) ? off : 0\<close>\<close>

fun finish :: "'a outbuf \<Rightarrow> 'a list option \<times> nat" where
  "finish (d, off) = (d, if room d off then off else 0)"

subsection \<open>The contract of a buffer writer\<close>

text \<open>
  Every writer of the code base promises that with \<open>NULL\<close> it returns the size it needs, and that
  with enough room it writes exactly its output at the start of the buffer, leaves the rest of the
  buffer alone and returns that size. The clients rely on it in two passes, a size query and then
  the write. The short writers also return 0 when there is too little room (and never grow the
  buffer).
\<close>

locale two_pass_writer =
  fixes w :: "'a list option \<Rightarrow> 'a list option \<times> nat"
    and outp :: "'a list"
  assumes query: "w None = (None, length outp)"
    and fill: "length outp \<le> length m \<Longrightarrow> w (Some m) = (Some (outp @ drop (length outp) m), length outp)"
begin

lemma two_pass: "length m = snd (w None) \<Longrightarrow> w (Some m) = (Some outp, length outp)"
  using fill[of m] by (simp add: query)

lemma put_with_fits:
  assumes "length bs + length outp \<le> length m"
  shows "put_with w (Some (bs @ drop (length bs) m), length bs)
    = (Some ((bs @ outp) @ drop (length (bs @ outp)) m), length (bs @ outp))"
  using assms fill[of "drop (length bs) m"] by (simp add: add.commute)

lemma put_with_query: "put_with w (None, off) = (None, off + length outp)"
  by (simp add: query)

end

locale buffer_writer = two_pass_writer w outp
  for w :: "'a list option \<Rightarrow> 'a list option \<times> nat" and outp :: "'a list" +
  assumes short_result: "length m < length outp \<Longrightarrow> snd (w (Some m)) = 0"
    and short_buffer: "length m < length outp \<Longrightarrow> \<exists>m'. fst (w (Some m)) = Some m' \<and> length m' = length m"
begin

lemma keeps_size: "\<exists>m'. fst (w (Some m)) = Some m' \<and> length m' = length m"
  by (cases "length outp \<le> length m") (auto simp: fill short_buffer)

lemma result_cases: "snd (w (Some m)) = (if length outp \<le> length m then length outp else 0)"
  by (auto simp: fill short_result)

end

lemma poke_writer: "buffer_writer (\<lambda>buf. (poke buf 0 bs, if room buf (length bs) then length bs else 0)) bs"
  by unfold_locales auto

subsection \<open>Sequences of steps\<close>

text \<open>
  \<open>wrote buf bs s\<close>: the state \<open>s\<close> of a writer that started on \<open>buf\<close> and whose output so far is
  \<open>bs\<close>, as long as \<open>bs\<close> fits.
\<close>

definition wrote :: "'a list option \<Rightarrow> 'a list \<Rightarrow> 'a outbuf \<Rightarrow> bool" where
  "wrote buf bs s \<longleftrightarrow>
     (case buf of
        None \<Rightarrow> s = (None, length bs)
      | Some m \<Rightarrow> length bs \<le> length m \<longrightarrow> s = (Some (bs @ drop (length bs) m), length bs))"

lemma wrote_start [outbuf]: "wrote buf [] (buf, 0)"
  by (simp add: wrote_def split: option.split)

lemma wrote_put [outbuf]: "wrote buf bs s \<Longrightarrow> wrote buf (bs @ x) (put x s)"
  by (auto simp: wrote_def add.commute split: option.splits)

context two_pass_writer
begin

lemma wrote_put_with: "wrote buf bs s \<Longrightarrow> wrote buf (bs @ outp) (put_with w s)"
  using put_with_fits [of bs] put_with_query by (auto simp: wrote_def split: option.splits)

end

text \<open>A function whose steps write its output and that ends with \<open>finish\<close> is a writer.\<close>

lemma wrote_writer:
  assumes "\<And>buf. wrote buf outp (f buf)"
  shows "two_pass_writer (\<lambda>buf. finish (f buf)) outp"
proof
  show "finish (f None) = (None, length outp)"
    using assms [of None] by (simp add: wrote_def)
  show "finish (f (Some m)) = (Some (outp @ drop (length outp) m), length outp)" if "length outp \<le> length m" for m
    using assms [of "Some m"] that by (simp add: wrote_def)
qed

end
