(* ===== verification/BRInt.thy ===== *)
theory BRInt
  imports Prelude
begin

text \<open>
  \<open>support/BRInt.h\<close>: the fixed width integers, their unaligned little and big endian access, and
  the hexadecimal digits. A \<open>UInt256\<close> (\<open>UInt160\<close>) is the list of its 32 (20) bytes, the
  \<open>u8\<close> view of the union; the comparisons are written on the 64 (32) bit limbs as the code does.
\<close>

section \<open>Unaligned access\<close>

definition UInt16SetBE :: "u16 \<Rightarrow> bytes" where
  "UInt16SetBE u =
     [ucast (drop_bit 8 u AND 0xff), ucast (u AND 0xff)]"

definition UInt16SetLE :: "u16 \<Rightarrow> bytes" where
  "UInt16SetLE u =
     [ucast (u AND 0xff), ucast (drop_bit 8 u AND 0xff)]"

definition UInt32SetBE :: "u32 \<Rightarrow> bytes" where
  "UInt32SetBE u =
     [ucast (drop_bit 24 u AND 0xff), ucast (drop_bit 16 u AND 0xff), ucast (drop_bit 8 u AND 0xff), ucast (u AND 0xff)]"

definition UInt32SetLE :: "u32 \<Rightarrow> bytes" where
  "UInt32SetLE u =
     [ucast (u AND 0xff), ucast (drop_bit 8 u AND 0xff), ucast (drop_bit 16 u AND 0xff), ucast (drop_bit 24 u AND 0xff)]"

definition UInt64SetBE :: "u64 \<Rightarrow> bytes" where
  "UInt64SetBE u =
     [ucast (drop_bit 56 u AND 0xff), ucast (drop_bit 48 u AND 0xff), ucast (drop_bit 40 u AND 0xff), ucast (drop_bit 32 u AND 0xff),
      ucast (drop_bit 24 u AND 0xff), ucast (drop_bit 16 u AND 0xff), ucast (drop_bit 8 u AND 0xff), ucast (u AND 0xff)]"

definition UInt64SetLE :: "u64 \<Rightarrow> bytes" where
  "UInt64SetLE u =
     [ucast (u AND 0xff), ucast (drop_bit 8 u AND 0xff), ucast (drop_bit 16 u AND 0xff), ucast (drop_bit 24 u AND 0xff),
      ucast (drop_bit 32 u AND 0xff), ucast (drop_bit 40 u AND 0xff), ucast (drop_bit 48 u AND 0xff), ucast (drop_bit 56 u AND 0xff)]"

definition UInt16GetBE :: "bytes \<Rightarrow> u16" where
  "UInt16GetBE b =
     (push_bit 8 (ucast (b ! 0)) OR ucast (b ! 1))"

definition UInt16GetLE :: "bytes \<Rightarrow> u16" where
  "UInt16GetLE b =
     (push_bit 8 (ucast (b ! 1)) OR ucast (b ! 0))"

definition UInt32GetBE :: "bytes \<Rightarrow> u32" where
  "UInt32GetBE b =
     (push_bit 24 (ucast (b ! 0)) OR push_bit 16 (ucast (b ! 1)) OR push_bit 8 (ucast (b ! 2)) OR ucast (b ! 3))"

definition UInt32GetLE :: "bytes \<Rightarrow> u32" where
  "UInt32GetLE b =
     (push_bit 24 (ucast (b ! 3)) OR push_bit 16 (ucast (b ! 2)) OR push_bit 8 (ucast (b ! 1)) OR ucast (b ! 0))"

definition UInt64GetBE :: "bytes \<Rightarrow> u64" where
  "UInt64GetBE b =
     (push_bit 56 (ucast (b ! 0)) OR push_bit 48 (ucast (b ! 1)) OR push_bit 40 (ucast (b ! 2)) OR push_bit 32 (ucast (b ! 3))
      OR push_bit 24 (ucast (b ! 4)) OR push_bit 16 (ucast (b ! 5)) OR push_bit 8 (ucast (b ! 6)) OR ucast (b ! 7))"

definition UInt64GetLE :: "bytes \<Rightarrow> u64" where
  "UInt64GetLE b =
     (push_bit 56 (ucast (b ! 7)) OR push_bit 48 (ucast (b ! 6)) OR push_bit 40 (ucast (b ! 5)) OR push_bit 32 (ucast (b ! 4))
      OR push_bit 24 (ucast (b ! 3)) OR push_bit 16 (ucast (b ! 2)) OR push_bit 8 (ucast (b ! 1)) OR ucast (b ! 0))"

lemma bit_UInt16GetLE: "bit (UInt16GetLE b) n \<longleftrightarrow> n < 16 \<and> bit (b ! (n div 8)) (n mod 8)"
proof (cases "n < 16")
  case True
  define q m where "q = n div 8" and "m = n mod 8"
  then have n: "n = 8 * q + m" and m: "m < 8" and q: "q < 2" using True by auto
  have qm: "(8 * q + m) div 8 = q" "(8 * q + m) mod 8 = m" using m by simp_all
  from q consider "q = 0" | "q = 1" by linarith
  then show ?thesis
    unfolding n qm using m by cases (simp_all add: UInt16GetLE_def bit_simps bit_u8_high)
next
  case False
  then show ?thesis using bit_imp_le_length [of "UInt16GetLE b" n] by auto
qed

lemma bit_UInt16SetLE: "i < 2 \<Longrightarrow> bit (UInt16SetLE u ! i) n \<longleftrightarrow> n < 8 \<and> bit u (8 * i + n)"
proof -
  assume "i < 2"
  then consider "i = 0" | "i = 1" by linarith
  then show ?thesis by cases (auto simp: UInt16SetLE_def bit_simps and_ff add.commute)
qed

lemma length_UInt16SetLE [simp, codec_length]: "length (UInt16SetLE u) = 2"
  by (simp add: UInt16SetLE_def)

lemma UInt16GetLE_SetLE [simp, codec]: "UInt16GetLE (UInt16SetLE u @ r) = u"
  by (rule bit_word_eqI) (simp add: bit_UInt16GetLE nth_append bit_UInt16SetLE less_mult_imp_div_less)

lemma UInt16SetLE_GetLE [codec]: "length b = 2 \<Longrightarrow> UInt16SetLE (UInt16GetLE b) = b"
  by (rule nth_equalityI)
     (auto intro!: bit_word_eqI simp: bit_UInt16GetLE bit_UInt16SetLE dest: bit_imp_le_length)

lemma bit_UInt16GetBE: "bit (UInt16GetBE b) n \<longleftrightarrow> n < 16 \<and> bit (b ! (1 - n div 8)) (n mod 8)"
proof (cases "n < 16")
  case True
  define q m where "q = n div 8" and "m = n mod 8"
  then have n: "n = 8 * q + m" and m: "m < 8" and q: "q < 2" using True by auto
  have qm: "(8 * q + m) div 8 = q" "(8 * q + m) mod 8 = m" using m by simp_all
  from q consider "q = 0" | "q = 1" by linarith
  then show ?thesis
    unfolding n qm using m by cases (simp_all add: UInt16GetBE_def bit_simps bit_u8_high)
next
  case False
  then show ?thesis using bit_imp_le_length [of "UInt16GetBE b" n] by auto
qed

lemma bit_UInt16SetBE: "i < 2 \<Longrightarrow> bit (UInt16SetBE u ! i) n \<longleftrightarrow> n < 8 \<and> bit u (8 * (1 - i) + n)"
proof -
  assume "i < 2"
  then consider "i = 0" | "i = 1" by linarith
  then show ?thesis by cases (auto simp: UInt16SetBE_def bit_simps and_ff add.commute)
qed

lemma length_UInt16SetBE [simp, codec_length]: "length (UInt16SetBE u) = 2"
  by (simp add: UInt16SetBE_def)

lemma UInt16GetBE_SetBE [simp, codec]: "UInt16GetBE (UInt16SetBE u @ r) = u"
proof (rule bit_word_eqI)
  fix n assume "n < LENGTH(16)"
  then have "1 - n div 8 < 2" "1 - (1 - n div 8) = n div 8" "n < 16" by auto
  then show "bit (UInt16GetBE (UInt16SetBE u @ r)) n = bit u n"
    by (simp only: bit_UInt16GetBE nth_append bit_UInt16SetBE length_UInt16SetBE if_True) simp
qed

lemma UInt16SetBE_GetBE [codec]: "length b = 2 \<Longrightarrow> UInt16SetBE (UInt16GetBE b) = b"
  by (rule nth_equalityI)
     (auto intro!: bit_word_eqI simp: bit_UInt16GetBE bit_UInt16SetBE dest: bit_imp_le_length)

lemma bit_UInt32GetLE: "bit (UInt32GetLE b) n \<longleftrightarrow> n < 32 \<and> bit (b ! (n div 8)) (n mod 8)"
proof (cases "n < 32")
  case True
  define q m where "q = n div 8" and "m = n mod 8"
  then have n: "n = 8 * q + m" and m: "m < 8" and q: "q < 4" using True by auto
  have qm: "(8 * q + m) div 8 = q" "(8 * q + m) mod 8 = m" using m by simp_all
  from q consider "q = 0" | "q = 1" | "q = 2" | "q = 3" by linarith
  then show ?thesis
    unfolding n qm using m by cases (simp_all add: UInt32GetLE_def bit_simps bit_u8_high)
next
  case False
  then show ?thesis using bit_imp_le_length [of "UInt32GetLE b" n] by auto
qed

lemma bit_UInt32SetLE: "i < 4 \<Longrightarrow> bit (UInt32SetLE u ! i) n \<longleftrightarrow> n < 8 \<and> bit u (8 * i + n)"
proof -
  assume "i < 4"
  then consider "i = 0" | "i = 1" | "i = 2" | "i = 3" by linarith
  then show ?thesis by cases (auto simp: UInt32SetLE_def bit_simps and_ff add.commute)
qed

lemma length_UInt32SetLE [simp, codec_length]: "length (UInt32SetLE u) = 4"
  by (simp add: UInt32SetLE_def)

lemma UInt32GetLE_SetLE [simp, codec]: "UInt32GetLE (UInt32SetLE u @ r) = u"
  by (rule bit_word_eqI) (simp add: bit_UInt32GetLE nth_append bit_UInt32SetLE less_mult_imp_div_less)

lemma UInt32SetLE_GetLE [codec]: "length b = 4 \<Longrightarrow> UInt32SetLE (UInt32GetLE b) = b"
  by (rule nth_equalityI)
     (auto intro!: bit_word_eqI simp: bit_UInt32GetLE bit_UInt32SetLE dest: bit_imp_le_length)

lemma bit_UInt32GetBE: "bit (UInt32GetBE b) n \<longleftrightarrow> n < 32 \<and> bit (b ! (3 - n div 8)) (n mod 8)"
proof (cases "n < 32")
  case True
  define q m where "q = n div 8" and "m = n mod 8"
  then have n: "n = 8 * q + m" and m: "m < 8" and q: "q < 4" using True by auto
  have qm: "(8 * q + m) div 8 = q" "(8 * q + m) mod 8 = m" using m by simp_all
  from q consider "q = 0" | "q = 1" | "q = 2" | "q = 3" by linarith
  then show ?thesis
    unfolding n qm using m by cases (simp_all add: UInt32GetBE_def bit_simps bit_u8_high)
next
  case False
  then show ?thesis using bit_imp_le_length [of "UInt32GetBE b" n] by auto
qed

lemma bit_UInt32SetBE: "i < 4 \<Longrightarrow> bit (UInt32SetBE u ! i) n \<longleftrightarrow> n < 8 \<and> bit u (8 * (3 - i) + n)"
proof -
  assume "i < 4"
  then consider "i = 0" | "i = 1" | "i = 2" | "i = 3" by linarith
  then show ?thesis by cases (auto simp: UInt32SetBE_def bit_simps and_ff add.commute)
qed

lemma length_UInt32SetBE [simp, codec_length]: "length (UInt32SetBE u) = 4"
  by (simp add: UInt32SetBE_def)

lemma UInt32GetBE_SetBE [simp, codec]: "UInt32GetBE (UInt32SetBE u @ r) = u"
proof (rule bit_word_eqI)
  fix n assume "n < LENGTH(32)"
  then have "3 - n div 8 < 4" "3 - (3 - n div 8) = n div 8" "n < 32" by auto
  then show "bit (UInt32GetBE (UInt32SetBE u @ r)) n = bit u n"
    by (simp only: bit_UInt32GetBE nth_append bit_UInt32SetBE length_UInt32SetBE if_True) simp
qed

lemma UInt32SetBE_GetBE [codec]: "length b = 4 \<Longrightarrow> UInt32SetBE (UInt32GetBE b) = b"
  by (rule nth_equalityI)
     (auto intro!: bit_word_eqI simp: bit_UInt32GetBE bit_UInt32SetBE dest: bit_imp_le_length)

lemma bit_UInt64GetLE: "bit (UInt64GetLE b) n \<longleftrightarrow> n < 64 \<and> bit (b ! (n div 8)) (n mod 8)"
proof (cases "n < 64")
  case True
  define q m where "q = n div 8" and "m = n mod 8"
  then have n: "n = 8 * q + m" and m: "m < 8" and q: "q < 8" using True by auto
  have qm: "(8 * q + m) div 8 = q" "(8 * q + m) mod 8 = m" using m by simp_all
  from q consider "q = 0" | "q = 1" | "q = 2" | "q = 3" | "q = 4" | "q = 5" | "q = 6" | "q = 7" by linarith
  then show ?thesis
    unfolding n qm using m by cases (simp_all add: UInt64GetLE_def bit_simps bit_u8_high)
next
  case False
  then show ?thesis using bit_imp_le_length [of "UInt64GetLE b" n] by auto
qed

lemma bit_UInt64SetLE: "i < 8 \<Longrightarrow> bit (UInt64SetLE u ! i) n \<longleftrightarrow> n < 8 \<and> bit u (8 * i + n)"
proof -
  assume "i < 8"
  then consider "i = 0" | "i = 1" | "i = 2" | "i = 3" | "i = 4" | "i = 5" | "i = 6" | "i = 7" by linarith
  then show ?thesis by cases (auto simp: UInt64SetLE_def bit_simps and_ff add.commute)
qed

lemma length_UInt64SetLE [simp, codec_length]: "length (UInt64SetLE u) = 8"
  by (simp add: UInt64SetLE_def)

lemma UInt64GetLE_SetLE [simp, codec]: "UInt64GetLE (UInt64SetLE u @ r) = u"
  by (rule bit_word_eqI) (simp add: bit_UInt64GetLE nth_append bit_UInt64SetLE less_mult_imp_div_less)

lemma UInt64SetLE_GetLE [codec]: "length b = 8 \<Longrightarrow> UInt64SetLE (UInt64GetLE b) = b"
  by (rule nth_equalityI)
     (auto intro!: bit_word_eqI simp: bit_UInt64GetLE bit_UInt64SetLE dest: bit_imp_le_length)

lemma bit_UInt64GetBE: "bit (UInt64GetBE b) n \<longleftrightarrow> n < 64 \<and> bit (b ! (7 - n div 8)) (n mod 8)"
proof (cases "n < 64")
  case True
  define q m where "q = n div 8" and "m = n mod 8"
  then have n: "n = 8 * q + m" and m: "m < 8" and q: "q < 8" using True by auto
  have qm: "(8 * q + m) div 8 = q" "(8 * q + m) mod 8 = m" using m by simp_all
  from q consider "q = 0" | "q = 1" | "q = 2" | "q = 3" | "q = 4" | "q = 5" | "q = 6" | "q = 7" by linarith
  then show ?thesis
    unfolding n qm using m by cases (simp_all add: UInt64GetBE_def bit_simps bit_u8_high)
next
  case False
  then show ?thesis using bit_imp_le_length [of "UInt64GetBE b" n] by auto
qed

lemma bit_UInt64SetBE: "i < 8 \<Longrightarrow> bit (UInt64SetBE u ! i) n \<longleftrightarrow> n < 8 \<and> bit u (8 * (7 - i) + n)"
proof -
  assume "i < 8"
  then consider "i = 0" | "i = 1" | "i = 2" | "i = 3" | "i = 4" | "i = 5" | "i = 6" | "i = 7" by linarith
  then show ?thesis by cases (auto simp: UInt64SetBE_def bit_simps and_ff add.commute)
qed

lemma length_UInt64SetBE [simp, codec_length]: "length (UInt64SetBE u) = 8"
  by (simp add: UInt64SetBE_def)

lemma UInt64GetBE_SetBE [simp, codec]: "UInt64GetBE (UInt64SetBE u @ r) = u"
proof (rule bit_word_eqI)
  fix n assume "n < LENGTH(64)"
  then have "7 - n div 8 < 8" "7 - (7 - n div 8) = n div 8" "n < 64" by auto
  then show "bit (UInt64GetBE (UInt64SetBE u @ r)) n = bit u n"
    by (simp only: bit_UInt64GetBE nth_append bit_UInt64SetBE length_UInt64SetBE if_True) simp
qed

lemma UInt64SetBE_GetBE [codec]: "length b = 8 \<Longrightarrow> UInt64SetBE (UInt64GetBE b) = b"
  by (rule nth_equalityI)
     (auto intro!: bit_word_eqI simp: bit_UInt64GetBE bit_UInt64SetBE dest: bit_imp_le_length)

section \<open>UInt160 and UInt256\<close>

definition UInt160Get :: "bytes \<Rightarrow> bytes" where
  "UInt160Get b = take 20 b"

definition UInt256Get :: "bytes \<Rightarrow> bytes" where
  "UInt256Get b = take 32 b"

definition UINT256_ZERO :: bytes where
  "UINT256_ZERO = replicate 32 0"

definition UInt160Eq :: "bytes \<Rightarrow> bytes \<Rightarrow> bool" where
  "UInt160Eq a b \<longleftrightarrow>
     UInt32GetLE a = UInt32GetLE b \<and> UInt32GetLE (drop 4 a) = UInt32GetLE (drop 4 b) \<and>
     UInt32GetLE (drop 8 a) = UInt32GetLE (drop 8 b) \<and> UInt32GetLE (drop 12 a) = UInt32GetLE (drop 12 b) \<and>
     UInt32GetLE (drop 16 a) = UInt32GetLE (drop 16 b)"

definition UInt256Eq :: "bytes \<Rightarrow> bytes \<Rightarrow> bool" where
  "UInt256Eq a b \<longleftrightarrow>
     UInt64GetLE a = UInt64GetLE b \<and> UInt64GetLE (drop 8 a) = UInt64GetLE (drop 8 b) \<and>
     UInt64GetLE (drop 16 a) = UInt64GetLE (drop 16 b) \<and> UInt64GetLE (drop 24 a) = UInt64GetLE (drop 24 b)"

definition UInt256IsZero :: "bytes \<Rightarrow> bool" where
  "UInt256IsZero u \<longleftrightarrow>
     (UInt64GetLE u OR UInt64GetLE (drop 8 u) OR UInt64GetLE (drop 16 u) OR UInt64GetLE (drop 24 u)) = 0"

definition UInt256Reverse :: "bytes \<Rightarrow> bytes" where
  "UInt256Reverse u = map (\<lambda>i. u ! (31 - i)) [0..<32]"

text \<open>A getter depends on the bytes it covers, and determines them.\<close>

lemma UInt32GetLE_take: "UInt32GetLE (take 4 b) = UInt32GetLE b"
  by (simp add: UInt32GetLE_def)

lemma UInt64GetLE_take: "UInt64GetLE (take 8 b) = UInt64GetLE b"
  by (simp add: UInt64GetLE_def)

lemma UInt32GetLE_eq_iff:
  "4 \<le> length a \<Longrightarrow> 4 \<le> length b \<Longrightarrow> UInt32GetLE a = UInt32GetLE b \<longleftrightarrow> take 4 a = take 4 b"
  by (metis UInt32GetLE_take UInt32SetLE_GetLE length_take min_absorb2)

lemma UInt64GetLE_eq_iff:
  "8 \<le> length a \<Longrightarrow> 8 \<le> length b \<Longrightarrow> UInt64GetLE a = UInt64GetLE b \<longleftrightarrow> take 8 a = take 8 b"
  by (metis UInt64GetLE_take UInt64SetLE_GetLE length_take min_absorb2)

lemma take_add_eq_iff:
  "take (m + n) a = take (m + n) b \<longleftrightarrow> take m a = take m b \<and> take n (drop m a) = take n (drop m b)"
  if "m \<le> length a" "m \<le> length b"
  using that by (simp add: take_add)

lemma UInt160Eq_iff:
  assumes "length a = 20" "length b = 20"
  shows "UInt160Eq a b \<longleftrightarrow> a = b"
proof -
  have "a = b \<longleftrightarrow> take (4 + (4 + (4 + (4 + 4)))) a = take (4 + (4 + (4 + (4 + 4)))) b"
    using assms by simp
  also have "\<dots> \<longleftrightarrow> UInt160Eq a b"
    using assms by (simp only: take_add_eq_iff length_drop drop_drop) (simp add: UInt160Eq_def UInt32GetLE_eq_iff)
  finally show ?thesis by simp
qed

lemma UInt256Eq_iff:
  assumes "length a = 32" "length b = 32"
  shows "UInt256Eq a b \<longleftrightarrow> a = b"
proof -
  have "a = b \<longleftrightarrow> take (8 + (8 + (8 + 8))) a = take (8 + (8 + (8 + 8))) b"
    using assms by simp
  also have "\<dots> \<longleftrightarrow> UInt256Eq a b"
    using assms by (simp only: take_add_eq_iff length_drop drop_drop) (simp add: UInt256Eq_def UInt64GetLE_eq_iff)
  finally show ?thesis by simp
qed

lemma UInt256Reverse_rev: "length u = 32 \<Longrightarrow> UInt256Reverse u = rev u"
  by (rule nth_equalityI) (simp_all add: UInt256Reverse_def rev_nth)

end
