(* ===== verification/VarInt.thy ===== *)
theory VarInt
  imports BRInt
begin

text \<open>
  The variable length integers of \<open>support/BRAddress.c\<close>: \<open>BRVarInt\<close> reads one,
  \<open>BRVarIntSet\<close> writes one, \<open>BRVarIntSize\<close> is the size query. \<open>var_int_bytes\<close> is the
  specification, the bytes of the encoding.
\<close>

section \<open>The operations\<close>

definition VAR_INT16_HEADER :: u8 where "VAR_INT16_HEADER = 0xfd"
definition VAR_INT32_HEADER :: u8 where "VAR_INT32_HEADER = 0xfe"
definition VAR_INT64_HEADER :: u8 where "VAR_INT64_HEADER = 0xff"

lemmas var_int_headers = VAR_INT16_HEADER_def VAR_INT32_HEADER_def VAR_INT64_HEADER_def

text \<open>The result is the value and the length stored in \<open>intLen\<close>.\<close>

definition BRVarInt :: "bytes \<Rightarrow> u64 \<times> nat" where
  "BRVarInt buf =
     (let h = (if 1 \<le> length buf then buf ! 0 else 0)
      in if h = VAR_INT16_HEADER then (if 1 + 2 \<le> length buf then ucast (UInt16GetLE (drop 1 buf)) else 0, 1 + 2)
         else if h = VAR_INT32_HEADER then (if 1 + 4 \<le> length buf then ucast (UInt32GetLE (drop 1 buf)) else 0, 1 + 4)
         else if h = VAR_INT64_HEADER then (if 1 + 8 \<le> length buf then UInt64GetLE (drop 1 buf) else 0, 1 + 8)
         else (ucast h, 1))"

definition BRVarIntSet :: "bytes option \<Rightarrow> u64 \<Rightarrow> bytes option \<times> nat" where
  "BRVarIntSet buf i =
     (if i < ucast VAR_INT16_HEADER then
        (poke buf 0 [ucast i], if room buf 1 then 1 else 0)
      else if i \<le> 0xffff then
        (poke buf 0 (VAR_INT16_HEADER # UInt16SetLE (ucast i)), if room buf (1 + 2) then 1 + 2 else 0)
      else if i \<le> 0xffffffff then
        (poke buf 0 (VAR_INT32_HEADER # UInt32SetLE (ucast i)), if room buf (1 + 4) then 1 + 4 else 0)
      else
        (poke buf 0 (VAR_INT64_HEADER # UInt64SetLE i), if room buf (1 + 8) then 1 + 8 else 0))"

definition BRVarIntSize :: "u64 \<Rightarrow> nat" where
  "BRVarIntSize i = snd (BRVarIntSet None i)"

section \<open>Correctness\<close>

definition var_int_bytes :: "u64 \<Rightarrow> bytes" where
  "var_int_bytes i =
     (if i < 0xfd then [ucast i]
      else if i \<le> 0xffff then 0xfd # UInt16SetLE (ucast i)
      else if i \<le> 0xffffffff then 0xfe # UInt32SetLE (ucast i)
      else 0xff # UInt64SetLE i)"

lemma BRVarIntSet_eq:
  "BRVarIntSet buf i =
     (poke buf 0 (var_int_bytes i), if room buf (length (var_int_bytes i)) then length (var_int_bytes i) else 0)"
  by (simp add: BRVarIntSet_def var_int_bytes_def var_int_headers numeral_3_eq_3)

interpretation var_int: buffer_writer "\<lambda>buf. BRVarIntSet buf i" "var_int_bytes i" for i
  unfolding BRVarIntSet_eq by (rule poke_writer)

lemma BRVarIntSize_eq [codec_length]: "BRVarIntSize i = length (var_int_bytes i)"
  by (simp add: BRVarIntSize_def var_int.query)

lemma var_int_bytes_length:
  "length (var_int_bytes i) = (if i < 0xfd then 1 else if i \<le> 0xffff then 3 else if i \<le> 0xffffffff then 5 else 9)"
  by (simp add: var_int_bytes_def)

lemma var_int_bytes_not_Nil [simp]: "var_int_bytes i \<noteq> []"
  by (simp add: var_int_bytes_def)

lemma var_int_bytes_length_le: "length (var_int_bytes i) \<le> 9"
  by (simp add: var_int_bytes_length)

text \<open>The reader inverts the writer, whatever follows the encoding.\<close>

lemma BRVarInt_var_int_bytes [codec]: "BRVarInt (var_int_bytes i @ rest) = (i, length (var_int_bytes i))"
proof -
  consider "i < 0xfd" | "0xfd \<le> i" "i \<le> 0xffff" | "0xffff < i" "i \<le> 0xffffffff" | "0xffffffff < i"
    by (meson not_le)
  then show ?thesis
  proof cases
    case 1
    then have "unat i < 0xfd" by (simp add: word_less_nat_alt)
    then have "ucast (ucast i :: u8) = i" by (intro ucast_ucast_small) simp
    have "unat (ucast i :: u8) < 0xfd"
      using \<open>unat i < 0xfd\<close> by (simp add: unsigned_ucast_eq take_bit_nat_eq_self)
    then have "(ucast i :: u8) < 0xfd" by (simp add: word_less_nat_alt)
    then have "(ucast i :: u8) \<noteq> 0xfd" "(ucast i :: u8) \<noteq> 0xfe" "(ucast i :: u8) \<noteq> 0xff" by auto
    with 1 \<open>ucast (ucast i :: u8) = i\<close> show ?thesis
      by (simp add: BRVarInt_def var_int_bytes_def var_int_headers)
  next
    case 2
    then have "unat i < 2 ^ 16" by (simp add: word_le_nat_alt)
    then have "ucast (ucast i :: u16) = i" by (intro ucast_ucast_small) simp
    moreover have "\<not> i < 253" using 2 by (simp_all add: word_less_nat_alt word_le_nat_alt)
    ultimately show ?thesis using 2 by (simp add: BRVarInt_def var_int_bytes_def var_int_headers)
  next
    case 3
    then have "unat i < 2 ^ 32" by (simp add: word_le_nat_alt)
    then have "ucast (ucast i :: u32) = i" by (intro ucast_ucast_small) simp
    moreover have "\<not> i < 253" "\<not> i \<le> 65535" using 3 by (simp_all add: word_less_nat_alt word_le_nat_alt)
    ultimately show ?thesis using 3 by (simp add: BRVarInt_def var_int_bytes_def var_int_headers)
  next
    case 4
    then have "\<not> i < 253" "\<not> i \<le> 65535" "\<not> i \<le> 4294967295"
      by (simp_all add: word_less_nat_alt word_le_nat_alt)
    then show ?thesis by (simp add: BRVarInt_def var_int_bytes_def var_int_headers)
  qed
qed

text \<open>An encoding is at most as long as the value, or one byte.\<close>

lemma var_int_bytes_length_unat: "0xfd \<le> i \<Longrightarrow> length (var_int_bytes i) \<le> unat i"
  by (simp add: var_int_bytes_length word_le_nat_alt)

lemma var_int_bytes_inj: "var_int_bytes i @ r = var_int_bytes j @ r' \<Longrightarrow> i = j \<and> r = r'"
  by (metis BRVarInt_var_int_bytes fst_conv same_append_eq)

section \<open>Properties\<close>

text \<open>a varint written by \<open>BRVarIntSet\<close> into a buffer with enough room (the size
  \<open>BRVarIntSize\<close> reports) reads back with \<open>BRVarInt\<close> as the same 64 bit value and the same
  length, and the rest of the buffer is untouched.\<close>

theorem var_int_round_trip:
  assumes "BRVarIntSize i \<le> length m"
  shows "\<exists>b. BRVarIntSet (Some m) i = (Some b, BRVarIntSize i) \<and> BRVarInt b = (i, BRVarIntSize i) \<and>
    drop (BRVarIntSize i) b = drop (BRVarIntSize i) m"
  using assms by (simp add: var_int.fill BRVarIntSize_eq codec)

theorem var_int_round_trip_witness:
  "\<exists>b. BRVarIntSet (Some (replicate 6 1)) 0x12345 = (Some b, BRVarIntSize 0x12345) \<and>
    BRVarInt b = (0x12345, BRVarIntSize 0x12345) \<and>
    drop (BRVarIntSize 0x12345) b = drop (BRVarIntSize 0x12345) (replicate 6 1)"
  by (rule var_int_round_trip) (simp add: BRVarIntSize_def BRVarIntSet_def var_int_headers)

end
