(* ===== verification/Script.thy ===== *)
theory Script
  imports VarInt
begin

text \<open>
  Bitcoin scripts (\<open>support/BRAddress.c\<close>): splitting a script into its elements, reading and
  writing data pushes, and recognising the standard output scripts. The C code passes pointers
  into the script; here an element pointer is its offset, and a data pointer is the part of the
  script that starts there.
\<close>

section \<open>Opcodes\<close>

definition OP_0 :: u8 where "OP_0 = 0x00"
definition OP_PUSHDATA1 :: u8 where "OP_PUSHDATA1 = 0x4c"
definition OP_PUSHDATA2 :: u8 where "OP_PUSHDATA2 = 0x4d"
definition OP_PUSHDATA4 :: u8 where "OP_PUSHDATA4 = 0x4e"
definition OP_1 :: u8 where "OP_1 = 0x51"
definition OP_16 :: u8 where "OP_16 = 0x60"
definition OP_DUP :: u8 where "OP_DUP = 0x76"
definition OP_EQUAL :: u8 where "OP_EQUAL = 0x87"
definition OP_EQUALVERIFY :: u8 where "OP_EQUALVERIFY = 0x88"
definition OP_HASH160 :: u8 where "OP_HASH160 = 0xa9"
definition OP_CHECKSIG :: u8 where "OP_CHECKSIG = 0xac"

lemmas opcodes = OP_0_def OP_PUSHDATA1_def OP_PUSHDATA2_def OP_PUSHDATA4_def OP_1_def OP_16_def
  OP_DUP_def OP_EQUAL_def OP_EQUALVERIFY_def OP_HASH160_def OP_CHECKSIG_def

definition MAX_SCRIPT_LENGTH :: nat where "MAX_SCRIPT_LENGTH = 520"

section \<open>Splitting a script\<close>

text \<open>
  One round of the loop of \<open>BRScriptElements\<close>, up to \<open>off += len\<close>. The variable \<open>len\<close> keeps its
  old value when the length bytes of a push are cut off by the end of the script.
\<close>

definition script_advance :: "bytes \<Rightarrow> nat \<Rightarrow> nat \<Rightarrow> nat \<times> nat" where
  "script_advance script off len =
     (if script ! off = OP_PUSHDATA1 then
        let off = off + 1;
            len = (if off + 1 \<le> length script then unat (script ! off) else len)
        in (off + 1, len)
      else if script ! off = OP_PUSHDATA2 then
        let off = off + 1;
            len = (if off + 2 \<le> length script then unat (UInt16GetLE (drop off script)) else len)
        in (off + 2, len)
      else if script ! off = OP_PUSHDATA4 then
        let off = off + 1;
            len = (if off + 4 \<le> length script then unat (UInt32GetLE (drop off script)) else len)
        in (off + 4, len)
      else (off + 1, if script ! off > OP_PUSHDATA4 then 0 else unat (script ! off)))"

lemma script_advance_grows: "off < fst (script_advance script off len)"
  by (simp add: script_advance_def Let_def)

function script_loop :: "bytes \<Rightarrow> nat \<Rightarrow> nat \<Rightarrow> nat list \<Rightarrow> nat \<times> nat list" where
  "script_loop script off len elems =
     (if off < length script then
        case script_advance script off len of (off', len') \<Rightarrow>
          script_loop script (off' + len') len' (elems @ [off])
      else (off, elems))"
  by pat_completeness auto
termination
proof (relation "measure (\<lambda>(script, off, len, elems). length script - off)")
  fix script :: bytes and off len off' len' and elems :: "nat list"
  assume "off < length script" "(off', len') = script_advance script off len"
  then show "((script, off' + len', len', elems @ [off]), script, off, len, elems)
      \<in> measure (\<lambda>(script, off, len, elems). length script - off)"
    using script_advance_grows [of off script len] by (auto simp: prod_eq_iff)
qed simp

declare script_loop.simps [simp del]

text \<open>
  \<open>elemsCount\<close> is \<open>None\<close> when \<open>elems\<close> is \<open>NULL\<close>; the result is the array written and the count
  returned.
\<close>

definition BRScriptElements :: "nat option \<Rightarrow> bytes \<Rightarrow> nat list \<times> nat" where
  "BRScriptElements elemsCount script =
     (case script_loop script 0 0 [] of (off, elems) \<Rightarrow>
        (case elemsCount of None \<Rightarrow> [] | Some n \<Rightarrow> take n elems,
         if (case elemsCount of None \<Rightarrow> True | Some n \<Rightarrow> length elems \<le> n) \<and> off = length script
         then length elems else 0))"

text \<open>
  The pattern of every client: a size query for the array, then the call that fills it. Its
  result is the array and \<open>count\<close>.
\<close>

definition script_elems :: "bytes \<Rightarrow> nat list \<times> nat" where
  "script_elems script = BRScriptElements (Some (snd (BRScriptElements None script))) script"

definition BRScriptData :: "bytes \<Rightarrow> bytes option \<times> nat" where
  "BRScriptData elem =
     (let (elem', dataLen) =
        (if elem ! 0 = OP_PUSHDATA1 then (drop (1 + 1) elem, unat (elem ! 1))
         else if elem ! 0 = OP_PUSHDATA2 then (drop (1 + 2) elem, unat (UInt16GetLE (drop 1 elem)))
         else if elem ! 0 = OP_PUSHDATA4 then (drop (1 + 4) elem, unat (UInt32GetLE (drop 1 elem)))
         else (drop 1 elem, if elem ! 0 > OP_PUSHDATA4 then 0 else unat (elem ! 0)))
      in (if dataLen > 0 then Some elem' else None, dataLen))"

definition push_header :: "nat \<Rightarrow> bytes" where
  "push_header dataLen =
     (if dataLen < unat OP_PUSHDATA1 then [of_nat dataLen]
      else if dataLen < 0xff then [OP_PUSHDATA1, of_nat dataLen]
      else if dataLen < 0xffff then OP_PUSHDATA2 # UInt16SetLE (of_nat dataLen)
      else OP_PUSHDATA4 # UInt32SetLE (of_nat dataLen))"

definition BRScriptPushData :: "bytes option \<Rightarrow> bytes \<Rightarrow> bytes option \<times> nat" where
  "BRScriptPushData script data =
     (let hdr = push_header (length data); len = length hdr + length data
      in (poke script 0 (hdr @ data), if room script len then len else 0))"

section \<open>Recognising standard scripts\<close>

text \<open>\<open>*elems[i]\<close>\<close>

definition elem_op :: "bytes \<Rightarrow> nat list \<Rightarrow> nat \<Rightarrow> u8" where
  "elem_op script elems i = script ! (elems ! i)"

definition is_p2pkh :: "bytes \<Rightarrow> nat list \<Rightarrow> nat \<Rightarrow> bool" where
  "is_p2pkh script elems count \<longleftrightarrow>
     count = 5 \<and> elem_op script elems 0 = OP_DUP \<and> elem_op script elems 1 = OP_HASH160 \<and>
     elem_op script elems 2 = 20 \<and> elem_op script elems 3 = OP_EQUALVERIFY \<and> elem_op script elems 4 = OP_CHECKSIG"

definition is_p2sh :: "bytes \<Rightarrow> nat list \<Rightarrow> nat \<Rightarrow> bool" where
  "is_p2sh script elems count \<longleftrightarrow>
     count = 3 \<and> elem_op script elems 0 = OP_HASH160 \<and> elem_op script elems 1 = 20 \<and> elem_op script elems 2 = OP_EQUAL"

definition is_witness :: "bytes \<Rightarrow> nat list \<Rightarrow> nat \<Rightarrow> bool" where
  "is_witness script elems count \<longleftrightarrow>
     count = 2 \<and>
     ((elem_op script elems 0 = OP_0 \<and> (elem_op script elems 1 = 20 \<or> elem_op script elems 1 = 32)) \<or>
      (elem_op script elems 0 \<ge> OP_1 \<and> elem_op script elems 0 \<le> OP_16 \<and>
       elem_op script elems 1 \<ge> 2 \<and> elem_op script elems 1 \<le> 40))"

definition BRScriptPKH :: "bytes \<Rightarrow> bytes option" where
  "BRScriptPKH script =
     (if script = [] \<or> length script > MAX_SCRIPT_LENGTH then None
      else let (elems, count) = script_elems script in
        if is_p2pkh script elems count then fst (BRScriptData (drop (elems ! 2) script))
        else if is_p2sh script elems count then fst (BRScriptData (drop (elems ! 1) script))
        else if count = 2 \<and> (elem_op script elems 0 = OP_0 \<or>
                (elem_op script elems 0 \<ge> OP_1 \<and> elem_op script elems 0 \<le> OP_16)) \<and>
                elem_op script elems 1 = 20
          then fst (BRScriptData (drop (elems ! 1) script))
        else None)"

definition BRScriptPubKeyIsValid :: "bytes \<Rightarrow> bool" where
  "BRScriptPubKeyIsValid script =
     (if script = [] \<or> length script > MAX_SCRIPT_LENGTH then False
      else let (elems, count) = script_elems script in
        if is_p2pkh script elems count then True
        else if is_p2sh script elems count then True
        else if count = 2 \<and> (elem_op script elems 0 = 65 \<or> elem_op script elems 0 = 33) \<and>
                elem_op script elems 1 = OP_CHECKSIG then True
        else is_witness script elems count)"

section \<open>What a successful split means\<close>

text \<open>
  \<open>chain s off es\<close>: from \<open>off\<close> on, the script is exactly covered by elements that start at the
  offsets \<open>es\<close>, each header and each data push lying inside the script.
\<close>

definition elem_header_end :: "bytes \<Rightarrow> nat \<Rightarrow> nat" where
  "elem_header_end s off = fst (script_advance s off 0)"

definition elem_next :: "bytes \<Rightarrow> nat \<Rightarrow> nat" where
  "elem_next s off = fst (script_advance s off 0) + snd (script_advance s off 0)"

fun chain :: "bytes \<Rightarrow> nat \<Rightarrow> nat list \<Rightarrow> bool" where
  "chain s off [] \<longleftrightarrow> off = length s"
| "chain s off (e # es) \<longleftrightarrow> e = off \<and> off < length s \<and> chain s (elem_next s off) es"

lemma chain_le: "chain s off es \<Longrightarrow> off \<le> length s"
  by (cases es) auto

lemma script_advance_fits:
  "fst (script_advance s off len) \<le> length s \<Longrightarrow> script_advance s off len = script_advance s off 0"
  by (auto simp: script_advance_def Let_def split: if_splits)

lemma script_advance_fst: "fst (script_advance s off len) = fst (script_advance s off 0)"
  by (simp add: script_advance_def Let_def)

lemma script_loop_done: "length s \<le> off \<Longrightarrow> script_loop s off len acc = (off, acc)"
  by (subst script_loop.simps) simp

lemma script_loop_step:
  "off < length s \<Longrightarrow> script_loop s off len acc =
     script_loop s (fst (script_advance s off len) + snd (script_advance s off len))
       (snd (script_advance s off len)) (acc @ [off])"
  by (subst script_loop.simps) (simp split: prod.split)

lemma script_loop_acc:
  "script_loop s off len acc = (fst (script_loop s off len []), acc @ snd (script_loop s off len []))"
proof (induction "length s - off" arbitrary: off len acc rule: less_induct)
  case less
  show ?case
  proof (cases "off < length s")
    case True
    let ?o = "fst (script_advance s off len) + snd (script_advance s off len)"
    let ?l = "snd (script_advance s off len)"
    have "length s - ?o < length s - off"
      using True script_advance_grows [of off s len] by linarith
    then have IH: "script_loop s ?o ?l xs = (fst (script_loop s ?o ?l []), xs @ snd (script_loop s ?o ?l []))" for xs
      by (rule less)
    show ?thesis
      using IH [of "acc @ [off]"] IH [of "[off]"] by (simp add: script_loop_step [OF True])
  qed (simp add: script_loop_done)
qed

lemma script_loop_unfold:
  "off < length s \<Longrightarrow> snd (script_loop s off len []) =
     off # snd (script_loop s (fst (script_advance s off len) + snd (script_advance s off len))
       (snd (script_advance s off len)) [])"
  by (subst script_loop_step, assumption, subst script_loop_acc) simp

lemma script_loop_fst_le:
  "off < length s \<Longrightarrow> fst (script_loop s off len []) =
     fst (script_loop s (fst (script_advance s off len) + snd (script_advance s off len))
       (snd (script_advance s off len)) [])"
  by (subst script_loop_step, assumption, subst script_loop_acc) simp

lemma script_loop_ge: "off \<le> fst (script_loop s off len [])"
proof (induction "length s - off" arbitrary: off len rule: less_induct)
  case less
  show ?case
  proof (cases "off < length s")
    case True
    let ?o = "fst (script_advance s off len) + snd (script_advance s off len)"
    have "off < ?o" using script_advance_grows [of off s len] by linarith
    moreover have "?o \<le> fst (script_loop s ?o (snd (script_advance s off len)) [])"
      using True \<open>off < ?o\<close> by (intro less) linarith
    ultimately show ?thesis by (simp add: script_loop_fst_le [OF True])
  qed (simp add: script_loop_done)
qed

lemma script_loop_chain:
  "script_loop s off len [] = (length s, es) \<longleftrightarrow> chain s off es"
proof (induction es arbitrary: off len)
  case Nil
  show ?case
    by (cases "off < length s") (auto simp: script_loop_done prod_eq_iff script_loop_unfold)
next
  case (Cons e es)
  show ?case
  proof (cases "off < length s")
    case True
    let ?a = "script_advance s off len"
    have *: "script_loop s off len [] = (length s, e # es) \<longleftrightarrow>
        e = off \<and> script_loop s (fst ?a + snd ?a) (snd ?a) [] = (length s, es)"
      using script_loop_unfold [OF True, of len] script_loop_fst_le [OF True, of len]
      unfolding prod_eq_iff fst_conv snd_conv by (simp only: list.inject) blast
    show ?thesis
    proof (cases "fst ?a + snd ?a \<le> length s")
      case le: True
      then have "?a = script_advance s off 0" by (intro script_advance_fits) simp
      then show ?thesis unfolding * Cons.IH using True by (simp add: elem_next_def)
    next
      case gt: False
      have "\<not> elem_next s off \<le> length s"
      proof (cases "fst ?a \<le> length s")
        case True
        then have "?a = script_advance s off 0" by (rule script_advance_fits)
        then have "elem_next s off = fst ?a + snd ?a" by (simp only: elem_next_def)
        with gt show ?thesis by simp
      next
        case False
        then have "\<not> fst (script_advance s off 0) \<le> length s" using script_advance_fst [of s off len] by simp
        then show ?thesis by (simp add: elem_next_def)
      qed
      then show ?thesis unfolding * Cons.IH using True gt by (auto dest: chain_le)
    qed
  qed (auto simp: script_loop_done)
qed

text \<open>The two calls of a client agree: it gets the offsets of a full cover of the script, or 0.\<close>

lemma script_elems_cases:
  obtains (ok) es where "script_elems s = (es, length es)" "chain s 0 es"
    | (bad) "snd (script_elems s) = 0" "\<nexists>es. chain s 0 es"
proof (cases "fst (script_loop s 0 0 []) = length s")
  case True
  then have l: "script_loop s 0 0 [] = (length s, snd (script_loop s 0 0 []))"
    by (simp add: prod_eq_iff)
  then have "chain s 0 (snd (script_loop s 0 0 []))" using script_loop_chain by blast
  moreover have "script_elems s = (snd (script_loop s 0 0 []), length (snd (script_loop s 0 0 [])))"
    using True by (simp add: script_elems_def BRScriptElements_def split_beta)
  ultimately show ?thesis by (rule ok [rotated])
next
  case False
  then have "snd (script_elems s) = 0"
    by (simp add: script_elems_def BRScriptElements_def split_beta)
  moreover have "\<nexists>es. chain s 0 es"
    using False script_loop_chain [of s 0 0] by (metis fst_conv)
  ultimately show ?thesis by (rule bad)
qed

lemma script_elems_chain: "chain s 0 es \<Longrightarrow> script_elems s = (es, length es)"
  using script_loop_chain [of s 0 0 es] by (simp add: script_elems_def BRScriptElements_def)

lemma script_elems_count:
  "script_elems s = (es, c) \<Longrightarrow> 0 < c \<Longrightarrow> c = length es \<and> chain s 0 es"
  by (cases rule: script_elems_cases [of s]) auto

section \<open>Element pointers stay inside the script\<close>

lemma elem_next_plain:
  "script ! off \<noteq> OP_PUSHDATA1 \<Longrightarrow> script ! off \<noteq> OP_PUSHDATA2 \<Longrightarrow> script ! off \<noteq> OP_PUSHDATA4 \<Longrightarrow>
   elem_next script off = off + 1 + (if script ! off > OP_PUSHDATA4 then 0 else unat (script ! off))"
  by (simp add: elem_next_def script_advance_def)

lemma chain_nth:
  "chain s off es \<Longrightarrow> i < length es \<Longrightarrow> es ! i < length s \<and> elem_next s (es ! i) \<le> length s"
proof (induction es arbitrary: off i)
  case (Cons e es)
  then show ?case by (cases i) (auto dest: chain_le)
qed simp

text \<open>
  What \<open>BRScriptData\<close> reads at an element of a cover: the header, and a push that ends at the next
  element.
\<close>

lemma BRScriptData_elem:
  assumes "off < length s" "elem_next s off \<le> length s"
  shows "BRScriptData (drop off s) =
    (if elem_next s off > elem_header_end s off then Some (drop (elem_header_end s off) s) else None,
     elem_next s off - elem_header_end s off)"
proof -
  have h: "elem_header_end s off \<le> length s"
    using assms(2) by (simp add: elem_next_def elem_header_end_def)
  note defs = BRScriptData_def elem_next_def elem_header_end_def script_advance_def Let_def
  consider "s ! off = OP_PUSHDATA1" | "s ! off = OP_PUSHDATA2" | "s ! off = OP_PUSHDATA4"
    | "s ! off \<noteq> OP_PUSHDATA1" "s ! off \<noteq> OP_PUSHDATA2" "s ! off \<noteq> OP_PUSHDATA4" by blast
  then show ?thesis
  proof cases
    case 1
    then show ?thesis using assms h by (simp add: defs)
  next
    case 2
    then show ?thesis using assms h by (simp add: defs opcodes)
  next
    case 3
    then show ?thesis using assms h by (simp add: defs opcodes)
  next
    case 4
    then show ?thesis using assms h by (simp add: defs)
  qed
qed

text \<open>Whatever the bytes of the script, the data of every element that is returned lies inside it.\<close>

lemma script_data_in_bounds:
  assumes "script_elems s = (es, count)" "i < count"
  shows "es ! i < length s \<and>
    (case BRScriptData (drop (es ! i) s) of
       (None, n) \<Rightarrow> n = 0
     | (Some d, n) \<Rightarrow> 0 < n \<and> (\<exists>k > es ! i. d = drop k s \<and> k + n \<le> length s))"
proof -
  from assms have c: "chain s 0 es" "count = length es"
    using script_elems_count [of s es count] by auto
  then have b: "es ! i < length s" "elem_next s (es ! i) \<le> length s"
    using chain_nth [of s 0 es i] assms(2) by auto
  have "es ! i < elem_header_end s (es ! i)"
    by (simp add: elem_header_end_def script_advance_grows)
  then show ?thesis
    using b by (auto simp: BRScriptData_elem)
qed

section \<open>The standard scripts\<close>

definition p2pkh_script :: "bytes \<Rightarrow> bytes" where
  "p2pkh_script h = [OP_DUP, OP_HASH160, 20] @ h @ [OP_EQUALVERIFY, OP_CHECKSIG]"

definition p2sh_script :: "bytes \<Rightarrow> bytes" where
  "p2sh_script h = [OP_HASH160, 20] @ h @ [OP_EQUAL]"

definition witness_script :: "u8 \<Rightarrow> bytes \<Rightarrow> bytes" where
  "witness_script v prog = [v, of_nat (length prog)] @ prog"

definition witness_version :: "u8 \<Rightarrow> bool" where
  "witness_version v \<longleftrightarrow> v = OP_0 \<or> (OP_1 \<le> v \<and> v \<le> OP_16)"

lemmas std_scripts = p2pkh_script_def p2sh_script_def witness_script_def

lemma length_Suc_conv': "length es = Suc n \<longleftrightarrow> (\<exists>e es'. es = e # es' \<and> length es' = n)"
  by (auto simp: length_Suc_conv)

lemma plain_op: "op > OP_PUSHDATA4 \<or> op < OP_PUSHDATA1 \<Longrightarrow>
    op \<noteq> OP_PUSHDATA1 \<and> op \<noteq> OP_PUSHDATA2 \<and> op \<noteq> OP_PUSHDATA4"
  by (rule ccontr) (auto simp: opcodes)

lemma elem_next_op:
  "op > OP_PUSHDATA4 \<Longrightarrow> s ! off = op \<Longrightarrow> elem_next s off = off + 1"
  using plain_op [of op] by (simp add: elem_next_plain)

lemma elem_next_push:
  "op < OP_PUSHDATA1 \<Longrightarrow> s ! off = op \<Longrightarrow> elem_next s off = off + 1 + unat op"
  using plain_op [of op] by (auto simp add: elem_next_plain opcodes word_less_nat_alt)

lemma elem_header_end_op:
  "op < OP_PUSHDATA1 \<or> op > OP_PUSHDATA4 \<Longrightarrow> s ! off = op \<Longrightarrow> elem_header_end s off = off + 1"
  using plain_op [of op] by (auto simp add: elem_header_end_def script_advance_def)

lemma chain_hd: "chain s off (e # es) \<Longrightarrow> e = off"
  by simp

lemma chain_Suc:
  assumes "chain s off es" "j < length es" "j = Suc i"
  shows "es ! j = elem_next s (es ! i)"
  using assms
proof (induction es arbitrary: off i j)
  case (Cons e es)
  then show ?case
  proof (cases i)
    case 0
    with Cons.prems show ?thesis by (cases es) auto
  qed auto
qed simp

lemma chain_last:
  assumes "chain s off es" "length es = Suc i"
  shows "elem_next s (es ! i) = length s"
  using assms
proof (induction es arbitrary: off i)
  case (Cons e es)
  then show ?case by (cases es) auto
qed simp

lemma chain_op:
  assumes "chain s off es" "s ! (es ! i) = op" "op > OP_PUSHDATA4" "j = Suc i" "j < length es"
  shows "es ! j = es ! i + 1"
  using chain_Suc [OF assms(1,5,4)] elem_next_op [OF assms(3,2)] by simp

lemma chain_push:
  assumes "chain s off es" "s ! (es ! i) = op" "op < OP_PUSHDATA1" "j = Suc i" "j < length es"
  shows "es ! j = es ! i + 1 + unat op"
  using chain_Suc [OF assms(1,5,4)] elem_next_push [OF assms(3,2)] by simp

lemma nth_prefix:
  "2 \<le> length s \<Longrightarrow> take 2 s = [s ! 0, s ! 1]"
  "3 \<le> length s \<Longrightarrow> take 3 s = [s ! 0, s ! 1, s ! 2]"
  by (auto simp: numeral_eq_Suc Suc_le_length_iff)

lemma nth_suffix:
  "length s = n + 1 \<Longrightarrow> drop n s = [s ! n]"
  "length s = n + 2 \<Longrightarrow> drop n s = [s ! n, s ! (n + 1)]"
  by (auto simp: Cons_nth_drop_Suc [symmetric])

lemma split_script: "take i s @ take n (drop i s) @ drop (n + i) s = s"
  by (metis append_take_drop_id drop_drop)

lemma chain_unique: "chain s 0 es \<Longrightarrow> chain s 0 es' \<Longrightarrow> es = es'"
  by (metis script_elems_chain prod.inject)

lemma chain_p2pkh: "length h = 20 \<Longrightarrow> chain (p2pkh_script h) 0 [0, 1, 2, 23, 24]"
  by (simp add: elem_next_plain p2pkh_script_def nth_append opcodes)

lemma chain_p2sh: "length h = 20 \<Longrightarrow> chain (p2sh_script h) 0 [0, 1, 22]"
  by (simp add: elem_next_plain p2sh_script_def nth_append opcodes)

lemma witness_version_op: "witness_version v \<Longrightarrow> v = 0 \<or> v > OP_PUSHDATA4"
  by (auto simp: witness_version_def opcodes word_less_nat_alt word_le_nat_alt)

lemma chain_witness:
  assumes "witness_version v" "0 < length prog" "length prog < unat OP_PUSHDATA1"
  shows "chain (witness_script v prog) 0 [0, 1]"
proof -
  have n: "unat (of_nat (length prog) :: u8) = length prog"
    using assms(3) by (simp add: opcodes unsigned_of_nat take_bit_nat_eq_self)
  then have "(of_nat (length prog) :: u8) < OP_PUSHDATA1" using assms(3) by (simp add: word_less_nat_alt)
  then have "elem_next (witness_script v prog) 1 = 2 + length prog"
    by (subst elem_next_push) (auto simp: witness_script_def n)
  moreover have "elem_next (witness_script v prog) 0 = 1"
    using witness_version_op [OF assms(1)] elem_next_op [of v "witness_script v prog" 0]
      elem_next_push [of v "witness_script v prog" 0] by (auto simp: witness_script_def opcodes)
  ultimately show ?thesis using assms(2) by (simp add: witness_script_def)
qed

lemma chain_witness20: "length h = 20 \<Longrightarrow> witness_version v \<Longrightarrow> chain (witness_script v h) 0 [0, 1]"
  by (rule chain_witness) (auto simp: opcodes)

lemma is_p2pkh_iff:
  assumes "chain s 0 es"
  shows "is_p2pkh s es (length es) \<longleftrightarrow> (\<exists>h. length h = 20 \<and> s = p2pkh_script h)"
proof
  assume l: "is_p2pkh s es (length es)"
  then have n: "length es = 5" and ops: "s ! (es ! 0) = OP_DUP" "s ! (es ! 1) = OP_HASH160" "s ! (es ! 2) = 20"
    "s ! (es ! 3) = OP_EQUALVERIFY" "s ! (es ! 4) = OP_CHECKSIG"
    by (auto simp: is_p2pkh_def elem_op_def)
  have e0: "es ! 0 = 0" using assms n by (cases es) auto
  have e1: "es ! Suc 0 = 1" by (subst chain_op [OF assms ops(1), where j = "Suc 0"]) (simp_all add: e0 n opcodes)
  have e2: "es ! 2 = 2" by (subst chain_op [OF assms ops(2), where j = 2]) (simp_all add: e1 n opcodes)
  have e3: "es ! 3 = 23" by (subst chain_push [OF assms ops(3), where j = 3]) (simp_all add: e2 n opcodes)
  have e4: "es ! 4 = 24" by (subst chain_op [OF assms ops(4), where j = 4]) (simp_all add: e3 n opcodes)
  have e5: "length s = 25" using chain_last [OF assms, of 4] n elem_next_op [OF _ ops(5)] by (simp add: e4 opcodes)
  have "p2pkh_script (take 20 (drop 3 s)) = s"
    using split_script [of 3 s 20] e5 nth_prefix(2) [of s] nth_suffix(2) [of s 23] ops
    by (simp add: p2pkh_script_def e0 e1 e2 e3 e4)
  moreover have "length (take 20 (drop 3 s)) = 20" by (simp add: e5)
  ultimately show "\<exists>h. length h = 20 \<and> s = p2pkh_script h" by metis
next
  assume "\<exists>h. length h = 20 \<and> s = p2pkh_script h"
  then obtain h where h: "length h = 20" "s = p2pkh_script h" by blast
  then have "es = [0, 1, 2, 23, 24]" using assms chain_p2pkh chain_unique by metis
  then show "is_p2pkh s es (length es)"
    by (simp add: is_p2pkh_def elem_op_def h(2) p2pkh_script_def h(1) nth_append)
qed

lemma is_p2sh_iff:
  assumes "chain s 0 es"
  shows "is_p2sh s es (length es) \<longleftrightarrow> (\<exists>h. length h = 20 \<and> s = p2sh_script h)"
proof
  assume l: "is_p2sh s es (length es)"
  then have n: "length es = 3" and ops: "s ! (es ! 0) = OP_HASH160" "s ! (es ! 1) = 20" "s ! (es ! 2) = OP_EQUAL"
    by (auto simp: is_p2sh_def elem_op_def)
  have e0: "es ! 0 = 0" using assms n by (cases es) auto
  have e1: "es ! Suc 0 = 1" by (subst chain_op [OF assms ops(1), where j = "Suc 0"]) (simp_all add: e0 n opcodes)
  have e2: "es ! 2 = 22" by (subst chain_push [OF assms ops(2), where j = 2]) (simp_all add: e1 n opcodes)
  have e3: "length s = 23" using chain_last [OF assms, of 2] n elem_next_op [OF _ ops(3)] by (simp add: e2 opcodes)
  have "p2sh_script (take 20 (drop 2 s)) = s"
    using split_script [of 2 s 20] e3 nth_prefix(1) [of s] nth_suffix(1) [of s 22] ops
    by (simp add: p2sh_script_def e0 e1 e2)
  moreover have "length (take 20 (drop 2 s)) = 20" by (simp add: e3)
  ultimately show "\<exists>h. length h = 20 \<and> s = p2sh_script h" by metis
next
  assume "\<exists>h. length h = 20 \<and> s = p2sh_script h"
  then obtain h where h: "length h = 20" "s = p2sh_script h" by blast
  then have "es = [0, 1, 22]" using assms chain_p2sh chain_unique by metis
  then show "is_p2sh s es (length es)"
    by (simp add: is_p2sh_def elem_op_def h(2) p2sh_script_def h(1) nth_append)
qed

text \<open>A version opcode and one short push: the shape of a witness program.\<close>

definition version_push :: "bytes \<Rightarrow> nat list \<Rightarrow> u8 \<Rightarrow> u8 \<Rightarrow> bool" where
  "version_push s es v n \<longleftrightarrow> length es = 2 \<and> s ! (es ! 0) = v \<and> s ! (es ! 1) = n"

lemma version_push_iff:
  assumes "chain s 0 es" "witness_version v" "0 < n" "n < OP_PUSHDATA1"
  shows "version_push s es v n \<longleftrightarrow> (\<exists>prog. length prog = unat n \<and> s = witness_script v prog)"
proof -
  have v: "v = 0 \<or> v > OP_PUSHDATA4" using assms(2) by (rule witness_version_op)
  have v_next: "elem_next s off = off + 1" if "s ! off = v" for off
    using v that elem_next_op [of v s off] elem_next_push [of v s off] by (auto simp: opcodes)
  show ?thesis
  proof
    assume l: "version_push s es v n"
    then have k: "length es = 2" and ops: "s ! (es ! 0) = v" "s ! (es ! 1) = n" by (auto simp: version_push_def)
    have e0: "es ! 0 = 0" using assms(1) k by (cases es) auto
    have "es ! 1 = elem_next s (es ! 0)" by (rule chain_Suc [OF assms(1)]) (simp_all add: k)
    then have e1: "es ! Suc 0 = 1" using v_next [OF ops(1)] by (simp add: e0)
    have e2: "length s = 2 + unat n"
      using chain_last [OF assms(1), of 1] k elem_next_push [OF assms(4) ops(2)] by (simp add: e1)
    have "witness_script v (drop 2 s) = s"
      using append_take_drop_id [of 2 s] nth_prefix(1) [of s] e2 ops by (simp add: witness_script_def e0 e1)
    moreover have "length (drop 2 s) = unat n" by (simp add: e2)
    ultimately show "\<exists>prog. length prog = unat n \<and> s = witness_script v prog" by metis
  next
    assume "\<exists>prog. length prog = unat n \<and> s = witness_script v prog"
    then obtain h where h: "length h = unat n" "s = witness_script v h" by blast
    have s01: "s ! 0 = v" "s ! 1 = n" "length s = 2 + unat n" by (simp_all add: h(2) witness_script_def h(1))
    have "chain s 0 [0, 1]"
      using v_next [OF s01(1)] elem_next_push [OF assms(4) s01(2)] s01 by simp
    then have "es = [0, 1]"
      using assms(1) by (metis script_elems_chain prod.inject)
    then show "version_push s es v n" using s01 by (simp add: version_push_def)
  qed
qed

lemma BRScriptData_push:
  assumes "chain s 0 es" "i < length es" "s ! (es ! i) = op" "0 < op" "op < OP_PUSHDATA1"
  shows "BRScriptData (drop (es ! i) s) = (Some (drop (es ! i + 1) s), unat op)"
proof -
  have "0 < unat op" using assms(4) by (simp add: word_less_nat_alt)
  then show ?thesis
    using chain_nth [OF assms(1,2)] elem_next_push [OF assms(5,3)] elem_header_end_op [OF _ assms(3)] assms(5)
    by (simp add: BRScriptData_elem)
qed

definition standard_pkh :: "bytes \<Rightarrow> bytes \<Rightarrow> bool" where
  "standard_pkh s h \<longleftrightarrow> length h = 20 \<and>
     (s = p2pkh_script h \<or> s = p2sh_script h \<or> (\<exists>v. witness_version v \<and> s = witness_script v h))"

lemma standard_pkh_length: "standard_pkh s h \<Longrightarrow> s \<noteq> [] \<and> length s \<le> MAX_SCRIPT_LENGTH"
  by (auto simp: standard_pkh_def std_scripts MAX_SCRIPT_LENGTH_def)

lemma version_push_20:
  assumes "chain s 0 es"
  shows "(length es = 2 \<and> (elem_op s es 0 = OP_0 \<or> (elem_op s es 0 \<ge> OP_1 \<and> elem_op s es 0 \<le> OP_16)) \<and> elem_op s es 1 = 20)
    \<longleftrightarrow> (\<exists>v h. witness_version v \<and> length h = 20 \<and> s = witness_script v h)"
proof -
  have "version_push s es v 20 \<longleftrightarrow> (\<exists>h. length h = 20 \<and> s = witness_script v h)" if "witness_version v" for v
    using version_push_iff [OF assms that, of 20] by (simp add: opcodes)
  moreover have "(length es = 2 \<and> (elem_op s es 0 = OP_0 \<or> (elem_op s es 0 \<ge> OP_1 \<and> elem_op s es 0 \<le> OP_16)) \<and> elem_op s es 1 = 20)
    \<longleftrightarrow> (\<exists>v. witness_version v \<and> version_push s es v 20)"
    by (auto simp: version_push_def elem_op_def witness_version_def)
  ultimately show ?thesis by metis
qed

lemma drop_std:
  "length h = 20 \<Longrightarrow> take 20 (drop 3 (p2pkh_script h)) = h"
  "length h = 20 \<Longrightarrow> take 20 (drop 2 (p2sh_script h)) = h"
  "length h = 20 \<Longrightarrow> take 20 (drop 2 (witness_script v h)) = h"
  by (simp_all add: std_scripts)

lemma BRScriptPKH_chain:
  assumes c: "chain s 0 es" and len: "s \<noteq> []" "length s \<le> MAX_SCRIPT_LENGTH"
  shows "map_option UInt160Get (BRScriptPKH s) =
    (if \<exists>h. length h = 20 \<and> s = p2pkh_script h then Some (take 20 (drop 3 s))
     else if (\<exists>h. length h = 20 \<and> s = p2sh_script h) \<or>
             (\<exists>v h. witness_version v \<and> length h = 20 \<and> s = witness_script v h) then Some (take 20 (drop 2 s))
     else None)"
proof -
  have e0: "es ! 0 = 0" if "0 < length es" using c that by (cases es) auto
  have e1: "es ! Suc 0 = Suc 0" if "Suc 0 < length es" "elem_next s 0 = Suc 0"
    using chain_Suc [OF c, of "Suc 0" 0] that e0 by (cases es) auto
  have pkh: "fst (BRScriptData (drop (es ! 2) s)) = Some (drop 3 s)" if p: "is_p2pkh s es (length es)"
  proof -
    have ops: "s ! (es ! 0) = OP_DUP" "s ! (es ! 1) = OP_HASH160" "s ! (es ! 2) = 20" and n: "length es = 5"
      using p by (auto simp: is_p2pkh_def elem_op_def)
    have "es ! Suc 0 = 1" by (subst chain_op [OF c ops(1), where j = "Suc 0"]) (simp_all add: e0 n opcodes)
    then have "es ! 2 = 2" by (subst chain_op [OF c ops(2), where j = 2]) (simp_all add: n opcodes)
    with BRScriptData_push [OF c _ ops(3)] n show ?thesis by (simp add: opcodes)
  qed
  have sh: "fst (BRScriptData (drop (es ! 1) s)) = Some (drop 2 s)"
    if p: "elem_op s es 0 > OP_PUSHDATA4 \<or> elem_op s es 0 = 0" "elem_op s es 1 = 20" "2 \<le> length es"
  proof -
    have "es ! 0 = 0" using p(3) by (intro e0) linarith
    then have "s ! 0 = elem_op s es 0" by (simp add: elem_op_def)
    then have "elem_next s 0 = Suc 0"
      using p(1) elem_next_op [of "elem_op s es 0" s 0] elem_next_push [of "elem_op s es 0" s 0]
      by (elim disjE) (simp_all add: OP_PUSHDATA1_def)
    then have "es ! Suc 0 = Suc 0" using p(3) by (intro e1) auto
    with BRScriptData_push [OF c, of 1 20] p show ?thesis
      by (simp add: opcodes elem_op_def flip: numeral_2_eq_2)
  qed
  have "OP_PUSHDATA4 < v" if "OP_1 \<le> v" for v
    using that by (simp add: opcodes word_le_nat_alt word_less_nat_alt)
  then have sh': "fst (BRScriptData (drop (es ! 1) s)) = Some (drop 2 s)"
    if "is_p2sh s es (length es) \<or> length es = 2 \<and> (elem_op s es 0 = OP_0 \<or>
        (elem_op s es 0 \<ge> OP_1 \<and> elem_op s es 0 \<le> OP_16)) \<and> elem_op s es 1 = 20"
    using that by (intro sh) (auto simp: is_p2sh_def OP_0_def, simp add: opcodes)
  show ?thesis
    unfolding is_p2pkh_iff [OF c, symmetric] is_p2sh_iff [OF c, symmetric] version_push_20 [OF c, symmetric]
    using len pkh sh' by (auto simp: BRScriptPKH_def script_elems_chain [OF c] UInt160Get_def)
qed

text \<open>\<open>BRScriptPKH\<close> finds the hash of exactly the three standard forms with a 20 byte hash.\<close>

lemma BRScriptPKH_standard:
  "map_option UInt160Get (BRScriptPKH s) = Some h \<longleftrightarrow> standard_pkh s h"
proof (cases "s \<noteq> [] \<and> length s \<le> MAX_SCRIPT_LENGTH")
  case False
  then show ?thesis using standard_pkh_length [of s h] by (auto simp: BRScriptPKH_def)
next
  case True
  show ?thesis
  proof (cases rule: script_elems_cases [of s])
    case (ok es)
    show ?thesis
      unfolding BRScriptPKH_chain [OF ok(2) True [THEN conjunct1] True [THEN conjunct2]] standard_pkh_def
      by (auto simp: drop_std) (auto simp: std_scripts opcodes)
  next
    case bad
    have "\<not> standard_pkh s h"
      using bad(2) chain_p2pkh chain_p2sh chain_witness20
      unfolding standard_pkh_def by metis
    moreover have "BRScriptPKH s = None"
      using bad(1) by (auto simp: BRScriptPKH_def is_p2pkh_def is_p2sh_def split: prod.splits)
    ultimately show ?thesis by simp
  qed
qed

lemma BRScriptPKH_Some_length: "BRScriptPKH s = Some d \<Longrightarrow> length (UInt160Get d) = 20"
  using BRScriptPKH_standard [of s "UInt160Get d"] by (auto simp: standard_pkh_def)

text \<open>The scripts that count as valid outputs, by their exact bytes.\<close>

definition valid_script_pubkey :: "bytes \<Rightarrow> bool" where
  "valid_script_pubkey s \<longleftrightarrow>
     (\<exists>h. length h = 20 \<and> (s = p2pkh_script h \<or> s = p2sh_script h)) \<or>
     (\<exists>k. length k \<in> {33, 65} \<and> s = of_nat (length k) # k @ [OP_CHECKSIG]) \<or>
     (\<exists>p. length p \<in> {20, 32} \<and> s = witness_script OP_0 p) \<or>
     (\<exists>v p. OP_1 \<le> v \<and> v \<le> OP_16 \<and> 2 \<le> length p \<and> length p \<le> 40 \<and> s = witness_script v p)"

text \<open>pay-to-pubkey: one push and \<open>OP_CHECKSIG\<close>\<close>

lemma chain_p2pk:
  assumes "0 < length k" "length k < unat OP_PUSHDATA1"
  shows "chain (of_nat (length k) # k @ [OP_CHECKSIG]) 0 [0, 1 + length k]"
proof -
  let ?s = "of_nat (length k) # k @ [OP_CHECKSIG]"
  have n: "unat (of_nat (length k) :: u8) = length k"
    using assms(2) by (simp add: opcodes unsigned_of_nat take_bit_nat_eq_self)
  then have "(of_nat (length k) :: u8) < OP_PUSHDATA1" using assms(2) by (simp add: word_less_nat_alt)
  then have "elem_next ?s 0 = 1 + length k" by (subst elem_next_push) (auto simp: n)
  moreover have "elem_next ?s (1 + length k) = 2 + length k"
    by (subst elem_next_op [of OP_CHECKSIG]) (auto simp: opcodes nth_append)
  ultimately show ?thesis by simp
qed

lemma is_p2pk_iff:
  assumes "chain s 0 es" "0 < n" "n < OP_PUSHDATA1"
  shows "(length es = 2 \<and> elem_op s es 0 = n \<and> elem_op s es 1 = OP_CHECKSIG)
    \<longleftrightarrow> (\<exists>k. length k = unat n \<and> s = n # k @ [OP_CHECKSIG])"
proof
  assume l: "length es = 2 \<and> elem_op s es 0 = n \<and> elem_op s es 1 = OP_CHECKSIG"
  then have ops: "s ! (es ! 0) = n" "s ! (es ! 1) = OP_CHECKSIG" and k: "length es = 2" by (auto simp: elem_op_def)
  have e0: "es ! 0 = 0" using assms(1) k by (cases es) auto
  have e1: "es ! Suc 0 = 1 + unat n"
    by (subst chain_push [OF assms(1) ops(1), where j = "Suc 0"]) (use assms in \<open>simp_all add: e0 k\<close>)
  have e2: "length s = 2 + unat n"
    using chain_last [OF assms(1), of 1] k elem_next_op [OF _ ops(2)] e1 by (simp add: opcodes)
  have "n # take (unat n) (drop 1 s) @ [OP_CHECKSIG] = s"
    using append_take_drop_id [of "unat n" "tl s"] nth_suffix(1) [of s "1 + unat n"] e2 ops
    by (cases s) (auto simp: e0 e1, metis append_take_drop_id)
  moreover have "length (take (unat n) (drop 1 s)) = unat n" by (simp add: e2)
  ultimately show "\<exists>k. length k = unat n \<and> s = n # k @ [OP_CHECKSIG]" by metis
next
  assume "\<exists>k. length k = unat n \<and> s = n # k @ [OP_CHECKSIG]"
  then obtain k where k: "length k = unat n" "s = n # k @ [OP_CHECKSIG]" by blast
  have "0 < unat n" "unat n < unat OP_PUSHDATA1" using assms(2,3) by (simp_all add: word_less_nat_alt)
  then have "chain s 0 [0, 1 + length k]"
    using chain_p2pk [of k] by (simp add: k)
  then have "es = [0, 1 + length k]" using assms(1) chain_unique by metis
  then show "length es = 2 \<and> elem_op s es 0 = n \<and> elem_op s es 1 = OP_CHECKSIG"
    by (simp add: elem_op_def k nth_append)
qed

lemma chain_valid:
  assumes "valid_script_pubkey s"
  shows "\<exists>es. chain s 0 es"
proof -
  have "\<exists>es. chain (of_nat (length k) # k @ [OP_CHECKSIG]) 0 es" if "length k \<in> {33, 65}" for k
    using chain_p2pk [of k] that by (intro exI) (rule chain_p2pk, auto simp: opcodes)
  moreover have "\<exists>es. chain (witness_script v p) 0 es"
    if "witness_version v" "length p \<in> {20, 32} \<or> 2 \<le> length p \<and> length p \<le> 40" for v p
    using that by (intro exI) (rule chain_witness, auto simp: opcodes)
  ultimately show ?thesis
    using assms chain_p2pkh chain_p2sh unfolding valid_script_pubkey_def witness_version_def by blast
qed

lemma is_witness_iff:
  assumes c: "chain s 0 es"
  shows "is_witness s es (length es) \<longleftrightarrow>
     (\<exists>p. length p \<in> {20, 32} \<and> s = witness_script OP_0 p) \<or>
     (\<exists>v p. OP_1 \<le> v \<and> v \<le> OP_16 \<and> 2 \<le> length p \<and> length p \<le> 40 \<and> s = witness_script v p)"
proof -
  have split: "is_witness s es (length es) \<longleftrightarrow>
      version_push s es OP_0 20 \<or> version_push s es OP_0 32 \<or>
      (\<exists>v n. OP_1 \<le> v \<and> v \<le> OP_16 \<and> 2 \<le> n \<and> n \<le> 40 \<and> version_push s es v n)"
    by (auto simp: is_witness_def version_push_def elem_op_def)
  have v0: "version_push s es OP_0 20 \<longleftrightarrow> (\<exists>p. length p = 20 \<and> s = witness_script OP_0 p)"
    "version_push s es OP_0 32 \<longleftrightarrow> (\<exists>p. length p = 32 \<and> s = witness_script OP_0 p)"
    using version_push_iff [OF c, of OP_0 20] version_push_iff [OF c, of OP_0 32]
    by (simp_all add: witness_version_def opcodes)
  have vn: "version_push s es v n \<longleftrightarrow> (\<exists>p. length p = unat n \<and> s = witness_script v p)"
    if "OP_1 \<le> v" "v \<le> OP_16" "2 \<le> n" "n \<le> 40" for v n
    using version_push_iff [OF c, of v n] that
    by (simp add: witness_version_def opcodes word_less_nat_alt word_le_nat_alt)
  have n40: "\<exists>n :: u8. 2 \<le> n \<and> n \<le> 40 \<and> unat n = k" if "2 \<le> k" "k \<le> 40" for k
    using that by (intro exI [of _ "of_nat k"]) (simp add: word_le_nat_alt unsigned_of_nat take_bit_nat_eq_self)
  have n40': "2 \<le> unat n \<and> unat n \<le> 40" if "2 \<le> n" "n \<le> 40" for n :: u8
    using that by (simp add: word_le_nat_alt)
  show ?thesis
    unfolding split v0 using vn n40 n40' by (auto, metis+)
qed

lemma BRScriptPubKeyIsValid_iff: "BRScriptPubKeyIsValid s \<longleftrightarrow> valid_script_pubkey s"
proof (cases "s \<noteq> [] \<and> length s \<le> MAX_SCRIPT_LENGTH")
  case False
  then show ?thesis
    by (auto simp: BRScriptPubKeyIsValid_def valid_script_pubkey_def std_scripts MAX_SCRIPT_LENGTH_def)
next
  case True
  show ?thesis
  proof (cases rule: script_elems_cases [of s])
    case (ok es)
    have pk: "(length es = 2 \<and> elem_op s es 0 = 65 \<and> elem_op s es 1 = OP_CHECKSIG) \<or>
        (length es = 2 \<and> elem_op s es 0 = 33 \<and> elem_op s es 1 = OP_CHECKSIG)
      \<longleftrightarrow> (\<exists>k. length k \<in> {33, 65} \<and> s = of_nat (length k) # k @ [OP_CHECKSIG])"
      using is_p2pk_iff [OF ok(2), of 65] is_p2pk_iff [OF ok(2), of 33] by (auto simp: opcodes)
    show ?thesis
      unfolding valid_script_pubkey_def is_witness_iff [OF ok(2), symmetric] pk [symmetric]
      using True is_p2pkh_iff [OF ok(2)] is_p2sh_iff [OF ok(2)]
      by (auto simp: BRScriptPubKeyIsValid_def ok(1))
  next
    case bad
    then have "\<not> BRScriptPubKeyIsValid s"
      by (auto simp: BRScriptPubKeyIsValid_def is_p2pkh_def is_p2sh_def is_witness_def split: prod.splits)
    with bad(2) chain_valid [of s] show ?thesis by blast
  qed
qed

section \<open>Assembled scripts\<close>

text \<open>
  A script is assembled from opcodes and from data pushes written with \<open>BRScriptPushData\<close>
  (the push of no bytes is \<open>OP_0\<close>).
\<close>

datatype script_item = Op u8 | Push bytes

fun item_ok :: "script_item \<Rightarrow> bool" where
  "item_ok (Op op) \<longleftrightarrow> op > OP_PUSHDATA4"
| "item_ok (Push d) \<longleftrightarrow> length d < 2 ^ 32"

fun item_bytes :: "script_item \<Rightarrow> bytes" where
  "item_bytes (Op op) = [op]"
| "item_bytes (Push d) = push_header (length d) @ d"

fun item_data :: "script_item \<Rightarrow> bytes" where
  "item_data (Op op) = []"
| "item_data (Push d) = d"

fun item_offsets :: "nat \<Rightarrow> script_item list \<Rightarrow> nat list" where
  "item_offsets off [] = []"
| "item_offsets off (it # its) = off # item_offsets (off + length (item_bytes it)) its"

lemma item_offsets_length [simp]: "length (item_offsets off its) = length its"
  by (induction its arbitrary: off) auto

lemma item_offsets_nth:
  "i < length its \<Longrightarrow> item_offsets off its ! i = off + length (concat (map item_bytes (take i its)))"
proof (induction its arbitrary: off i)
  case (Cons it its)
  then show ?case by (cases i) auto
qed simp

lemma BRScriptPushData_writer: "buffer_writer (\<lambda>buf. BRScriptPushData buf d) (item_bytes (Push d))"
  using poke_writer [of "item_bytes (Push d)"] by (simp add: BRScriptPushData_def Let_def cong: if_cong)

interpretation push_data: buffer_writer "\<lambda>buf. BRScriptPushData buf d" "item_bytes (Push d)" for d
  by (rule BRScriptPushData_writer)

lemma UInt16GetLE_Cons: "UInt16GetLE (UInt16SetLE u @ r) = u"
  by simp

lemma push_header_cases:
  assumes "length d < 2 ^ 32"
  obtains (direct) "length d < 76" "push_header (length d) = [of_nat (length d)]" "unat (of_nat (length d) :: u8) = length d"
    | (one) "push_header (length d) = [OP_PUSHDATA1, of_nat (length d)]" "unat (of_nat (length d) :: u8) = length d"
    | (two) "push_header (length d) = OP_PUSHDATA2 # UInt16SetLE (of_nat (length d))" "unat (of_nat (length d) :: u16) = length d"
    | (four) "push_header (length d) = OP_PUSHDATA4 # UInt32SetLE (of_nat (length d))" "unat (of_nat (length d) :: u32) = length d"
proof -
  consider "length d < 76" | "\<not> length d < 76" "length d < 255" | "\<not> length d < 255" "length d < 65535"
    | "\<not> length d < 65535" by linarith
  then show ?thesis
  proof cases
    case 1
    then show ?thesis by (intro direct) (simp_all add: push_header_def opcodes unat_of_nat_small)
  next
    case 2
    then show ?thesis by (intro one) (simp_all add: push_header_def opcodes unat_of_nat_small)
  next
    case 3
    then show ?thesis by (intro two) (simp_all add: push_header_def opcodes unat_of_nat_small)
  next
    case 4
    then show ?thesis using assms by (intro four) (simp_all add: push_header_def opcodes unat_of_nat_small)
  qed
qed

lemma item_advance:
  assumes "item_ok it"
  shows "fst (script_advance (pre @ item_bytes it @ rest) (length pre) 0) = length pre + (length (item_bytes it) - length (item_data it))"
    and "snd (script_advance (pre @ item_bytes it @ rest) (length pre) 0) = length (item_data it)"
proof -
  have "script_advance (pre @ item_bytes it @ rest) (length pre) 0
      = (length pre + (length (item_bytes it) - length (item_data it)), length (item_data it))"
  proof (cases it)
    case (Op op)
    then show ?thesis using assms plain_op [of op] by (simp add: script_advance_def)
  next
    case (Push d)
    then have "length d < 2 ^ 32" using assms by simp
    then show ?thesis
    proof (cases rule: push_header_cases)
      case direct
      then have "(of_nat (length d) :: u8) < OP_PUSHDATA1" by (simp add: word_less_nat_alt opcodes)
      then have "\<not> OP_PUSHDATA4 < (of_nat (length d) :: u8)" by (simp add: opcodes word_less_nat_alt)
      with direct plain_op [of "of_nat (length d)"] \<open>of_nat (length d) < OP_PUSHDATA1\<close> show ?thesis
        by (simp add: Push script_advance_def)
    next
      case one
      then show ?thesis by (simp add: Push script_advance_def nth_append)
    next
      case two
      then show ?thesis by (simp add: Push script_advance_def opcodes)
    next
      case four
      then show ?thesis by (simp add: Push script_advance_def opcodes)
    qed
  qed
  then show "fst (script_advance (pre @ item_bytes it @ rest) (length pre) 0) = length pre + (length (item_bytes it) - length (item_data it))"
    "snd (script_advance (pre @ item_bytes it @ rest) (length pre) 0) = length (item_data it)"
    by simp_all
qed

lemma item_bytes_longer: "length (item_data it) < length (item_bytes it)"
  by (cases it) (simp_all add: push_header_def)

lemma chain_items:
  "\<forall>it \<in> set its. item_ok it \<Longrightarrow>
   chain (pre @ concat (map item_bytes its)) (length pre) (item_offsets (length pre) its)"
proof (induction its arbitrary: pre)
  case (Cons it its)
  have "elem_next (pre @ concat (map item_bytes (it # its))) (length pre) = length pre + length (item_bytes it)"
    using item_advance [of it pre "concat (map item_bytes its)"] Cons.prems item_bytes_longer [of it]
    by (simp add: elem_next_def)
  moreover have "chain ((pre @ item_bytes it) @ concat (map item_bytes its)) (length (pre @ item_bytes it))
      (item_offsets (length (pre @ item_bytes it)) its)"
    using Cons.prems by (intro Cons.IH) simp
  moreover have "item_bytes it \<noteq> []" using item_bytes_longer [of it] by auto
  ultimately show ?case by simp
qed simp

lemma BRScriptData_item:
  assumes "item_ok it"
  shows "BRScriptData (item_bytes it @ rest) =
    (if item_data it = [] then None else Some (item_data it @ rest), length (item_data it))"
proof -
  let ?s = "item_bytes it @ rest"
  have a: "script_advance ?s 0 0 = (length (item_bytes it) - length (item_data it), length (item_data it))"
    using item_advance [OF assms, of "[]" rest] by (simp add: prod_eq_iff)
  have "drop (length (item_bytes it) - length (item_data it)) ?s = item_data it @ rest"
    by (cases it) simp_all
  moreover have n: "elem_next ?s 0 = length (item_bytes it)" "elem_header_end ?s 0 = length (item_bytes it) - length (item_data it)"
    using a item_bytes_longer [of it] by (simp_all add: elem_next_def elem_header_end_def)
  moreover have "0 < length ?s" "elem_next ?s 0 \<le> length ?s" using item_bytes_longer [of it] by (auto simp: n)
  ultimately show ?thesis
    using BRScriptData_elem [of 0 ?s] item_bytes_longer [of it] by (cases "item_data it") auto
qed

text \<open>The two pass use of \<open>BRScriptPushData\<close>: ask for the size, then write.\<close>

definition push_bytes :: "bytes \<Rightarrow> bytes" where
  "push_bytes d =
     (let n = snd (BRScriptPushData None d) in the (fst (BRScriptPushData (Some (replicate n 0)) d)))"

lemma push_bytes_eq: "push_bytes d = item_bytes (Push d)"
  by (simp add: push_bytes_def Let_def push_data.query push_data.fill)

fun assemble :: "script_item list \<Rightarrow> bytes" where
  "assemble [] = []"
| "assemble (Op op # its) = op # assemble its"
| "assemble (Push d # its) = push_bytes d @ assemble its"

lemma assemble_eq: "assemble its = concat (map item_bytes its)"
  by (induction its rule: assemble.induct) (simp_all add: push_bytes_eq)

lemma drop_item:
  "i < length its \<Longrightarrow> drop (item_offsets 0 its ! i) (concat (map item_bytes its))
     = item_bytes (its ! i) @ concat (map item_bytes (drop (Suc i) its))"
proof -
  assume i: "i < length its"
  have "concat (map item_bytes its) = concat (map item_bytes (take i its @ its ! i # drop (Suc i) its))"
    using i by (simp flip: id_take_nth_drop)
  then show ?thesis using i by (simp add: item_offsets_nth)
qed

section \<open>Properties\<close>

text \<open>C22: splitting a script that was assembled from opcodes and data pushes (\<open>BRScriptPushData\<close>)
  with \<open>BRScriptElements\<close> gives back exactly its items, in order, and \<open>BRScriptData\<close> returns for
  each the bytes that were pushed.\<close>

theorem script_assemble_split:
  assumes "\<forall>it \<in> set its. item_ok it"
  shows "script_elems (assemble its) = (item_offsets 0 its, length its) \<and>
    (\<forall>i < length its. case BRScriptData (drop (item_offsets 0 its ! i) (assemble its)) of
       (d, n) \<Rightarrow> n = length (item_data (its ! i)) \<and>
                 map_option (take n) d = (if item_data (its ! i) = [] then None else Some (item_data (its ! i))))"
proof -
  have "chain (concat (map item_bytes its)) 0 (item_offsets 0 its)"
    using chain_items [OF assms, of "[]"] by simp
  then have "script_elems (assemble its) = (item_offsets 0 its, length its)"
    by (simp add: assemble_eq script_elems_chain)
  moreover have "case BRScriptData (drop (item_offsets 0 its ! i) (assemble its)) of
       (d, n) \<Rightarrow> n = length (item_data (its ! i)) \<and>
                 map_option (take n) d = (if item_data (its ! i) = [] then None else Some (item_data (its ! i)))"
    if i: "i < length its" for i
    using assms i by (simp add: assemble_eq drop_item BRScriptData_item)
  ultimately show ?thesis by blast
qed

theorem script_assemble_split_witness:
  "script_elems (assemble [Op OP_DUP, Push (replicate 80 7), Op OP_EQUAL]) = ([0, 1, 83], 3)"
  using script_assemble_split [of "[Op OP_DUP, Push (replicate 80 7), Op OP_EQUAL]"]
  by (simp add: opcodes push_header_def)

text \<open>memory safety of element access. Whatever bytes a script holds, every element pointer that
  \<open>BRScriptElements\<close> returns lies inside the script, and the data of a push that \<open>BRScriptData\<close>
  reports for it ends inside the script, so none of the clients reads past the end.\<close>

theorem script_data_safe:
  assumes "script_elems s = (es, count)" and "i < count"
  shows "es ! i < length s \<and>
    (case BRScriptData (drop (es ! i) s) of
       (None, n) \<Rightarrow> n = 0
     | (Some d, n) \<Rightarrow> 0 < n \<and> (\<exists>k > es ! i. d = drop k s \<and> k + n \<le> length s))"
  using assms by (rule script_data_in_bounds)

theorem script_data_safe_witness:
  "[0, 1] ! 1 < length [OP_0, 2, 5, 6 :: u8] \<and>
    (case BRScriptData (drop ([0, 1] ! 1) [OP_0, 2, 5, 6]) of
       (None, n) \<Rightarrow> n = 0
     | (Some d, n) \<Rightarrow> 0 < n \<and> (\<exists>k > [0, 1] ! 1. d = drop k [OP_0, 2, 5, 6] \<and> k + n \<le> length [OP_0, 2, 5, 6 :: u8]))"
  by (rule script_data_safe [of _ _ 2])
     (simp_all add: script_elems_def BRScriptElements_def script_loop.simps script_advance_def opcodes)

text \<open>\<open>BRScriptPKH\<close> is exact. It returns the hash \<open>h\<close> for the pay-to-pubkey-hash,
  pay-to-script-hash and 20 byte witness scripts of \<open>h\<close> and for no other byte string.\<close>

theorem script_pkh_exact:
  "map_option UInt160Get (BRScriptPKH s) = Some h \<longleftrightarrow>
     length h = 20 \<and> (s = p2pkh_script h \<or> s = p2sh_script h \<or> (\<exists>v. witness_version v \<and> s = witness_script v h))"
  unfolding BRScriptPKH_standard standard_pkh_def by (rule refl)

text \<open>\<open>BRScriptPubKeyIsValid\<close> accepts exactly the standard output scripts: pay-to-pubkey-hash,
  pay-to-script-hash, pay-to-pubkey with a 33 or 65 byte key, version 0 witness programs of 20 or 32
  bytes, and version 1 to 16 witness programs of 2 to 40 bytes.\<close>

theorem script_pubkey_valid_exact:
  "BRScriptPubKeyIsValid s \<longleftrightarrow>
     (\<exists>h. length h = 20 \<and> (s = p2pkh_script h \<or> s = p2sh_script h)) \<or>
     (\<exists>k. length k \<in> {33, 65} \<and> s = of_nat (length k) # k @ [OP_CHECKSIG]) \<or>
     (\<exists>p. length p \<in> {20, 32} \<and> s = witness_script OP_0 p) \<or>
     (\<exists>v p. OP_1 \<le> v \<and> v \<le> OP_16 \<and> 2 \<le> length p \<and> length p \<le> 40 \<and> s = witness_script v p)"
  unfolding BRScriptPubKeyIsValid_iff valid_script_pubkey_def by (rule refl)

end
