(* ===== verification/Hash.thy ===== *)
theory Hash
  imports BRInt
begin

text \<open>
  The hash functions of \<open>support/BRCrypto.c\<close>. The block buffer \<open>x\<close> of the C code is modelled by its
  bytes: \<open>be32(x[i])\<close> and \<open>le32(x[i])\<close> are then the big and little endian reads of bytes
  \<open>4 i .. 4 i + 3\<close>, on a machine of either byte order, and storing \<open>be32(v)\<close> in \<open>x[i]\<close> writes the big
  endian bytes of \<open>v\<close> there. The chaining value \<open>buf\<close> is a list of words.
\<close>

section \<open>Words and blocks\<close>

definition rol32 :: "u32 \<Rightarrow> nat \<Rightarrow> u32" where
  "rol32 a b = push_bit b a OR drop_bit (32 - b) a"

definition ror32 :: "u32 \<Rightarrow> nat \<Rightarrow> u32" where
  "ror32 a b = drop_bit b a OR push_bit (32 - b) a"

definition ror64 :: "u64 \<Rightarrow> nat \<Rightarrow> u64" where
  "ror64 a b = drop_bit b a OR push_bit (64 - b) a"

definition rol64 :: "u64 \<Rightarrow> nat \<Rightarrow> u64" where
  "rol64 a b = push_bit b a XOR drop_bit (64 - b) a"

definition be32_at :: "bytes \<Rightarrow> nat \<Rightarrow> u32" where
  "be32_at x i = UInt32GetBE (drop (4 * i) x)"

definition le32_at :: "bytes \<Rightarrow> nat \<Rightarrow> u32" where
  "le32_at x i = UInt32GetLE (drop (4 * i) x)"

definition be64_at :: "bytes \<Rightarrow> nat \<Rightarrow> u64" where
  "be64_at x i = UInt64GetBE (drop (8 * i) x)"

definition le64_at :: "bytes \<Rightarrow> nat \<Rightarrow> u64" where
  "le64_at x i = UInt64GetLE (drop (8 * i) x)"

text \<open>
  The block loop, which all hash functions of the file share up to the block size \<open>bs\<close> and the
  comparison in its condition (\<open>i < dataLen\<close> in the SHA functions, \<open>i <= dataLen\<close> in the others):
  copy up to \<open>bs\<close> bytes into \<open>x\<close>, leave if this was not a whole block, else compress it. The
  contents of \<open>x\<close> before the first copy do not matter, since the code clears what it did not write.
\<close>

function hash_blocks :: "(nat \<Rightarrow> nat \<Rightarrow> bool) \<Rightarrow> nat \<Rightarrow> ('r \<Rightarrow> bytes \<Rightarrow> 'r) \<Rightarrow> bytes \<Rightarrow> nat \<Rightarrow> 'r \<Rightarrow> bytes \<Rightarrow> 'r \<times> bytes \<times> nat" where
  "hash_blocks more bs compress data i buf x =
     (let dataLen = length data in
      if 0 < bs \<and> more i dataLen then
        let n = (if i + bs < dataLen then bs else dataLen - i);
            x' = take n (drop i data) @ drop n x
        in if i + bs > dataLen then (buf, x', i)
           else hash_blocks more bs compress data (i + bs) (compress buf x') x'
      else (buf, x, i))"
  by pat_completeness auto
termination
  by (relation "measure (\<lambda>(more, bs, compress, data, i, buf, x). length data - i)") auto

declare hash_blocks.simps [simp del]

text \<open>
  The end of a SHA-1, SHA-2, MD5 or RIPEMD hash: clear the rest of the block, append \<open>0x80\<close>, start
  another block if the length does not fit any more (\<open>lenSize\<close> bytes), append the length.
\<close>

definition hash_final :: "nat \<Rightarrow> ('r \<Rightarrow> bytes \<Rightarrow> 'r) \<Rightarrow> bytes \<Rightarrow> bytes \<Rightarrow> 'r \<times> bytes \<times> nat \<Rightarrow> 'r" where
  "hash_final bs compress bitLen data = (\<lambda>(buf, x, i).
     let r = length data - i; lenSize = length bitLen;
         x1 = (take r x @ replicate (bs - r) 0)[r := 0x80];
         (buf2, x2) = (if r \<ge> bs - lenSize then (compress buf x1, replicate bs 0) else (buf, x1))
     in compress buf2 (take (bs - lenSize) x2 @ bitLen))"

section \<open>SHA-1\<close>

definition sha1_f1 :: "u32 \<Rightarrow> u32 \<Rightarrow> u32 \<Rightarrow> u32" where
  "sha1_f1 x y z = (x AND y) OR (NOT x AND z)"

definition sha1_f2 :: "u32 \<Rightarrow> u32 \<Rightarrow> u32 \<Rightarrow> u32" where
  "sha1_f2 x y z = x XOR y XOR z"

definition sha1_f3 :: "u32 \<Rightarrow> u32 \<Rightarrow> u32 \<Rightarrow> u32" where
  "sha1_f3 x y z = (x AND y) OR (x AND z) OR (y AND z)"

definition sha1_schedule :: "bytes \<Rightarrow> u32 list" where
  "sha1_schedule x =
     foldl (\<lambda>w i. w @ [rol32 (w ! (i - 3) XOR w ! (i - 8) XOR w ! (i - 14) XOR w ! (i - 16)) 1])
       (map (be32_at x) [0..<16]) [16..<80]"

definition sha1_round :: "u32 \<times> u32 \<times> u32 \<times> u32 \<times> u32 \<Rightarrow> nat \<times> u32 \<Rightarrow> u32 \<times> u32 \<times> u32 \<times> u32 \<times> u32" where
  "sha1_round = (\<lambda>(a, b, c, d, e) (i, w).
     let (f, k) = (if i < 20 then (sha1_f1 b c d, 0x5a827999)
                   else if i < 40 then (sha1_f2 b c d, 0x6ed9eba1)
                   else if i < 60 then (sha1_f3 b c d, 0x8f1bbcdc)
                   else (sha1_f2 b c d, 0xca62c1d6));
         t = rol32 a 5 + f + e + k + w
     in (t, a, rol32 b 30, c, d))"

definition BRSHA1Compress :: "u32 list \<Rightarrow> bytes \<Rightarrow> u32 list" where
  "BRSHA1Compress r x =
     (let (a, b, c, d, e) =
        foldl sha1_round (r ! 0, r ! 1, r ! 2, r ! 3, r ! 4) (zip [0..<80] (sha1_schedule x))
      in [r ! 0 + a, r ! 1 + b, r ! 2 + c, r ! 3 + d, r ! 4 + e])"

text \<open>The length field of the SHA-1 and SHA-256 family: two big endian words.\<close>

definition be_bit_length :: "bytes \<Rightarrow> bytes" where
  "be_bit_length data =
     (let dataLen = of_nat (length data) :: u64
      in UInt32SetBE (ucast (drop_bit 29 dataLen)) @ UInt32SetBE (ucast (push_bit 3 dataLen)))"

definition BRSHA1 :: "bytes \<Rightarrow> bytes" where
  "BRSHA1 data =
     (let buf = [0x67452301, 0xefcdab89, 0x98badcfe, 0x10325476, 0xc3d2e1f0]
      in concat (map UInt32SetBE (hash_final 64 BRSHA1Compress (be_bit_length data) data
           (hash_blocks (<) 64 BRSHA1Compress data 0 buf (replicate 64 0)))))"

section \<open>SHA-256 and SHA-224\<close>

definition ch :: "'a :: len word \<Rightarrow> 'a word \<Rightarrow> 'a word \<Rightarrow> 'a word" where
  "ch x y z = (x AND y) XOR (NOT x AND z)"

definition maj :: "'a :: len word \<Rightarrow> 'a word \<Rightarrow> 'a word \<Rightarrow> 'a word" where
  "maj x y z = (x AND y) XOR (x AND z) XOR (y AND z)"

definition sha256_s0 :: "u32 \<Rightarrow> u32" where
  "sha256_s0 x = ror32 x 2 XOR ror32 x 13 XOR ror32 x 22"

definition sha256_s1 :: "u32 \<Rightarrow> u32" where
  "sha256_s1 x = ror32 x 6 XOR ror32 x 11 XOR ror32 x 25"

definition sha256_s2 :: "u32 \<Rightarrow> u32" where
  "sha256_s2 x = ror32 x 7 XOR ror32 x 18 XOR drop_bit 3 x"

definition sha256_s3 :: "u32 \<Rightarrow> u32" where
  "sha256_s3 x = ror32 x 17 XOR ror32 x 19 XOR drop_bit 10 x"

definition sha256_k :: "u32 list" where
  "sha256_k = concat [
    [0x428a2f98, 0x71374491, 0xb5c0fbcf, 0xe9b5dba5, 0x3956c25b, 0x59f111f1, 0x923f82a4, 0xab1c5ed5],
    [0xd807aa98, 0x12835b01, 0x243185be, 0x550c7dc3, 0x72be5d74, 0x80deb1fe, 0x9bdc06a7, 0xc19bf174],
    [0xe49b69c1, 0xefbe4786, 0xfc19dc6, 0x240ca1cc, 0x2de92c6f, 0x4a7484aa, 0x5cb0a9dc, 0x76f988da],
    [0x983e5152, 0xa831c66d, 0xb00327c8, 0xbf597fc7, 0xc6e00bf3, 0xd5a79147, 0x6ca6351, 0x14292967],
    [0x27b70a85, 0x2e1b2138, 0x4d2c6dfc, 0x53380d13, 0x650a7354, 0x766a0abb, 0x81c2c92e, 0x92722c85],
    [0xa2bfe8a1, 0xa81a664b, 0xc24b8b70, 0xc76c51a3, 0xd192e819, 0xd6990624, 0xf40e3585, 0x106aa070],
    [0x19a4c116, 0x1e376c08, 0x2748774c, 0x34b0bcb5, 0x391c0cb3, 0x4ed8aa4a, 0x5b9cca4f, 0x682e6ff3],
    [0x748f82ee, 0x78a5636f, 0x84c87814, 0x8cc70208, 0x90befffa, 0xa4506ceb, 0xbef9a3f7, 0xc67178f2]]"

definition sha256_schedule :: "bytes \<Rightarrow> u32 list" where
  "sha256_schedule x =
     foldl (\<lambda>w i. w @ [sha256_s3 (w ! (i - 2)) + w ! (i - 7) + sha256_s2 (w ! (i - 15)) + w ! (i - 16)])
       (map (be32_at x) [0..<16]) [16..<64]"

definition sha256_round ::
    "u32 \<times> u32 \<times> u32 \<times> u32 \<times> u32 \<times> u32 \<times> u32 \<times> u32 \<Rightarrow> u32 \<times> u32 \<Rightarrow> u32 \<times> u32 \<times> u32 \<times> u32 \<times> u32 \<times> u32 \<times> u32 \<times> u32" where
  "sha256_round = (\<lambda>(a, b, c, d, e, f, g, h) (k, w).
     let t1 = h + sha256_s1 e + ch e f g + k + w;
         t2 = sha256_s0 a + maj a b c
     in (t1 + t2, a, b, c, d + t1, e, f, g))"

definition BRSHA256Compress :: "u32 list \<Rightarrow> bytes \<Rightarrow> u32 list" where
  "BRSHA256Compress r x =
     (let (a, b, c, d, e, f, g, h) =
        foldl sha256_round (r ! 0, r ! 1, r ! 2, r ! 3, r ! 4, r ! 5, r ! 6, r ! 7) (zip sha256_k (sha256_schedule x))
      in [r ! 0 + a, r ! 1 + b, r ! 2 + c, r ! 3 + d, r ! 4 + e, r ! 5 + f, r ! 6 + g, r ! 7 + h])"

definition BRSHA224 :: "bytes \<Rightarrow> bytes" where
  "BRSHA224 data =
     (let buf = [0xc1059ed8, 0x367cd507, 0x3070dd17, 0xf70e5939, 0xffc00b31, 0x68581511, 0x64f98fa7, 0xbefa4fa4]
      in concat (map UInt32SetBE (take 7 (hash_final 64 BRSHA256Compress (be_bit_length data) data
           (hash_blocks (<) 64 BRSHA256Compress data 0 buf (replicate 64 0))))))"

definition BRSHA256 :: "bytes \<Rightarrow> bytes" where
  "BRSHA256 data =
     (let buf = [0x6a09e667, 0xbb67ae85, 0x3c6ef372, 0xa54ff53a, 0x510e527f, 0x9b05688c, 0x1f83d9ab, 0x5be0cd19]
      in concat (map UInt32SetBE (hash_final 64 BRSHA256Compress (be_bit_length data) data
           (hash_blocks (<) 64 BRSHA256Compress data 0 buf (replicate 64 0)))))"

definition BRSHA256_2 :: "bytes \<Rightarrow> bytes" where
  "BRSHA256_2 data = BRSHA256 (BRSHA256 data)"

section \<open>SHA-512 and SHA-384\<close>

definition sha512_S0 :: "u64 \<Rightarrow> u64" where
  "sha512_S0 x = ror64 x 28 XOR ror64 x 34 XOR ror64 x 39"

definition sha512_S1 :: "u64 \<Rightarrow> u64" where
  "sha512_S1 x = ror64 x 14 XOR ror64 x 18 XOR ror64 x 41"

definition sha512_S2 :: "u64 \<Rightarrow> u64" where
  "sha512_S2 x = ror64 x 1 XOR ror64 x 8 XOR drop_bit 7 x"

definition sha512_S3 :: "u64 \<Rightarrow> u64" where
  "sha512_S3 x = ror64 x 19 XOR ror64 x 61 XOR drop_bit 6 x"

definition sha512_k :: "u64 list" where
  "sha512_k = concat [
    [0x428a2f98d728ae22, 0x7137449123ef65cd, 0xb5c0fbcfec4d3b2f, 0xe9b5dba58189dbbc, 0x3956c25bf348b538],
    [0x59f111f1b605d019, 0x923f82a4af194f9b, 0xab1c5ed5da6d8118, 0xd807aa98a3030242, 0x12835b0145706fbe],
    [0x243185be4ee4b28c, 0x550c7dc3d5ffb4e2, 0x72be5d74f27b896f, 0x80deb1fe3b1696b1, 0x9bdc06a725c71235],
    [0xc19bf174cf692694, 0xe49b69c19ef14ad2, 0xefbe4786384f25e3, 0xfc19dc68b8cd5b5, 0x240ca1cc77ac9c65],
    [0x2de92c6f592b0275, 0x4a7484aa6ea6e483, 0x5cb0a9dcbd41fbd4, 0x76f988da831153b5, 0x983e5152ee66dfab],
    [0xa831c66d2db43210, 0xb00327c898fb213f, 0xbf597fc7beef0ee4, 0xc6e00bf33da88fc2, 0xd5a79147930aa725],
    [0x6ca6351e003826f, 0x142929670a0e6e70, 0x27b70a8546d22ffc, 0x2e1b21385c26c926, 0x4d2c6dfc5ac42aed],
    [0x53380d139d95b3df, 0x650a73548baf63de, 0x766a0abb3c77b2a8, 0x81c2c92e47edaee6, 0x92722c851482353b],
    [0xa2bfe8a14cf10364, 0xa81a664bbc423001, 0xc24b8b70d0f89791, 0xc76c51a30654be30, 0xd192e819d6ef5218],
    [0xd69906245565a910, 0xf40e35855771202a, 0x106aa07032bbd1b8, 0x19a4c116b8d2d0c8, 0x1e376c085141ab53],
    [0x2748774cdf8eeb99, 0x34b0bcb5e19b48a8, 0x391c0cb3c5c95a63, 0x4ed8aa4ae3418acb, 0x5b9cca4f7763e373],
    [0x682e6ff3d6b2b8a3, 0x748f82ee5defb2fc, 0x78a5636f43172f60, 0x84c87814a1f0ab72, 0x8cc702081a6439ec],
    [0x90befffa23631e28, 0xa4506cebde82bde9, 0xbef9a3f7b2c67915, 0xc67178f2e372532b, 0xca273eceea26619c],
    [0xd186b8c721c0c207, 0xeada7dd6cde0eb1e, 0xf57d4f7fee6ed178, 0x6f067aa72176fba, 0xa637dc5a2c898a6],
    [0x113f9804bef90dae, 0x1b710b35131c471b, 0x28db77f523047d84, 0x32caab7b40c72493, 0x3c9ebe0a15c9bebc],
    [0x431d67c49c100d4c, 0x4cc5d4becb3e42b6, 0x597f299cfc657e2a, 0x5fcb6fab3ad6faec, 0x6c44198c4a475817]]"

definition sha512_schedule :: "bytes \<Rightarrow> u64 list" where
  "sha512_schedule x =
     foldl (\<lambda>w i. w @ [sha512_S3 (w ! (i - 2)) + w ! (i - 7) + sha512_S2 (w ! (i - 15)) + w ! (i - 16)])
       (map (be64_at x) [0..<16]) [16..<80]"

definition sha512_round ::
    "u64 \<times> u64 \<times> u64 \<times> u64 \<times> u64 \<times> u64 \<times> u64 \<times> u64 \<Rightarrow> u64 \<times> u64 \<Rightarrow> u64 \<times> u64 \<times> u64 \<times> u64 \<times> u64 \<times> u64 \<times> u64 \<times> u64" where
  "sha512_round = (\<lambda>(a, b, c, d, e, f, g, h) (k, w).
     let t1 = h + sha512_S1 e + ch e f g + k + w;
         t2 = sha512_S0 a + maj a b c
     in (t1 + t2, a, b, c, d + t1, e, f, g))"

definition BRSHA512Compress :: "u64 list \<Rightarrow> bytes \<Rightarrow> u64 list" where
  "BRSHA512Compress r x =
     (let (a, b, c, d, e, f, g, h) =
        foldl sha512_round (r ! 0, r ! 1, r ! 2, r ! 3, r ! 4, r ! 5, r ! 6, r ! 7) (zip sha512_k (sha512_schedule x))
      in [r ! 0 + a, r ! 1 + b, r ! 2 + c, r ! 3 + d, r ! 4 + e, r ! 5 + f, r ! 6 + g, r ! 7 + h])"

definition be_bit_length128 :: "bytes \<Rightarrow> bytes" where
  "be_bit_length128 data = UInt64SetBE 0 @ UInt64SetBE (of_nat (length data) * 8)"

definition BRSHA384 :: "bytes \<Rightarrow> bytes" where
  "BRSHA384 data =
     (let buf = [0xcbbb9d5dc1059ed8, 0x629a292a367cd507, 0x9159015a3070dd17, 0x152fecd8f70e5939,
                 0x67332667ffc00b31, 0x8eb44a8768581511, 0xdb0c2e0d64f98fa7, 0x47b5481dbefa4fa4]
      in concat (map UInt64SetBE (take 6 (hash_final 128 BRSHA512Compress (be_bit_length128 data) data
           (hash_blocks (<) 128 BRSHA512Compress data 0 buf (replicate 128 0))))))"

definition BRSHA512 :: "bytes \<Rightarrow> bytes" where
  "BRSHA512 data =
     (let buf = [0x6a09e667f3bcc908, 0xbb67ae8584caa73b, 0x3c6ef372fe94f82b, 0xa54ff53a5f1d36f1,
                 0x510e527fade682d1, 0x9b05688c2b3e6c1f, 0x1f83d9abfb41bd6b, 0x5be0cd19137e2179]
      in concat (map UInt64SetBE (hash_final 128 BRSHA512Compress (be_bit_length128 data) data
           (hash_blocks (<) 128 BRSHA512Compress data 0 buf (replicate 128 0)))))"

section \<open>RIPEMD-160\<close>

definition rmd_f :: "u32 \<Rightarrow> u32 \<Rightarrow> u32 \<Rightarrow> u32" where "rmd_f x y z = x XOR y XOR z"
definition rmd_g :: "u32 \<Rightarrow> u32 \<Rightarrow> u32 \<Rightarrow> u32" where "rmd_g x y z = (x AND y) OR (NOT x AND z)"
definition rmd_h :: "u32 \<Rightarrow> u32 \<Rightarrow> u32 \<Rightarrow> u32" where "rmd_h x y z = (x OR NOT y) XOR z"
definition rmd_i :: "u32 \<Rightarrow> u32 \<Rightarrow> u32 \<Rightarrow> u32" where "rmd_i x y z = (x AND z) OR (y AND NOT z)"
definition rmd_j :: "u32 \<Rightarrow> u32 \<Rightarrow> u32 \<Rightarrow> u32" where "rmd_j x y z = x XOR (y OR NOT z)"

text \<open>One line of 16 operations: the function, the constant, the words' order and the shifts.\<close>

type_synonym rmd_state = "u32 \<times> u32 \<times> u32 \<times> u32 \<times> u32"

definition rmd_op :: "(u32 \<Rightarrow> u32 \<Rightarrow> u32 \<Rightarrow> u32) \<Rightarrow> u32 \<Rightarrow> bytes \<Rightarrow> rmd_state \<Rightarrow> nat \<times> nat \<Rightarrow> rmd_state" where
  "rmd_op fn k x = (\<lambda>(a, b, c, d, e) (n, s).
     let t = rol32 (a + fn b c d + le32_at x n + k) s + e
     in (e, t, b, rol32 c 10, d))"

definition rmd_line :: "bytes \<Rightarrow> rmd_state \<Rightarrow> (u32 \<Rightarrow> u32 \<Rightarrow> u32 \<Rightarrow> u32) \<Rightarrow> u32 \<Rightarrow> nat list \<Rightarrow> nat list \<Rightarrow> rmd_state" where
  "rmd_line x st fn k order shifts = foldl (rmd_op fn k x) st (zip order shifts)"

definition rmd_left :: "bytes \<Rightarrow> rmd_state \<Rightarrow> rmd_state" where
  "rmd_left x st0 =
     (let st1 = rmd_line x st0 rmd_f 0x00000000
            [0, 1, 2, 3, 4, 5, 6, 7, 8, 9, 10, 11, 12, 13, 14, 15]
            [11, 14, 15, 12, 5, 8, 7, 9, 11, 13, 14, 15, 6, 7, 9, 8];
          st2 = rmd_line x st1 rmd_g 0x5a827999
            [7, 4, 13, 1, 10, 6, 15, 3, 12, 0, 9, 5, 2, 14, 11, 8]
            [7, 6, 8, 13, 11, 9, 7, 15, 7, 12, 15, 9, 11, 7, 13, 12];
          st3 = rmd_line x st2 rmd_h 0x6ed9eba1
            [3, 10, 14, 4, 9, 15, 8, 1, 2, 7, 0, 6, 13, 11, 5, 12]
            [11, 13, 6, 7, 14, 9, 13, 15, 14, 8, 13, 6, 5, 12, 7, 5];
          st4 = rmd_line x st3 rmd_i 0x8f1bbcdc
            [1, 9, 11, 10, 0, 8, 12, 4, 13, 3, 7, 15, 14, 5, 6, 2]
            [11, 12, 14, 15, 14, 15, 9, 8, 9, 14, 5, 6, 8, 6, 5, 12]
      in rmd_line x st4 rmd_j 0xa953fd4e
            [4, 0, 5, 9, 7, 12, 2, 10, 14, 1, 3, 8, 11, 6, 15, 13]
            [9, 15, 5, 11, 6, 8, 13, 12, 5, 12, 13, 14, 11, 8, 5, 6])"

definition rmd_right :: "bytes \<Rightarrow> rmd_state \<Rightarrow> rmd_state" where
  "rmd_right x st0 =
     (let st1 = rmd_line x st0 rmd_j 0x50a28be6
            [5, 14, 7, 0, 9, 2, 11, 4, 13, 6, 15, 8, 1, 10, 3, 12]
            [8, 9, 9, 11, 13, 15, 15, 5, 7, 7, 8, 11, 14, 14, 12, 6];
          st2 = rmd_line x st1 rmd_i 0x5c4dd124
            [6, 11, 3, 7, 0, 13, 5, 10, 14, 15, 8, 12, 4, 9, 1, 2]
            [9, 13, 15, 7, 12, 8, 9, 11, 7, 7, 12, 7, 6, 15, 13, 11];
          st3 = rmd_line x st2 rmd_h 0x6d703ef3
            [15, 5, 1, 3, 7, 14, 6, 9, 11, 8, 12, 2, 10, 0, 4, 13]
            [9, 7, 15, 11, 8, 6, 6, 14, 12, 13, 5, 14, 13, 13, 7, 5];
          st4 = rmd_line x st3 rmd_g 0x7a6d76e9
            [8, 6, 4, 1, 3, 11, 15, 0, 5, 12, 2, 13, 9, 7, 10, 14]
            [15, 5, 8, 11, 14, 14, 6, 14, 6, 9, 12, 9, 12, 5, 15, 8]
      in rmd_line x st4 rmd_f 0x00000000
            [12, 15, 10, 4, 1, 5, 8, 7, 6, 2, 13, 14, 0, 3, 9, 11]
            [8, 5, 12, 9, 12, 5, 14, 6, 8, 13, 6, 5, 15, 13, 11, 11])"

definition BRRMDCompress :: "u32 list \<Rightarrow> bytes \<Rightarrow> u32 list" where
  "BRRMDCompress r x =
     (let st = (r ! 0, r ! 1, r ! 2, r ! 3, r ! 4);
          (al, bl, cl, dl, el) = rmd_left x st; (ar, br, cr, dr, er) = rmd_right x st
      in [r ! 1 + cl + dr, r ! 2 + dl + er, r ! 3 + el + ar, r ! 4 + al + br, r ! 0 + bl + cr])"

definition le_bit_length :: "bytes \<Rightarrow> bytes" where
  "le_bit_length data =
     (let dataLen = of_nat (length data) :: u64
      in UInt32SetLE (ucast (push_bit 3 dataLen)) @ UInt32SetLE (ucast (drop_bit 29 dataLen)))"

definition BRRMD160 :: "bytes \<Rightarrow> bytes" where
  "BRRMD160 data =
     (let buf = [0x67452301, 0xefcdab89, 0x98badcfe, 0x10325476, 0xc3d2e1f0]
      in concat (map UInt32SetLE (hash_final 64 BRRMDCompress (le_bit_length data) data
           (hash_blocks (\<le>) 64 BRRMDCompress data 0 buf (replicate 64 0)))))"

definition BRHash160 :: "bytes \<Rightarrow> bytes" where
  "BRHash160 data = BRRMD160 (BRSHA256 data)"

section \<open>Keccak and SHA-3\<close>

definition sha3_k :: "u64 list" where
  "sha3_k = concat [
    [0x1, 0x8082, 0x800000000000808a, 0x8000000080008000, 0x808b],
    [0x80000001, 0x8000000080008081, 0x8000000000008009, 0x8a, 0x88],
    [0x80008009, 0x8000000a, 0x8000808b, 0x800000000000008b, 0x8000000000008089],
    [0x8000000000008003, 0x8000000000008002, 0x8000000000000080, 0x800a, 0x800000008000000a],
    [0x8000000080008081, 0x8000000000008080, 0x80000001, 0x8000000080008008]]"

definition sha3_theta :: "u64 list \<Rightarrow> u64 list" where
  "sha3_theta r =
     (let a = map (\<lambda>j. r ! j XOR r ! (j + 5) XOR r ! (j + 10) XOR r ! (j + 15) XOR r ! (j + 20)) [0..<5];
          b = [rol64 (a ! 1) 1 XOR a ! 4, rol64 (a ! 2) 1 XOR a ! 0, rol64 (a ! 3) 1 XOR a ! 1,
               rol64 (a ! 4) 1 XOR a ! 2, rol64 (a ! 0) 1 XOR a ! 3]
      in map (\<lambda>j. r ! j XOR b ! (j mod 5)) [0..<25])"

text \<open>The rotations of \<open>rho\<close>, with 0 for \<open>r[0]\<close>, which is left as it is.\<close>

definition sha3_rho :: "u64 list \<Rightarrow> u64 list" where
  "sha3_rho r = r ! 0 # map (\<lambda>(j, s). rol64 (r ! j) s)
     [(1, 1), (2, 62), (3, 28), (4, 27), (5, 36), (6, 44), (7, 6), (8, 55), (9, 20), (10, 3), (11, 10), (12, 43),
      (13, 25), (14, 39), (15, 41), (16, 45), (17, 15), (18, 21), (19, 8), (20, 18), (21, 2), (22, 61), (23, 56),
      (24, 14)]"

text \<open>The cycle of \<open>pi\<close>: the assignments \<open>r[i] = r[j]\<close> in order, with \<open>r[1]\<close> saved for the last.\<close>

definition sha3_pi :: "u64 list \<Rightarrow> u64 list" where
  "sha3_pi r =
     (let r1 = r ! 1;
          s = foldl (\<lambda>s (i, j). s[i := s ! j]) r
            [(1, 6), (6, 9), (9, 22), (22, 14), (14, 20), (20, 2), (2, 12),
             (12, 13), (13, 19), (19, 23), (23, 15), (15, 4), (4, 24), (24, 21),
             (21, 8), (8, 16), (16, 5), (5, 3), (3, 18), (18, 17), (17, 11), (11, 7),
             (7, 10)]
      in s[10 := r1])"

definition sha3_chi_row :: "u64 list \<Rightarrow> nat \<Rightarrow> u64 list" where
  "sha3_chi_row r j =
     (let r0 = r ! j; r1 = r ! (1 + j);
          s0 = r[j := r ! j XOR (NOT r1 AND r ! (2 + j))];
          s1 = s0[1 + j := s0 ! (1 + j) XOR (NOT (s0 ! (2 + j)) AND s0 ! (3 + j))];
          s2 = s1[2 + j := s1 ! (2 + j) XOR (NOT (s1 ! (3 + j)) AND s1 ! (4 + j))];
          s3 = s2[3 + j := s2 ! (3 + j) XOR (NOT (s2 ! (4 + j)) AND r0)]
      in s3[4 + j := s3 ! (4 + j) XOR (NOT r0 AND r1)])"

definition sha3_round :: "u64 list \<Rightarrow> u64 \<Rightarrow> u64 list" where
  "sha3_round r k =
     (let s = foldl sha3_chi_row (sha3_pi (sha3_rho (sha3_theta r))) [0, 5, 10, 15, 20]
      in s[0 := s ! 0 XOR k])"

definition BRSHA3Compress :: "nat \<Rightarrow> u64 list \<Rightarrow> bytes \<Rightarrow> u64 list" where
  "BRSHA3Compress blockSize r x =
     foldl sha3_round (map (\<lambda>i. if i < blockSize div 8 then r ! i XOR le64_at x i else r ! i) [0..<25]) sha3_k"

definition sha3_final :: "u8 \<Rightarrow> bytes \<Rightarrow> u64 list \<times> bytes \<times> nat \<Rightarrow> u64 list" where
  "sha3_final pad data = (\<lambda>(buf, x, i).
     let r = length data - i;
         x1 = take r x @ replicate (136 - r) 0;
         x2 = x1[r := x1 ! r OR pad];
         x3 = x2[135 := x2 ! 135 OR 0x80]
     in BRSHA3Compress 136 buf x3)"

definition BRSHA3_256 :: "bytes \<Rightarrow> bytes" where
  "BRSHA3_256 data = concat (map UInt64SetLE (take 4 (sha3_final 0x06 data
     (hash_blocks (\<le>) 136 (BRSHA3Compress 136) data 0 (replicate 25 0) (replicate 136 0)))))"

definition BRKeccak256 :: "bytes \<Rightarrow> bytes" where
  "BRKeccak256 data = concat (map UInt64SetLE (take 4 (sha3_final 0x01 data
     (hash_blocks (\<le>) 136 (BRSHA3Compress 136) data 0 (replicate 25 0) (replicate 136 0)))))"

section \<open>MD5\<close>

definition md5_F :: "u32 \<Rightarrow> u32 \<Rightarrow> u32 \<Rightarrow> u32" where "md5_F x y z = z XOR (x AND (y XOR z))"
definition md5_G :: "u32 \<Rightarrow> u32 \<Rightarrow> u32 \<Rightarrow> u32" where "md5_G x y z = y XOR (z AND (x XOR y))"
definition md5_H :: "u32 \<Rightarrow> u32 \<Rightarrow> u32 \<Rightarrow> u32" where "md5_H x y z = x XOR y XOR z"
definition md5_I :: "u32 \<Rightarrow> u32 \<Rightarrow> u32 \<Rightarrow> u32" where "md5_I x y z = y XOR (x OR NOT z)"

definition md5_k :: "u32 list" where
  "md5_k = concat [
    [0xd76aa478, 0xe8c7b756, 0x242070db, 0xc1bdceee, 0xf57c0faf, 0x4787c62a, 0xa8304613, 0xfd469501],
    [0x698098d8, 0x8b44f7af, 0xffff5bb1, 0x895cd7be, 0x6b901122, 0xfd987193, 0xa679438e, 0x49b40821],
    [0xf61e2562, 0xc040b340, 0x265e5a51, 0xe9b6c7aa, 0xd62f105d, 0x2441453, 0xd8a1e681, 0xe7d3fbc8],
    [0x21e1cde6, 0xc33707d6, 0xf4d50d87, 0x455a14ed, 0xa9e3e905, 0xfcefa3f8, 0x676f02d9, 0x8d2a4c8a],
    [0xfffa3942, 0x8771f681, 0x6d9d6122, 0xfde5380c, 0xa4beea44, 0x4bdecfa9, 0xf6bb4b60, 0xbebfbc70],
    [0x289b7ec6, 0xeaa127fa, 0xd4ef3085, 0x4881d05, 0xd9d4d039, 0xe6db99e5, 0x1fa27cf8, 0xc4ac5665],
    [0xf4292244, 0x432aff97, 0xab9423a7, 0xfc93a039, 0x655b59c3, 0x8f0ccc92, 0xffeff47d, 0x85845dd1],
    [0x6fa87e4f, 0xfe2ce6e0, 0xa3014314, 0x4e0811a1, 0xf7537e82, 0xbd3af235, 0x2ad7d2bb, 0xeb86d391]]"

definition md5_s :: "nat list" where
  "md5_s = [7, 12, 17, 22, 5, 9, 14, 20, 4, 11, 16, 23, 6, 10, 15, 21]"

definition md5_op :: "bytes \<Rightarrow> u32 \<times> u32 \<times> u32 \<times> u32 \<Rightarrow> nat \<Rightarrow> u32 \<times> u32 \<times> u32 \<times> u32" where
  "md5_op x = (\<lambda>(a, b, c, d) i.
     let (f, n, s) = (if i < 16 then (md5_F b c d, i, md5_s ! (i mod 4))
                      else if i < 32 then (md5_G b c d, (5 * i + 1) mod 16, md5_s ! (4 + i mod 4))
                      else if i < 48 then (md5_H b c d, (3 * i + 5) mod 16, md5_s ! (8 + i mod 4))
                      else (md5_I b c d, (7 * i) mod 16, md5_s ! (12 + i mod 4)));
         a' = rol32 (a + (f + le32_at x n + md5_k ! i)) s + b
     in (d, a', b, c))"

definition BRMD5Compress :: "u32 list \<Rightarrow> bytes \<Rightarrow> u32 list" where
  "BRMD5Compress r x =
     (let (a, b, c, d) = foldl (md5_op x) (r ! 0, r ! 1, r ! 2, r ! 3) [0..<64]
      in [r ! 0 + a, r ! 1 + b, r ! 2 + c, r ! 3 + d])"

definition BRMD5 :: "bytes \<Rightarrow> bytes" where
  "BRMD5 data =
     (let buf = [0x67452301, 0xefcdab89, 0x98badcfe, 0x10325476]
      in concat (map UInt32SetLE (hash_final 64 BRMD5Compress (le_bit_length data) data
           (hash_blocks (\<le>) 64 BRMD5Compress data 0 buf (replicate 64 0)))))"

section \<open>Padding\<close>

text \<open>
  The reference: the message is padded to whole blocks first, and the blocks are compressed one
  after the other.
\<close>

function chunks :: "nat \<Rightarrow> 'a list \<Rightarrow> 'a list list" where
  "chunks n xs = (if n = 0 \<or> xs = [] then [] else take n xs # chunks n (drop n xs))"
  by pat_completeness auto
termination
  by (relation "measure (\<lambda>(n, xs). length xs)") auto

declare chunks.simps [simp del]

definition md_padding :: "nat \<Rightarrow> bytes \<Rightarrow> bytes \<Rightarrow> bytes" where
  "md_padding bs bitLen data =
     0x80 # replicate ((bs - (length data + 1 + length bitLen) mod bs) mod bs) 0 @ bitLen"

definition md_hash :: "nat \<Rightarrow> ('r \<Rightarrow> bytes \<Rightarrow> 'r) \<Rightarrow> 'r \<Rightarrow> bytes \<Rightarrow> bytes \<Rightarrow> 'r" where
  "md_hash bs compress iv bitLen data = foldl compress iv (chunks bs (data @ md_padding bs bitLen data))"

lemma chunks_Nil [simp]: "chunks n [] = []"
  by (simp add: chunks.simps)

lemma chunks_block: "length a = n \<Longrightarrow> 0 < n \<Longrightarrow> chunks n (a @ b) = a # chunks n b"
  by (subst chunks.simps) auto

lemma chunks_append: "0 < n \<Longrightarrow> n dvd length a \<Longrightarrow> chunks n (a @ b) = chunks n a @ chunks n b"
proof (induction "length a" arbitrary: a rule: less_induct)
  case less
  show ?case
  proof (cases "a = []")
    case False
    then have le: "n \<le> length a" using less.prems by (auto dest: dvd_imp_le)
    have split: "a = take n a @ drop n a" by simp
    have "chunks n (a @ b) = chunks n (take n a @ (drop n a @ b))" by (metis append_assoc append_take_drop_id)
    also have "\<dots> = take n a # chunks n (drop n a @ b)" using le less.prems(1) by (intro chunks_block) auto
    also have "chunks n (drop n a @ b) = chunks n (drop n a) @ chunks n b"
      using less.prems le by (intro less.hyps) auto
    also have "take n a # chunks n (drop n a) @ chunks n b = chunks n (take n a @ drop n a) @ chunks n b"
      using le less.prems(1) chunks_block [of "take n a" n "drop n a"] by simp
    finally show ?thesis by simp
  qed simp
qed

text \<open>The loop compresses the whole blocks of the message and leaves the rest in \<open>x\<close>.\<close>

lemma hash_blocks_result:
  assumes "0 < bs" "length x = bs" "bs dvd i" "i \<le> length data" "more = (<) \<or> more = (\<le>)"
  shows "\<exists>x'. hash_blocks more bs compress data i buf x =
      (foldl compress buf (chunks bs (take (length data - length data mod bs - i) (drop i data))), x',
       length data - length data mod bs) \<and>
    length x' = bs \<and> take (length data mod bs) x' = drop (length data - length data mod bs) data"
  using assms
proof (induction more bs compress data i buf x rule: hash_blocks.induct)
  case (1 more bs compress data i buf x)
  let ?len = "length data" and ?full = "length data - length data mod bs"
  note prems = "1.prems"
  have dvd: "bs dvd ?full" by (simp add: dvd_minus_mod)
  show ?case
  proof (cases "i + bs \<le> ?len")
    case True
    let ?n = "if i + bs < ?len then bs else ?len - i"
    let ?x = "take ?n (drop i data) @ drop ?n x"
    have x: "?x = take bs (drop i data)" "length ?x = bs" using True prems(2) by auto
    have more: "more i ?len" using True prems(1,5) by auto
    have step: "hash_blocks more bs compress data i buf x = hash_blocks more bs compress data (i + bs) (compress buf ?x) ?x"
      using True more prems(1) by (subst hash_blocks.simps) (simp add: Let_def)
    have le: "i + bs \<le> ?full"
    proof -
      have "(i + bs) div bs * bs \<le> ?len div bs * bs" using True by (intro mult_le_mono1 div_le_mono)
      moreover have "(i + bs) div bs * bs = i + bs" using prems(3) by (intro dvd_div_mult_self) simp
      ultimately show ?thesis by (simp add: minus_mod_eq_div_mult)
    qed
    have "take (?full - i) (drop i data) = take bs (drop i data) @ take (?full - (i + bs)) (drop (i + bs) data)"
    proof -
      have "?full - i = bs + (?full - (i + bs))" using le by linarith
      then show ?thesis by (simp only: take_add drop_drop add.commute)
    qed
    then have "chunks bs (take (?full - i) (drop i data)) = ?x # chunks bs (take (?full - (i + bs)) (drop (i + bs) data))"
      using chunks_block [of "take bs (drop i data)" bs] True prems(1) x(1) by simp
    moreover have "\<exists>x'. hash_blocks more bs compress data (i + bs) (compress buf ?x) ?x =
        (foldl compress (compress buf ?x) (chunks bs (take (?full - (i + bs)) (drop (i + bs) data))), x', ?full) \<and>
        length x' = bs \<and> take (?len mod bs) x' = drop ?full data"
      using prems True more x(2) by (intro "1.IH" [OF refl _ refl refl]) auto
    ultimately show ?thesis unfolding step by simp
  next
    case False
    have "i = ?full"
    proof -
      have "i div bs = ?len div bs"
        using False prems(1,3,4) by (auto elim!: dvdE simp: div_nat_eqI mult.commute intro!: div_nat_eqI [symmetric])
      then show ?thesis using prems(3) by (metis dvd_div_mult_self minus_mod_eq_div_mult)
    qed
    then have r: "?len - i = ?len mod bs" by simp
    show ?thesis
    proof (cases "more i ?len")
      case True
      then have "hash_blocks more bs compress data i buf x = (buf, take (?len - i) (drop i data) @ drop (?len - i) x, i)"
        using False prems(1) by (subst hash_blocks.simps) (simp add: Let_def)
      with \<open>i = ?full\<close> r prems(1,2) show ?thesis by (auto simp: less_imp_le)
    next
      case nomore: False
      then have "hash_blocks more bs compress data i buf x = (buf, x, i)"
        by (subst hash_blocks.simps) (simp add: Let_def)
      moreover have "i = ?len" using nomore prems(4,5) by auto
      ultimately show ?thesis using \<open>i = ?full\<close> r prems(2) by auto
    qed
  qed
qed

lemma hash_final_md:
  assumes bs: "length bitLen < bs" and more: "more = (<) \<or> more = (\<le>)"
  shows "hash_final bs compress bitLen data (hash_blocks more bs compress data 0 buf (replicate bs 0))
    = md_hash bs compress buf bitLen data"
proof -
  let ?len = "length data" and ?ls = "length bitLen"
  let ?full = "?len - ?len mod bs" and ?r = "?len mod bs"
  have bs0: "0 < bs" using bs by linarith
  have r: "?r < bs" using bs0 by simp
  obtain x where loop: "hash_blocks more bs compress data 0 buf (replicate bs 0) =
      (foldl compress buf (chunks bs (take ?full data)), x, ?full)"
    and x: "length x = bs" "take ?r x = drop ?full data"
    using hash_blocks_result [OF bs0 _ _ _ more, of "replicate bs 0" 0 data compress buf] by auto
  let ?buf = "foldl compress buf (chunks bs (take ?full data))"
  have padded: "data @ md_padding bs bitLen data = take ?full data @ (drop ?full data @ md_padding bs bitLen data)"
    by simp
  have "md_hash bs compress buf bitLen data = foldl compress ?buf (chunks bs (drop ?full data @ md_padding bs bitLen data))"
    unfolding md_hash_def padded using bs0 by (subst chunks_append) (auto simp: dvd_minus_mod)
  also have "\<dots> = hash_final bs compress bitLen data (?buf, x, ?full)"
  proof -
    have lr: "?len - ?full = ?r" by simp
    have x1: "(take ?r x @ replicate (bs - ?r) 0)[?r := 0x80] = drop ?full data @ 0x80 # replicate (bs - ?r - 1) 0"
    proof -
      have "replicate (bs - ?r) (0 :: u8) = 0 # replicate (bs - ?r - 1) 0"
        using r by (cases "bs - ?r") auto
      then show ?thesis using x by (simp add: list_update_append)
    qed
    show ?thesis
    proof (cases "?r < bs - ?ls")
      case True
      have mod_eq: "(?len + 1 + ?ls) mod bs = (?r + 1 + ?ls) mod bs"
        using mod_add_left_eq [of ?len bs "1 + ?ls"] by (simp add: add.assoc)
      have z: "(bs - (?len + 1 + ?ls) mod bs) mod bs = bs - ?ls - ?r - 1"
      proof (cases "?r + 1 + ?ls = bs")
        case eq: True
        then show ?thesis unfolding mod_eq by simp
      next
        case False
        then have "?r + 1 + ?ls < bs" using True by linarith
        then show ?thesis unfolding mod_eq by simp
      qed
      have pad: "md_padding bs bitLen data = 0x80 # replicate (bs - ?ls - ?r - 1) 0 @ bitLen"
        by (simp only: md_padding_def z)
      have take: "take (bs - ?ls) (drop ?full data @ 0x80 # replicate (bs - ?r - 1) 0)
          = drop ?full data @ 0x80 # replicate (bs - ?ls - ?r - 1) 0"
        using True r by (cases "bs - ?ls - ?r") (auto simp: take_append)
      have one: "drop ?full data @ md_padding bs bitLen data
          = take (bs - ?ls) (drop ?full data @ 0x80 # replicate (bs - ?r - 1) 0) @ bitLen"
        unfolding pad take by simp
      have "length (drop ?full data @ md_padding bs bitLen data) = bs" using True bs by (simp add: pad lr)
      then have "chunks bs (drop ?full data @ md_padding bs bitLen data) = [drop ?full data @ md_padding bs bitLen data]"
        using chunks_block [of "drop ?full data @ md_padding bs bitLen data" bs "[]"] bs0 by simp
      then show ?thesis using True by (simp add: hash_final_def Let_def lr x1 one)
    next
      case False
      have "(?len + 1 + ?ls) mod bs = (?r + 1 + ?ls) mod bs"
        using mod_add_left_eq [of ?len bs "1 + ?ls"] by (simp add: add.assoc)
      also have "\<dots> = ?r + 1 + ?ls - bs"
      proof -
        have "bs \<le> ?r + 1 + ?ls" "?r + 1 + ?ls - bs < bs" using False bs r by linarith+
        then show ?thesis by (metis le_mod_geq mod_less)
      qed
      finally have mod_eq: "(?len + 1 + ?ls) mod bs = ?r + 1 + ?ls - bs" .
      have "bs - (?r + 1 + ?ls - bs) = (bs - ?r - 1) + (bs - ?ls)" "(bs - ?r - 1) + (bs - ?ls) < bs"
        using False bs r by linarith+
      then have z: "(bs - (?len + 1 + ?ls) mod bs) mod bs = (bs - ?r - 1) + (bs - ?ls)"
        unfolding mod_eq by simp
      have pad: "md_padding bs bitLen data = 0x80 # replicate ((bs - ?r - 1) + (bs - ?ls)) 0 @ bitLen"
        by (simp only: md_padding_def z)
      have two: "drop ?full data @ md_padding bs bitLen data
          = (drop ?full data @ 0x80 # replicate (bs - ?r - 1) 0) @ (replicate (bs - ?ls) 0 @ bitLen)"
        unfolding pad by (simp add: replicate_add)
      have fill: "Suc (?r + (bs - Suc ?r)) = bs" using r by linarith
      have "chunks bs (drop ?full data @ md_padding bs bitLen data)
          = [drop ?full data @ 0x80 # replicate (bs - ?r - 1) 0, replicate (bs - ?ls) 0 @ bitLen]"
        unfolding two using fill bs bs0 chunks_block [of "replicate (bs - ?ls) 0 @ bitLen" bs "[]"]
        by (subst chunks_block) (auto simp: lr)
      then show ?thesis using False by (simp add: hash_final_def Let_def lr x1)
    qed
  qed
  finally show ?thesis by (simp add: loop)
qed

lemma be_bit_length_64: "be_bit_length data = UInt64SetBE (8 * of_nat (length data))"
proof -
  have "ucast (drop_bit 29 w) = (ucast (drop_bit 32 (push_bit 3 w)) :: u32)" for w :: u64
    by (rule bit_word_eqI) (auto simp: bit_simps)
  moreover have "8 * w = push_bit 3 w" for w :: u64
    by (simp add: push_bit_eq_mult)
  moreover have "UInt32SetBE (ucast (drop_bit 32 w)) @ UInt32SetBE (ucast w) = UInt64SetBE w" for w :: u64
    by (simp add: UInt32SetBE_def UInt64SetBE_def, intro conjI; rule bit_word_eqI; auto simp: bit_simps)
  ultimately show ?thesis by (simp add: be_bit_length_def Let_def)
qed

lemma le_bit_length_64: "le_bit_length data = UInt64SetLE (8 * of_nat (length data))"
proof -
  have "ucast (drop_bit 29 w) = (ucast (drop_bit 32 (push_bit 3 w)) :: u32)" for w :: u64
    by (rule bit_word_eqI) (auto simp: bit_simps)
  moreover have "8 * w = push_bit 3 w" for w :: u64
    by (simp add: push_bit_eq_mult)
  moreover have "UInt32SetLE (ucast w) @ UInt32SetLE (ucast (drop_bit 32 w)) = UInt64SetLE w" for w :: u64
    by (simp add: UInt32SetLE_def UInt64SetLE_def, intro conjI; rule bit_word_eqI; auto simp: bit_simps)
  ultimately show ?thesis by (simp add: le_bit_length_def Let_def)
qed

section \<open>Keccak\<close>

text \<open>
  The reference, with lane \<open>(x, y)\<close> at index \<open>x + 5 y\<close>: the rotation offsets are the triangular
  numbers along the walk \<open>(x, y) \<rightarrow> (y, 2 x + 3 y)\<close> from \<open>(1, 0)\<close>, every step takes a whole new state.
\<close>

fun keccak_walk :: "nat \<Rightarrow> nat \<times> nat" where
  "keccak_walk 0 = (1, 0)"
| "keccak_walk (Suc t) = (let (x, y) = keccak_walk t in (y, (2 * x + 3 * y) mod 5))"

definition keccak_offset :: "nat \<Rightarrow> nat" where
  "keccak_offset i =
     (if i = 0 then 0
      else let t = length (takeWhile (\<lambda>t. fst (keccak_walk t) + 5 * snd (keccak_walk t) \<noteq> i) [0..<24])
           in (t + 1) * (t + 2) div 2 mod 64)"

definition keccak_theta :: "u64 list \<Rightarrow> u64 list" where
  "keccak_theta A =
     (let C = (\<lambda>x. A ! x XOR A ! (x + 5) XOR A ! (x + 10) XOR A ! (x + 15) XOR A ! (x + 20));
          D = (\<lambda>x. word_rotl 1 (C ((x + 1) mod 5)) XOR C ((x + 4) mod 5))
      in map (\<lambda>i. A ! i XOR D (i mod 5)) [0..<25])"

definition keccak_rho_pi :: "u64 list \<Rightarrow> u64 list" where
  "keccak_rho_pi A =
     map (\<lambda>i. let x = i mod 5; y = i div 5; j = (x + 3 * y) mod 5 + 5 * x in word_rotl (keccak_offset j) (A ! j)) [0..<25]"

definition keccak_chi :: "u64 list \<Rightarrow> u64 list" where
  "keccak_chi A =
     map (\<lambda>i. let x = i mod 5; y = i div 5
              in A ! i XOR (NOT (A ! ((x + 1) mod 5 + 5 * y)) AND A ! ((x + 2) mod 5 + 5 * y))) [0..<25]"

definition keccak_iota :: "u64 \<Rightarrow> u64 list \<Rightarrow> u64 list" where
  "keccak_iota k A = A[0 := A ! 0 XOR k]"

definition keccak_padding :: "u8 \<Rightarrow> nat \<Rightarrow> bytes" where
  "keccak_padding p n = (let q = 136 - n mod 136 in if q = 1 then [p OR 0x80] else p # replicate (q - 2) 0 @ [0x80])"

lemma length25:
  assumes "length r = 25"
  obtains r0 r1 r2 r3 r4 r5 r6 r7 r8 r9 r10 r11 r12 r13 r14 r15 r16 r17 r18 r19 r20 r21 r22 r23 r24 where
    "r = [r0, r1, r2, r3, r4, r5, r6, r7, r8, r9, r10, r11, r12, r13, r14, r15, r16, r17, r18, r19, r20, r21, r22, r23, r24]"
proof -
  have "r = map (\<lambda>i. r ! i) [0..<25]" using assms by (metis map_nth)
  then show thesis by (intro that) (simp add: upt_rec)
qed

lemma rol64_rotl:
  assumes "0 < b" "b < 64"
  shows "rol64 a b = word_rotl b a"
proof (rule bit_word_eqI)
  fix n assume "n < LENGTH(64)"
  then have n: "n < 64" by simp
  have rot: "bit (word_rotl b a) n = bit a ((n + 64 - b) mod 64)"
    using n assms by (simp add: bit_word_rotl_iff)
  have rol: "bit (rol64 a b) n = ((b \<le> n \<and> bit a (n - b)) \<noteq> bit a (64 + n - b))"
    using n assms by (auto simp: rol64_def bit_simps)
  show "bit (rol64 a b) n = bit (word_rotl b a) n"
  proof (cases "b \<le> n")
    case True
    then have "\<not> bit a (64 + n - b)" using bit_imp_le_length [of a "64 + n - b"] by auto
    moreover have "(n + 64 - b) mod 64 = n - b"
    proof -
      have "(n + 64 - b) mod 64 = ((n - b) + 64) mod 64" using True by (intro arg_cong [of _ _ "\<lambda>k. k mod 64"]) simp
      also have "\<dots> = (n - b) mod 64" by (rule mod_add_self2)
      finally show ?thesis using n by simp
    qed
    ultimately show ?thesis using True by (simp add: rol rot)
  next
    case False
    then have "(n + 64 - b) mod 64 = 64 + n - b" using assms by simp
    with False show ?thesis by (simp add: rol rot)
  qed
qed

lemma rotl_0: "word_rotl 0 (a :: u64) = a"
  by (rule bit_word_eqI) (simp add: bit_word_rotl_iff)

lemma keccak_offsets:
  "map keccak_offset [0..<25] =
    [0, 1, 62, 28, 27, 36, 44, 6, 55, 20, 3, 10, 43, 25, 39, 41, 45, 15, 21, 8, 18, 2, 61, 56, 14]"
  by code_simp

lemma keccak_offset_nth: "i < 25 \<Longrightarrow> keccak_offset i =
    [0, 1, 62, 28, 27, 36, 44, 6, 55, 20, 3, 10, 43, 25, 39, 41, 45, 15, 21, 8, 18, 2, 61, 56, 14] ! i"
  using arg_cong [OF keccak_offsets, of "\<lambda>xs. xs ! i"] by simp

lemma sha3_theta_keccak: "length r = 25 \<Longrightarrow> sha3_theta r = keccak_theta r"
  by (elim length25) (simp add: sha3_theta_def keccak_theta_def rol64_rotl Let_def upt_rec)

lemma sha3_rho_pi_keccak: "length r = 25 \<Longrightarrow> sha3_pi (sha3_rho r) = keccak_rho_pi r"
  by (elim length25)
    (simp add: sha3_pi_def sha3_rho_def keccak_rho_pi_def keccak_offset_nth rol64_rotl rotl_0 Let_def upt_rec)

lemma sha3_chi_keccak: "length r = 25 \<Longrightarrow> foldl sha3_chi_row r [0, 5, 10, 15, 20] = keccak_chi r"
  by (elim length25) (simp add: sha3_chi_row_def keccak_chi_def Let_def upt_rec)

lemma length_keccak [simp]:
  "length (keccak_theta r) = 25" "length (keccak_rho_pi r) = 25" "length (keccak_chi r) = 25"
  by (simp_all add: keccak_theta_def keccak_rho_pi_def keccak_chi_def Let_def)

lemma padding_bytes:
  assumes "length d = r"
  shows "((d @ 0 # replicate k 0 @ [0])[r := (d @ 0 # replicate k 0 @ [0]) ! r OR p])
      [r + Suc k := ((d @ 0 # replicate k 0 @ [0])[r := (d @ 0 # replicate k 0 @ [0]) ! r OR p]) ! (r + Suc k) OR 0x80]
    = d @ p # replicate k 0 @ [0x80 :: u8]"
  using assms by (simp add: list_update_append nth_append)

lemma sha3_final_padding:
  "sha3_final p data (hash_blocks (\<le>) 136 (BRSHA3Compress 136) data 0 buf (replicate 136 0))
    = foldl (BRSHA3Compress 136) buf (chunks 136 (data @ keccak_padding p (length data)))"
proof -
  let ?r = "length data mod 136" and ?full = "length data - length data mod 136"
  have r: "?r < 136" by simp
  obtain x where loop: "hash_blocks (\<le>) 136 (BRSHA3Compress 136) data 0 buf (replicate 136 0) =
      (foldl (BRSHA3Compress 136) buf (chunks 136 (take ?full data)), x, ?full)"
    and x: "length x = 136" "take ?r x = drop ?full data"
    using hash_blocks_result [of 136 "replicate 136 0" 0 data "(\<le>)" "BRSHA3Compress 136" buf] by auto
  have lr: "length data - ?full = ?r" by simp
  let ?d = "drop ?full data" and ?q = "136 - ?r"
  have last: "((?d @ replicate ?q 0)[?r := (?d @ replicate ?q 0) ! ?r OR p])
        [135 := ((?d @ replicate ?q 0)[?r := (?d @ replicate ?q 0) ! ?r OR p]) ! 135 OR 0x80]
      = ?d @ keccak_padding p (length data)"
  proof (cases "?q = 1")
    case True
    then have "?r = 135" using r by linarith
    with True show ?thesis by (simp add: keccak_padding_def list_update_append nth_append)
  next
    case False
    then obtain k where k: "?q = Suc (Suc k)" using r by (cases ?q; cases "?q - 1") auto
    have zeros: "replicate ?q (0 :: u8) = 0 # replicate k 0 @ [0]"
      by (simp add: k replicate_append_same)
    have at: "135 = ?r + Suc k" using k r by linarith
    have len: "length ?d = ?r" by simp
    have "?d @ keccak_padding p (length data) = ?d @ p # replicate k 0 @ [0x80]"
      using k by (simp add: keccak_padding_def Let_def)
    then show ?thesis unfolding zeros at by (simp only: padding_bytes [OF len])
  qed
  have "length (?d @ keccak_padding p (length data)) = 136"
    unfolding last [symmetric] using r by (simp add: lr)
  then have "chunks 136 (?d @ keccak_padding p (length data)) = [?d @ keccak_padding p (length data)]"
    using chunks_block [of "?d @ keccak_padding p (length data)" 136 "[]"] by simp
  moreover have "chunks 136 (data @ keccak_padding p (length data))
      = chunks 136 (take ?full data) @ chunks 136 (?d @ keccak_padding p (length data))"
    using chunks_append [of 136 "take ?full data" "?d @ keccak_padding p (length data)"]
    by (simp add: dvd_minus_mod flip: append_assoc)
  ultimately show ?thesis by (simp add: sha3_final_def loop Let_def lr x last)
qed

section \<open>Digest lengths\<close>

lemma length_concat_map: "(\<And>x. length (f x) = n) \<Longrightarrow> length (concat (map f xs)) = n * length xs"
  by (induction xs) auto

lemma length_md_hash: "length iv = n \<Longrightarrow> (\<And>r x. length (compress r x) = n) \<Longrightarrow> length (md_hash bs compress iv l data) = n"
proof -
  assume len: "length iv = n" "\<And>r x. length (compress r x) = n"
  have "length (foldl compress iv xs) = n" for xs
    using len by (induction xs rule: rev_induct) auto
  then show ?thesis by (simp add: md_hash_def)
qed

lemma length_compress [simp]:
  "length (BRSHA256Compress r x) = 8" "length (BRRMDCompress r x) = 5" "length (BRSHA512Compress q x) = 8"
  by (simp_all add: BRSHA256Compress_def BRRMDCompress_def BRSHA512Compress_def split_beta Let_def)

lemma length_BRSHA256 [simp]: "length (BRSHA256 data) = 32"
  by (simp add: BRSHA256_def hash_final_md be_bit_length_64 length_md_hash length_concat_map)

lemma length_BRSHA256_2 [simp]: "length (BRSHA256_2 data) = 32"
  by (simp add: BRSHA256_2_def)

lemma length_BRSHA512 [simp]: "length (BRSHA512 data) = 64"
  by (simp add: BRSHA512_def hash_final_md be_bit_length128_def length_md_hash length_concat_map)

lemma length_BRRMD160 [simp]: "length (BRRMD160 data) = 20"
  by (simp add: BRRMD160_def hash_final_md le_bit_length_64 length_md_hash length_concat_map)

lemma length_BRHash160 [simp]: "length (BRHash160 data) = 20"
  by (simp add: BRHash160_def)

section \<open>Properties\<close>

text \<open>
  Every SHA-1, SHA-2, RIPEMD-160 and MD5 hash of the file is the Merkle-Damgard hash of its
  compression function: the loop over the message and its padded last block, which goes to one or
  two blocks, compress exactly the blocks of the message padded with \<open>0x80\<close>, zeros and the length
  in bits. This holds for messages of every length, whole blocks and none included.
\<close>

theorem hashes_pad:
  "BRSHA1 data = concat (map UInt32SetBE (md_hash 64 BRSHA1Compress
     [0x67452301, 0xefcdab89, 0x98badcfe, 0x10325476, 0xc3d2e1f0] (UInt64SetBE (8 * of_nat (length data))) data)) \<and>
   BRSHA224 data = concat (map UInt32SetBE (take 7 (md_hash 64 BRSHA256Compress
     [0xc1059ed8, 0x367cd507, 0x3070dd17, 0xf70e5939, 0xffc00b31, 0x68581511, 0x64f98fa7, 0xbefa4fa4]
     (UInt64SetBE (8 * of_nat (length data))) data))) \<and>
   BRSHA256 data = concat (map UInt32SetBE (md_hash 64 BRSHA256Compress
     [0x6a09e667, 0xbb67ae85, 0x3c6ef372, 0xa54ff53a, 0x510e527f, 0x9b05688c, 0x1f83d9ab, 0x5be0cd19]
     (UInt64SetBE (8 * of_nat (length data))) data)) \<and>
   BRSHA384 data = concat (map UInt64SetBE (take 6 (md_hash 128 BRSHA512Compress
     [0xcbbb9d5dc1059ed8, 0x629a292a367cd507, 0x9159015a3070dd17, 0x152fecd8f70e5939,
      0x67332667ffc00b31, 0x8eb44a8768581511, 0xdb0c2e0d64f98fa7, 0x47b5481dbefa4fa4]
     (UInt64SetBE 0 @ UInt64SetBE (8 * of_nat (length data))) data))) \<and>
   BRSHA512 data = concat (map UInt64SetBE (md_hash 128 BRSHA512Compress
     [0x6a09e667f3bcc908, 0xbb67ae8584caa73b, 0x3c6ef372fe94f82b, 0xa54ff53a5f1d36f1,
      0x510e527fade682d1, 0x9b05688c2b3e6c1f, 0x1f83d9abfb41bd6b, 0x5be0cd19137e2179]
     (UInt64SetBE 0 @ UInt64SetBE (8 * of_nat (length data))) data)) \<and>
   BRRMD160 data = concat (map UInt32SetLE (md_hash 64 BRRMDCompress
     [0x67452301, 0xefcdab89, 0x98badcfe, 0x10325476, 0xc3d2e1f0] (UInt64SetLE (8 * of_nat (length data))) data)) \<and>
   BRMD5 data = concat (map UInt32SetLE (md_hash 64 BRMD5Compress
     [0x67452301, 0xefcdab89, 0x98badcfe, 0x10325476] (UInt64SetLE (8 * of_nat (length data))) data))"
  by (simp add: BRSHA1_def BRSHA224_def BRSHA256_def BRSHA384_def BRSHA512_def BRRMD160_def BRMD5_def
      be_bit_length_64 le_bit_length_64 be_bit_length128_def hash_final_md mult.commute)

text \<open>
  \<open>BRKeccak256\<close> and \<open>BRSHA3_256\<close> are sponges over the padded message (domain bits \<open>01\<close> and
  \<open>06\<close>), and the permutation the C code computes in place, with its unrolled rotations and the
  25-step assignment cycle, is theta, rho, pi, chi and iota of the Keccak specification, each of
  which takes a whole new state from the old one.
\<close>

theorem keccak_sponge:
  "BRKeccak256 data = concat (map UInt64SetLE (take 4 (foldl (BRSHA3Compress 136) (replicate 25 0)
     (chunks 136 (data @ keccak_padding 0x01 (length data)))))) \<and>
   BRSHA3_256 data = concat (map UInt64SetLE (take 4 (foldl (BRSHA3Compress 136) (replicate 25 0)
     (chunks 136 (data @ keccak_padding 0x06 (length data)))))) \<and>
   BRSHA3Compress 136 r x = foldl (\<lambda>A k. keccak_iota k (keccak_chi (keccak_rho_pi (keccak_theta A))))
     (map (\<lambda>i. if i < 17 then r ! i XOR le64_at x i else r ! i) [0..<25]) sha3_k"
proof -
  have round: "foldl sha3_round r ks = foldl (\<lambda>A k. keccak_iota k (keccak_chi (keccak_rho_pi (keccak_theta A)))) r ks"
    if "length r = 25" for r ks
    using that
  proof (induction ks arbitrary: r)
    case (Cons k ks)
    have "sha3_round r k = keccak_iota k (keccak_chi (keccak_rho_pi (keccak_theta r)))"
      using Cons.prems
      by (simp only: sha3_round_def sha3_theta_keccak sha3_rho_pi_keccak sha3_chi_keccak length_keccak keccak_iota_def Let_def)
    moreover from Cons.prems have "length (sha3_round r k) = 25" unfolding calculation by (simp add: keccak_iota_def)
    ultimately show ?case using Cons.IH [of "sha3_round r k"] by simp
  qed simp
  have "BRSHA3Compress 136 r x = foldl (\<lambda>A k. keccak_iota k (keccak_chi (keccak_rho_pi (keccak_theta A))))
     (map (\<lambda>i. if i < 17 then r ! i XOR le64_at x i else r ! i) [0..<25]) sha3_k"
    unfolding BRSHA3Compress_def by (subst round) simp_all
  then show ?thesis unfolding BRKeccak256_def BRSHA3_256_def sha3_final_padding by blast
qed

end
