(* ===== verification/BRSet.thy ===== *)
theory BRSet
  imports Prelude "HOL-Library.Multiset"
begin

text \<open>
  The hash set of \<open>support/BRSet.c\<close>: open addressing with linear probing, deletion by
  re-inserting the rest of the cluster, and growth at load factor 2/3. Items are the pointers the C
  code stores: HOL equality on items is pointer equality, \<open>hashf\<close> and \<open>eqf\<close> are the two function
  pointers of the struct.

  The probe loops of the C code end only if they meet an empty bucket or an equal item, so the
  operations return an option: \<open>None\<close> is a probe that never ends, or a table that could not be
  allocated because the list of table sizes is exhausted. The theorems show that this does not
  happen for the sets the code builds.
\<close>

section \<open>The structure\<close>

record 'a BRSet =
  table :: "'a option list"
  itemCount :: nat
  hashf :: "'a \<Rightarrow> u64"
  eqf :: "'a \<Rightarrow> 'a \<Rightarrow> bool"

definition tableSizes :: "nat list" where
  "tableSizes = [
    1, 3, 7, 13, 23, 37, 59, 97, 149, 227, 347, 523, 787, 1187, 1783, 2677, 4019, 6037, 9059, 13591,
    20389, 30593, 45887, 68863, 103307, 154981, 232487, 348739, 523129, 784697, 1177067, 1765609,
    2648419, 3972643, 5958971, 8938469, 13407707, 20111563, 30167359, 45251077, 67876637, 101814991,
    152722489, 229083739, 343625629, 515438447, 773157683, 1159736527, 1739604799, 2609407319, 3914111041]"

definition TABLE_SIZES_LEN :: nat where
  "TABLE_SIZES_LEN = length tableSizes"

text \<open>\<open>_BRSetInit\<close>: the table is left unset when there is no larger size.\<close>

definition BRSetInit :: "('a \<Rightarrow> u64) \<Rightarrow> ('a \<Rightarrow> 'a \<Rightarrow> bool) \<Rightarrow> nat \<Rightarrow> 'a BRSet option" where
  "BRSetInit hash eq capacity =
     (let i = length (takeWhile (\<lambda>s. s < capacity) tableSizes)
      in if i + 1 < TABLE_SIZES_LEN
         then Some \<lparr>table = replicate (tableSizes ! (i + 1)) None, itemCount = 0, hashf = hash, eqf = eq\<rparr>
         else None)"

definition BRSetNew :: "('a \<Rightarrow> u64) \<Rightarrow> ('a \<Rightarrow> 'a \<Rightarrow> bool) \<Rightarrow> nat \<Rightarrow> 'a BRSet option" where
  "BRSetNew hash eq capacity = BRSetInit hash eq capacity"

section \<open>Operations\<close>

text \<open>
  The probe loop: from bucket \<open>i\<close> on, the first bucket that is empty or whose item is \<open>item\<close> or
  equal to it. After \<open>size\<close> buckets without success the C loop is back where it started and never
  ends.
\<close>

definition matches :: "'a BRSet \<Rightarrow> 'a \<Rightarrow> 'a \<Rightarrow> bool" where
  "matches st item t \<longleftrightarrow> t = item \<or> eqf st t item"

fun probe :: "'a option list \<Rightarrow> ('a \<Rightarrow> bool) \<Rightarrow> nat \<Rightarrow> nat \<Rightarrow> nat option" where
  "probe tbl found 0 i = None"
| "probe tbl found (Suc fuel) i =
     (case tbl ! i of
        None \<Rightarrow> Some i
      | Some t \<Rightarrow> if found t then Some i else probe tbl found fuel ((i + 1) mod length tbl))"

definition bucket :: "'a BRSet \<Rightarrow> 'a \<Rightarrow> nat option" where
  "bucket st item =
     (let size = length (table st)
      in probe (table st) (matches st item) size (unat (hashf st item) mod size))"

text \<open>The items of a table in bucket order, and a loop over them that may fail.\<close>

fun table_items :: "'a option list \<Rightarrow> 'a list" where
  "table_items [] = []"
| "table_items (None # ts) = table_items ts"
| "table_items (Some t # ts) = t # table_items ts"

fun fold_option :: "('s \<Rightarrow> 'a \<Rightarrow> 's option) \<Rightarrow> 's \<Rightarrow> 'a list \<Rightarrow> 's option" where
  "fold_option f s [] = Some s"
| "fold_option f s (x # xs) = (case f s x of None \<Rightarrow> None | Some s' \<Rightarrow> fold_option f s' xs)"

text \<open>
  \<open>BRSetAdd\<close> calls \<open>_BRSetGrow\<close>, which fills a larger table with \<open>BRSetUnion\<close> and so with
  \<open>BRSetAdd\<close> again. Each nested growth takes the next of the 51 table sizes, which bounds the
  depth. The result is the set and the item replaced, if any.
\<close>

fun set_add :: "nat \<Rightarrow> 'a BRSet \<Rightarrow> 'a \<Rightarrow> ('a BRSet \<times> 'a option) option" where
  "set_add 0 st item = None"
| "set_add (Suc depth) st item =
     (case bucket st item of
        None \<Rightarrow> None
      | Some i \<Rightarrow>
        let size = length (table st);
            t = table st ! i;
            st' = st\<lparr>itemCount := (if t = None then itemCount st + 1 else itemCount st),
                       table := (table st)[i := Some item]\<rparr>
        in if itemCount st' > ((size + 2) div 3) * 2 then
             (case BRSetInit (hashf st') (eqf st') size of
                None \<Rightarrow> None
              | Some newSet \<Rightarrow>
                  (case fold_option (\<lambda>s x. map_option fst (set_add depth s x)) newSet (table_items (table st')) of
                     None \<Rightarrow> None
                   | Some grown \<Rightarrow> Some (st'\<lparr>table := table grown, itemCount := itemCount grown\<rparr>, t)))
           else Some (st', t))"

definition BRSetAdd :: "'a BRSet \<Rightarrow> 'a \<Rightarrow> ('a BRSet \<times> 'a option) option" where
  "BRSetAdd st item = set_add TABLE_SIZES_LEN st item"

text \<open>
  \<open>BRSetRemove\<close>: empty the bucket, then take out and add again every item of the cluster that
  follows. The cleanup loop is given \<open>size\<close> rounds.
\<close>

fun set_cleanup :: "nat \<Rightarrow> nat \<Rightarrow> nat \<Rightarrow> 'a BRSet \<Rightarrow> 'a BRSet option" where
  "set_cleanup sz 0 i st = None"
| "set_cleanup sz (Suc fuel) i st =
     (case table st ! i of
        None \<Rightarrow> Some st
      | Some t \<Rightarrow>
          (case BRSetAdd (st\<lparr>itemCount := itemCount st - 1, table := (table st)[i := None]\<rparr>) t of
             None \<Rightarrow> None
           | Some (st', _) \<Rightarrow> set_cleanup sz fuel ((i + 1) mod sz) st'))"

definition BRSetRemove :: "'a BRSet \<Rightarrow> 'a \<Rightarrow> ('a BRSet \<times> 'a option) option" where
  "BRSetRemove st item =
     (case bucket st item of
        None \<Rightarrow> None
      | Some i \<Rightarrow>
        let size = length (table st); r = table st ! i
        in if r = None then Some (st, None)
           else map_option (\<lambda>st'. (st', r))
                  (set_cleanup size size ((i + 1) mod size)
                    (st\<lparr>itemCount := itemCount st - 1, table := (table st)[i := None]\<rparr>)))"

definition BRSetClear :: "'a BRSet \<Rightarrow> 'a BRSet" where
  "BRSetClear st = st\<lparr>table := replicate (length (table st)) None, itemCount := 0\<rparr>"

definition BRSetCount :: "'a BRSet \<Rightarrow> nat" where
  "BRSetCount st = itemCount st"

definition BRSetGet :: "'a BRSet \<Rightarrow> 'a \<Rightarrow> 'a option option" where
  "BRSetGet st item = map_option (\<lambda>i. table st ! i) (bucket st item)"

definition BRSetContains :: "'a BRSet \<Rightarrow> 'a \<Rightarrow> bool option" where
  "BRSetContains st item = map_option (\<lambda>r. r \<noteq> None) (BRSetGet st item)"

fun set_intersects :: "'a BRSet \<Rightarrow> 'a list \<Rightarrow> bool option" where
  "set_intersects st [] = Some False"
| "set_intersects st (t # ts) =
     (case BRSetGet st t of None \<Rightarrow> None | Some (Some r) \<Rightarrow> Some True | Some None \<Rightarrow> set_intersects st ts)"

definition BRSetIntersects :: "'a BRSet \<Rightarrow> 'a BRSet \<Rightarrow> bool option" where
  "BRSetIntersects st otherSet = set_intersects st (table_items (table otherSet))"

text \<open>\<open>BRSetIterate\<close>: the first item in a bucket from \<open>i\<close> on, after the bucket of \<open>previous\<close>.\<close>

definition BRSetIterate :: "'a BRSet \<Rightarrow> 'a option \<Rightarrow> 'a option option" where
  "BRSetIterate st previous =
     (let next_from = (\<lambda>i. case table_items (drop i (table st)) of [] \<Rightarrow> None | r # _ \<Rightarrow> Some r)
      in case previous of
           None \<Rightarrow> Some (next_from 0)
         | Some p \<Rightarrow> map_option (\<lambda>i. next_from (i + 1)) (bucket st p))"

definition BRSetAll :: "'a BRSet \<Rightarrow> nat \<Rightarrow> 'a list" where
  "BRSetAll st cnt = take cnt (table_items (table st))"

definition BRSetApply :: "('s \<Rightarrow> 'a \<Rightarrow> 's) \<Rightarrow> 's \<Rightarrow> 'a BRSet \<Rightarrow> 's" where
  "BRSetApply app info st = foldl app info (table_items (table st))"

definition BRSetUnion :: "'a BRSet \<Rightarrow> 'a BRSet \<Rightarrow> 'a BRSet option" where
  "BRSetUnion st otherSet =
     fold_option (\<lambda>s t. map_option fst (BRSetAdd s t)) st (table_items (table otherSet))"

definition BRSetMinus :: "'a BRSet \<Rightarrow> 'a BRSet \<Rightarrow> 'a BRSet option" where
  "BRSetMinus st otherSet =
     fold_option (\<lambda>s t. map_option fst (BRSetRemove s t)) st (table_items (table otherSet))"

text \<open>
  \<open>BRSetIntersect\<close> stays on a bucket whose item it removed, since the cleanup may have moved another
  item there. Every round passes a bucket or removes an item, which bounds the rounds.
\<close>

fun set_intersect_loop :: "nat \<Rightarrow> nat \<Rightarrow> 'a BRSet \<Rightarrow> 'a BRSet \<Rightarrow> 'a BRSet option" where
  "set_intersect_loop 0 i st otherSet = None"
| "set_intersect_loop (Suc fuel) i st otherSet =
     (if i < length (table st) then
        (case table st ! i of
           None \<Rightarrow> set_intersect_loop fuel (i + 1) st otherSet
         | Some t \<Rightarrow>
             (case BRSetContains otherSet t of
                None \<Rightarrow> None
              | Some True \<Rightarrow> set_intersect_loop fuel (i + 1) st otherSet
              | Some False \<Rightarrow>
                  (case BRSetRemove st t of
                     None \<Rightarrow> None
                   | Some (st', _) \<Rightarrow> set_intersect_loop fuel i st' otherSet)))
      else Some st)"

definition BRSetIntersect :: "'a BRSet \<Rightarrow> 'a BRSet \<Rightarrow> 'a BRSet option" where
  "BRSetIntersect st otherSet = set_intersect_loop (length (table st) + itemCount st + 1) 0 st otherSet"

section \<open>Probing\<close>

definition stops :: "'a option list \<Rightarrow> ('a \<Rightarrow> bool) \<Rightarrow> nat \<Rightarrow> bool" where
  "stops tbl found k \<longleftrightarrow> (case tbl ! k of None \<Rightarrow> True | Some t \<Rightarrow> found t)"

lemma probe_finds:
  assumes "i < length tbl" "\<And>e. e < d \<Longrightarrow> \<not> stops tbl found ((i + e) mod length tbl)"
    "stops tbl found ((i + d) mod length tbl)" "d < fuel"
  shows "probe tbl found fuel i = Some ((i + d) mod length tbl)"
  using assms
proof (induction d arbitrary: i fuel)
  case 0
  then obtain f where "fuel = Suc f" by (cases fuel) auto
  with 0 show ?case by (auto simp: stops_def split: option.splits)
next
  case (Suc d)
  then obtain f where f: "fuel = Suc f" by (cases fuel) auto
  have "\<not> stops tbl found i" using Suc.prems(1) Suc.prems(2) [of 0] by simp
  moreover have "probe tbl found f ((i + 1) mod length tbl) = Some (((i + 1) mod length tbl + d) mod length tbl)"
  proof (rule Suc.IH)
    show "(i + 1) mod length tbl < length tbl" using Suc.prems(1) by (intro mod_less_divisor) linarith
    show "\<not> stops tbl found (((i + 1) mod length tbl + e) mod length tbl)" if "e < d" for e
      using Suc.prems(2) [of "Suc e"] that by (simp add: mod_add_left_eq)
    show "stops tbl found (((i + 1) mod length tbl + d) mod length tbl)"
      using Suc.prems(3) by (simp add: mod_add_left_eq)
    show "d < f" using Suc.prems(4) f by simp
  qed
  ultimately show ?case
    by (auto simp: f stops_def mod_add_left_eq split: option.splits)
qed

lemma cyclic_offset: "i < n \<Longrightarrow> k < n \<Longrightarrow> \<exists>d < n. (i + d) mod n = (k :: nat)"
proof -
  assume "i < n" "k < n"
  then have "(i + (k + n - i) mod n) mod n = k" by (simp add: mod_add_right_eq)
  with \<open>k < n\<close> show ?thesis by (intro exI [of _ "(k + n - i) mod n"]) simp
qed

lemma cyclic_offset_inj: "(i + d) mod n = (i + e) mod n \<Longrightarrow> d < n \<Longrightarrow> e < n \<Longrightarrow> d = (e :: nat)"
proof -
  have *: "d = e" if "(i + d) mod n = (i + e) mod n" "d < n" "e < n" "d \<le> e" for d e
  proof -
    from that obtain q where "i + e = i + d + n * q"
      using mod_eq_nat1E [of "i + e" n "i + d"] by (metis add_le_cancel_left)
    with that show ?thesis by (cases q) auto
  qed
  assume "(i + d) mod n = (i + e) mod n" "d < n" "e < n"
  then show ?thesis using * [of d e] * [of e d] by (cases "d \<le> e") auto
qed

lemma first_stop:
  assumes "i < length tbl" "k < length tbl" "stops tbl found k"
  obtains d where "d < length tbl" "stops tbl found ((i + d) mod length tbl)"
    "\<And>e. e < d \<Longrightarrow> \<not> stops tbl found ((i + e) mod length tbl)"
proof -
  let ?P = "\<lambda>d. stops tbl found ((i + d) mod length tbl)"
  obtain d0 where "d0 < length tbl" "?P d0" using cyclic_offset [OF assms(1,2)] assms(3) by auto
  then have "?P (Least ?P)" "Least ?P \<le> d0" by (auto intro: LeastI Least_le)
  moreover have "\<not> ?P e" if "e < Least ?P" for e using that by (rule not_less_Least)
  ultimately show ?thesis using \<open>d0 < length tbl\<close> by (intro that) auto
qed

section \<open>The invariant\<close>

text \<open>
  An item in bucket \<open>j\<close> is found from its home bucket: every bucket on the way is occupied.
\<close>

definition home :: "'a BRSet \<Rightarrow> 'a \<Rightarrow> nat" where
  "home st x = unat (hashf st x) mod length (table st)"

definition reachable_slot :: "'a option list \<Rightarrow> nat \<Rightarrow> nat \<Rightarrow> bool" where
  "reachable_slot tbl i j \<longleftrightarrow>
     (\<exists>d < length tbl. j = (i + d) mod length tbl \<and> (\<forall>e < d. tbl ! ((i + e) mod length tbl) \<noteq> None))"

definition items :: "'a BRSet \<Rightarrow> 'a set" where
  "items st = set (table_items (table st))"

definition set_wf :: "'a BRSet \<Rightarrow> bool" where
  "set_wf st \<longleftrightarrow>
     0 < length (table st) \<and>
     (\<forall>j < length (table st). \<forall>x. table st ! j = Some x \<longrightarrow> reachable_slot (table st) (home st x) j) \<and>
     (\<forall>j < length (table st). \<forall>k < length (table st). \<forall>x y.
        table st ! j = Some x \<and> table st ! k = Some y \<and> matches st x y \<longrightarrow> j = k) \<and>
     itemCount st = length (table_items (table st))"

definition load_limit :: "nat \<Rightarrow> nat" where
  "load_limit n = ((n + 2) div 3) * 2"

definition set_inv :: "'a BRSet \<Rightarrow> bool" where
  "set_inv st \<longleftrightarrow> set_wf st \<and> length (table st) \<in> set (tl tableSizes) \<and> itemCount st \<le> load_limit (length (table st))"

lemma set_table_items: "x \<in> set (table_items tbl) \<longleftrightarrow> (\<exists>j < length tbl. tbl ! j = Some x)"
proof -
  have "x \<in> set (table_items tbl) \<longleftrightarrow> Some x \<in> set tbl"
    by (induction tbl rule: table_items.induct) auto
  then show ?thesis by (simp add: in_set_conv_nth)
qed

lemma items_iff: "x \<in> items st \<longleftrightarrow> (\<exists>j < length (table st). table st ! j = Some x)"
  by (simp add: items_def set_table_items)

lemma table_items_append: "table_items (a @ b) = table_items a @ table_items b"
  by (induction a rule: table_items.induct) auto

lemma table_items_split:
  assumes "j < length tbl"
  shows "table_items tbl = table_items (take j tbl) @ table_items [tbl ! j] @ table_items (drop (Suc j) tbl)"
    and "table_items (tbl[j := t]) = table_items (take j tbl) @ table_items [t] @ table_items (drop (Suc j) tbl)"
proof -
  have "tbl = take j tbl @ [tbl ! j] @ drop (Suc j) tbl" using assms by (simp add: id_take_nth_drop)
  then show "table_items tbl = table_items (take j tbl) @ table_items [tbl ! j] @ table_items (drop (Suc j) tbl)"
    by (metis table_items_append)
  have "tbl[j := t] = take j tbl @ [t] @ drop (Suc j) tbl" using assms by (simp add: upd_conv_take_nth_drop)
  then show "table_items (tbl[j := t]) = table_items (take j tbl) @ table_items [t] @ table_items (drop (Suc j) tbl)"
    by (metis table_items_append)
qed

lemma table_items_put:
  assumes "j < length tbl" "tbl ! j = None"
  shows "mset (table_items (tbl[j := Some x])) = add_mset x (mset (table_items tbl))"
  using assms by (simp add: table_items_split [of j])

lemma table_items_replace:
  assumes "j < length tbl" "tbl ! j = Some t"
  shows "add_mset t (mset (table_items (tbl[j := Some x]))) = add_mset x (mset (table_items tbl))"
  using assms by (simp add: table_items_split [of j])

lemma table_items_take_out:
  assumes "j < length tbl" "tbl ! j = Some t"
  shows "add_mset t (mset (table_items (tbl[j := None]))) = mset (table_items tbl)"
  using assms by (simp add: table_items_split [of j])

lemma table_items_length_le: "length (table_items tbl) \<le> length tbl"
  by (induction tbl rule: table_items.induct) auto

lemma empty_bucket_exists:
  assumes "length (table_items tbl) < length tbl"
  shows "\<exists>k < length tbl. tbl ! k = None"
proof (rule ccontr)
  assume "\<not> ?thesis"
  then have "\<forall>t \<in> set tbl. t \<noteq> None" by (auto simp: in_set_conv_nth)
  then have "length (table_items tbl) = length tbl"
    by (induction tbl rule: table_items.induct) auto
  with assms show False by simp
qed

lemma load_limit_less: "n \<in> set (tl tableSizes) \<Longrightarrow> load_limit n < n"
proof -
  assume "n \<in> set (tl tableSizes)"
  then have "n = 3 \<or> 5 \<le> n" by (auto simp: tableSizes_def)
  then show ?thesis by (auto simp: load_limit_def)
qed

lemma set_inv_empty_bucket: "set_inv st \<Longrightarrow> \<exists>k < length (table st). table st ! k = None"
  using load_limit_less [of "length (table st)"]
  by (intro empty_bucket_exists) (auto simp: set_inv_def set_wf_def)

section \<open>Items and their equality\<close>

text \<open>
  The contract of the two function pointers a set is made with: the equality is one, and equal
  items have the same hash.
\<close>

locale item_equality =
  fixes hash :: "'a \<Rightarrow> u64" and eq :: "'a \<Rightarrow> 'a \<Rightarrow> bool"
  assumes eq_sym: "eq a b \<Longrightarrow> eq b a"
    and eq_trans: "eq a b \<Longrightarrow> eq b c \<Longrightarrow> eq a c"
    and eq_hash: "eq a b \<Longrightarrow> hash a = hash b"

definition set_laws :: "'a BRSet \<Rightarrow> bool" where
  "set_laws st \<longleftrightarrow> item_equality (hashf st) (eqf st)"

lemma matches_home: "set_laws st \<Longrightarrow> matches st a b \<Longrightarrow> home st a = home st b"
  by (auto simp: set_laws_def matches_def home_def dest: item_equality.eq_hash)

lemma matches_sym: "set_laws st \<Longrightarrow> matches st a b \<Longrightarrow> matches st b a"
  by (auto simp: set_laws_def matches_def dest: item_equality.eq_sym)

lemma matches_trans: "set_laws st \<Longrightarrow> matches st a b \<Longrightarrow> matches st b c \<Longrightarrow> matches st a c"
  by (auto simp: set_laws_def matches_def dest: item_equality.eq_trans)

lemma matches_refl [simp]: "matches st a a"
  by (simp add: matches_def)

text \<open>What a probe finds: the item, or the empty bucket where it belongs.\<close>

lemma bucket_finds:
  assumes wf: "set_wf st" and laws: "set_laws st" and empty: "\<exists>k < length (table st). table st ! k = None"
  obtains k where "bucket st item = Some k" "k < length (table st)"
    "reachable_slot (table st) (home st item) k"
    "\<And>x. table st ! k = Some x \<Longrightarrow> matches st item x"
    "table st ! k = None \<Longrightarrow> \<forall>x \<in> items st. \<not> matches st item x"
proof -
  let ?T = "table st" and ?h = "home st item" and ?n = "length (table st)"
  let ?stops = "stops ?T (matches st item)"
  have n: "0 < ?n" using wf by (simp add: set_wf_def)
  then have h: "?h < ?n" by (simp add: home_def)
  obtain k0 where "k0 < ?n" "?stops k0" using empty by (auto simp: stops_def)
  then obtain d where d: "d < ?n" "?stops ((?h + d) mod ?n)" "\<And>e. e < d \<Longrightarrow> \<not> ?stops ((?h + e) mod ?n)"
    using first_stop [OF h] by metis
  let ?k = "(?h + d) mod ?n"
  have before: "?T ! ((?h + e) mod ?n) \<noteq> None" if "e < d" for e
    using d(3) [OF that] by (auto simp: stops_def split: option.splits)
  show thesis
  proof (rule that [of ?k])
    show "bucket st item = Some ?k"
      using probe_finds [of ?h ?T d "matches st item" ?n] h d by (simp add: bucket_def home_def Let_def)
    show "?k < ?n" using n by simp
    show "reachable_slot ?T ?h ?k" using d(1) before by (auto simp: reachable_slot_def)
    show "matches st item x" if "?T ! ?k = Some x" for x using d(2) that by (simp add: stops_def)
    show "\<forall>x \<in> items st. \<not> matches st item x" if none: "?T ! ?k = None"
    proof (intro ballI notI)
      fix x assume "x \<in> items st" and m: "matches st item x"
      then obtain j where j: "j < ?n" "?T ! j = Some x" by (auto simp: items_iff)
      have "home st x = ?h" using matches_home [OF laws m] by simp
      then have "reachable_slot ?T ?h j" using wf j by (metis set_wf_def)
      then obtain d' where d': "j = (?h + d') mod ?n" "\<And>e. e < d' \<Longrightarrow> ?T ! ((?h + e) mod ?n) \<noteq> None"
        by (auto simp: reachable_slot_def)
      have "\<not> d < d'" using d'(2) [of d] none by auto
      moreover have "\<not> d' < d" using d(3) [of d'] d'(1) j m by (auto simp: stops_def)
      ultimately show False using d'(1) j none by (simp add: nat_neq_iff)
    qed
  qed
qed

lemma reachable_slot_mono:
  assumes "reachable_slot tbl i j" "length tbl' = length tbl"
    "\<And>k. k < length tbl \<Longrightarrow> tbl ! k \<noteq> None \<Longrightarrow> tbl' ! k \<noteq> None"
  shows "reachable_slot tbl' i j"
proof -
  obtain d where d: "d < length tbl" "j = (i + d) mod length tbl" "\<And>e. e < d \<Longrightarrow> tbl ! ((i + e) mod length tbl) \<noteq> None"
    using assms(1) by (auto simp: reachable_slot_def)
  have "tbl' ! ((i + e) mod length tbl) \<noteq> None" if "e < d" for e
    using d(1) d(3) [OF that] by (intro assms(3) mod_less_divisor) linarith+
  with d assms(2) show ?thesis by (auto simp: reachable_slot_def)
qed

text \<open>Writing an item where the probe found its bucket.\<close>

definition put_item :: "'a BRSet \<Rightarrow> nat \<Rightarrow> 'a \<Rightarrow> 'a BRSet" where
  "put_item st i item =
     st\<lparr>itemCount := (if table st ! i = None then itemCount st + 1 else itemCount st),
        table := (table st)[i := Some item]\<rparr>"

lemma put_item_simps [simp]:
  "table (put_item st i x) = (table st)[i := Some x]" "hashf (put_item st i x) = hashf st"
  "eqf (put_item st i x) = eqf st"
  by (simp_all add: put_item_def)

lemma put_item_functions [simp]:
  "matches (put_item st i x) = matches st" "set_laws (put_item st i x) = set_laws st"
  "home (put_item st i x) = home st"
  by (simp_all add: matches_def set_laws_def home_def fun_eq_iff)

lemma set_add_put:
  assumes "bucket st item = Some i" "itemCount (put_item st i item) \<le> load_limit (length (table st))"
  shows "set_add (Suc depth) st item = Some (put_item st i item, table st ! i)"
  using assms by (simp add: put_item_def load_limit_def Let_def)

lemma itemCount_put_item:
  assumes "i < length (table st)" "itemCount st = length (table_items (table st))"
  shows "itemCount (put_item st i item) = length (table_items (table (put_item st i item)))"
proof (cases "table st ! i")
  case None
  then show ?thesis using assms arg_cong [OF table_items_put, of i "table st" size item]
    by (simp add: put_item_def)
next
  case (Some t)
  then show ?thesis using assms arg_cong [OF table_items_replace, of i "table st" t size item]
    by (simp add: put_item_def)
qed

lemma items_put_item:
  assumes wf: "set_wf st" and i: "i < length (table st)"
    and found: "\<And>x. table st ! i = Some x \<Longrightarrow> matches st item x"
    and absent: "table st ! i = None \<Longrightarrow> \<forall>x \<in> items st. \<not> matches st item x"
    and laws: "set_laws st"
  shows "items (put_item st i item) = insert item {x \<in> items st. \<not> matches st item x}"
proof -
  have only: "j = i" if "j < length (table st)" "table st ! j = Some x" "matches st item x" for j x
  proof (cases "table st ! i")
    case None
    then show ?thesis using absent that by (auto simp: items_iff)
  next
    case (Some t)
    then have "matches st t x" using found matches_sym [OF laws] matches_trans [OF laws] that(3) by blast
    then show ?thesis using wf that Some i by (metis set_wf_def)
  qed
  show ?thesis
  proof (intro set_eqI iffI)
    fix x assume "x \<in> items (put_item st i item)"
    then obtain j where j: "j < length (table st)" "(table st)[i := Some item] ! j = Some x"
      by (auto simp: items_iff)
    show "x \<in> insert item {x \<in> items st. \<not> matches st item x}"
    proof (cases "j = i")
      case True
      with j show ?thesis by simp
    next
      case False
      with j only [of j x] show ?thesis by (auto simp: items_iff)
    qed
  next
    fix x assume x: "x \<in> insert item {x \<in> items st. \<not> matches st item x}"
    show "x \<in> items (put_item st i item)"
    proof (cases "x = item")
      case True
      with i show ?thesis by (auto simp: items_iff)
    next
      case False
      with x obtain j where j: "j < length (table st)" "table st ! j = Some x" "\<not> matches st item x"
        by (auto simp: items_iff)
      then have "j \<noteq> i" using found by auto
      with j show ?thesis by (auto simp: items_iff intro: exI [of _ j])
    qed
  qed
qed

lemma set_wf_put_item:
  assumes wf: "set_wf st" and i: "i < length (table st)"
    and found: "\<And>x. table st ! i = Some x \<Longrightarrow> matches st item x"
    and absent: "table st ! i = None \<Longrightarrow> \<forall>x \<in> items st. \<not> matches st item x"
    and reach: "reachable_slot (table st) (home st item) i" and laws: "set_laws st"
  shows "set_wf (put_item st i item)"
proof -
  let ?T = "table st" and ?U = "(table st)[i := Some item]"
  have other: "\<not> matches st item x" if "j < length ?T" "j \<noteq> i" "?T ! j = Some x" for j x
  proof (cases "?T ! i")
    case None
    then show ?thesis using absent that by (auto simp: items_iff)
  next
    case (Some t)
    show ?thesis
    proof
      assume "matches st item x"
      then have "matches st t x" using found [OF Some] matches_sym [OF laws] matches_trans [OF laws] by blast
      then show False using wf that Some i by (metis set_wf_def)
    qed
  qed
  have mono: "reachable_slot ?U a b" if "reachable_slot ?T a b" for a b
    using i by (intro reachable_slot_mono [OF that]) (auto simp: nth_list_update)
  have "reachable_slot ?U (home st x) j" if "j < length ?U" "?U ! j = Some x" for j x
  proof (cases "j = i")
    case True
    with that i reach mono show ?thesis by simp
  next
    case False
    with that have "?T ! j = Some x" "j < length ?T" by simp_all
    then have "reachable_slot ?T (home st x) j" using wf by (metis set_wf_def)
    then show ?thesis by (rule mono)
  qed
  moreover have "j = k" if "j < length ?U" "k < length ?U" "?U ! j = Some x" "?U ! k = Some y" "matches st x y" for j k x y
  proof (cases "j = i \<or> k = i")
    case True
    have "matches st y x" using that(5) by (rule matches_sym [OF laws])
    with True that other [of j x] other [of k y] show ?thesis by (cases "j = i"; cases "k = i") auto
  next
    case False
    then show ?thesis using that wf by (simp add: set_wf_def)
  qed
  ultimately show ?thesis
    using wf itemCount_put_item [of i st item] i by (simp add: set_wf_def)
qed

section \<open>The abstract set\<close>

text \<open>
  What the set promises: for every equality class the item last added. \<open>lookup\<close> reads it off the
  table, whatever the bucket order.
\<close>

definition lookup :: "'a BRSet \<Rightarrow> 'a \<Rightarrow> 'a option" where
  "lookup st item = find (matches st item) (table_items (table st))"

lemma lookup_None_iff: "lookup st y = None \<longleftrightarrow> (\<forall>x \<in> items st. \<not> matches st y x)"
  by (auto simp: lookup_def items_def find_None_iff)

lemma items_unique:
  assumes "set_wf st" "set_laws st" "x \<in> items st" "x' \<in> items st" "matches st y x" "matches st y x'"
  shows "x = x'"
proof -
  obtain j k where jk: "j < length (table st)" "table st ! j = Some x" "k < length (table st)" "table st ! k = Some x'"
    using assms(3,4) by (auto simp: items_iff)
  have "matches st x x'" using assms matches_sym matches_trans by metis
  then have "j = k" using assms(1) jk by (metis set_wf_def)
  with jk show ?thesis by simp
qed

lemma lookup_Some_iff:
  assumes "set_wf st" "set_laws st"
  shows "lookup st y = Some x \<longleftrightarrow> x \<in> items st \<and> matches st y x"
proof
  assume "lookup st y = Some x"
  then show "x \<in> items st \<and> matches st y x"
    by (auto simp: lookup_def items_def find_Some_iff)
next
  assume x: "x \<in> items st \<and> matches st y x"
  then obtain x' where x': "lookup st y = Some x'" using lookup_None_iff [of st y] by auto
  then have "x' \<in> items st \<and> matches st y x'" by (auto simp: lookup_def items_def find_Some_iff)
  with x x' items_unique [OF assms] show "lookup st y = Some x" by blast
qed

lemma BRSetGet_lookup:
  assumes "set_wf st" "set_laws st" "\<exists>k < length (table st). table st ! k = None"
  shows "BRSetGet st y = Some (lookup st y)"
proof -
  obtain k where k: "bucket st y = Some k" "k < length (table st)"
    "\<And>x. table st ! k = Some x \<Longrightarrow> matches st y x"
    "table st ! k = None \<Longrightarrow> \<forall>x \<in> items st. \<not> matches st y x"
    using bucket_finds [OF assms, of y] by metis
  show ?thesis
  proof (cases "table st ! k")
    case None
    then have "lookup st y = None" using k(4) by (simp add: lookup_None_iff)
    with None show ?thesis by (simp add: BRSetGet_def k(1))
  next
    case (Some x)
    then have "x \<in> items st" using k(2) by (auto simp: items_iff)
    then have "lookup st y = Some x" using lookup_Some_iff [OF assms(1,2)] k(3) [OF Some] by blast
    with Some show ?thesis by (simp add: BRSetGet_def k(1))
  qed
qed

section \<open>Adding\<close>

text \<open>
  A set with room for one more item: the probe ends, and the table does not grow.
\<close>

definition has_room :: "'a BRSet \<Rightarrow> bool" where
  "has_room st \<longleftrightarrow> set_wf st \<and> length (table st) \<in> set (tl tableSizes) \<and> itemCount st < load_limit (length (table st))"

lemma set_inv_wf: "set_inv st \<Longrightarrow> set_wf st" "has_room st \<Longrightarrow> set_inv st"
  by (simp_all add: set_inv_def has_room_def)

lemma put_item_lookup:
  assumes "set_wf st" "set_wf (put_item st i item)" "set_laws st"
    "items (put_item st i item) = insert item {x \<in> items st. \<not> matches st item x}"
  shows "lookup (put_item st i item) y = (if matches st item y then Some item else lookup st y)"
proof (cases "matches st item y")
  case True
  then have "matches st y item" by (rule matches_sym [OF assms(3)])
  with True assms show ?thesis by (simp add: lookup_Some_iff)
next
  case False
  have "lookup (put_item st i item) y = Some x \<longleftrightarrow> lookup st y = Some x" for x
  proof -
    have "\<not> matches st item x" if "matches st y x"
      using False that matches_sym [OF assms(3)] matches_trans [OF assms(3)] by blast
    moreover have "\<not> matches st y item" using False matches_sym [OF assms(3)] by blast
    ultimately show ?thesis using assms by (auto simp: lookup_Some_iff)
  qed
  then have "lookup (put_item st i item) y = lookup st y"
    by (metis option.exhaust)
  with False show ?thesis by simp
qed

lemma add_bucket:
  assumes inv: "set_inv st" and laws: "set_laws st"
  obtains i where "bucket st item = Some i" "i < length (table st)" "set_wf (put_item st i item)"
    "table st ! i = lookup st item"
    "items (put_item st i item) = insert item {x \<in> items st. \<not> matches st item x}"
proof -
  note wf = set_inv_wf(1) [OF inv] and empty = set_inv_empty_bucket [OF inv]
  obtain i where i: "bucket st item = Some i" "i < length (table st)"
    "reachable_slot (table st) (home st item) i"
    "\<And>x. table st ! i = Some x \<Longrightarrow> matches st item x"
    "table st ! i = None \<Longrightarrow> \<forall>x \<in> items st. \<not> matches st item x"
    using bucket_finds [OF wf laws empty, of item] by metis
  have "table st ! i = lookup st item"
    using BRSetGet_lookup [OF wf laws empty, of item] i(1) by (simp add: BRSetGet_def)
  then show thesis
    using set_wf_put_item [OF wf i(2,4,5,3) laws] items_put_item [OF wf i(2,4,5) laws] i(1,2) by (intro that)
qed

lemma set_add_room:
  assumes "has_room st" "set_laws st"
  shows "\<exists>i. set_add (Suc depth) st item = Some (put_item st i item, lookup st item)
     \<and> set_inv (put_item st i item)
     \<and> items (put_item st i item) = insert item {x \<in> items st. \<not> matches st item x}"
proof -
  obtain i where i: "bucket st item = Some i" "i < length (table st)" "set_wf (put_item st i item)"
    "table st ! i = lookup st item"
    "items (put_item st i item) = insert item {x \<in> items st. \<not> matches st item x}"
    using add_bucket [OF set_inv_wf(2) [OF assms(1)] assms(2)] by metis
  have "itemCount (put_item st i item) \<le> load_limit (length (table st))"
    using assms(1) by (simp add: has_room_def put_item_def)
  with i show ?thesis
    using assms(1) set_add_put [OF i(1)] by (auto simp: set_inv_def has_room_def)
qed

lemma table_items_replicate [simp]: "table_items (replicate n None) = []"
  by (induction n) auto

lemma fold_add_room:
  assumes "set_inv st" "set_laws st" "itemCount st + length xs \<le> load_limit (length (table st))"
    "distinct xs" "\<forall>x \<in> set xs. \<forall>y \<in> items st \<union> set xs. matches st x y \<longrightarrow> x = y" "items st \<inter> set xs = {}"
  shows "\<exists>st'. fold_option (\<lambda>s x. map_option fst (set_add (Suc depth) s x)) st xs = Some st'
    \<and> set_inv st' \<and> items st' = items st \<union> set xs \<and> hashf st' = hashf st \<and> eqf st' = eqf st
    \<and> length (table st') = length (table st)"
  using assms
proof (induction xs arbitrary: st)
  case Nil
  then show ?case by simp
next
  case (Cons x xs)
  have room: "has_room st" using Cons.prems(1,3) by (simp add: has_room_def set_inv_def)
  obtain i where i: "set_add (Suc depth) st x = Some (put_item st i x, lookup st x)"
    "set_inv (put_item st i x)"
    "items (put_item st i x) = insert x {y \<in> items st. \<not> matches st x y}"
    using set_add_room [OF room Cons.prems(2)] by metis
  have "{y \<in> items st. \<not> matches st x y} = items st" using Cons.prems(5,6) by auto
  then have items: "items (put_item st i x) = insert x (items st)" using i(3) by simp
  have count: "itemCount (put_item st i x) + length xs \<le> load_limit (length (table st))"
    using Cons.prems(3) by (simp add: put_item_def)
  have "\<exists>st'. fold_option (\<lambda>s x. map_option fst (set_add (Suc depth) s x)) (put_item st i x) xs = Some st'
    \<and> set_inv st' \<and> items st' = items (put_item st i x) \<union> set xs \<and> hashf st' = hashf (put_item st i x)
    \<and> eqf st' = eqf (put_item st i x) \<and> length (table st') = length (table (put_item st i x))"
    by (rule Cons.IH) (use i(2) Cons.prems items count in \<open>auto\<close>)
  then show ?case by (simp only: fold_option.simps i(1)) (auto simp: items)
qed

text \<open>Every size but the last has a next one that takes all items of a full table.\<close>

lemma tableSizes_steps: "sorted_wrt (\<lambda>a b. a + 3 \<le> b) (tl tableSizes)"
  by (simp add: tableSizes_def)

lemma tableSizes_step:
  assumes "1 \<le> i" "i < j" "j < length tableSizes"
  shows "tableSizes ! i + 3 \<le> tableSizes ! j"
  using sorted_wrt_nth_less [OF tableSizes_steps, of "i - 1" "j - 1"] assms by (simp add: nth_tl)

lemma next_size:
  assumes "n \<in> set (tl (butlast tableSizes))"
  obtains m where "BRSetInit h e n = Some \<lparr>table = replicate m None, itemCount = 0, hashf = h, eqf = e\<rparr>"
    "m \<in> set (tl tableSizes)" "load_limit n + 1 \<le> load_limit m"
proof -
  obtain i where i: "n = tl (butlast tableSizes) ! i" "i < length (tl (butlast tableSizes))"
    using assms by (metis in_set_conv_nth)
  have len: "length tableSizes = 51" by (simp add: tableSizes_def)
  have n: "n = tableSizes ! (i + 1)" and i2: "i + 2 < length tableSizes"
    using i len by (auto simp: nth_tl nth_butlast)
  have "takeWhile (\<lambda>s. s < n) tableSizes = take (i + 1) tableSizes"
  proof (rule takeWhile_eq_take_P_nth)
    fix k assume k: "k < i + 1" "k < length tableSizes"
    show "tableSizes ! k < n"
    proof (cases "k = 0")
      case True
      then show ?thesis using tableSizes_step [of 1 "i + 2"] tableSizes_step [of 1 "i + 1"] n i2
        by (cases "i = 0") (simp_all add: tableSizes_def)
    next
      case False
      then show ?thesis using tableSizes_step [of k "i + 1"] n k i2 by simp
    qed
  qed (simp add: n)
  then have "BRSetInit h e n = Some \<lparr>table = replicate (tableSizes ! (i + 2)) None, itemCount = 0, hashf = h, eqf = e\<rparr>"
    using i2 by (simp add: BRSetInit_def TABLE_SIZES_LEN_def)
  moreover have "tableSizes ! (i + 2) \<in> set (tl tableSizes)"
    using i2 nth_mem [of "i + 1" "tl tableSizes"] by (simp add: nth_tl)
  moreover have "load_limit n + 1 \<le> load_limit (tableSizes ! (i + 2))"
    using tableSizes_step [of "i + 1" "i + 2"] n i2 by (simp add: load_limit_def)
  ultimately show thesis by (rule that)
qed

lemma last_size: "n \<in> set (tl tableSizes) \<Longrightarrow> load_limit n < 2 ^ 31 \<Longrightarrow> n \<in> set (tl (butlast tableSizes))"
  by (auto simp: tableSizes_def load_limit_def)

lemma set_inv_empty:
  assumes "m \<in> set (tl tableSizes)"
  shows "set_inv \<lparr>table = replicate m None, itemCount = 0, hashf = h, eqf = e\<rparr>"
proof -
  have "0 < m" using assms by (auto simp: tableSizes_def)
  with assms show ?thesis by (auto simp: set_inv_def set_wf_def)
qed

lemma BRSetNew_inv: "BRSetNew h e n = Some st \<Longrightarrow> set_inv st \<and> items st = {} \<and> hashf st = h \<and> eqf st = e"
proof -
  assume st: "BRSetNew h e n = Some st"
  let ?i = "length (takeWhile (\<lambda>s. s < n) tableSizes)"
  have i: "?i + 1 < length tableSizes"
    and st': "st = \<lparr>table = replicate (tableSizes ! (?i + 1)) None, itemCount = 0, hashf = h, eqf = e\<rparr>"
    using st by (auto simp: BRSetNew_def BRSetInit_def Let_def TABLE_SIZES_LEN_def split: if_splits)
  have "tableSizes ! (?i + 1) = tl tableSizes ! ?i" using i by (simp add: nth_tl)
  also have "\<dots> \<in> set (tl tableSizes)" using i by (intro nth_mem) simp
  finally show ?thesis using st' set_inv_empty by (simp add: items_def)
qed

lemma distinct_table_items: "set_wf st \<Longrightarrow> distinct (table_items (table st))"
proof -
  assume "set_wf st"
  then have unique: "j = k" if "j < length (table st)" "k < length (table st)" "table st ! j = Some x" "table st ! k = Some x" for j k x
    using that by (metis set_wf_def matches_refl)
  have "distinct (table_items tbl)"
    if "\<And>j k x. j < length tbl \<Longrightarrow> k < length tbl \<Longrightarrow> tbl ! j = Some x \<Longrightarrow> tbl ! k = Some x \<Longrightarrow> j = k"
    for tbl :: "'a option list"
    using that
  proof (induction tbl rule: table_items.induct)
    case (2 ts)
    have "j = k" if "j < length ts" "k < length ts" "ts ! j = Some x" "ts ! k = Some x" for j k x
      using 2(2) [of "Suc j" "Suc k" x] that by simp
    then show ?case using 2(1) by simp
  next
    case (3 t ts)
    have "j = k" if "j < length ts" "k < length ts" "ts ! j = Some x" "ts ! k = Some x" for j k x
      using 3(2) [of "Suc j" "Suc k" x] that by simp
    moreover have "t \<notin> set (table_items ts)"
      using 3(2) [of 0 "Suc j" t for j] by (auto simp: set_table_items)
    ultimately show ?case using 3(1) by simp
  qed simp
  then show ?thesis using unique by blast
qed

text \<open>
  \<open>BRSetAdd\<close>, growing or not: the item takes the place of the equal one, everything else stays,
  and the item replaced is returned.
\<close>

lemma BRSetAdd_inv:
  assumes inv: "set_inv st" and laws: "set_laws st" and count: "itemCount st + 1 < 2 ^ 31"
  obtains st' where "BRSetAdd st item = Some (st', lookup st item)" "set_inv st'"
    "items st' = insert item {x \<in> items st. \<not> matches st item x}" "hashf st' = hashf st" "eqf st' = eqf st"
proof -
  have depth: "TABLE_SIZES_LEN = Suc (Suc 49)" by (simp add: TABLE_SIZES_LEN_def tableSizes_def)
  let ?n = "length (table st)"
  obtain i where i: "bucket st item = Some i" "i < ?n" "set_wf (put_item st i item)"
    "table st ! i = lookup st item"
    "items (put_item st i item) = insert item {x \<in> items st. \<not> matches st item x}"
    using add_bucket [OF inv laws] by metis
  let ?p = "put_item st i item"
  have sizes: "?n \<in> set (tl tableSizes)" using inv by (simp add: set_inv_def)
  show thesis
  proof (cases "itemCount ?p \<le> load_limit ?n")
    case True
    then have "BRSetAdd st item = Some (?p, lookup st item)"
      using set_add_put [OF i(1) True, of "Suc 49"] by (simp only: BRSetAdd_def depth i(4))
    moreover have "set_inv ?p" using i(3) sizes True by (simp add: set_inv_def)
    ultimately show thesis using i(5) by (intro that [of ?p]) simp_all
  next
    case False
    have le: "itemCount ?p \<le> itemCount st + 1" by (simp add: put_item_def)
    then have "load_limit ?n < 2 ^ 31" using False count by linarith
    then obtain m where m: "BRSetInit (hashf st) (eqf st) ?n
          = Some \<lparr>table = replicate m None, itemCount = 0, hashf = hashf st, eqf = eqf st\<rparr>"
        "m \<in> set (tl tableSizes)" "load_limit ?n + 1 \<le> load_limit m"
      using next_size [OF last_size [OF sizes]] by metis
    let ?new = "\<lparr>table = replicate m None, itemCount = 0, hashf = hashf st, eqf = eqf st\<rparr>"
    let ?xs = "table_items (table ?p)"
    have "itemCount st \<le> load_limit ?n" using inv by (simp add: set_inv_def)
    then have room: "itemCount ?new + length ?xs \<le> load_limit (length (table ?new))"
      using le m(3) i(3) by (simp add: set_wf_def)
    have laws': "set_laws ?new" using laws by (simp add: set_laws_def)
    have xs: "set ?xs = items ?p" by (simp add: items_def)
    have "\<forall>x \<in> set ?xs. \<forall>y \<in> items ?new \<union> set ?xs. matches ?new x y \<longrightarrow> x = y"
    proof (intro ballI impI)
      fix x y assume "x \<in> set ?xs" "y \<in> items ?new \<union> set ?xs" "matches ?new x y"
      then have "x \<in> items ?p" "y \<in> items ?p" "matches ?p x y"
        by (auto simp: xs items_def matches_def)
      then show "x = y" using items_unique [OF i(3), of x y x] laws by simp
    qed
    then obtain g where g: "fold_option (\<lambda>s x. map_option fst (set_add (Suc 49) s x)) ?new ?xs = Some g"
      "set_inv g" "items g = items ?p" "hashf g = hashf st" "eqf g = eqf st"
      using fold_add_room [OF set_inv_empty [OF m(2)] laws' room distinct_table_items [OF i(3)], of 49]
      by (auto simp: xs items_def)
    let ?r = "?p\<lparr>table := table g, itemCount := itemCount g\<rparr>"
    have r: "?r = g" using g(4,5) by simp
    have "set_add (Suc (Suc 49)) st item = Some (?r, lookup st item)"
      using i(1,4) False m(1) g(1)
      by (subst set_add.simps) (simp del: set_add.simps add: put_item_def load_limit_def Let_def)
    then have "BRSetAdd st item = Some (g, lookup st item)" by (simp only: BRSetAdd_def depth r)
    with g i(5) show thesis by (intro that [of g]) simp_all
  qed
qed

section \<open>Removing\<close>

text \<open>
  The buckets are renumbered from behind an empty bucket \<open>e\<close>, so that the empty bucket is the last
  and no probe path wraps around: \<open>spot n e p\<close> is the bucket number \<open>p\<close> in this order.
\<close>

definition spot :: "nat \<Rightarrow> nat \<Rightarrow> nat \<Rightarrow> nat" where
  "spot n e p = (e + 1 + p) mod n"

definition rank :: "nat \<Rightarrow> nat \<Rightarrow> nat \<Rightarrow> nat" where
  "rank n e k = (k + n - e - 1) mod n"

lemma spot_rank: "e < n \<Longrightarrow> k < n \<Longrightarrow> spot n e (rank n e k) = k"
proof -
  assume "e < n" "k < n"
  have "spot n e (rank n e k) = (e + 1 + (k + n - e - 1)) mod n"
    unfolding spot_def rank_def by (rule mod_add_right_eq)
  also have "e + 1 + (k + n - e - 1) = k + n" using \<open>e < n\<close> by simp
  finally show ?thesis using \<open>k < n\<close> by simp
qed

lemma spot_less [simp]: "0 < n \<Longrightarrow> spot n e p < n"
  by (simp add: spot_def)

lemma rank_less [simp]: "0 < n \<Longrightarrow> rank n e k < n"
  by (simp add: rank_def)

lemma spot_inj: "spot n e p = spot n e q \<Longrightarrow> p < n \<Longrightarrow> q < n \<Longrightarrow> p = q"
  unfolding spot_def by (rule cyclic_offset_inj)

lemma rank_spot: "e < n \<Longrightarrow> p < n \<Longrightarrow> rank n e (spot n e p) = p"
  by (rule spot_inj [of n e]) (simp_all add: spot_rank)

lemma spot_add: "(spot n e p + d) mod n = spot n e (p + d)"
  by (simp add: spot_def mod_add_left_eq add.assoc)

lemma spot_last: "e < n \<Longrightarrow> spot n e (n - 1) = e"
  by (simp add: spot_def)

text \<open>
  The state of the cleanup loop at rank \<open>p\<close>: an item that has been put back is reachable, and the
  way to an item still to be visited has gaps only among the buckets already visited.
\<close>

definition no_gaps :: "'a BRSet \<Rightarrow> nat \<Rightarrow> nat \<Rightarrow> bool" where
  "no_gaps st e p \<longleftrightarrow>
     (let n = length (table st); at = (\<lambda>q. table st ! spot n e q) in
      e < n \<and> table st ! e = None \<and>
      (\<forall>r < n. \<forall>x. at r = Some x \<longrightarrow>
         rank n e (home st x) \<le> r \<and>
         (\<forall>q. rank n e (home st x) \<le> q \<and> q < r \<and> at q = None \<longrightarrow> p \<le> r \<and> q < p)))"

lemma no_gapsI:
  assumes reach: "\<And>j x. j < length (table st) \<Longrightarrow> table st ! j = Some x \<Longrightarrow> reachable_slot (table st) (home st x) j"
    and e: "e < length (table st)" "table st ! e = None"
  shows "no_gaps st e 0"
proof -
  let ?n = "length (table st)" and ?at = "\<lambda>q. table st ! spot (length (table st)) e q"
  have "rank ?n e (home st x) \<le> r \<and> (\<forall>q. rank ?n e (home st x) \<le> q \<and> q < r \<longrightarrow> ?at q \<noteq> None)"
    if r: "r < ?n" "?at r = Some x" for r x
  proof -
    let ?a = "rank ?n e (home st x)"
    have n: "0 < ?n" using e by linarith
    have h: "home st x < ?n" using n by (simp add: home_def)
    have "reachable_slot (table st) (home st x) (spot ?n e r)" using r n by (intro reach) auto
    then obtain d where d: "d < ?n" "spot ?n e r = (home st x + d) mod ?n"
      "\<And>g. g < d \<Longrightarrow> table st ! ((home st x + g) mod ?n) \<noteq> None"
      by (auto simp: reachable_slot_def)
    have at: "(home st x + g) mod ?n = spot ?n e (?a + g)" for g
      using spot_add [of ?n e ?a g] spot_rank [OF e(1) h] by simp
    have "?a + d < ?n"
    proof (rule ccontr)
      assume over: "\<not> ?a + d < ?n"
      have "?a < ?n" using n by simp
      then have "?n - 1 - ?a < d" "?a + (?n - 1 - ?a) = ?n - 1" using over by linarith+
      with d(3) [of "?n - 1 - ?a"] at [of "?n - 1 - ?a"] spot_last [OF e(1)] e(2) show False by simp
    qed
    then have eq: "r = ?a + d" using spot_inj [of ?n e r "?a + d"] d(2) at r(1) by simp
    have "?at q \<noteq> None" if "?a \<le> q" "q < r" for q
      using d(3) [of "q - ?a"] at [of "q - ?a"] that eq by simp
    with eq show ?thesis by simp
  qed
  with e show ?thesis unfolding no_gaps_def Let_def by (metis not_less0)
qed

lemma no_gaps_reachable:
  assumes gaps: "no_gaps st e 0" and j: "j < length (table st)" "table st ! j = Some x"
  shows "reachable_slot (table st) (home st x) j"
proof -
  let ?n = "length (table st)"
  let ?a = "rank ?n e (home st x)" and ?r = "rank ?n e j"
  have e: "e < ?n" using gaps by (simp add: no_gaps_def Let_def)
  have n: "0 < ?n" using j by linarith
  have h: "home st x < ?n" using n by (simp add: home_def)
  have "table st ! spot ?n e ?r = Some x" "?r < ?n" using spot_rank [OF e j(1)] j(2) n by simp_all
  then have a: "?a \<le> ?r" and g: "\<And>q. ?a \<le> q \<Longrightarrow> q < ?r \<Longrightarrow> table st ! spot ?n e q \<noteq> None"
    using gaps by (auto simp: no_gaps_def Let_def)
  have at: "(home st x + d) mod ?n = spot ?n e (?a + d)" for d
    using spot_add [of ?n e ?a d] spot_rank [OF e h] by simp
  have "j = (home st x + (?r - ?a)) mod ?n" using at [of "?r - ?a"] a spot_rank [OF e j(1)] by simp
  moreover have "table st ! ((home st x + d) mod ?n) \<noteq> None" if "d < ?r - ?a" for d
    using at [of d] g [of "?a + d"] that by simp
  moreover have "?r - ?a < ?n" using \<open>?r < ?n\<close> by linarith
  ultimately show ?thesis unfolding reachable_slot_def by blast
qed

text \<open>
  The part of the invariant that does not depend on the probe paths, which the cleanup loop keeps
  throughout.
\<close>

definition no_duplicates :: "'a BRSet \<Rightarrow> bool" where
  "no_duplicates st \<longleftrightarrow>
     (\<forall>j < length (table st). \<forall>k < length (table st). \<forall>x y.
        table st ! j = Some x \<and> table st ! k = Some y \<and> matches st x y \<longrightarrow> j = k) \<and>
     itemCount st = length (table_items (table st))"

lemma set_wf_iff: "set_wf st \<longleftrightarrow> 0 < length (table st) \<and>
    (\<forall>j < length (table st). \<forall>x. table st ! j = Some x \<longrightarrow> reachable_slot (table st) (home st x) j) \<and>
    no_duplicates st"
  by (auto simp: set_wf_def no_duplicates_def)

definition take_out :: "'a BRSet \<Rightarrow> nat \<Rightarrow> 'a BRSet" where
  "take_out st i = st\<lparr>itemCount := itemCount st - 1, table := (table st)[i := None]\<rparr>"

lemma take_out_simps [simp]:
  "table (take_out st i) = (table st)[i := None]" "hashf (take_out st i) = hashf st"
  "eqf (take_out st i) = eqf st" "matches (take_out st i) = matches st"
  "set_laws (take_out st i) = set_laws st" "home (take_out st i) = home st"
  by (simp_all add: take_out_def matches_def set_laws_def home_def fun_eq_iff)

lemma take_out_fold: "st\<lparr>itemCount := itemCount st - Suc 0, table := (table st)[i := None]\<rparr> = take_out st i"
  by (simp add: take_out_def)

lemma nth_take_out: "(ts[i := None]) ! j = Some x \<longleftrightarrow> i \<noteq> j \<and> ts ! j = Some x" if "j < length ts"
  using that by (cases "i = j") auto

lemma take_out_no_duplicates:
  assumes "no_duplicates st" "i < length (table st)" "table st ! i = Some t"
  shows "no_duplicates (take_out st i)" "itemCount st = Suc (itemCount (take_out st i))"
    "items (take_out st i) = items st - {t}" "\<forall>x \<in> items (take_out st i). \<not> matches st t x"
proof -
  let ?n = "length (table st)"
  have unique: "j = k" if "j < ?n" "k < ?n" "table st ! j = Some x" "table st ! k = Some y" "matches st x y" for j k x y
    using assms(1) that by (auto simp: no_duplicates_def)
  have size: "Suc (length (table_items (table (take_out st i)))) = length (table_items (table st))"
    using arg_cong [OF table_items_take_out [OF assms(2,3)], of size] by simp
  then show count: "itemCount st = Suc (itemCount (take_out st i))"
    using assms(1) by (simp add: no_duplicates_def take_out_def)
  show "no_duplicates (take_out st i)"
    using unique size count assms(1) by (simp add: no_duplicates_def nth_take_out)
  show only: "items (take_out st i) = items st - {t}"
  proof (intro set_eqI iffI)
    fix x assume "x \<in> items (take_out st i)"
    then obtain j where j: "j < ?n" "i \<noteq> j" "table st ! j = Some x" by (auto simp: items_iff nth_take_out)
    then have "x \<noteq> t" using unique [of j i x t] assms by auto
    with j show "x \<in> items st - {t}" by (auto simp: items_iff)
  next
    fix x assume "x \<in> items st - {t}"
    then obtain j where "j < ?n" "table st ! j = Some x" "x \<noteq> t" by (auto simp: items_iff)
    moreover from this have "i \<noteq> j" using assms(3) by auto
    ultimately have "(table st)[i := None] ! j = Some x" "j < ?n" by simp_all
    then show "x \<in> items (take_out st i)" by (auto simp: items_iff)
  qed
  show "\<forall>x \<in> items (take_out st i). \<not> matches st t x"
  proof (intro ballI notI)
    fix x assume "x \<in> items (take_out st i)" "matches st t x"
    then obtain j where "j < ?n" "i \<noteq> j" "table st ! j = Some x" by (auto simp: items_iff nth_take_out)
    with unique [of i j t x] assms \<open>matches st t x\<close> show False by simp
  qed
qed

lemma no_gaps_take_out:
  assumes "no_gaps st e p" "p < length (table st)"
  shows "no_gaps (take_out st (spot (length (table st)) e p)) e (Suc p)"
proof -
  let ?n = "length (table st)"
  have e: "e < ?n" using assms(1) by (simp add: no_gaps_def Let_def)
  have n: "0 < ?n" using assms(2) by linarith
  have neq: "spot ?n e p \<noteq> spot ?n e r" if "r < ?n" "r \<noteq> p" for r
    using spot_inj [of ?n e r p] that assms(2) by auto
  have at: "(table st)[spot ?n e p := None] ! spot ?n e r = (if r = p then None else table st ! spot ?n e r)"
    if "r < ?n" for r
    using neq [OF that] n by (auto simp: nth_list_update)
  have last: "(table st)[spot ?n e p := None] ! e = None"
    using assms(1) e by (cases "spot ?n e p = e") (auto simp: no_gaps_def Let_def)
  have "rank ?n e (home st x) \<le> r \<and>
      (\<forall>q. rank ?n e (home st x) \<le> q \<and> q < r \<and> (table st)[spot ?n e p := None] ! spot ?n e q = None \<longrightarrow>
         Suc p \<le> r \<and> q < Suc p)"
    if r: "r < ?n" "(table st)[spot ?n e p := None] ! spot ?n e r = Some x" for r x
  proof -
    have rp: "r \<noteq> p" "table st ! spot ?n e r = Some x" using r at [OF r(1)] by (auto split: if_splits)
    then have old: "rank ?n e (home st x) \<le> r"
      "\<And>q. rank ?n e (home st x) \<le> q \<Longrightarrow> q < r \<Longrightarrow> table st ! spot ?n e q = None \<Longrightarrow> p \<le> r \<and> q < p"
      using assms(1) r(1) unfolding no_gaps_def Let_def by blast+
    have "Suc p \<le> r \<and> q < Suc p"
      if q: "rank ?n e (home st x) \<le> q" "q < r" "(table st)[spot ?n e p := None] ! spot ?n e q = None" for q
    proof (cases "q = p")
      case True
      with q(2) show ?thesis by simp
    next
      case False
      then have "table st ! spot ?n e q = None" using q(3) at [of q] q(2) r(1) by simp
      with old(2) [OF q(1,2)] rp(1) show ?thesis by linarith
    qed
    with old(1) show ?thesis by blast
  qed
  with e last show ?thesis unfolding no_gaps_def Let_def by simp
qed

text \<open>
  Putting an item back: the probe ends in the first gap after its home bucket, which is not behind
  the bucket it was taken from.
\<close>

lemma put_fresh:
  assumes nd: "no_duplicates st" and i: "i < length (table st)" "table st ! i = None"
    and fresh: "\<forall>x \<in> items st. \<not> matches st t x" and laws: "set_laws st"
  shows "no_duplicates (put_item st i t)" "items (put_item st i t) = insert t (items st)"
proof -
  let ?n = "length (table st)"
  have at: "(table st)[i := Some t] ! j = (if j = i then Some t else table st ! j)" if "j < ?n" for j
    using that by simp
  have new: "\<not> matches st t x" "\<not> matches st x t" if "j < ?n" "table st ! j = Some x" for j x
    using fresh that matches_sym [OF laws, of x t] by (auto simp: items_iff)
  have unique: "j = k" if "j < ?n" "k < ?n" "table st ! j = Some x" "table st ! k = Some y" "matches st x y" for j k x y
    using nd that by (auto simp: no_duplicates_def)
  have "j = k" if "j < ?n" "k < ?n" "(table st)[i := Some t] ! j = Some x" "(table st)[i := Some t] ! k = Some y"
      "matches st x y" for j k x y
    using that at [OF that(1)] at [OF that(2)] new unique by (auto split: if_splits)
  moreover have "itemCount (put_item st i t) = length (table_items (table (put_item st i t)))"
    using nd i(1) by (intro itemCount_put_item) (simp_all add: no_duplicates_def)
  ultimately show "no_duplicates (put_item st i t)"
    unfolding no_duplicates_def by simp
  have "mset (table_items ((table st)[i := Some t])) = add_mset t (mset (table_items (table st)))"
    using i by (rule table_items_put)
  then show "items (put_item st i t) = insert t (items st)"
    using arg_cong [of _ _ set_mset] by (simp add: items_def) (metis set_mset_add_mset_insert set_mset_mset)
qed

lemma no_gaps_put_back:
  assumes gaps: "no_gaps st e (Suc p)" and p: "Suc p < length (table st)" "table st ! spot (length (table st)) e p = None"
    and t: "rank (length (table st)) e (home st t) \<le> p" and fresh: "\<forall>x \<in> items st. \<not> matches st t x"
  obtains i where "bucket st t = Some i" "i < length (table st)" "table st ! i = None" "no_gaps (put_item st i t) e (Suc p)"
proof -
  let ?n = "length (table st)"
  let ?a = "rank ?n e (home st t)" and ?at = "\<lambda>q. table st ! spot (length (table st)) e q"
  have e: "e < ?n" "table st ! e = None" using gaps by (simp_all add: no_gaps_def Let_def)
  have n: "0 < ?n" using e by linarith
  have h: "home st t < ?n" using n by (simp add: home_def)
  define q where "q = (LEAST q. ?a \<le> q \<and> ?at q = None)"
  have q: "?a \<le> q \<and> ?at q = None" "q \<le> p"
    unfolding q_def by (rule LeastI [of _ p], use t p in simp, rule Least_le, use t p in simp)
  have before: "?at g \<noteq> None" if "?a \<le> g" "g < q" for g
    using not_less_Least [of g "\<lambda>q. ?a \<le> q \<and> ?at q = None"] that by (auto simp: q_def)
  have at: "(home st t + d) mod ?n = spot ?n e (?a + d)" for d
    using spot_add [of ?n e ?a d] spot_rank [OF e(1) h] by simp
  let ?i = "spot ?n e q"
  have i: "?i = (home st t + (q - ?a)) mod ?n" using at [of "q - ?a"] q(1) by simp
  have "probe (table st) (matches st t) ?n (home st t) = Some ((home st t + (q - ?a)) mod ?n)"
  proof (rule probe_finds [OF h])
    show "\<not> stops (table st) (matches st t) ((home st t + d) mod ?n)" if "d < q - ?a" for d
    proof -
      have "?at (?a + d) \<noteq> None" using that by (intro before) linarith+
      then obtain x where x: "?at (?a + d) = Some x" by blast
      then have "x \<in> items st" using n by (auto simp: items_iff intro: exI [of _ "spot ?n e (?a + d)"])
      with fresh x show ?thesis by (simp add: stops_def at)
    qed
    show "stops (table st) (matches st t) ((home st t + (q - ?a)) mod ?n)"
      unfolding i [symmetric] using q(1) by (simp add: stops_def)
    show "q - ?a < ?n" using q(2) p(1) by linarith
  qed
  then have "bucket st t = Some ?i" by (simp add: bucket_def home_def Let_def i)
  moreover have "?i < ?n" using n by simp
  moreover have "?at q = None" using q by blast
  moreover have "no_gaps (put_item st ?i t) e (Suc p)"
  proof -
    have qn: "q < ?n" using q(2) p(1) by linarith
    have neq: "?i \<noteq> e" using spot_inj [of ?n e q "?n - 1"] spot_last [OF e(1)] qn p(1) q(2) n by auto
    have new: "(table st)[?i := Some t] ! spot ?n e r = (if r = q then Some t else ?at r)" if "r < ?n" for r
      using spot_inj [of ?n e q r] that qn n by (auto simp: nth_list_update)
    have "rank ?n e (home st x) \<le> r \<and>
        (\<forall>g. rank ?n e (home st x) \<le> g \<and> g < r \<and> (table st)[?i := Some t] ! spot ?n e g = None \<longrightarrow>
           Suc p \<le> r \<and> g < Suc p)"
      if r: "r < ?n" "(table st)[?i := Some t] ! spot ?n e r = Some x" for r x
    proof (cases "r = q")
      case True
      then have "x = t" using r new by simp
      moreover have "(table st)[?i := Some t] ! spot ?n e g \<noteq> None" if "?a \<le> g" "g < q" for g
        using new [of g] before [OF that] that(2) qn by simp
      ultimately show ?thesis using True q(1) by blast
    next
      case False
      then have "?at r = Some x" using r new by simp
      then have old: "rank ?n e (home st x) \<le> r"
        "\<And>g. rank ?n e (home st x) \<le> g \<Longrightarrow> g < r \<Longrightarrow> ?at g = None \<Longrightarrow> Suc p \<le> r \<and> g < Suc p"
        using gaps r(1) unfolding no_gaps_def Let_def by blast+
      have "?at g = None" if "g < r" "(table st)[?i := Some t] ! spot ?n e g = None" for g
        using new [of g] that r(1) by (auto split: if_splits)
      with old show ?thesis by blast
    qed
    with e neq show ?thesis unfolding no_gaps_def Let_def by simp
  qed
  ultimately show thesis by (rule that)
qed

lemma sizes_len: "TABLE_SIZES_LEN = Suc 50"
  by (simp add: TABLE_SIZES_LEN_def tableSizes_def)

text \<open>The cleanup loop: from rank \<open>p\<close> on, up to the next empty bucket.\<close>

lemma cleanup_inv:
  assumes "no_gaps st e p" "p < length (table st)" "no_duplicates st" "set_laws st"
    "length (table st) \<in> set (tl tableSizes)" "itemCount st \<le> load_limit (length (table st))"
    "length (table st) - p \<le> fuel" "n = length (table st)"
  shows "\<exists>st'. set_cleanup n fuel (spot n e p) st = Some st' \<and> set_inv st' \<and> items st' = items st
    \<and> hashf st' = hashf st \<and> eqf st' = eqf st"
  using assms
proof (induction fuel arbitrary: st p)
  case 0
  then show ?case by simp
next
  case (Suc fuel)
  let ?n = "length (table st)"
  have e: "e < ?n" "table st ! e = None" using Suc.prems(1) by (simp_all add: no_gaps_def Let_def)
  show ?case
  proof (cases "table st ! spot ?n e p")
    case None
    have "rank ?n e (home st x) \<le> r \<and> (\<forall>q. rank ?n e (home st x) \<le> q \<and> q < r \<longrightarrow> table st ! spot ?n e q \<noteq> None)"
      if r: "r < ?n" "table st ! spot ?n e r = Some x" for r x
    proof -
      have old: "rank ?n e (home st x) \<le> r"
        "\<And>g. rank ?n e (home st x) \<le> g \<Longrightarrow> g < r \<Longrightarrow> table st ! spot ?n e g = None \<Longrightarrow> p \<le> r \<and> g < p"
        using Suc.prems(1) r unfolding no_gaps_def Let_def by blast+
      have "table st ! spot ?n e q \<noteq> None" if q: "rank ?n e (home st x) \<le> q" "q < r" for q
      proof
        assume gap: "table st ! spot ?n e q = None"
        then have "p \<le> r" "q < p" using old(2) q by blast+
        moreover have "r \<noteq> p" using r(2) None by auto
        ultimately have "p < r" "rank ?n e (home st x) \<le> p" using q by linarith+
        with old(2) [of p] None show False by blast
      qed
      with old(1) show ?thesis by blast
    qed
    then have "no_gaps st e 0" using e unfolding no_gaps_def Let_def by blast
    then have "set_inv st"
      using no_gaps_reachable Suc.prems e unfolding set_inv_def set_wf_iff by auto
    with None Suc.prems(8) show ?thesis by simp
  next
    case (Some t)
    let ?i = "spot ?n e p" and ?st = "take_out st (spot ?n e p)"
    have n: "0 < ?n" using e by linarith
    note nd = take_out_no_duplicates [OF Suc.prems(3) spot_less [OF n] Some]
    have "?i \<noteq> e" using Some e by auto
    then have last: "Suc p < ?n" using spot_last [OF e(1)] Suc.prems(2) by (cases "p = ?n - 1") auto
    have "rank ?n e (home st t) \<le> p" using Suc.prems(1,2) Some unfolding no_gaps_def Let_def by blast
    then obtain i where i: "bucket ?st t = Some i" "i < ?n" "table ?st ! i = None"
      "no_gaps (put_item ?st i t) e (Suc p)"
      using no_gaps_put_back [OF no_gaps_take_out [OF Suc.prems(1,2)], of t] last nd(4) n by auto
    let ?new = "put_item ?st i t"
    have fresh: "no_duplicates ?new" "items ?new = insert t (items ?st)"
      using put_fresh [OF nd(1), of i t] i nd(4) Suc.prems(4) by simp_all
    have count: "itemCount ?new = itemCount st" using nd(2) i(3) by (simp add: put_item_def)
    then have "set_add (Suc 50) ?st t = Some (?new, table ?st ! i)"
      using Suc.prems(6) by (intro set_add_put [OF i(1)]) simp
    then have add: "BRSetAdd ?st t = Some (?new, None)"
      by (simp only: BRSetAdd_def sizes_len i(3))
    have "t \<in> items st" unfolding items_iff using Some spot_less [OF n] by blast
    then have items: "items ?new = items st" using fresh(2) nd(3) by auto
    have "\<exists>st'. set_cleanup n fuel (spot n e (Suc p)) ?new = Some st' \<and> set_inv st' \<and> items st' = items ?new
        \<and> hashf st' = hashf ?new \<and> eqf st' = eqf ?new"
      by (rule Suc.IH) (use i(4) last fresh(1) Suc.prems count in \<open>simp_all\<close>)
    moreover have "(spot n e p + 1) mod n = spot n e (Suc p)"
      using spot_add [of n e p 1] by simp
    ultimately show ?thesis
      using Some add items Suc.prems(8) by (simp add: take_out_fold)
  qed
qed

text \<open>
  \<open>BRSetRemove\<close>: the equal item is taken out and returned, everything else stays.
\<close>

lemma BRSetRemove_inv:
  assumes inv: "set_inv st" and laws: "set_laws st"
  obtains st' where "BRSetRemove st item = Some (st', lookup st item)" "set_inv st'"
    "items st' = {x \<in> items st. \<not> matches st item x}" "hashf st' = hashf st" "eqf st' = eqf st"
proof -
  let ?n = "length (table st)"
  note wf = set_inv_wf(1) [OF inv] and empty = set_inv_empty_bucket [OF inv]
  obtain i where i: "bucket st item = Some i" "i < ?n" "\<And>x. table st ! i = Some x \<Longrightarrow> matches st item x"
    using bucket_finds [OF wf laws empty, of item] by metis
  have at: "table st ! i = lookup st item"
    using BRSetGet_lookup [OF wf laws empty, of item] i(1) by (simp add: BRSetGet_def)
  show thesis
  proof (cases "table st ! i")
    case None
    then have "BRSetRemove st item = Some (st, lookup st item)"
      using i(1) at by (simp add: BRSetRemove_def Let_def)
    moreover have "items st = {x \<in> items st. \<not> matches st item x}"
      using None at lookup_None_iff [of st item] by auto
    ultimately show thesis using inv by (intro that [of st]) simp_all
  next
    case (Some t)
    obtain e where e: "e < ?n" "table st ! e = None" using empty by blast
    have n: "0 < ?n" using e by linarith
    let ?p = "rank ?n e i" and ?st = "take_out st i"
    have nd0: "no_duplicates st" using wf by (simp add: set_wf_iff)
    note nd = take_out_no_duplicates [OF nd0 i(2) Some]
    have "no_gaps st e 0" using wf e by (intro no_gapsI) (auto simp: set_wf_iff)
    then have "no_gaps st e ?p" unfolding no_gaps_def Let_def by blast
    then have gaps: "no_gaps ?st e (Suc ?p)"
      using no_gaps_take_out [of st e ?p] spot_rank [OF e(1) i(2)] n by simp
    have "?p \<noteq> ?n - 1" using spot_last [OF e(1)] spot_rank [OF e(1) i(2)] Some e(2) by auto
    then have p: "Suc ?p < ?n" using rank_less [OF n, of e i] by linarith
    have "\<exists>st'. set_cleanup ?n ?n (spot ?n e (Suc ?p)) ?st = Some st' \<and> set_inv st' \<and> items st' = items ?st
        \<and> hashf st' = hashf ?st \<and> eqf st' = eqf ?st"
    proof (rule cleanup_inv [OF gaps])
      show "itemCount ?st \<le> load_limit (length (table ?st))" using inv nd(2) by (simp add: set_inv_def)
    qed (use p nd(1) laws inv in \<open>simp_all add: set_inv_def\<close>)
    then obtain st' where st': "set_cleanup ?n ?n (spot ?n e (Suc ?p)) ?st = Some st'" "set_inv st'"
      "items st' = items ?st" "hashf st' = hashf st" "eqf st' = eqf st"
      unfolding take_out_simps by blast
    have "(i + 1) mod ?n = spot ?n e (Suc ?p)"
      using spot_add [of ?n e ?p 1] spot_rank [OF e(1) i(2)] by simp
    then have "BRSetRemove st item = Some (st', lookup st item)"
      using i(1) Some at st'(1) by (simp add: BRSetRemove_def Let_def take_out_fold)
    moreover have "items ?st = {x \<in> items st. \<not> matches st item x}"
    proof -
      have "t \<in> items st" "matches st item t" using i Some by (auto simp: items_iff)
      then show ?thesis using nd(3) items_unique [OF wf laws] by blast
    qed
    ultimately show thesis using st' by (intro that [of st']) simp_all
  qed
qed

section \<open>Refinement\<close>

lemma itemCount_card: "set_inv st \<Longrightarrow> itemCount st = card (items st)"
  using distinct_table_items [of st] by (simp add: set_inv_def set_wf_def items_def distinct_card)

lemma finite_items [simp]: "finite (items st)"
  by (simp add: items_def)

text \<open>
  The abstract set is a function that gives for every item the equal one of the set, if any. The
  operations on it, their results, and a run of them.
\<close>

datatype 'a set_op = AddItem 'a | RemoveItem 'a | ClearItems

definition equal_items :: "('a \<Rightarrow> 'a \<Rightarrow> bool) \<Rightarrow> 'a \<Rightarrow> 'a \<Rightarrow> bool" where
  "equal_items eq x y \<longleftrightarrow> y = x \<or> eq y x"

fun abstract_op :: "('a \<Rightarrow> 'a \<Rightarrow> bool) \<Rightarrow> ('a \<Rightarrow> 'a option) \<Rightarrow> 'a set_op \<Rightarrow> ('a \<Rightarrow> 'a option) \<times> 'a option" where
  "abstract_op eq m (AddItem x) = ((\<lambda>y. if equal_items eq x y then Some x else m y), m x)"
| "abstract_op eq m (RemoveItem x) = ((\<lambda>y. if equal_items eq x y then None else m y), m x)"
| "abstract_op eq m ClearItems = ((\<lambda>y. None), None)"

fun abstract_run :: "('a \<Rightarrow> 'a \<Rightarrow> bool) \<Rightarrow> ('a \<Rightarrow> 'a option) \<Rightarrow> 'a set_op list \<Rightarrow> ('a \<Rightarrow> 'a option) \<times> 'a option list" where
  "abstract_run eq m [] = (m, [])"
| "abstract_run eq m (x # xs) =
     (let (m1, r) = abstract_op eq m x; (m2, rs) = abstract_run eq m1 xs in (m2, r # rs))"

text \<open>The same operations on the hash table.\<close>

fun set_step :: "'a BRSet \<Rightarrow> 'a set_op \<Rightarrow> ('a BRSet \<times> 'a option) option" where
  "set_step st (AddItem x) = BRSetAdd st x"
| "set_step st (RemoveItem x) = BRSetRemove st x"
| "set_step st ClearItems = Some (BRSetClear st, None)"

fun set_run :: "'a BRSet \<Rightarrow> 'a set_op list \<Rightarrow> ('a BRSet \<times> 'a option list) option" where
  "set_run st [] = Some (st, [])"
| "set_run st (x # xs) =
     (case set_step st x of
        None \<Rightarrow> None
      | Some (st1, r) \<Rightarrow> map_option (\<lambda>(st2, rs). (st2, r # rs)) (set_run st1 xs))"

context item_equality
begin

definition made_with :: "'a BRSet \<Rightarrow> bool" where
  "made_with st \<longleftrightarrow> set_inv st \<and> hashf st = hash \<and> eqf st = eq"

lemma made_with_laws: "made_with st \<Longrightarrow> set_laws st"
  using item_equality_axioms by (simp add: made_with_def set_laws_def)

lemma matches_equal: "made_with st \<Longrightarrow> matches st x y = equal_items eq x y"
  by (simp add: made_with_def matches_def equal_items_def)

lemma get: "made_with st \<Longrightarrow> BRSetGet st y = Some (lookup st y)"
  by (rule BRSetGet_lookup) (auto simp: made_with_def set_inv_wf made_with_laws dest: set_inv_empty_bucket)

lemma lookup_eqI:
  assumes "made_with st" "\<And>x. x \<in> items st \<and> equal_items eq y x \<longleftrightarrow> r = Some x"
  shows "lookup st y = r"
proof -
  have "lookup st y = Some x \<longleftrightarrow> r = Some x" for x
    using assms by (simp add: lookup_Some_iff set_inv_wf(1) made_with_laws matches_equal made_with_def)
  then show ?thesis by (metis option.exhaust)
qed

lemma lookup_iff: "made_with st \<Longrightarrow> lookup st y = Some x \<longleftrightarrow> x \<in> items st \<and> equal_items eq y x"
  by (simp add: lookup_Some_iff set_inv_wf(1) made_with_laws matches_equal made_with_def)

lemma equal_items_refl: "equal_items eq x x"
  by (simp add: equal_items_def)

lemma equal_items_sym: "equal_items eq x y \<Longrightarrow> equal_items eq y x"
  using eq_sym by (auto simp: equal_items_def)

lemma equal_items_trans: "equal_items eq x y \<Longrightarrow> equal_items eq y z \<Longrightarrow> equal_items eq x z"
  using eq_trans by (auto simp: equal_items_def)

lemmas equal_items_rules = equal_items_refl equal_items_sym equal_items_trans

lemma step:
  assumes st: "made_with st" and count: "itemCount st + 1 < 2 ^ 31"
  shows "\<exists>st'. set_step st x = Some (st', snd (abstract_op eq (lookup st) x)) \<and> made_with st'
    \<and> lookup st' = fst (abstract_op eq (lookup st) x) \<and> itemCount st' \<le> itemCount st + 1"
proof (cases x)
  case (AddItem a)
  obtain st' where st': "BRSetAdd st a = Some (st', lookup st a)" "set_inv st'"
    "items st' = insert a {x \<in> items st. \<not> matches st a x}" "hashf st' = hashf st" "eqf st' = eqf st"
    using BRSetAdd_inv [OF _ made_with_laws [OF st] count, of a] st by (metis made_with_def)
  then have made: "made_with st'" using st by (simp add: made_with_def)
  have "lookup st' y = (if equal_items eq a y then Some a else lookup st y)" for y
  proof (rule lookup_eqI [OF made])
    show "x \<in> items st' \<and> equal_items eq y x \<longleftrightarrow> (if equal_items eq a y then Some a else lookup st y) = Some x" for x
    proof (cases "equal_items eq a y")
      case True
      have "x \<in> items st' \<and> equal_items eq y x \<longleftrightarrow> a = x"
        unfolding st'(3) matches_equal [OF st] using True equal_items_rules by blast
      with True show ?thesis by simp
    next
      case False
      have "x \<in> items st' \<and> equal_items eq y x \<longleftrightarrow> x \<in> items st \<and> equal_items eq y x"
        unfolding st'(3) matches_equal [OF st] using False equal_items_rules by blast
      with False show ?thesis by (simp add: lookup_iff [OF st])
    qed
  qed
  moreover have "itemCount st' \<le> itemCount st + 1"
  proof -
    have "card (items st') \<le> Suc (card {x \<in> items st. \<not> matches st a x})"
      unfolding st'(3) by (rule card_insert_le_m1) auto
    also have "\<dots> \<le> Suc (card (items st))" by (auto intro: card_mono)
    finally show ?thesis using st st'(2) by (simp add: itemCount_card made_with_def)
  qed
  ultimately show ?thesis using st'(1) made AddItem by auto
next
  case (RemoveItem a)
  obtain st' where st': "BRSetRemove st a = Some (st', lookup st a)" "set_inv st'"
    "items st' = {x \<in> items st. \<not> matches st a x}" "hashf st' = hashf st" "eqf st' = eqf st"
    using BRSetRemove_inv [OF _ made_with_laws [OF st], of a] st by (metis made_with_def)
  then have made: "made_with st'" using st by (simp add: made_with_def)
  have "lookup st' y = (if equal_items eq a y then None else lookup st y)" for y
  proof (rule lookup_eqI [OF made])
    show "x \<in> items st' \<and> equal_items eq y x \<longleftrightarrow> (if equal_items eq a y then None else lookup st y) = Some x" for x
    proof (cases "equal_items eq a y")
      case True
      have "\<not> (x \<in> items st' \<and> equal_items eq y x)"
        unfolding st'(3) matches_equal [OF st] using True equal_items_rules by blast
      with True show ?thesis by simp
    next
      case False
      have "x \<in> items st' \<and> equal_items eq y x \<longleftrightarrow> x \<in> items st \<and> equal_items eq y x"
        unfolding st'(3) matches_equal [OF st] using False equal_items_rules by blast
      with False show ?thesis by (simp add: lookup_iff [OF st])
    qed
  qed
  moreover have "itemCount st' \<le> itemCount st + 1"
  proof -
    have "card (items st') \<le> card (items st)" unfolding st'(3) by (auto intro: card_mono)
    then show ?thesis using st st'(2) by (simp add: itemCount_card made_with_def)
  qed
  ultimately show ?thesis using st'(1) made RemoveItem by auto
next
  case ClearItems
  have "length (table st) \<in> set (tl tableSizes)" using st by (simp add: made_with_def set_inv_def)
  then have "made_with (BRSetClear st)"
    using st set_inv_empty [of "length (table st)" hash eq]
    by (simp add: made_with_def BRSetClear_def set_inv_def set_wf_def)
  with ClearItems show ?thesis by (auto simp: BRSetClear_def lookup_def)
qed

lemma run:
  assumes "made_with st" "itemCount st + length xs < 2 ^ 31"
  shows "\<exists>st'. set_run st xs = Some (st', snd (abstract_run eq (lookup st) xs)) \<and> made_with st'
    \<and> lookup st' = fst (abstract_run eq (lookup st) xs) \<and> itemCount st' \<le> itemCount st + length xs"
  using assms
proof (induction xs arbitrary: st)
  case Nil
  then show ?case by simp
next
  case (Cons x xs)
  obtain st1 where st1: "set_step st x = Some (st1, snd (abstract_op eq (lookup st) x))" "made_with st1"
    "lookup st1 = fst (abstract_op eq (lookup st) x)" "itemCount st1 \<le> itemCount st + 1"
    using step [OF Cons.prems(1), of x] Cons.prems(2) by auto
  have "itemCount st1 + length xs < 2 ^ 31" using st1(4) Cons.prems(2) by simp
  from Cons.IH [OF st1(2) this] st1(1,3,4) show ?case
    by (auto simp: split_beta Let_def)
qed

text \<open>The operations on whole sets are runs of additions and removals.\<close>

lemma union_run: "BRSetUnion st otherSet = map_option fst (set_run st (map AddItem (table_items (table otherSet))))"
proof -
  have "fold_option (\<lambda>s t. map_option fst (BRSetAdd s t)) st xs = map_option fst (set_run st (map AddItem xs))" for xs
    by (induction xs arbitrary: st) (auto split: option.splits simp: option.map_comp o_def split_beta)
  then show ?thesis by (simp add: BRSetUnion_def)
qed

lemma minus_run: "BRSetMinus st otherSet = map_option fst (set_run st (map RemoveItem (table_items (table otherSet))))"
proof -
  have "fold_option (\<lambda>s t. map_option fst (BRSetRemove s t)) st xs = map_option fst (set_run st (map RemoveItem xs))" for xs
    by (induction xs arbitrary: st) (auto split: option.splits simp: option.map_comp o_def split_beta)
  then show ?thesis by (simp add: BRSetMinus_def)
qed

lemma abstract_adds:
  assumes "distinct xs" "\<And>x x'. x \<in> set xs \<Longrightarrow> x' \<in> set xs \<Longrightarrow> equal_items eq x x' \<Longrightarrow> x = x'"
  shows "fst (abstract_run eq m (map AddItem xs)) y = (case find (equal_items eq y) xs of Some x \<Rightarrow> Some x | None \<Rightarrow> m y)"
  using assms
proof (induction xs arbitrary: m)
  case Nil
  then show ?case by simp
next
  case (Cons x xs)
  let ?m = "\<lambda>y. if equal_items eq x y then Some x else m y"
  have IH: "fst (abstract_run eq ?m (map AddItem xs)) y = (case find (equal_items eq y) xs of Some x \<Rightarrow> Some x | None \<Rightarrow> ?m y)"
    by (rule Cons.IH) (use Cons.prems in auto)
  show ?case
  proof (cases "equal_items eq y x")
    case True
    have "find (equal_items eq y) xs = None"
      using Cons.prems True equal_items_rules unfolding find_None_iff by (metis distinct.simps(2) list.set_intros)
    with IH True equal_items_sym show ?thesis by (simp add: split_beta Let_def)
  next
    case False
    with IH equal_items_sym [of x y] show ?thesis by (auto simp: split_beta Let_def split: option.splits)
  qed
qed

lemma abstract_removes:
  "fst (abstract_run eq m (map RemoveItem xs)) y = (if \<exists>x \<in> set xs. equal_items eq x y then None else m y)"
  by (induction xs arbitrary: m) (auto simp: split_beta Let_def)

lemma items_pairwise:
  assumes "made_with st" "x \<in> set (table_items (table st))" "x' \<in> set (table_items (table st))" "equal_items eq x x'"
  shows "x = x'"
  using items_unique [of st x x' x] assms made_with_laws [of st] set_inv_wf(1) [of st] matches_equal [OF assms(1)]
  by (simp add: made_with_def items_def equal_items_refl)

lemma union:
  assumes "made_with st" "made_with otherSet" "itemCount st + itemCount otherSet < 2 ^ 31"
  shows "\<exists>u. BRSetUnion st otherSet = Some u \<and> made_with u \<and>
    (\<forall>y. lookup u y = (case lookup otherSet y of Some x \<Rightarrow> Some x | None \<Rightarrow> lookup st y))"
proof -
  let ?xs = "table_items (table otherSet)"
  have "itemCount otherSet = length ?xs" using assms(2) by (simp add: made_with_def set_inv_def set_wf_def)
  then obtain u where "set_run st (map AddItem ?xs) = Some (u, snd (abstract_run eq (lookup st) (map AddItem ?xs)))"
      "made_with u" "lookup u = fst (abstract_run eq (lookup st) (map AddItem ?xs))"
    using run [OF assms(1), of "map AddItem ?xs"] assms(3) by auto
  moreover have "lookup otherSet y = find (equal_items eq y) ?xs" for y
  proof -
    have "matches otherSet y = equal_items eq y" by (rule ext) (rule matches_equal [OF assms(2)])
    then show ?thesis by (simp add: lookup_def)
  qed
  moreover have "distinct ?xs" using assms(2) by (intro distinct_table_items) (simp add: made_with_def set_inv_wf)
  ultimately show ?thesis
    using abstract_adds [OF _ items_pairwise [OF assms(2)]] by (simp add: union_run)
qed

lemma minus:
  assumes "made_with st" "made_with otherSet" "itemCount st + itemCount otherSet < 2 ^ 31"
  shows "\<exists>u. BRSetMinus st otherSet = Some u \<and> made_with u \<and>
    (\<forall>y. lookup u y = (if lookup otherSet y = None then lookup st y else None))"
proof -
  let ?xs = "table_items (table otherSet)"
  have "itemCount otherSet = length ?xs" using assms(2) by (simp add: made_with_def set_inv_def set_wf_def)
  then obtain u where "set_run st (map RemoveItem ?xs) = Some (u, snd (abstract_run eq (lookup st) (map RemoveItem ?xs)))"
      "made_with u" "lookup u = fst (abstract_run eq (lookup st) (map RemoveItem ?xs))"
    using run [OF assms(1), of "map RemoveItem ?xs"] assms(3) by auto
  moreover have "lookup otherSet y = None \<longleftrightarrow> \<not> (\<exists>x \<in> set ?xs. equal_items eq x y)" for y
    using matches_equal [OF assms(2)] equal_items_sym by (auto simp: lookup_None_iff items_def)
  ultimately show ?thesis by (auto simp: minus_run abstract_removes)
qed

lemma contains: "made_with st \<Longrightarrow> BRSetContains st y = Some (lookup st y \<noteq> None)"
  by (simp add: BRSetContains_def get)

lemma intersects:
  assumes "made_with st" "made_with otherSet"
  shows "BRSetIntersects st otherSet = Some (\<exists>y. lookup st y \<noteq> None \<and> lookup otherSet y \<noteq> None)"
proof -
  have "set_intersects st ts = Some (\<exists>t \<in> set ts. lookup st t \<noteq> None)" for ts
    by (induction ts) (auto simp: get [OF assms(1)] split: option.splits)
  moreover have "(\<exists>t \<in> items otherSet. lookup st t \<noteq> None) \<longleftrightarrow> (\<exists>y. lookup st y \<noteq> None \<and> lookup otherSet y \<noteq> None)"
  proof
    assume "\<exists>t \<in> items otherSet. lookup st t \<noteq> None"
    then obtain t where "t \<in> items otherSet" "lookup st t \<noteq> None" by blast
    moreover from this have "lookup otherSet t \<noteq> None"
      using matches_refl [of otherSet t] lookup_None_iff [of otherSet t] by blast
    ultimately show "\<exists>y. lookup st y \<noteq> None \<and> lookup otherSet y \<noteq> None" by blast
  next
    assume "\<exists>y. lookup st y \<noteq> None \<and> lookup otherSet y \<noteq> None"
    then obtain y x t where xt: "lookup st y = Some x" "lookup otherSet y = Some t" by blast
    then have "x \<in> items st" "equal_items eq t x" "t \<in> items otherSet"
      using lookup_iff assms equal_items_rules by meson+
    then have "lookup st t \<noteq> None" using lookup_None_iff [of st t] matches_equal [OF assms(1)] by blast
    with \<open>t \<in> items otherSet\<close> show "\<exists>t \<in> items otherSet. lookup st t \<noteq> None" by blast
  qed
  ultimately show ?thesis by (simp add: BRSetIntersects_def items_def)
qed

end

text \<open>
  C33: The hash set behaves as the abstract set. Started from \<open>BRSetNew\<close>, every sequence of fewer
  than \<open>2 ^ 31\<close> additions, removals and clears runs to its end (no probe loops forever, no table
  size is missing); the items \<open>BRSetAdd\<close> and \<open>BRSetRemove\<close> return are those the abstract set
  returns; and afterwards \<open>BRSetGet\<close> finds for every item the equal one last added and not removed
  since, whatever collisions, growth and cluster cleanups happened on the way.
\<close>

theorem set_run_refines:
  assumes "item_equality h e" "BRSetNew h e capacity = Some st0" "length ops < 2 ^ 31"
  shows "\<exists>st. set_run st0 ops = Some (st, snd (abstract_run e (\<lambda>y. None) ops)) \<and>
    (\<forall>y. BRSetGet st y = Some (fst (abstract_run e (\<lambda>y. None) ops) y))"
proof -
  note laws = assms(1)
  have st0: "item_equality.made_with h e st0" "itemCount st0 = 0" "lookup st0 = (\<lambda>y. None)"
    using BRSetNew_inv [OF assms(2)] itemCount_card [of st0]
    by (auto simp: item_equality.made_with_def [OF laws] lookup_None_iff fun_eq_iff)
  then obtain st where "set_run st0 ops = Some (st, snd (abstract_run e (lookup st0) ops))"
      "item_equality.made_with h e st" "lookup st = fst (abstract_run e (lookup st0) ops)"
    using item_equality.run [OF laws st0(1), of ops] assms(3) by auto
  then show ?thesis using item_equality.get [OF laws, of st] st0(3) by auto
qed

theorem set_run_refines_witness:
  "\<exists>st0 st. BRSetNew (\<lambda>x. x AND 7) (=) 0 = Some st0 \<and>
     set_run st0 [AddItem 1, AddItem 9, AddItem (17 :: u64), RemoveItem 1] = Some (st, [None, None, None, Some 1]) \<and>
     BRSetGet st 17 = Some (Some 17) \<and> BRSetGet st 1 = Some None"
proof -
  let ?st0 = "\<lparr>table = [None, None, None], itemCount = 0, hashf = (\<lambda>x :: u64. x AND 7), eqf = (=)\<rparr>"
  let ?ops = "[AddItem 1, AddItem 9, AddItem (17 :: u64), RemoveItem 1]"
  have new: "BRSetNew (\<lambda>x :: u64. x AND 7) (=) 0 = Some ?st0"
    by (simp add: BRSetNew_def BRSetInit_def tableSizes_def TABLE_SIZES_LEN_def numeral_3_eq_3)
  have laws: "item_equality (\<lambda>x :: u64. x AND 7) (=)" by unfold_locales auto
  have run: "abstract_run (=) (\<lambda>y. None) ?ops =
      ((\<lambda>y. if y = 1 then None else if y = 17 then Some 17 else if y = 9 then Some 9 else if y = 1 then Some 1 else None),
       [None, None, None, Some 1])"
    by (auto simp: equal_items_def fun_eq_iff)
  show ?thesis using set_run_refines [OF laws new, of ?ops] new unfolding run by auto
qed

text \<open>
  The operations on whole sets are those of the abstract sets, for any two sets reached from
  \<open>BRSetNew\<close> by additions, removals and clears: \<open>BRSetUnion\<close> prefers the items of the other set,
  \<open>BRSetMinus\<close> takes out all items equal to one of the other set, and \<open>BRSetIntersects\<close> and
  \<open>BRSetContains\<close> answer correctly.
\<close>

theorem set_bulk_operations:
  assumes "item_equality h e" "BRSetNew h e capacity = Some st0" "length xs + length ys < 2 ^ 31"
    and "set_run st0 xs = Some (st, rs)" "set_run st0 ys = Some (otherSet, rs')"
  shows "(\<exists>u. BRSetUnion st otherSet = Some u \<and>
       (\<forall>y. BRSetGet u y = Some (case lookup otherSet y of Some x \<Rightarrow> Some x | None \<Rightarrow> lookup st y))) \<and>
     (\<exists>u. BRSetMinus st otherSet = Some u \<and>
       (\<forall>y. BRSetGet u y = Some (if lookup otherSet y = None then lookup st y else None))) \<and>
     BRSetIntersects st otherSet = Some (\<exists>y. lookup st y \<noteq> None \<and> lookup otherSet y \<noteq> None) \<and>
     (\<forall>y. BRSetContains st y = Some (lookup st y \<noteq> None))"
proof -
  note laws = assms(1)
  have st0: "item_equality.made_with h e st0" "itemCount st0 = 0"
    using BRSetNew_inv [OF assms(2)] itemCount_card [of st0]
    by (auto simp: item_equality.made_with_def [OF laws])
  have st: "item_equality.made_with h e st" "itemCount st \<le> length xs"
    using item_equality.run [OF laws st0(1), of xs] st0(2) assms(3,4) by auto
  have ot: "item_equality.made_with h e otherSet" "itemCount otherSet \<le> length ys"
    using item_equality.run [OF laws st0(1), of ys] st0(2) assms(3,5) by auto
  have count: "itemCount st + itemCount otherSet < 2 ^ 31" using st ot assms(3) by linarith
  show ?thesis
    using item_equality.union [OF laws st(1) ot(1) count] item_equality.minus [OF laws st(1) ot(1) count]
      item_equality.intersects [OF laws st(1) ot(1)] item_equality.contains [OF laws st(1)] item_equality.get [OF laws]
    by auto
qed

theorem set_bulk_operations_witness:
  "\<exists>st0 st otherSet u. BRSetNew (\<lambda>x. x AND 7) (=) 0 = Some st0 \<and>
     map_option fst (set_run st0 [AddItem 1, AddItem (9 :: u64)]) = Some st \<and>
     map_option fst (set_run st0 [AddItem 9]) = Some otherSet \<and>
     BRSetMinus st otherSet = Some u \<and> BRSetGet u 1 = Some (Some 1) \<and> BRSetGet u 9 = Some None"
proof -
  let ?st0 = "\<lparr>table = [None, None, None], itemCount = 0, hashf = (\<lambda>x :: u64. x AND 7), eqf = (=)\<rparr>"
  let ?xs = "[AddItem 1, AddItem (9 :: u64)]" and ?ys = "[AddItem (9 :: u64)]"
  have new: "BRSetNew (\<lambda>x :: u64. x AND 7) (=) 0 = Some ?st0"
    by (simp add: BRSetNew_def BRSetInit_def tableSizes_def TABLE_SIZES_LEN_def numeral_3_eq_3)
  have laws: "item_equality (\<lambda>x :: u64. x AND 7) (=)" by unfold_locales auto
  have st0: "item_equality.made_with (\<lambda>x. x AND 7) (=) ?st0" "lookup ?st0 = (\<lambda>y. None)"
    using BRSetNew_inv [OF new]
    by (auto simp: item_equality.made_with_def [OF laws] lookup_None_iff fun_eq_iff)
  obtain st rs where st: "set_run ?st0 ?xs = Some (st, rs)" "lookup st 1 = Some 1" "lookup st 9 = Some 9"
    using item_equality.run [OF laws st0(1), of ?xs] st0(2) by (auto simp: equal_items_def)
  obtain ot rs' where ot: "set_run ?st0 ?ys = Some (ot, rs')" "lookup ot 1 = None" "lookup ot 9 = Some 9"
    using item_equality.run [OF laws st0(1), of ?ys] st0(2) by (auto simp: equal_items_def)
  have len: "length ?xs + length ?ys < 2 ^ 31" by simp
  obtain u where u: "BRSetMinus st ot = Some u"
      "\<And>y. BRSetGet u y = Some (if lookup ot y = None then lookup st y else None)"
    using set_bulk_operations [OF laws new len st(1) ot(1)] by blast
  show ?thesis
    by (intro exI [of _ ?st0] exI [of _ st] exI [of _ ot] exI [of _ u] conjI)
      (simp_all only: new st ot u fst_conv option.map option.simps simp_thms if_True if_False)
qed

end
