(* ===== verification/Transaction.thy ===== *)
theory Transaction
  imports Script Hash BRSet "HOL-Library.Monad_Syntax"
begin

text \<open>
  Bitcoin transactions, \<open>bitcoin/BRTransaction.c\<close>: the structures, the serializer with its signature
  pre-images, the parser, and the size and fee estimates.

  An array member with its length (\<open>script, scriptLen\<close>) is a \<open>bytes option\<close>, \<open>None\<close> for \<open>NULL\<close>;
  \<open>inCount\<close> and \<open>outCount\<close> are the lengths of the lists. An \<open>index\<close> argument is an option, \<open>None\<close>
  for \<open>SIZE_MAX\<close>.
\<close>

section \<open>The structures\<close>

record BRTxInput =
  inTxHash :: bytes
  inIndex :: u32
  inAmount :: u64
  inScript :: "bytes option"
  inSignature :: "bytes option"
  inWitness :: "bytes option"
  inSequence :: u32

record BRTxOutput =
  outAmount :: u64
  outScript :: "bytes option"

record BRTransaction =
  txHash :: bytes
  wtxHash :: bytes
  txVersion :: u32
  inputs :: "BRTxInput list"
  outputs :: "BRTxOutput list"
  lockTime :: u32
  blockHeight :: u32
  timestamp :: u32

definition TX_VERSION :: u32 where "TX_VERSION = 1"
definition TX_LOCKTIME :: u32 where "TX_LOCKTIME = 0"
definition TX_UNCONFIRMED :: u32 where "TX_UNCONFIRMED = 0x7fffffff"
definition TXIN_SEQUENCE :: u32 where "TXIN_SEQUENCE = 0xffffffff"
definition TX_FEE_PER_KB :: u64 where "TX_FEE_PER_KB = 1000"
definition TX_OUTPUT_SIZE :: u64 where "TX_OUTPUT_SIZE = 34"
definition TX_INPUT_SIZE :: u64 where "TX_INPUT_SIZE = 148"
definition TX_MIN_OUTPUT_AMOUNT :: u64 where
  "TX_MIN_OUTPUT_AMOUNT = TX_FEE_PER_KB * 3 * (TX_OUTPUT_SIZE + TX_INPUT_SIZE) div 1000"

definition SIGHASH_ALL :: u32 where "SIGHASH_ALL = 0x01"
definition SIGHASH_NONE :: u32 where "SIGHASH_NONE = 0x02"
definition SIGHASH_SINGLE :: u32 where "SIGHASH_SINGLE = 0x03"
definition SIGHASH_ANYONECANPAY :: u32 where "SIGHASH_ANYONECANPAY = 0x80"
definition SIGHASH_FORKID :: u32 where "SIGHASH_FORKID = 0x40"

lemmas sighash = SIGHASH_ALL_def SIGHASH_NONE_def SIGHASH_SINGLE_def SIGHASH_ANYONECANPAY_def SIGHASH_FORKID_def

text \<open>The bytes of an array member, and its length.\<close>

definition arr :: "bytes option \<Rightarrow> bytes" where
  "arr a = (case a of None \<Rightarrow> [] | Some b \<Rightarrow> b)"

lemma arr_simps [simp]: "arr None = []" "arr (Some b) = b"
  by (simp_all add: arr_def)

section \<open>Setters and constructors\<close>

definition BRTxInputSetScript :: "BRTxInput \<Rightarrow> bytes option \<Rightarrow> BRTxInput" where
  "BRTxInputSetScript inp s = inp\<lparr>inScript := s\<rparr>"

definition BRTxInputSetSignature :: "BRTxInput \<Rightarrow> bytes option \<Rightarrow> BRTxInput" where
  "BRTxInputSetSignature inp s = inp\<lparr>inSignature := s\<rparr>"

definition BRTxInputSetWitness :: "BRTxInput \<Rightarrow> bytes option \<Rightarrow> BRTxInput" where
  "BRTxInputSetWitness inp s = inp\<lparr>inWitness := s\<rparr>"

definition BRTxOutputSetScript :: "BRTxOutput \<Rightarrow> bytes option \<Rightarrow> BRTxOutput" where
  "BRTxOutputSetScript outp s = outp\<lparr>outScript := s\<rparr>"

definition BRTransactionNew :: BRTransaction where
  "BRTransactionNew = \<lparr>txHash = UINT256_ZERO, wtxHash = UINT256_ZERO, txVersion = TX_VERSION, inputs = [], outputs = [],
     lockTime = TX_LOCKTIME, blockHeight = TX_UNCONFIRMED, timestamp = 0\<rparr>"

definition BRTransactionAddInput ::
    "BRTransaction \<Rightarrow> bytes \<Rightarrow> u32 \<Rightarrow> u64 \<Rightarrow> bytes option \<Rightarrow> bytes option \<Rightarrow> bytes option \<Rightarrow> u32 \<Rightarrow> BRTransaction" where
  "BRTransactionAddInput tx hash index amount script signature witness sequence =
     (let inp0 = \<lparr>inTxHash = hash, inIndex = index, inAmount = amount, inScript = None, inSignature = None,
                  inWitness = None, inSequence = sequence\<rparr>;
          inp1 = (if script \<noteq> None then BRTxInputSetScript inp0 script else inp0);
          inp2 = (if signature \<noteq> None then BRTxInputSetSignature inp1 signature else inp1);
          inp3 = (if witness \<noteq> None then BRTxInputSetWitness inp2 witness else inp2)
      in tx\<lparr>inputs := inputs tx @ [inp3]\<rparr>)"

definition BRTransactionAddOutput :: "BRTransaction \<Rightarrow> u64 \<Rightarrow> bytes option \<Rightarrow> BRTransaction" where
  "BRTransactionAddOutput tx amount script =
     tx\<lparr>outputs := outputs tx @ [BRTxOutputSetScript \<lparr>outAmount = amount, outScript = None\<rparr> script]\<rparr>"

definition BRTransactionCopy :: "BRTransaction \<Rightarrow> BRTransaction" where
  "BRTransactionCopy tx =
     (let cpy0 = tx\<lparr>inputs := [], outputs := []\<rparr>;
          cpy1 = foldl (\<lambda>c inp. BRTransactionAddInput c (inTxHash inp) (inIndex inp) (inAmount inp) (inScript inp)
                              (inSignature inp) (inWitness inp) (inSequence inp)) cpy0 (inputs tx)
      in foldl (\<lambda>c outp. BRTransactionAddOutput c (outAmount outp) (outScript outp)) cpy1 (outputs tx))"

section \<open>Serialization\<close>

definition put_var_int :: "u64 \<Rightarrow> u8 outbuf \<Rightarrow> u8 outbuf" where
  "put_var_int i = put_with (\<lambda>b. BRVarIntSet b i)"

text \<open>\<open>_BRTxInputData\<close>\<close>

definition BRTxInputData :: "BRTxInput \<Rightarrow> bytes option \<Rightarrow> bytes option \<times> nat" where
  "BRTxInputData inp data =
     (let s1 = put (inTxHash inp) (data, 0);
          s2 = put (UInt32SetLE (inIndex inp)) s1;
          s3 = put_var_int (of_nat (length (arr (inSignature inp)))) s2;
          s4 = put (arr (inSignature inp)) s3;
          s5 = (if inAmount inp \<noteq> 0 then put (UInt64SetLE (inAmount inp)) s4 else s4)
      in finish (put (UInt32SetLE (inSequence inp)) s5))"

text \<open>\<open>_BRTransactionOutputData\<close>\<close>

definition put_output :: "u8 outbuf \<Rightarrow> BRTxOutput \<Rightarrow> u8 outbuf" where
  "put_output s outp =
     put (arr (outScript outp)) (put_var_int (of_nat (length (arr (outScript outp)))) (put (UInt64SetLE (outAmount outp)) s))"

definition BRTransactionOutputData :: "BRTransaction \<Rightarrow> nat option \<Rightarrow> bytes option \<Rightarrow> bytes option \<times> nat" where
  "BRTransactionOutputData tx index data =
     (let outs = (case index of None \<Rightarrow> outputs tx | Some i \<Rightarrow> take 1 (drop i (outputs tx)))
      in finish (foldl put_output (data, 0) outs))"

text \<open>
  The buffers the serializer hashes: filled by a size query and a write. What the buffer held
  before does not matter, it is filled to the last byte.
\<close>

definition filled :: "(bytes option \<Rightarrow> bytes option \<times> nat) \<Rightarrow> bytes" where
  "filled w = (let bufLen = snd (w None); (buf, len) = w (Some (replicate bufLen 0)) in take len (arr buf))"

text \<open>\<open>_BRTransactionWitnessData\<close>, the BIP143 pre-image. An index out of range is an empty result.\<close>

definition p2wpkh_script_code :: "bytes \<Rightarrow> bytes" where
  "p2wpkh_script_code script = [OP_DUP, OP_HASH160, 20] @ take 20 (drop 2 script) @ [OP_EQUALVERIFY, OP_CHECKSIG]"

definition signing_script :: "BRTxInput \<Rightarrow> bytes option" where
  "signing_script inp =
     (let s = arr (inScript inp)
      in if length s = 22 \<and> s ! 0 = OP_0 \<and> s ! 1 = 20 then Some (p2wpkh_script_code s) else inScript inp)"

definition BRTransactionWitnessData :: "BRTransaction \<Rightarrow> nat option \<Rightarrow> u32 \<Rightarrow> bytes option \<Rightarrow> bytes option \<times> nat" where
  "BRTransactionWitnessData tx index hashType data =
     (let anyoneCanPay = (hashType AND SIGHASH_ANYONECANPAY \<noteq> 0); sigHash = hashType AND 0x1f
      in case index of
           None \<Rightarrow> (data, 0)
         | Some i \<Rightarrow>
           if i \<ge> length (inputs tx) then (data, 0)
           else
             let inputsHash =
                   (if \<not> anyoneCanPay
                    then BRSHA256_2 (concat (map (\<lambda>inp. inTxHash inp @ UInt32SetLE (inIndex inp)) (inputs tx)))
                    else UINT256_ZERO);
                 sequenceHash =
                   (if \<not> anyoneCanPay \<and> sigHash \<noteq> SIGHASH_SINGLE \<and> sigHash \<noteq> SIGHASH_NONE
                    then BRSHA256_2 (concat (map (\<lambda>inp. UInt32SetLE (inSequence inp)) (inputs tx)))
                    else UINT256_ZERO);
                 outputsHash =
                   (if sigHash \<noteq> SIGHASH_SINGLE \<and> sigHash \<noteq> SIGHASH_NONE
                    then BRSHA256_2 (filled (BRTransactionOutputData tx None))
                    else if sigHash = SIGHASH_SINGLE \<and> i < length (outputs tx)
                    then BRSHA256_2 (filled (BRTransactionOutputData tx (Some i)))
                    else UINT256_ZERO);
                 inp = (inputs tx ! i)\<lparr>inSignature := signing_script (inputs tx ! i)\<rparr>;
                 s1 = put (UInt32SetLE (txVersion tx)) (data, 0);
                 s2 = put inputsHash s1;
                 s3 = put sequenceHash s2;
                 s4 = put_with (BRTxInputData inp) s3;
                 s5 = put outputsHash s4;
                 s6 = put (UInt32SetLE (lockTime tx)) s5
             in finish (put (UInt32SetLE hashType) s6))"

text \<open>
  The loop that counts the items of a witness, on \<open>size_t\<close> values that wrap around: \<open>None\<close> if it
  never ends.
\<close>

partial_function (option) witness_count :: "bytes \<Rightarrow> u64 \<Rightarrow> u64 \<Rightarrow> u64 option" where
  "witness_count w woff cnt =
     (if woff < of_nat (length w)
      then let (v, len) = BRVarInt (drop (unat woff) w) in witness_count w (woff + v + of_nat len) (cnt + 1)
      else Some cnt)"

declare witness_count.simps [code]

definition put_witness :: "u8 outbuf \<Rightarrow> BRTxInput \<times> u64 \<Rightarrow> u8 outbuf" where
  "put_witness s = (\<lambda>(inp, cnt). put (arr (inWitness inp)) (put_var_int cnt s))"

fun witness_counts :: "BRTxInput list \<Rightarrow> u64 list option" where
  "witness_counts [] = Some []"
| "witness_counts (inp # inps) =
     do { c \<leftarrow> witness_count (arr (inWitness inp)) 0 0; cs \<leftarrow> witness_counts inps; Some (c # cs) }"

text \<open>The input at position \<open>i\<close> as it is serialized when the signature for \<open>index\<close> is made.\<close>

definition data_input :: "nat option \<Rightarrow> u32 \<Rightarrow> nat \<Rightarrow> BRTxInput \<Rightarrow> BRTxInput" where
  "data_input index sigHash i inp =
     (if index = Some i \<or> (index = None \<and> inSignature inp = None) then
        (let inp' = inp\<lparr>inSignature := inScript inp\<rparr> in if index = Some i then inp'\<lparr>inAmount := 0\<rparr> else inp')
      else if index \<noteq> None then
        (let inp' = inp\<lparr>inSignature := Some []\<rparr>;
             inp'' = (if sigHash = SIGHASH_NONE \<or> sigHash = SIGHASH_SINGLE then inp'\<lparr>inSequence := 0\<rparr> else inp')
         in inp''\<lparr>inAmount := 0\<rparr>)
      else inp\<lparr>inAmount := 0\<rparr>)"

text \<open>\<open>_BRTransactionData\<close>: \<open>None\<close> if a witness count never ends.\<close>

definition BRTransactionData :: "BRTransaction \<Rightarrow> nat option \<Rightarrow> u32 \<Rightarrow> bytes option \<Rightarrow> (bytes option \<times> nat) option" where
  "BRTransactionData tx index hashType data =
     (let anyoneCanPay = (hashType AND SIGHASH_ANYONECANPAY \<noteq> 0); sigHash = hashType AND 0x1f;
          inCount = length (inputs tx); outCount = length (outputs tx);
          in_range = (\<lambda>n. case index of None \<Rightarrow> False | Some i \<Rightarrow> i < n)
      in if hashType AND SIGHASH_FORKID \<noteq> 0 then Some (BRTransactionWitnessData tx index hashType data)
         else if anyoneCanPay \<and> \<not> in_range inCount then Some (data, 0)
         else
           let witnessFlag = (index = None \<and> (\<exists>inp \<in> set (inputs tx). length (arr (inWitness inp)) > 0));
               s1 = put (UInt32SetLE (txVersion tx)) (data, 0);
               s2 = (if \<not> anyoneCanPay then
                       (let s = put_var_int (of_nat inCount) (if witnessFlag then put [0, 1] s1 else s1)
                        in foldl (\<lambda>s (i, inp). put_with (BRTxInputData (data_input index sigHash i inp)) s) s
                             (enumerate 0 (inputs tx)))
                     else
                       (let inp = inputs tx ! the index
                        in put_with (BRTxInputData (inp\<lparr>inSignature := inScript inp, inAmount := 0\<rparr>)) (put_var_int 1 s1)));
               s3 = (if sigHash \<noteq> SIGHASH_SINGLE \<and> sigHash \<noteq> SIGHASH_NONE then
                       put_with (BRTransactionOutputData tx None) (put_var_int (of_nat outCount) s2)
                     else if sigHash = SIGHASH_SINGLE \<and> in_range outCount then
                       (let i = the index; s = put_var_int (of_nat (i + 1)) s2;
                            s' = foldl (\<lambda>s _. put_var_int 0 (put (UInt64SetLE (-1)) s)) s [0..<i]
                        in put_with (BRTransactionOutputData tx (Some i)) s')
                     else put_var_int 0 s2);
               s4 = (if witnessFlag
                     then map_option (\<lambda>cs. foldl put_witness s3 (zip (inputs tx) cs)) (witness_counts (inputs tx))
                     else Some s3)
           in map_option (\<lambda>s4.
                let s5 = put (UInt32SetLE (lockTime tx)) s4;
                    s6 = (if index \<noteq> None then put (UInt32SetLE hashType) s5 else s5)
                in finish s6) s4)"

definition BRTransactionSerialize :: "BRTransaction \<Rightarrow> bytes option \<Rightarrow> (bytes option \<times> nat) option" where
  "BRTransactionSerialize tx buf = BRTransactionData tx None SIGHASH_ALL buf"

section \<open>Parsing\<close>

text \<open>
  Offsets and lengths are \<open>size_t\<close> values that wrap around. \<open>guarded buf off n\<close> is a read of \<open>n\<close>
  bytes at \<open>&buf[off]\<close> under the guard \<open>off + n <= bufLen\<close>: \<open>Some None\<close> if the guard fails and
  \<open>None\<close> if it passes because the sum wraps around, so that the bytes lie outside the buffer and
  the behaviour of the C code is undefined. \<open>var_int_at\<close> is \<open>BRVarInt(&buf[off], (off <= bufLen ?
  bufLen - off : 0), &len)\<close>.
\<close>

definition guarded :: "bytes \<Rightarrow> u64 \<Rightarrow> u64 \<Rightarrow> bytes option option" where
  "guarded buf off n =
     (if off + n \<le> of_nat (length buf)
      then (if unat off + unat n \<le> length buf then Some (Some (take (unat n) (drop (unat off) buf))) else None)
      else Some None)"

definition var_int_at :: "bytes \<Rightarrow> u64 \<Rightarrow> u64 \<times> u64" where
  "var_int_at buf off =
     (let (v, len) = BRVarInt (if off \<le> of_nat (length buf) then drop (unat off) buf else []) in (v, of_nat len))"

definition u32_or_0 :: "bytes option \<Rightarrow> u32" where
  "u32_or_0 b = (case b of None \<Rightarrow> 0 | Some b \<Rightarrow> UInt32GetLE b)"

definition u64_or_0 :: "bytes option \<Rightarrow> u64" where
  "u64_or_0 b = (case b of None \<Rightarrow> 0 | Some b \<Rightarrow> UInt64GetLE b)"

definition u256_or_0 :: "bytes option \<Rightarrow> bytes" where
  "u256_or_0 b = (case b of None \<Rightarrow> UINT256_ZERO | Some b \<Rightarrow> UInt256Get b)"

text \<open>
  \<open>array_set_count\<close> on a fresh array allocates \<open>count\<close> elements and the two words in front of
  them. Where the product wraps around the array is too small for its count, which is undefined
  behaviour later on; otherwise the allocation is taken to succeed.
\<close>

definition allocates :: "u64 \<Rightarrow> nat \<Rightarrow> bool" where
  "allocates cnt elem_size \<longleftrightarrow> unat cnt * elem_size + 16 < 2 ^ 64"

text \<open>One input: the input, the next offset, and whether it is signed.\<close>

definition parse_input :: "bytes \<Rightarrow> bool \<Rightarrow> u64 \<Rightarrow> (BRTxInput \<times> u64 \<times> bool) option" where
  "parse_input buf witnessFlag off0 =
     do {
       hash \<leftarrow> guarded buf off0 32;
       let off1 = off0 + 32;
       index \<leftarrow> guarded buf off1 4;
       let off2 = off1 + 4;
       let (sLen, len) = var_int_at buf off2;
       let off3 = off2 + len;
       scr \<leftarrow> guarded buf off3 sLen;
       let inp0 = \<lparr>inTxHash = u256_or_0 hash, inIndex = u32_or_0 index, inAmount = 0, inScript = None,
                   inSignature = None, inWitness = None, inSequence = 0\<rparr>;
       (inp1, off4, isSigned) \<leftarrow>
         (case scr of
            None \<Rightarrow> Some (inp0, off3, True)
          | Some b \<Rightarrow>
            if BRScriptPubKeyIsValid b then
              do {
                amount \<leftarrow> guarded buf (off3 + sLen) 8;
                Some ((BRTxInputSetScript inp0 (Some b))\<lparr>inAmount := u64_or_0 amount\<rparr>, off3 + 8, False)
              }
            else Some (BRTxInputSetSignature inp0 (Some b), off3, True));
       let off5 = off4 + sLen;
       let inp2 = (if \<not> witnessFlag then BRTxInputSetWitness inp1 (Some []) else inp1);
       sequence \<leftarrow> guarded buf off5 4;
       Some (inp2\<lparr>inSequence := u32_or_0 sequence\<rparr>, off5 + 4, isSigned)
     }"

text \<open>
  The loops run over the elements that were allocated; they stop early when the offset has left
  the buffer, and then the remaining elements stay cleared.
\<close>

definition empty_input :: BRTxInput where
  "empty_input = \<lparr>inTxHash = UINT256_ZERO, inIndex = 0, inAmount = 0, inScript = None, inSignature = None,
     inWitness = None, inSequence = 0\<rparr>"

definition empty_output :: BRTxOutput where
  "empty_output = \<lparr>outAmount = 0, outScript = None\<rparr>"

fun parse_inputs :: "bytes \<Rightarrow> bool \<Rightarrow> nat \<Rightarrow> u64 \<Rightarrow> bool \<Rightarrow> (BRTxInput list \<times> u64 \<times> bool) option" where
  "parse_inputs buf witnessFlag 0 off isSigned = Some ([], off, isSigned)"
| "parse_inputs buf witnessFlag (Suc n) off isSigned =
     (if off \<le> of_nat (length buf) then
        do {
          (inp, off1, s) \<leftarrow> parse_input buf witnessFlag off;
          (inps, off2, isSigned') \<leftarrow> parse_inputs buf witnessFlag n off1 (isSigned \<and> s);
          Some (inp # inps, off2, isSigned')
        }
      else Some (replicate (Suc n) empty_input, off, isSigned))"

definition parse_output :: "bytes \<Rightarrow> u64 \<Rightarrow> (BRTxOutput \<times> u64) option" where
  "parse_output buf off0 =
     do {
       amount \<leftarrow> guarded buf off0 8;
       let off1 = off0 + 8;
       let (sLen, len) = var_int_at buf off1;
       let off2 = off1 + len;
       scr \<leftarrow> guarded buf off2 sLen;
       let outp = \<lparr>outAmount = u64_or_0 amount, outScript = None\<rparr>;
       Some (if scr \<noteq> None then BRTxOutputSetScript outp scr else outp, off2 + sLen)
     }"

fun parse_outputs :: "bytes \<Rightarrow> nat \<Rightarrow> u64 \<Rightarrow> (BRTxOutput list \<times> u64) option" where
  "parse_outputs buf 0 off = Some ([], off)"
| "parse_outputs buf (Suc n) off =
     (if off \<le> of_nat (length buf) then
        do {
          (outp, off1) \<leftarrow> parse_output buf off;
          (outps, off2) \<leftarrow> parse_outputs buf n off1;
          Some (outp # outps, off2)
        }
      else Some (replicate (Suc n) empty_output, off))"

text \<open>The items of one witness: \<open>sLen\<close> after \<open>count\<close> rounds.\<close>

fun witness_length :: "bytes \<Rightarrow> u64 \<Rightarrow> nat \<Rightarrow> u64 \<Rightarrow> u64" where
  "witness_length buf off 0 sLen = sLen"
| "witness_length buf off (Suc n) sLen =
     (let (v, len) = var_int_at buf (off + sLen) in witness_length buf off n (sLen + v + len))"

fun parse_witnesses :: "bytes \<Rightarrow> BRTxInput list \<Rightarrow> u64 \<Rightarrow> (BRTxInput list \<times> u64) option" where
  "parse_witnesses buf [] off = Some ([], off)"
| "parse_witnesses buf (inp # inps) off =
     (if off \<le> of_nat (length buf) then
        (let (cnt, len) = var_int_at buf off;
             off1 = off + len;
             sLen = witness_length buf off1 (unat cnt) 0
         in do {
              wit \<leftarrow> guarded buf off1 sLen;
              (inps', off2) \<leftarrow> parse_witnesses buf inps (off1 + sLen);
              Some ((if wit \<noteq> None then BRTxInputSetWitness inp wit else inp) # inps', off2)
            })
      else Some (inp # inps, off))"

text \<open>
  The end of the parser, an \<open>outcome\<close>: \<open>NULL\<close>, a transaction, or undefined behaviour. For a witness transaction it hashes a copy without the marker and the
  witnesses, of \<open>witnessOff - 2 + 4\<close> bytes; with \<open>witnessOff < 6\<close> the copy would have a negative
  length.
\<close>

definition parse_end :: "bytes \<Rightarrow> bool \<Rightarrow> bool \<Rightarrow> u64 \<Rightarrow> u64 \<Rightarrow> BRTransaction \<Rightarrow> BRTransaction outcome" where
  "parse_end buf witnessFlag isSigned witnessOff off tx =
     (if inputs tx = [] \<or> off > of_nat (length buf) then Null
      else if isSigned \<and> witnessFlag \<and> witnessOff < 4 + 2 then Undefined
      else if isSigned \<and> witnessFlag then
        (let sBuf = UInt32SetLE (txVersion tx) @ take (unat witnessOff - (4 + 2)) (drop (4 + 2) buf) @ UInt32SetLE (lockTime tx)
         in Returns (tx\<lparr>wtxHash := BRSHA256_2 (take (unat off) buf), txHash := BRSHA256_2 sBuf\<rparr>))
      else if isSigned then
        (let h = BRSHA256_2 (take (unat off) buf) in Returns (tx\<lparr>txHash := h, wtxHash := h\<rparr>))
      else Returns tx)"

definition BRTransactionParse :: "bytes \<Rightarrow> BRTransaction outcome" where
  "BRTransactionParse buf =
     (case do {
        version \<leftarrow> guarded buf 0 4;
        let (cnt0, len0) = var_int_at buf 4;
        let off0 = 4 + len0;
        flag \<leftarrow> (if cnt0 = 0 then guarded buf off0 1 else Some None);
        let (witnessFlag, off1) = (case flag of None \<Rightarrow> (False, off0) | Some b \<Rightarrow> (b ! 0 \<noteq> 0, off0 + 1));
        let (cnt1, off2) = (if witnessFlag then (let (c, len) = var_int_at buf off1 in (c, off1 + len)) else (cnt0, off1));
        _ \<leftarrow> (if allocates cnt1 104 then Some () else None);
        (inps, off3, isSigned) \<leftarrow> parse_inputs buf witnessFlag (unat cnt1) off2 True;
        let (cnt2, len2) = var_int_at buf off3;
        let off4 = off3 + len2;
        _ \<leftarrow> (if allocates cnt2 24 then Some () else None);
        (outps, off5) \<leftarrow> parse_outputs buf (unat cnt2) off4;
        (inps', off6) \<leftarrow> (if witnessFlag then parse_witnesses buf inps off5 else Some (inps, off5));
        lock \<leftarrow> guarded buf off6 4;
        Some (parse_end buf witnessFlag isSigned off5 (off6 + 4)
          (BRTransactionNew\<lparr>txVersion := u32_or_0 version, inputs := inps', outputs := outps, lockTime := u32_or_0 lock\<rparr>))
      } of None \<Rightarrow> Undefined | Some r \<Rightarrow> r)"

section \<open>Sizes and fees\<close>

text \<open>The sums that \<open>BRTransactionSize\<close> and \<open>BRTransactionVSize\<close> share: \<open>size\<close> and \<open>witSize\<close>.\<close>

definition var_size :: "bytes option \<Rightarrow> u64" where
  "var_size a = of_nat (BRVarIntSize (of_nat (length (arr a)))) + of_nat (length (arr a))"

definition input_size :: "u64 \<times> u64 \<Rightarrow> BRTxInput \<Rightarrow> u64 \<times> u64" where
  "input_size = (\<lambda>(sz, witSize) inp.
     if inSignature inp \<noteq> None \<and> inWitness inp \<noteq> None then
       (sz + 32 + 4 + var_size (inSignature inp) + 4, witSize + of_nat (length (arr (inWitness inp))))
     else if inScript inp \<noteq> None \<and> length (arr (inScript inp)) > 0 \<and> arr (inScript inp) ! 0 = OP_0 then
       (sz, witSize + TX_INPUT_SIZE)
     else (sz + TX_INPUT_SIZE, witSize))"

definition tx_sizes :: "BRTransaction \<Rightarrow> u64 \<times> u64" where
  "tx_sizes tx =
     (let size0 = 8 + of_nat (BRVarIntSize (of_nat (length (inputs tx)))) + of_nat (BRVarIntSize (of_nat (length (outputs tx))));
          (size1, witSize) = foldl input_size (size0, 0) (inputs tx);
          size2 = foldl (\<lambda>sz outp. sz + 8 + var_size (outScript outp)) size1 (outputs tx)
      in (size2, if witSize > 0 then witSize + 2 + of_nat (length (inputs tx)) else witSize))"

definition BRTransactionSize :: "BRTransaction \<Rightarrow> u64" where
  "BRTransactionSize tx = (let (sz, witSize) = tx_sizes tx in sz + witSize)"

definition BRTransactionVSize :: "BRTransaction \<Rightarrow> u64" where
  "BRTransactionVSize tx = (let (sz, witSize) = tx_sizes tx in (sz * 4 + witSize + 3) div 4)"

definition BRTransactionStandardFee :: "BRTransaction \<Rightarrow> u64" where
  "BRTransactionStandardFee tx = BRTransactionVSize tx * TX_FEE_PER_KB div 1000"

definition BRTransactionIsSigned :: "BRTransaction \<Rightarrow> bool" where
  "BRTransactionIsSigned tx = (\<forall>inp \<in> set (inputs tx). inSignature inp \<noteq> None \<and> inWitness inp \<noteq> None)"

text \<open>
  \<open>BRTransactionShuffleOutputs\<close>, a Fisher-Yates shuffle with the random numbers \<open>BRRand\<close> returns:
  \<open>rand i n\<close> is the number drawn in round \<open>i\<close>, below \<open>n\<close>.
\<close>

definition swap_outputs :: "nat \<Rightarrow> nat \<Rightarrow> 'a list \<Rightarrow> 'a list" where
  "swap_outputs i j xs = (if j \<noteq> i then xs[i := xs ! j, j := xs ! i] else xs)"

definition BRTransactionShuffleOutputs :: "(nat \<Rightarrow> nat \<Rightarrow> nat) \<Rightarrow> BRTransaction \<Rightarrow> BRTransaction" where
  "BRTransactionShuffleOutputs rand tx =
     tx\<lparr>outputs := foldl (\<lambda>outs i. swap_outputs i (i + rand i (length (outputs tx) - i)) outs) (outputs tx)
          [0..<length (outputs tx) - 1]\<rparr>"

text \<open>The hash and equality of transactions in a set.\<close>

definition BRTransactionHash :: "BRTransaction \<Rightarrow> u64" where
  "BRTransactionHash tx = ucast (UInt32GetLE (txHash tx))"

definition BRTransactionEq :: "BRTransaction \<Rightarrow> BRTransaction \<Rightarrow> bool" where
  "BRTransactionEq tx otherTx = (tx = otherTx \<or> UInt256Eq (txHash tx) (txHash otherTx))"

section \<open>The wire format\<close>

text \<open>The bytes of the parts of a transaction, as the network knows them.\<close>

definition script_bytes :: "bytes \<Rightarrow> bytes" where
  "script_bytes b = var_int_bytes (of_nat (length b)) @ b"

definition input_bytes :: "BRTxInput \<Rightarrow> bytes" where
  "input_bytes inp = inTxHash inp @ UInt32SetLE (inIndex inp) @ script_bytes (arr (inSignature inp)) @
     (if inAmount inp \<noteq> 0 then UInt64SetLE (inAmount inp) else []) @ UInt32SetLE (inSequence inp)"

definition output_bytes :: "BRTxOutput \<Rightarrow> bytes" where
  "output_bytes outp = UInt64SetLE (outAmount outp) @ script_bytes (arr (outScript outp))"

definition outputs_bytes :: "BRTxOutput list \<Rightarrow> bytes" where
  "outputs_bytes outs = concat (map output_bytes outs)"

text \<open>The input as it goes on the wire: signed, or with script and amount.\<close>

definition wire_input :: "BRTxInput \<Rightarrow> BRTxInput" where
  "wire_input inp = data_input None SIGHASH_ALL 0 inp"

definition inputs_bytes :: "BRTxInput list \<Rightarrow> bytes" where
  "inputs_bytes inps = concat (map (\<lambda>inp. input_bytes (wire_input inp)) inps)"

definition has_witness :: "BRTransaction \<Rightarrow> bool" where
  "has_witness tx \<longleftrightarrow> (\<exists>inp \<in> set (inputs tx). arr (inWitness inp) \<noteq> [])"

text \<open>A witness of \<open>n\<close> items.\<close>

fun witness_items :: "bytes list \<Rightarrow> bytes" where
  "witness_items [] = []"
| "witness_items (d # ds) = script_bytes d @ witness_items ds"

definition witness_bytes :: "BRTxInput list \<Rightarrow> u64 list \<Rightarrow> bytes" where
  "witness_bytes inps cs = concat (map (\<lambda>(inp, c). var_int_bytes c @ arr (inWitness inp)) (zip inps cs))"

definition body_bytes :: "BRTransaction \<Rightarrow> bytes" where
  "body_bytes tx = var_int_bytes (of_nat (length (inputs tx))) @ inputs_bytes (inputs tx) @
     var_int_bytes (of_nat (length (outputs tx))) @ outputs_bytes (outputs tx)"

definition tx_bytes :: "BRTransaction \<Rightarrow> u64 list \<Rightarrow> bytes" where
  "tx_bytes tx cs =
     UInt32SetLE (txVersion tx) @ (if has_witness tx then [0, 1] else []) @ body_bytes tx @
     (if has_witness tx then witness_bytes (inputs tx) cs else []) @ UInt32SetLE (lockTime tx)"

text \<open>The bytes the transaction id is the hash of.\<close>

definition id_bytes :: "BRTransaction \<Rightarrow> bytes" where
  "id_bytes tx = UInt32SetLE (txVersion tx) @ body_bytes tx @ UInt32SetLE (lockTime tx)"

section \<open>The writers\<close>

declare put.simps [simp del] put_with.simps [simp del] finish.simps [simp del]

lemma wrote_var_int [outbuf]: "wrote buf bs s \<Longrightarrow> wrote buf (bs @ var_int_bytes i) (put_var_int i s)"
  unfolding put_var_int_def by (rule var_int.wrote_put_with)

lemma wrote_foldl:
  assumes "wrote buf bs s" "\<And>bs s x. x \<in> set xs \<Longrightarrow> wrote buf bs s \<Longrightarrow> wrote buf (bs @ g x) (f s x)"
  shows "wrote buf (bs @ concat (map g xs)) (foldl f s xs)"
  using assms
proof (induction xs arbitrary: bs s)
  case (Cons x xs)
  have "wrote buf ((bs @ g x) @ concat (map g xs)) (foldl f (f s x) xs)"
    using Cons.prems by (intro Cons.IH) auto
  then show ?case by simp
qed simp

lemma BRTxInputData_writer: "two_pass_writer (BRTxInputData inp) (input_bytes inp)"
proof -
  let ?f = "\<lambda>data. let s1 = put (inTxHash inp) (data, 0);
          s2 = put (UInt32SetLE (inIndex inp)) s1;
          s3 = put_var_int (of_nat (length (arr (inSignature inp)))) s2;
          s4 = put (arr (inSignature inp)) s3;
          s5 = (if inAmount inp \<noteq> 0 then put (UInt64SetLE (inAmount inp)) s4 else s4)
      in put (UInt32SetLE (inSequence inp)) s5"
  have "wrote buf (((((([] @ inTxHash inp) @ UInt32SetLE (inIndex inp)) @ var_int_bytes (of_nat (length (arr (inSignature inp))))) @
      arr (inSignature inp)) @ (if inAmount inp \<noteq> 0 then UInt64SetLE (inAmount inp) else [])) @ UInt32SetLE (inSequence inp)) (?f buf)" for buf
    unfolding Let_def by (cases "inAmount inp = 0") (auto intro!: wrote_put wrote_var_int wrote_start simp del: append_assoc append_Nil)
  then have "two_pass_writer (\<lambda>buf. finish (?f buf)) (input_bytes inp)"
    by (intro wrote_writer) (simp add: input_bytes_def script_bytes_def)
  then show ?thesis by (simp add: BRTxInputData_def [abs_def] Let_def)
qed

interpretation input_data: two_pass_writer "BRTxInputData inp" "input_bytes inp" for inp
  by (rule BRTxInputData_writer)

lemma wrote_output: "wrote buf bs s \<Longrightarrow> wrote buf (bs @ output_bytes outp) (put_output s outp)"
proof -
  assume "wrote buf bs s"
  then have "wrote buf (((bs @ UInt64SetLE (outAmount outp)) @ var_int_bytes (of_nat (length (arr (outScript outp))))) @ arr (outScript outp))
      (put_output s outp)"
    unfolding put_output_def by (intro wrote_put wrote_var_int)
  then show ?thesis by (simp add: output_bytes_def script_bytes_def)
qed

lemma BRTransactionOutputData_writer:
  "two_pass_writer (BRTransactionOutputData tx index)
     (outputs_bytes (case index of None \<Rightarrow> outputs tx | Some i \<Rightarrow> take 1 (drop i (outputs tx))))"
proof -
  have "wrote buf (outputs_bytes outs) (foldl put_output (buf, 0) outs)" for buf outs
    using wrote_foldl [OF wrote_start, of outs buf output_bytes put_output] wrote_output
    by (simp add: outputs_bytes_def)
  then show ?thesis
    unfolding BRTransactionOutputData_def [abs_def] Let_def by (intro wrote_writer)
qed

interpretation output_data: two_pass_writer "BRTransactionOutputData tx index"
    "outputs_bytes (case index of None \<Rightarrow> outputs tx | Some i \<Rightarrow> take 1 (drop i (outputs tx)))" for tx index
  by (rule BRTransactionOutputData_writer)

lemma filled_writer: "two_pass_writer w outp \<Longrightarrow> filled w = outp"
proof -
  assume w: "two_pass_writer w outp"
  have "w (Some (replicate (length outp) 0)) = (Some outp, length outp)"
    using two_pass_writer.two_pass [OF w] two_pass_writer.query [OF w] by simp
  then show ?thesis by (simp add: filled_def two_pass_writer.query [OF w])
qed

lemma filled_outputs:
  "filled (BRTransactionOutputData tx index)
    = outputs_bytes (case index of None \<Rightarrow> outputs tx | Some i \<Rightarrow> take 1 (drop i (outputs tx)))"
  by (rule filled_writer) (rule BRTransactionOutputData_writer)

text \<open>
  The pre-images a signature is made of. BIP143 hashes the previous outputs, the sequence numbers
  and the outputs separately; the older scheme serializes a variant of the transaction. The script code of BIP143
  goes with its length: for a key hash witness program, the bytes \<open>00 14\<close> and a hash, it is
  \<open>19 76 a9 14\<close>, the hash, and \<open>88 ac\<close>.
\<close>

definition bip143_script_code :: "bytes \<Rightarrow> bytes" where
  "bip143_script_code s =
     (case s of
        a # b # h \<Rightarrow> if a = 0x00 \<and> b = 0x14 \<and> length h = 20 then [0x19, 0x76, 0xa9, 0x14] @ h @ [0x88, 0xac]
                     else var_int_bytes (of_nat (length s)) @ s
      | _ \<Rightarrow> var_int_bytes (of_nat (length s)) @ s)"

lemma signing_script_code: "script_bytes (arr (signing_script inp)) = bip143_script_code (arr (inScript inp))"
proof (cases "length (arr (inScript inp)) = 22 \<and> arr (inScript inp) ! 0 = OP_0 \<and> arr (inScript inp) ! 1 = 20")
  case True
  then obtain h where "arr (inScript inp) = 0 # 20 # h" "length h = 20"
    by (cases "arr (inScript inp)" rule: remdups_adj.cases) (auto simp: OP_0_def)
  then show ?thesis
    by (simp add: signing_script_def script_bytes_def bip143_script_code_def p2wpkh_script_code_def var_int_bytes_def
      OP_0_def OP_DUP_def OP_HASH160_def OP_EQUALVERIFY_def OP_CHECKSIG_def)
next
  case False
  then show ?thesis
    by (auto simp: signing_script_def script_bytes_def bip143_script_code_def OP_0_def Let_def split: list.split)
qed

definition bip143_bytes :: "BRTransaction \<Rightarrow> nat \<Rightarrow> u32 \<Rightarrow> bytes" where
  "bip143_bytes tx i hashType =
     (let acp = (hashType AND 0x80 \<noteq> 0); mode = hashType AND 0x1f; inp = inputs tx ! i;
          hashPrevouts = (if acp then UINT256_ZERO
            else BRSHA256_2 (concat (map (\<lambda>x. inTxHash x @ UInt32SetLE (inIndex x)) (inputs tx))));
          hashSequence = (if acp \<or> mode = 2 \<or> mode = 3 then UINT256_ZERO
            else BRSHA256_2 (concat (map (\<lambda>x. UInt32SetLE (inSequence x)) (inputs tx))));
          hashOutputs = (if mode \<noteq> 2 \<and> mode \<noteq> 3 then BRSHA256_2 (outputs_bytes (outputs tx))
            else if mode = 3 \<and> i < length (outputs tx) then BRSHA256_2 (output_bytes (outputs tx ! i))
            else UINT256_ZERO)
      in UInt32SetLE (txVersion tx) @ hashPrevouts @ hashSequence @
         inTxHash inp @ UInt32SetLE (inIndex inp) @ bip143_script_code (arr (inScript inp)) @
         UInt64SetLE (inAmount inp) @ UInt32SetLE (inSequence inp) @
         hashOutputs @ UInt32SetLE (lockTime tx) @ UInt32SetLE hashType)"

lemma take_1_drop: "i < length xs \<Longrightarrow> take (Suc 0) (drop i xs) = [xs ! i]"
  by (simp add: Cons_nth_drop_Suc [symmetric])

lemma BRTransactionWitnessData_writer:
  assumes i: "i < length (inputs tx)" and amount: "inAmount (inputs tx ! i) \<noteq> 0"
  shows "two_pass_writer (BRTransactionWitnessData tx (Some i) hashType) (bip143_bytes tx i hashType)"
proof -
  let ?inp = "(inputs tx ! i)\<lparr>inSignature := signing_script (inputs tx ! i)\<rparr>"
  have "wrote buf (((((([] @ UInt32SetLE (txVersion tx)) @ h1) @ h2) @ input_bytes ?inp) @ h3) @ UInt32SetLE (lockTime tx) @ UInt32SetLE hashType)
     (put (UInt32SetLE hashType) (put (UInt32SetLE (lockTime tx)) (put h3 (put_with (BRTxInputData ?inp)
        (put h2 (put h1 (put (UInt32SetLE (txVersion tx)) (buf, 0))))))))" for buf h1 h2 h3
    unfolding append_assoc [of _ "UInt32SetLE (lockTime tx)", symmetric]
    by (intro wrote_put input_data.wrote_put_with wrote_start)
  from wrote_writer [OF this] show ?thesis
    using i amount unfolding BRTransactionWitnessData_def [abs_def] bip143_bytes_def Let_def filled_outputs
    by (simp add: input_bytes_def sighash take_1_drop outputs_bytes_def signing_script_code cong: if_cong)
qed

text \<open>
  The pre-image of the older scheme: only the input that is signed keeps a script, the others are
  blanked, and the hash type selects the outputs.
\<close>

definition preimage_input :: "nat \<Rightarrow> u32 \<Rightarrow> nat \<Rightarrow> BRTxInput \<Rightarrow> bytes" where
  "preimage_input index mode i inp =
     inTxHash inp @ UInt32SetLE (inIndex inp) @ script_bytes (if i = index then arr (inScript inp) else []) @
     UInt32SetLE (if i \<noteq> index \<and> (mode = 2 \<or> mode = 3) then 0 else inSequence inp)"

definition preimage_bytes :: "BRTransaction \<Rightarrow> nat \<Rightarrow> u32 \<Rightarrow> bytes" where
  "preimage_bytes tx index hashType =
     (let mode = hashType AND 0x1f
      in UInt32SetLE (txVersion tx) @
         (if hashType AND 0x80 = 0
          then var_int_bytes (of_nat (length (inputs tx))) @
            concat (map (\<lambda>(i, inp). preimage_input index mode i inp) (enumerate 0 (inputs tx)))
          else var_int_bytes 1 @ preimage_input index mode index (inputs tx ! index)) @
         (if mode \<noteq> 2 \<and> mode \<noteq> 3 then var_int_bytes (of_nat (length (outputs tx))) @ outputs_bytes (outputs tx)
          else if mode = 3 \<and> index < length (outputs tx)
          then var_int_bytes (of_nat (index + 1)) @ concat (replicate index (UInt64SetLE (- 1) @ var_int_bytes 0)) @
            output_bytes (outputs tx ! index)
          else var_int_bytes 0) @
         UInt32SetLE (lockTime tx) @ UInt32SetLE hashType)"

lemma input_bytes_data_input:
  "input_bytes (data_input (Some index) mode i inp) = preimage_input index mode i inp"
  by (auto simp: data_input_def input_bytes_def preimage_input_def sighash Let_def)

lemma wrote_blank_outputs:
  "wrote buf bs s \<Longrightarrow> wrote buf (bs @ concat (replicate n (UInt64SetLE (- 1) @ var_int_bytes 0)))
     (foldl (\<lambda>s _. put_var_int 0 (put (UInt64SetLE (- 1)) s)) s [0..<n])"
proof -
  assume "wrote buf bs s"
  from wrote_foldl [OF this, of "[0..<n]" "\<lambda>_. UInt64SetLE (- 1) @ var_int_bytes 0"
      "\<lambda>s _. put_var_int 0 (put (UInt64SetLE (- 1)) s)"]
  have "wrote buf (bs @ concat (map (\<lambda>_. UInt64SetLE (- 1) @ var_int_bytes 0) [0..<n]))
     (foldl (\<lambda>s _. put_var_int 0 (put (UInt64SetLE (- 1)) s)) s [0..<n])"
    using wrote_var_int [OF wrote_put] by simp
  then show ?thesis by (simp add: map_replicate_const)
qed

lemma wrote_inputs:
  assumes "wrote buf bs s"
  shows "wrote buf (bs @ concat (map (\<lambda>(i, inp). input_bytes (data_input index mode i inp)) xs))
    (foldl (\<lambda>s (i, inp). put_with (BRTxInputData (data_input index mode i inp)) s) s xs)"
  using wrote_foldl [OF assms, of xs "\<lambda>(i, inp). input_bytes (data_input index mode i inp)"
      "\<lambda>s (i, inp). put_with (BRTxInputData (data_input index mode i inp)) s"] input_data.wrote_put_with
  by (auto simp: split_beta)

text \<open>A partial writer, which may also not return.\<close>

lemma BRTransactionData_preimage:
  assumes "index < length (inputs tx)" "hashType AND 0x40 = 0"
  obtains w where "\<And>data. BRTransactionData tx (Some index) hashType data = Some (w data)"
    "two_pass_writer w (preimage_bytes tx index hashType)"
proof -
  let ?mode = "hashType AND 0x1f"
  let ?start = "\<lambda>data. put (UInt32SetLE (txVersion tx)) (data, 0)"
  let ?ins = "\<lambda>data. if hashType AND 0x80 = 0
    then foldl (\<lambda>s (i, inp). put_with (BRTxInputData (data_input (Some index) ?mode i inp)) s)
      (put_var_int (of_nat (length (inputs tx))) (?start data)) (enumerate 0 (inputs tx))
    else put_with (BRTxInputData ((inputs tx ! index)\<lparr>inSignature := inScript (inputs tx ! index), inAmount := 0\<rparr>))
      (put_var_int 1 (?start data))"
  let ?outs = "\<lambda>data. if ?mode \<noteq> 2 \<and> ?mode \<noteq> 3
    then put_with (BRTransactionOutputData tx None) (put_var_int (of_nat (length (outputs tx))) (?ins data))
    else if ?mode = 3 \<and> index < length (outputs tx)
    then put_with (BRTransactionOutputData tx (Some index))
      (foldl (\<lambda>s _. put_var_int 0 (put (UInt64SetLE (- 1)) s)) (put_var_int (of_nat (index + 1)) (?ins data)) [0..<index])
    else put_var_int 0 (?ins data)"
  let ?w = "\<lambda>data. put (UInt32SetLE hashType) (put (UInt32SetLE (lockTime tx)) (?outs data))"
  let ?in_bytes = "if hashType AND 0x80 = 0
          then var_int_bytes (of_nat (length (inputs tx))) @
            concat (map (\<lambda>(i, inp). preimage_input index ?mode i inp) (enumerate 0 (inputs tx)))
          else var_int_bytes 1 @ preimage_input index ?mode index (inputs tx ! index)"
  let ?out_bytes = "if ?mode \<noteq> 2 \<and> ?mode \<noteq> 3 then var_int_bytes (of_nat (length (outputs tx))) @ outputs_bytes (outputs tx)
          else if ?mode = 3 \<and> index < length (outputs tx)
          then var_int_bytes (of_nat (index + 1)) @ concat (replicate index (UInt64SetLE (- 1) @ var_int_bytes 0)) @
            output_bytes (outputs tx ! index)
          else var_int_bytes 0"
  have start: "wrote data (UInt32SetLE (txVersion tx)) (?start data)" for data
    using wrote_put [OF wrote_start, of data "UInt32SetLE (txVersion tx)"] by simp
  have count: "wrote data (UInt32SetLE (txVersion tx) @ var_int_bytes n) (put_var_int n (?start data))" for data n
    by (rule wrote_var_int [OF start])
  have ins: "wrote data (UInt32SetLE (txVersion tx) @ ?in_bytes) (?ins data)" for data
  proof (cases "hashType AND 0x80 = 0")
    case True
    then show ?thesis
      using wrote_inputs [where index = "Some index" and mode = ?mode and xs = "enumerate 0 (inputs tx)",
          OF count, of data "of_nat (length (inputs tx))"] by (simp add: input_bytes_data_input)
  next
    case False
    have "input_bytes ((inputs tx ! index)\<lparr>inSignature := inScript (inputs tx ! index), inAmount := 0\<rparr>)
        = preimage_input index ?mode index (inputs tx ! index)"
      by (simp add: input_bytes_def preimage_input_def)
    with False show ?thesis
      using input_data.wrote_put_with [where inp = "(inputs tx ! index)\<lparr>inSignature := inScript (inputs tx ! index), inAmount := 0\<rparr>",
          OF count, of data 1] by simp
  qed
  have outs: "wrote data ((UInt32SetLE (txVersion tx) @ ?in_bytes) @ ?out_bytes) (?outs data)" for data
  proof -
    have outCount: "wrote data ((UInt32SetLE (txVersion tx) @ ?in_bytes) @ var_int_bytes n) (put_var_int n (?ins data))" for data n
      by (rule wrote_var_int [OF ins])
    consider (all) "?mode \<noteq> 2 \<and> ?mode \<noteq> 3" | (single) "?mode = 3" "index < length (outputs tx)"
      | (none) "?mode = 2 \<or> ?mode = 3 \<and> \<not> index < length (outputs tx)" by blast
    then show ?thesis
    proof cases
      case all
      then show ?thesis
        using output_data.wrote_put_with [where tx = tx and index = None, OF outCount, of data "of_nat (length (outputs tx))"]
        by simp
    next
      case single
      then show ?thesis
        using output_data.wrote_put_with [where tx = tx and index = "Some index",
          OF wrote_blank_outputs [where n = index, OF outCount], of data "of_nat (index + 1)"]
        by (simp add: take_1_drop outputs_bytes_def)
    next
      case none
      then show ?thesis using outCount [of data 0] by auto
    qed
  qed
  have "wrote data (preimage_bytes tx index hashType) (?w data)" for data
    using wrote_put [where x = "UInt32SetLE hashType", OF wrote_put [where x = "UInt32SetLE (lockTime tx)", OF outs]]
    by (simp add: preimage_bytes_def Let_def)
  then have "two_pass_writer (\<lambda>data. finish (?w data)) (preimage_bytes tx index hashType)"
    by (rule wrote_writer)
  moreover have "BRTransactionData tx (Some index) hashType data = Some (finish (?w data))" for data
    using assms by (simp add: BRTransactionData_def sighash Let_def)
  ultimately show thesis by (rule that [rotated])
qed

section \<open>Serialization is the wire format\<close>

lemma witness_count_items:
  assumes "w = pre @ witness_items ds" "length w < 2 ^ 64"
  shows "witness_count w (of_nat (length pre)) c = Some (c + of_nat (length ds))"
  using assms
proof (induction ds arbitrary: pre c)
  case Nil
  then show ?case by (subst witness_count.simps) simp
next
  case (Cons d ds)
  let ?n = "of_nat (length d) :: u64"
  have len: "length pre + length (var_int_bytes ?n) + length d + length (witness_items ds) < 2 ^ 64"
    using Cons.prems by (simp add: script_bytes_def)
  have pre: "unat (of_nat (length pre) :: u64) = length pre" using len by (intro unat_of_nat_small) simp
  have less: "(of_nat (length pre) :: u64) < of_nat (length w)"
  proof -
    have "unat (of_nat (length w) :: u64) = length w" using Cons.prems(2) by (intro unat_of_nat_small) simp
    moreover have "length pre < length w" using Cons.prems(1) by (simp add: script_bytes_def)
    ultimately show ?thesis using pre by (simp add: word_less_nat_alt)
  qed
  have "BRVarInt (drop (length pre) w) = (?n, length (var_int_bytes ?n))"
    using BRVarInt_var_int_bytes [of ?n "d @ witness_items ds"] Cons.prems(1) by (simp add: script_bytes_def)
  then have "witness_count w (of_nat (length pre)) c
      = witness_count w (of_nat (length (pre @ script_bytes d))) (c + 1)"
    using less by (subst witness_count.simps) (simp add: pre script_bytes_def ac_simps)
  also have "\<dots> = Some (c + 1 + of_nat (length ds))"
    using Cons.prems by (intro Cons.IH) simp_all
  finally show ?case by (simp add: ac_simps)
qed

text \<open>Witnesses that are sequences of items, and their counts.\<close>

definition witnesses :: "BRTxInput list \<Rightarrow> bytes list list \<Rightarrow> bool" where
  "witnesses inps wits \<longleftrightarrow>
     list_all2 (\<lambda>inp ds. arr (inWitness inp) = witness_items ds \<and> length (witness_items ds) < 2 ^ 64) inps wits"

definition item_counts :: "bytes list list \<Rightarrow> u64 list" where
  "item_counts wits = map (\<lambda>ds. of_nat (length ds)) wits"

lemma witness_counts_items: "witnesses inps wits \<Longrightarrow> witness_counts inps = Some (item_counts wits)"
  unfolding witnesses_def
proof (induction inps wits rule: list_all2_induct)
  case (Cons inp inps ds wits)
  then have "witness_count (arr (inWitness inp)) 0 0 = Some (of_nat (length ds))"
    using witness_count_items [of "arr (inWitness inp)" "[]" ds 0] by simp
  with Cons show ?case by (simp add: item_counts_def)
qed (simp add: item_counts_def)

lemma wrote_witness: "wrote buf bs s \<Longrightarrow> wrote buf (bs @ witness_bytes inps cs) (foldl put_witness s (zip inps cs))"
proof -
  assume w: "wrote buf bs s"
  have "wrote buf (bs @ (\<lambda>(inp, c). var_int_bytes c @ arr (inWitness inp)) x) (put_witness s x)"
    if "wrote buf bs s" for bs s x
    using wrote_put [where x = "arr (inWitness (fst x))", OF wrote_var_int [where i = "snd x", OF that]]
    by (simp add: put_witness_def split_beta)
  with wrote_foldl [where f = put_witness, OF w] show ?thesis
    unfolding witness_bytes_def by blast
qed

lemma concat_map_enumerate: "concat (map (\<lambda>(i, x). f x) (enumerate n xs)) = concat (map f xs)"
  by (induction xs arbitrary: n) auto

lemma BRTransactionSerialize_writer:
  assumes "has_witness tx \<Longrightarrow> witness_counts (inputs tx) = Some cs"
  obtains w where "\<And>data. BRTransactionSerialize tx data = Some (w data)" "two_pass_writer w (tx_bytes tx cs)"
proof -
  let ?flag = "\<lambda>data. if has_witness tx then put [0, 1] (put (UInt32SetLE (txVersion tx)) (data, 0))
    else put (UInt32SetLE (txVersion tx)) (data, 0)"
  let ?ins = "\<lambda>data. foldl (\<lambda>s (i, inp). put_with (BRTxInputData (data_input None 1 i inp)) s)
      (put_var_int (of_nat (length (inputs tx))) (?flag data)) (enumerate 0 (inputs tx))"
  let ?outs = "\<lambda>data. put_with (BRTransactionOutputData tx None) (put_var_int (of_nat (length (outputs tx))) (?ins data))"
  let ?wit = "\<lambda>data. if has_witness tx then foldl put_witness (?outs data) (zip (inputs tx) cs) else ?outs data"
  let ?w = "\<lambda>data. put (UInt32SetLE (lockTime tx)) (?wit data)"
  have flag: "wrote data (UInt32SetLE (txVersion tx) @ (if has_witness tx then [0, 1] else [])) (?flag data)" for data
    using wrote_put [where x = "[0, 1]", OF wrote_put [where x = "UInt32SetLE (txVersion tx)", OF wrote_start]]
      wrote_put [where x = "UInt32SetLE (txVersion tx)", OF wrote_start] by simp
  have "concat (map (\<lambda>(i, inp). input_bytes (data_input None 1 i inp)) (enumerate 0 (inputs tx))) = inputs_bytes (inputs tx)"
    using concat_map_enumerate [of "\<lambda>inp. input_bytes (data_input None 1 0 inp)" 0 "inputs tx"]
    by (simp add: inputs_bytes_def wire_input_def sighash data_input_def cong: if_cong)
  then have ins: "wrote data (((UInt32SetLE (txVersion tx) @ (if has_witness tx then [0, 1] else [])) @
      var_int_bytes (of_nat (length (inputs tx)))) @ inputs_bytes (inputs tx)) (?ins data)" for data
    using wrote_inputs [where index = None and mode = 1 and xs = "enumerate 0 (inputs tx)",
      OF wrote_var_int [where i = "of_nat (length (inputs tx))", OF flag], of data] by simp
  have outs: "wrote data ((UInt32SetLE (txVersion tx) @ (if has_witness tx then [0, 1] else [])) @ body_bytes tx) (?outs data)" for data
    using output_data.wrote_put_with [where tx = tx and index = None,
      OF wrote_var_int [where i = "of_nat (length (outputs tx))", OF ins], of data] by (simp add: body_bytes_def)
  have wit: "wrote data (((UInt32SetLE (txVersion tx) @ (if has_witness tx then [0, 1] else [])) @ body_bytes tx) @
      (if has_witness tx then witness_bytes (inputs tx) cs else [])) (?wit data)" for data
    using wrote_witness [where inps = "inputs tx" and cs = cs, OF outs, of data] outs [of data]
    by (cases "has_witness tx") simp_all
  have "wrote data (tx_bytes tx cs) (?w data)" for data
    using wrote_put [where x = "UInt32SetLE (lockTime tx)", OF wit] by (simp add: tx_bytes_def)
  then have "two_pass_writer (\<lambda>data. finish (?w data)) (tx_bytes tx cs)" by (rule wrote_writer)
  moreover have "BRTransactionSerialize tx data = Some (finish (?w data))" for data
  proof -
    have "(\<exists>inp \<in> set (inputs tx). 0 < length (arr (inWitness inp))) = has_witness tx"
      by (simp add: has_witness_def)
    with assms show ?thesis
      by (cases "has_witness tx") (simp_all add: BRTransactionSerialize_def BRTransactionData_def sighash Let_def)
  qed
  ultimately show thesis by (rule that [rotated])
qed

section \<open>Parsing the wire format\<close>

lemma unat_len: "n < 2 ^ 64 \<Longrightarrow> unat (of_nat n :: u64) = n"
  by (rule unat_of_nat_small) simp

lemma guarded_at:
  assumes "length (pre @ b @ post) < 2 ^ 64"
  shows "guarded (pre @ b @ post) (of_nat (length pre)) (of_nat (length b)) = Some (Some b)"
proof -
  have "unat (of_nat (length pre) :: u64) = length pre" "unat (of_nat (length b) :: u64) = length b"
    using assms by (auto intro: unat_of_nat_small)
  moreover have "(of_nat (length pre) + of_nat (length b) :: u64) \<le> of_nat (length (pre @ b @ post))"
  proof -
    have "unat (of_nat (length pre + length b) :: u64) = length pre + length b"
      "unat (of_nat (length (pre @ b @ post)) :: u64) = length (pre @ b @ post)"
      by (rule unat_len, use assms in simp)+
    then show ?thesis unfolding of_nat_add [symmetric] word_le_nat_alt by simp
  qed
  ultimately show ?thesis by (simp add: guarded_def)
qed

lemma guardedI:
  assumes "buf = pre @ b @ post" "length buf < 2 ^ 64" "off = of_nat (length pre)" "n = of_nat (length b)"
  shows "guarded buf off n = Some (Some b)"
  using guarded_at [of pre b post] assms by simp

lemma var_int_atI:
  assumes "buf = pre @ var_int_bytes i @ post" "length buf < 2 ^ 64" "off = of_nat (length pre)"
  shows "var_int_at buf off = (i, of_nat (length (var_int_bytes i)))"
proof -
  have u: "unat (of_nat (length pre) :: u64) = length pre" "unat (of_nat (length buf) :: u64) = length buf"
    by (rule unat_len, use assms(1,2) in simp)+
  then have "(of_nat (length pre) :: u64) \<le> of_nat (length buf)"
    unfolding word_le_nat_alt using assms(1) by simp
  then show ?thesis
    using assms by (simp add: var_int_at_def u BRVarInt_var_int_bytes)
qed

lemma off_le: "length buf < 2 ^ 64 \<Longrightarrow> n \<le> length buf \<Longrightarrow> (of_nat n :: u64) \<le> of_nat (length buf)"
  by (simp add: word_le_nat_alt unat_of_nat_small)

text \<open>The inputs that the wire format keeps apart: a signature must not look like an output script.\<close>

definition wf_input :: "BRTxInput \<Rightarrow> bool" where
  "wf_input inp \<longleftrightarrow> length (inTxHash inp) = 32 \<and>
     (case inSignature inp of
        Some s \<Rightarrow> \<not> BRScriptPubKeyIsValid s
      | None \<Rightarrow> (\<exists>s. inScript inp = Some s \<and> BRScriptPubKeyIsValid s) \<and> inAmount inp \<noteq> 0)"

text \<open>What the receiver gets: a signed input without script and amount, the witness set afterwards.\<close>

definition received_input :: "BRTxInput \<Rightarrow> BRTxInput" where
  "received_input inp =
     (case inSignature inp of
        Some s \<Rightarrow> inp\<lparr>inScript := None, inAmount := 0, inWitness := Some (arr (inWitness inp))\<rparr>
      | None \<Rightarrow> inp\<lparr>inWitness := Some (arr (inWitness inp))\<rparr>)"

definition signed_input :: "BRTxInput \<Rightarrow> bool" where
  "signed_input inp \<longleftrightarrow> inSignature inp \<noteq> None"

definition before_witness :: "bool \<Rightarrow> BRTxInput \<Rightarrow> BRTxInput" where
  "before_witness witnessFlag inp = (received_input inp)\<lparr>inWitness := (if witnessFlag then None else Some [])\<rparr>"

lemma parse_input_bytes:
  assumes buf: "buf = pre @ input_bytes (wire_input inp) @ post" "length buf < 2 ^ 64" and wf: "wf_input inp"
  shows "parse_input buf witnessFlag (of_nat (length pre)) =
    Some (before_witness witnessFlag inp, of_nat (length (pre @ input_bytes (wire_input inp))), signed_input inp)"
proof -
  let ?L = "of_nat (length pre) :: u64"
  let ?h = "inTxHash inp" and ?i = "UInt32SetLE (inIndex inp)" and ?q = "UInt32SetLE (inSequence inp)"
  have h: "length ?h = 32" using wf by (simp add: wf_input_def)
  have seq: "u32_or_0 (Some ?q) = inSequence inp" "u32_or_0 (Some ?i) = inIndex inp"
    using UInt32GetLE_SetLE [of _ "[]"] by (simp_all add: u32_or_0_def)
  have hash: "u256_or_0 (Some ?h) = ?h" using h by (simp add: u256_or_0_def UInt256Get_def)
  show ?thesis
  proof (cases "inSignature inp")
    case (Some s)
    let ?v = "var_int_bytes (of_nat (length s))"
    let ?A = "?L + 36 + of_nat (length ?v)"
    have b: "input_bytes (wire_input inp) = ?h @ ?i @ ?v @ s @ ?q"
      using Some by (simp add: wire_input_def data_input_def input_bytes_def script_bytes_def)
    have invalid: "\<not> BRScriptPubKeyIsValid s" using wf Some by (simp add: wf_input_def)
    have g: "guarded buf ?L 32 = Some (Some ?h)" "guarded buf (?L + 32) 4 = Some (Some ?i)"
        "guarded buf ?A (of_nat (length s)) = Some (Some s)" "guarded buf (?A + of_nat (length s)) 4 = Some (Some ?q)"
      by (rule guardedI [of _ pre _ "?i @ ?v @ s @ ?q @ post"], use buf b h in simp_all,
        rule guardedI [of _ "pre @ ?h" _ "?v @ s @ ?q @ post"], use buf b h in simp_all,
        rule guardedI [of _ "pre @ ?h @ ?i @ ?v" _ "?q @ post"], use buf b h in simp_all,
        rule guardedI [of _ "pre @ ?h @ ?i @ ?v @ s" _ "post"], use buf b h in simp_all)
    have v: "var_int_at buf (?L + 36) = (of_nat (length s), of_nat (length ?v))"
      by (rule var_int_atI [of _ "pre @ ?h @ ?i" _ "s @ ?q @ post"]) (use buf b h in simp_all)
    show ?thesis
      using Some g v invalid h seq hash
      by (simp add: parse_input_def before_witness_def received_input_def signed_input_def b Let_def
          BRTxInputSetSignature_def BRTxInputSetWitness_def add.assoc)
  next
    case None
    then obtain s where s: "inScript inp = Some s" "BRScriptPubKeyIsValid s" and amount: "inAmount inp \<noteq> 0"
      using wf by (auto simp: wf_input_def)
    let ?v = "var_int_bytes (of_nat (length s))" and ?a = "UInt64SetLE (inAmount inp)"
    let ?A = "?L + 36 + of_nat (length ?v)"
    have b: "input_bytes (wire_input inp) = ?h @ ?i @ ?v @ s @ ?a @ ?q"
      using None s amount by (simp add: wire_input_def data_input_def input_bytes_def script_bytes_def)
    have g: "guarded buf ?L 32 = Some (Some ?h)" "guarded buf (?L + 32) 4 = Some (Some ?i)"
        "guarded buf ?A (of_nat (length s)) = Some (Some s)" "guarded buf (?A + of_nat (length s)) 8 = Some (Some ?a)"
        "guarded buf (?A + 8 + of_nat (length s)) 4 = Some (Some ?q)"
      by (rule guardedI [of _ pre _ "?i @ ?v @ s @ ?a @ ?q @ post"], use buf b h in simp_all,
        rule guardedI [of _ "pre @ ?h" _ "?v @ s @ ?a @ ?q @ post"], use buf b h in simp_all,
        rule guardedI [of _ "pre @ ?h @ ?i @ ?v" _ "?a @ ?q @ post"], use buf b h in simp_all,
        rule guardedI [of _ "pre @ ?h @ ?i @ ?v @ s" _ "?q @ post"], use buf b h in simp_all,
        rule guardedI [of _ "pre @ ?h @ ?i @ ?v @ s @ ?a" _ "post"], use buf b h in simp_all)
    have v: "var_int_at buf (?L + 36) = (of_nat (length s), of_nat (length ?v))"
      by (rule var_int_atI [of _ "pre @ ?h @ ?i" _ "s @ ?a @ ?q @ post"]) (use buf b h in simp_all)
    have am: "u64_or_0 (Some ?a) = inAmount inp"
      using UInt64GetLE_SetLE [of _ "[]"] by (simp add: u64_or_0_def)
    show ?thesis
      using None g v s h seq hash am
      by (simp add: parse_input_def before_witness_def received_input_def signed_input_def b Let_def
          BRTxInputSetScript_def BRTxInputSetWitness_def add.assoc)
  qed
qed

lemma inputs_bytes_Cons: "inputs_bytes (inp # inps) = input_bytes (wire_input inp) @ inputs_bytes inps"
  by (simp add: inputs_bytes_def)

lemma parse_inputs_bytes:
  assumes "buf = pre @ inputs_bytes inps @ post" "length buf < 2 ^ 64" "\<forall>inp \<in> set inps. wf_input inp"
  shows "parse_inputs buf witnessFlag (length inps) (of_nat (length pre)) sg =
    Some (map (before_witness witnessFlag) inps, of_nat (length (pre @ inputs_bytes inps)), sg \<and> (\<forall>inp \<in> set inps. signed_input inp))"
  using assms
proof (induction inps arbitrary: pre sg)
  case Nil
  then show ?case by (simp add: inputs_bytes_def)
next
  case (Cons inp inps)
  let ?b = "input_bytes (wire_input inp)"
  have le: "(of_nat (length pre) :: u64) \<le> of_nat (length buf)"
    using Cons.prems by (intro off_le) auto
  have one: "parse_input buf witnessFlag (of_nat (length pre)) =
      Some (before_witness witnessFlag inp, of_nat (length (pre @ ?b)), signed_input inp)"
    using Cons.prems by (intro parse_input_bytes [of _ _ _ "inputs_bytes inps @ post"]) (simp_all add: inputs_bytes_Cons)
  have "parse_inputs buf witnessFlag (length inps) (of_nat (length (pre @ ?b))) (sg \<and> signed_input inp) =
      Some (map (before_witness witnessFlag) inps, of_nat (length ((pre @ ?b) @ inputs_bytes inps)),
        (sg \<and> signed_input inp) \<and> (\<forall>inp \<in> set inps. signed_input inp))"
    using Cons.prems by (intro Cons.IH) (simp_all add: inputs_bytes_Cons)
  with le one show ?case by (simp add: inputs_bytes_Cons ac_simps)
qed

lemma outputs_bytes_Cons: "outputs_bytes (outp # outs) = output_bytes outp @ outputs_bytes outs"
  by (simp add: outputs_bytes_def)

lemma parse_output_bytes:
  assumes "buf = pre @ output_bytes outp @ post" "length buf < 2 ^ 64" "outScript outp \<noteq> None"
  shows "parse_output buf (of_nat (length pre)) = Some (outp, of_nat (length (pre @ output_bytes outp)))"
proof -
  let ?L = "of_nat (length pre) :: u64"
  obtain s where s: "outScript outp = Some s" using assms(3) by blast
  let ?a = "UInt64SetLE (outAmount outp)" and ?v = "var_int_bytes (of_nat (length s))"
  have b: "output_bytes outp = ?a @ ?v @ s" using s by (simp add: output_bytes_def script_bytes_def)
  have g: "guarded buf ?L 8 = Some (Some ?a)" "guarded buf (?L + 8 + of_nat (length ?v)) (of_nat (length s)) = Some (Some s)"
    by (rule guardedI [of _ pre _ "?v @ s @ post"], use assms b in simp_all,
      rule guardedI [of _ "pre @ ?a @ ?v" _ post], use assms b in simp_all)
  have v: "var_int_at buf (?L + 8) = (of_nat (length s), of_nat (length ?v))"
    by (rule var_int_atI [of _ "pre @ ?a" _ "s @ post"]) (use assms b in simp_all)
  have "u64_or_0 (Some ?a) = outAmount outp"
    using UInt64GetLE_SetLE [of _ "[]"] by (simp add: u64_or_0_def)
  moreover have "\<lparr>outAmount = outAmount outp, outScript = Some s\<rparr> = outp" using s by simp
  ultimately show ?thesis
    using g v s by (simp add: parse_output_def b Let_def BRTxOutputSetScript_def add.assoc)
qed

lemma parse_outputs_bytes:
  assumes "buf = pre @ outputs_bytes outs @ post" "length buf < 2 ^ 64" "\<forall>outp \<in> set outs. outScript outp \<noteq> None"
  shows "parse_outputs buf (length outs) (of_nat (length pre)) = Some (outs, of_nat (length (pre @ outputs_bytes outs)))"
  using assms
proof (induction outs arbitrary: pre)
  case Nil
  then show ?case by (simp add: outputs_bytes_def)
next
  case (Cons outp outs)
  let ?b = "output_bytes outp"
  have le: "(of_nat (length pre) :: u64) \<le> of_nat (length buf)"
    using Cons.prems by (intro off_le) auto
  have one: "parse_output buf (of_nat (length pre)) = Some (outp, of_nat (length (pre @ ?b)))"
    using Cons.prems by (intro parse_output_bytes [of _ _ _ "outputs_bytes outs @ post"]) (simp_all add: outputs_bytes_Cons)
  have "parse_outputs buf (length outs) (of_nat (length (pre @ ?b))) =
      Some (outs, of_nat (length ((pre @ ?b) @ outputs_bytes outs)))"
    using Cons.prems by (intro Cons.IH) (simp_all add: outputs_bytes_Cons)
  with le one show ?case by (simp add: outputs_bytes_Cons ac_simps)
qed

lemma witness_length_items:
  assumes "buf = pre @ done @ witness_items ds @ post" "length buf < 2 ^ 64"
  shows "witness_length buf (of_nat (length pre)) (length ds) (of_nat (length done)) = of_nat (length (done @ witness_items ds))"
  using assms
proof (induction ds arbitrary: "done")
  case (Cons d ds)
  let ?v = "var_int_bytes (of_nat (length d))"
  have v: "var_int_at buf (of_nat (length pre) + of_nat (length done)) = (of_nat (length d), of_nat (length ?v))"
    by (rule var_int_atI [of _ "pre @ done" _ "d @ witness_items ds @ post"]) (use Cons.prems in \<open>simp_all add: script_bytes_def\<close>)
  have "witness_length buf (of_nat (length pre)) (length ds) (of_nat (length (done @ script_bytes d)))
      = of_nat (length ((done @ script_bytes d) @ witness_items ds))"
    by (rule Cons.IH) (use Cons.prems in simp_all)
  with v show ?case by (simp add: script_bytes_def ac_simps)
qed simp

lemma length_witness_items: "length ds \<le> length (witness_items ds)"
proof (induction ds)
  case (Cons d ds)
  have "var_int_bytes (of_nat (length d)) \<noteq> []" by simp
  then have "1 \<le> length (var_int_bytes (of_nat (length d)))" by (simp add: Suc_le_eq)
  with Cons show ?case by (simp add: script_bytes_def)
qed simp

lemma parse_witnesses_bytes:
  assumes "witnesses inps wits" "buf = pre @ witness_bytes inps (item_counts wits) @ post" "length buf < 2 ^ 64"
  shows "parse_witnesses buf (map (before_witness True) inps) (of_nat (length pre))
    = Some (map received_input inps, of_nat (length (pre @ witness_bytes inps (item_counts wits))))"
  using assms unfolding witnesses_def
proof (induction inps wits arbitrary: pre rule: list_all2_induct)
  case Nil
  then show ?case by (simp add: witness_bytes_def item_counts_def)
next
  case (Cons inp inps ds wits)
  let ?c = "of_nat (length ds) :: u64" and ?w = "witness_items ds"
  let ?rest = "witness_bytes inps (item_counts wits)"
  have w: "arr (inWitness inp) = ?w" "length ?w < 2 ^ 64" using Cons.hyps by simp_all
  have b: "witness_bytes (inp # inps) (item_counts (ds # wits)) = var_int_bytes ?c @ ?w @ ?rest"
    by (simp add: witness_bytes_def item_counts_def w)
  have buf: "buf = pre @ var_int_bytes ?c @ ?w @ ?rest @ post" using Cons.prems(1) b by simp
  have le: "(of_nat (length pre) :: u64) \<le> of_nat (length buf)"
    using Cons.prems by (intro off_le) auto
  have v: "var_int_at buf (of_nat (length pre)) = (?c, of_nat (length (var_int_bytes ?c)))"
    by (rule var_int_atI [OF buf]) (use Cons.prems in simp_all)
  have cnt: "unat ?c = length ds" using length_witness_items [of ds] w(2) by (intro unat_len) simp
  have sLen: "witness_length buf (of_nat (length pre) + of_nat (length (var_int_bytes ?c))) (length ds) 0 = of_nat (length ?w)"
    using witness_length_items [of buf "pre @ var_int_bytes ?c" "[]" ds "?rest @ post"] buf Cons.prems(2) by simp
  have g: "guarded buf (of_nat (length pre) + of_nat (length (var_int_bytes ?c))) (of_nat (length ?w)) = Some (Some ?w)"
    by (rule guardedI [of _ "pre @ var_int_bytes ?c" _ "?rest @ post"]) (use buf Cons.prems in simp_all)
  have IH: "parse_witnesses buf (map (before_witness True) inps) (of_nat (length (pre @ var_int_bytes ?c @ ?w)))
      = Some (map received_input inps, of_nat (length ((pre @ var_int_bytes ?c @ ?w) @ ?rest)))"
    by (rule Cons.IH) (use buf Cons.prems in simp_all)
  have set: "BRTxInputSetWitness (before_witness True inp) (Some ?w) = received_input inp"
    by (simp add: BRTxInputSetWitness_def before_witness_def received_input_def w split: option.splits)
  show ?case
    using le v cnt sLen g IH set by (simp add: b Let_def ac_simps)
qed

text \<open>What the receiver of a serialized transaction has.\<close>

definition received_tx :: "BRTransaction \<Rightarrow> u64 list \<Rightarrow> BRTransaction" where
  "received_tx tx cs =
     (let signed = (\<forall>inp \<in> set (inputs tx). signed_input inp)
      in tx\<lparr>txHash := (if signed then BRSHA256_2 (id_bytes tx) else UINT256_ZERO),
            wtxHash := (if signed then BRSHA256_2 (tx_bytes tx cs) else UINT256_ZERO),
            inputs := map received_input (inputs tx), blockHeight := TX_UNCONFIRMED, timestamp := 0\<rparr>)"

definition wf_tx :: "BRTransaction \<Rightarrow> bytes list list \<Rightarrow> bool" where
  "wf_tx tx wits \<longleftrightarrow> inputs tx \<noteq> [] \<and> (\<forall>inp \<in> set (inputs tx). wf_input inp) \<and>
     (\<forall>outp \<in> set (outputs tx). outScript outp \<noteq> None) \<and> witnesses (inputs tx) wits \<and>
     length (tx_bytes tx (item_counts wits)) < 2 ^ 56"

lemma length_concat_ge: "(\<And>x. x \<in> set xs \<Longrightarrow> 1 \<le> length (f x)) \<Longrightarrow> length xs \<le> length (concat (map f xs))"
  by (induction xs) force+

lemma length_inputs_bytes: "length inps \<le> length (inputs_bytes inps)"
  unfolding inputs_bytes_def by (rule length_concat_ge) (simp add: input_bytes_def)

lemma length_outputs_bytes: "length outs \<le> length (outputs_bytes outs)"
  unfolding outputs_bytes_def by (rule length_concat_ge) (simp add: output_bytes_def)

lemma received_without_witness:
  assumes "arr (inWitness inp) = []"
  shows "before_witness False inp = received_input inp"
  using assms by (simp add: before_witness_def received_input_def split: option.splits)

lemma BRTransactionParse_bytes:
  assumes wf: "wf_tx tx wits"
  shows "BRTransactionParse (tx_bytes tx (item_counts wits)) = Returns (received_tx tx (item_counts wits))"
proof -
  let ?cs = "item_counts wits"
  define buf where "buf = tx_bytes tx ?cs"
  define v where "v = UInt32SetLE (txVersion tx)"
  define lk where "lk = UInt32SetLE (lockTime tx)"
  define vi where "vi = var_int_bytes (of_nat (length (inputs tx)))"
  define vo where "vo = var_int_bytes (of_nat (length (outputs tx)))"
  define ib where "ib = inputs_bytes (inputs tx)"
  define ob where "ob = outputs_bytes (outputs tx)"
  have small: "length buf < 2 ^ 56" and ne: "inputs tx \<noteq> []" and wits: "witnesses (inputs tx) wits"
    and ins: "\<forall>inp \<in> set (inputs tx). wf_input inp" and outs: "\<forall>outp \<in> set (outputs tx). outScript outp \<noteq> None"
    using wf by (simp_all add: wf_tx_def buf_def)
  then have len: "length buf < 2 ^ 64" by simp
  have v4: "length v = 4" "length lk = 4" by (simp_all add: v_def lk_def)
  have ver: "u32_or_0 (Some v) = txVersion tx" "u32_or_0 (Some lk) = lockTime tx"
    using UInt32GetLE_SetLE [of _ "[]"] by (simp_all add: u32_or_0_def v_def lk_def)
  have body: "body_bytes tx = vi @ ib @ vo @ ob" by (simp add: body_bytes_def vi_def ib_def vo_def ob_def)
  have cnt: "length (inputs tx) < 2 ^ 56" "length (outputs tx) < 2 ^ 56"
  proof -
    have "length ib + length ob \<le> length buf" by (simp add: buf_def tx_bytes_def body)
    then show "length (inputs tx) < 2 ^ 56" "length (outputs tx) < 2 ^ 56"
      using length_inputs_bytes [of "inputs tx"] length_outputs_bytes [of "outputs tx"] small
      by (simp_all add: ib_def ob_def)
  qed
  have ucnt: "unat (of_nat (length (inputs tx)) :: u64) = length (inputs tx)"
    "unat (of_nat (length (outputs tx)) :: u64) = length (outputs tx)"
    by (rule unat_len, use cnt in simp)+
  then have nz: "(of_nat (length (inputs tx)) :: u64) \<noteq> 0" using ne by (metis length_0_conv unat_0)
  have alloc: "allocates (of_nat (length (inputs tx))) 104" "allocates (of_nat (length (outputs tx))) 24"
    using cnt by (simp_all add: allocates_def ucnt)
  have lock: "guarded buf (of_nat (length pre)) 4 = Some (Some lk)" if "buf = pre @ lk" for pre
    by (rule guardedI [of _ pre _ "[]"]) (use that len v4 in simp_all)
  have fin: "(of_nat (length buf) :: u64) \<le> of_nat (length buf)" "unat (of_nat (length buf) :: u64) = length buf"
    using unat_len [OF len] by simp_all
  have gv: "guarded buf 0 4 = Some (Some v)"
    by (rule guardedI [of _ "[]" _ "drop 4 buf"])
      (use len v4 in \<open>simp_all add: buf_def tx_bytes_def v_def\<close>)
  show ?thesis
  proof (cases "has_witness tx")
    case False
    have buf: "buf = v @ vi @ ib @ vo @ ob @ lk"
      using False by (simp add: buf_def tx_bytes_def body v_def lk_def)
    have no_wit: "map (before_witness False) (inputs tx) = map received_input (inputs tx)"
      using False received_without_witness by (simp add: has_witness_def)
    have c1: "var_int_at buf 4 = (of_nat (length (inputs tx)), of_nat (length vi))"
      unfolding vi_def by (rule var_int_atI [of _ v _ "ib @ vo @ ob @ lk"]) (use buf len v4 in \<open>simp_all add: vi_def\<close>)
    have pi: "parse_inputs buf False (length (inputs tx)) (4 + of_nat (length vi)) True = Some (map received_input (inputs tx),
        of_nat (length (v @ vi @ ib)), \<forall>inp \<in> set (inputs tx). signed_input inp)"
      using parse_inputs_bytes [of buf "v @ vi" "inputs tx" "vo @ ob @ lk" False True] buf len ins v4
      by (simp add: ib_def no_wit)
    have c2: "var_int_at buf (of_nat (length (v @ vi @ ib))) = (of_nat (length (outputs tx)), of_nat (length vo))"
      unfolding vo_def by (rule var_int_atI [of _ "v @ vi @ ib" _ "ob @ lk"]) (use buf len in \<open>simp_all add: vo_def\<close>)
    have po: "parse_outputs buf (length (outputs tx)) (of_nat (length (v @ vi @ ib)) + of_nat (length vo)) =
        Some (outputs tx, of_nat (length (v @ vi @ ib @ vo @ ob)))"
      using parse_outputs_bytes [of buf "v @ vi @ ib @ vo" "outputs tx" lk] buf len outs
      by (simp add: ob_def add.assoc)
    have lk: "guarded buf (of_nat (length (v @ vi @ ib @ vo @ ob))) 4 = Some (Some lk)"
      by (rule lock) (simp add: buf)
    have off: "of_nat (length (v @ vi @ ib @ vo @ ob)) + 4 = (of_nat (length buf) :: u64)"
      by (simp add: buf v4)
    have id: "id_bytes tx = buf" using False by (simp add: id_bytes_def buf_def tx_bytes_def)
    have "BRTransactionParse buf = parse_end buf False (\<forall>inp \<in> set (inputs tx). signed_input inp)
        (of_nat (length (v @ vi @ ib @ vo @ ob))) (of_nat (length buf))
        (BRTransactionNew\<lparr>txVersion := txVersion tx, inputs := map received_input (inputs tx), outputs := outputs tx,
           lockTime := lockTime tx\<rparr>)"
      unfolding BRTransactionParse_def Let_def
      by (simp only: gv c1 nz ucnt alloc pi c2 po lk off ver prod.case if_False if_True option.case bind.bind_lunit
          Option.bind.simps option.distinct simp_thms)
    then show ?thesis
      using ne fin by (simp add: parse_end_def received_tx_def id buf_def [symmetric] Let_def BRTransactionNew_def)
  next
    case True
    define wb where "wb = witness_bytes (inputs tx) ?cs"
    have buf: "buf = v @ [0, 1] @ vi @ ib @ vo @ ob @ wb @ lk"
      using True by (simp add: buf_def tx_bytes_def body v_def lk_def wb_def)
    have flag: "guarded buf 5 1 = Some (Some [1])"
      by (rule guardedI [of _ "v @ [0]" _ "vi @ ib @ vo @ ob @ wb @ lk"]) (use buf len v4 in simp_all)
    have c0: "var_int_at buf 4 = (0, 1)"
      using var_int_atI [of buf v 0 "1 # vi @ ib @ vo @ ob @ wb @ lk" 4] buf len v4
      by (simp add: var_int_bytes_def)
    have c1: "var_int_at buf 6 = (of_nat (length (inputs tx)), of_nat (length vi))"
      unfolding vi_def by (rule var_int_atI [of _ "v @ [0, 1]" _ "ib @ vo @ ob @ wb @ lk"]) (use buf len v4 in \<open>simp_all add: vi_def\<close>)
    have pi: "parse_inputs buf True (length (inputs tx)) (6 + of_nat (length vi)) True = Some (map (before_witness True) (inputs tx),
        of_nat (length (v @ [0, 1] @ vi @ ib)), \<forall>inp \<in> set (inputs tx). signed_input inp)"
      using parse_inputs_bytes [of buf "v @ [0, 1] @ vi" "inputs tx" "vo @ ob @ wb @ lk" True True] buf len ins v4
      by (simp add: ib_def)
    have c2: "var_int_at buf (of_nat (length (v @ [0, 1] @ vi @ ib))) = (of_nat (length (outputs tx)), of_nat (length vo))"
      unfolding vo_def by (rule var_int_atI [of _ "v @ [0, 1] @ vi @ ib" _ "ob @ wb @ lk"]) (use buf len in \<open>simp_all add: vo_def\<close>)
    have po: "parse_outputs buf (length (outputs tx)) (of_nat (length (v @ [0, 1] @ vi @ ib)) + of_nat (length vo)) =
        Some (outputs tx, of_nat (length (v @ [0, 1] @ vi @ ib @ vo @ ob)))"
      using parse_outputs_bytes [of buf "v @ [0, 1] @ vi @ ib @ vo" "outputs tx" "wb @ lk"] buf len outs
      by (simp add: ob_def add.assoc)
    have pw: "parse_witnesses buf (map (before_witness True) (inputs tx)) (of_nat (length (v @ [0, 1] @ vi @ ib @ vo @ ob))) =
        Some (map received_input (inputs tx), of_nat (length (v @ [0, 1] @ vi @ ib @ vo @ ob @ wb)))"
      using parse_witnesses_bytes [OF wits, of buf "v @ [0, 1] @ vi @ ib @ vo @ ob" lk] buf len by (simp add: wb_def)
    have lk: "guarded buf (of_nat (length (v @ [0, 1] @ vi @ ib @ vo @ ob @ wb))) 4 = Some (Some lk)"
      by (rule lock) (simp add: buf)
    have off: "of_nat (length (v @ [0, 1] @ vi @ ib @ vo @ ob @ wb)) + 4 = (of_nat (length buf) :: u64)"
      by (simp add: buf v4)
    have nums: "(4 + 1 :: u64) = 5" "(5 + 1 :: u64) = 6" "([1] ! 0 :: u8) \<noteq> 0" by simp_all
    have parse: "BRTransactionParse buf = parse_end buf True (\<forall>inp \<in> set (inputs tx). signed_input inp)
        (of_nat (length (v @ [0, 1] @ vi @ ib @ vo @ ob))) (of_nat (length buf))
        (BRTransactionNew\<lparr>txVersion := txVersion tx, inputs := map received_input (inputs tx), outputs := outputs tx,
           lockTime := lockTime tx\<rparr>)"
      unfolding BRTransactionParse_def Let_def
      by (simp only: gv c0 c1 nz ucnt alloc flag nums pi c2 po pw lk off ver prod.case if_False if_True option.case bind.bind_lunit
          Option.bind.simps option.distinct simp_thms)
    have wOff: "unat (of_nat (length (v @ [0, 1] @ vi @ ib @ vo @ ob)) :: u64) = 6 + length (vi @ ib @ vo @ ob)"
      using len by (subst unat_len) (simp_all add: buf v4)
    then have "\<not> of_nat (length (v @ [0, 1] @ vi @ ib @ vo @ ob)) < (4 + 2 :: u64)"
      by (simp add: word_less_nat_alt)
    moreover have "UInt32SetLE (txVersion tx) @ take (unat (of_nat (length (v @ [0, 1] @ vi @ ib @ vo @ ob)) :: u64) - (4 + 2))
        (drop (4 + 2) buf) @ UInt32SetLE (lockTime tx) = id_bytes tx"
      unfolding wOff using v4 by (simp add: buf id_bytes_def body v_def lk_def)
    ultimately show ?thesis
      unfolding buf_def [symmetric] parse using ne fin
      by (simp only: parse_end_def received_tx_def Let_def) (simp add: buf_def [symmetric] BRTransactionNew_def)
  qed
qed

section \<open>Sizes\<close>

text \<open>The part of the size estimate one signed input contributes.\<close>

lemma var_size_bytes: "var_size a = of_nat (length (script_bytes (arr a)))"
  by (simp add: var_size_def script_bytes_def BRVarIntSize_eq)

lemma foldl_input_size:
  assumes "\<forall>inp \<in> set inps. inSignature inp \<noteq> None \<and> inWitness inp \<noteq> None \<and> length (inTxHash inp) = 32"
  shows "foldl input_size (sz, w) inps = (sz + of_nat (length (inputs_bytes inps)),
    w + of_nat (sum_list (map (\<lambda>inp. length (arr (inWitness inp))) inps)))"
  using assms
proof (induction inps arbitrary: sz w)
  case Nil
  then show ?case by (simp add: inputs_bytes_def)
next
  case (Cons inp inps)
  have "length (input_bytes (wire_input inp)) = 32 + 4 + length (script_bytes (arr (inSignature inp))) + 4"
    using Cons.prems by (auto simp: input_bytes_def wire_input_def data_input_def)
  then have "input_size (sz, w) inp = (sz + of_nat (length (input_bytes (wire_input inp))), w + of_nat (length (arr (inWitness inp))))"
    using Cons.prems by (simp add: input_size_def var_size_bytes ac_simps)
  with Cons show ?case by (simp add: inputs_bytes_Cons ac_simps)
qed

lemma foldl_output_size:
  "foldl (\<lambda>sz outp. sz + 8 + var_size (outScript outp)) sz outs = sz + of_nat (length (outputs_bytes outs))"
proof (induction outs arbitrary: sz)
  case Nil
  then show ?case by (simp add: outputs_bytes_def)
next
  case (Cons outp outs)
  then show ?case by (simp add: outputs_bytes_Cons output_bytes_def var_size_bytes ac_simps)
qed

lemma witness_bytes_length:
  assumes "witnesses inps wits" "\<forall>ds \<in> set wits. length ds < 253"
  shows "length (witness_bytes inps (item_counts wits)) = sum_list (map (\<lambda>inp. length (arr (inWitness inp))) inps) + length inps"
  using assms unfolding witnesses_def
proof (induction inps wits rule: list_all2_induct)
  case (Cons inp inps ds wits)
  have "(of_nat (length ds) :: u64) < 0xfd"
    using Cons.prems by (simp add: word_less_nat_alt unat_len)
  with Cons show ?case by (simp add: witness_bytes_def item_counts_def var_int_bytes_length)
qed (simp add: witness_bytes_def)

lemma tx_sizes_bytes:
  assumes signed: "\<forall>inp \<in> set (inputs tx). inSignature inp \<noteq> None \<and> inWitness inp \<noteq> None \<and> length (inTxHash inp) = 32"
    and wits: "witnesses (inputs tx) wits" "\<forall>ds \<in> set wits. length ds < 253"
    and small: "length (tx_bytes tx (item_counts wits)) < 2 ^ 64"
  shows "tx_sizes tx = (of_nat (length (id_bytes tx)),
    of_nat (length (tx_bytes tx (item_counts wits)) - length (id_bytes tx)))"
    "length (id_bytes tx) \<le> length (tx_bytes tx (item_counts wits))"
proof -
  let ?wit = "sum_list (map (\<lambda>inp. length (arr (inWitness inp))) (inputs tx))"
  have stripped: "length (id_bytes tx) = 8 + length (var_int_bytes (of_nat (length (inputs tx)))) +
      length (var_int_bytes (of_nat (length (outputs tx)))) + length (inputs_bytes (inputs tx)) + length (outputs_bytes (outputs tx))"
    by (simp add: id_bytes_def body_bytes_def)
  have total: "length (tx_bytes tx (item_counts wits)) = length (id_bytes tx) + (if has_witness tx then 2 + length (inputs tx) + ?wit else 0)"
    using witness_bytes_length [OF wits] by (simp add: tx_bytes_def id_bytes_def)
  then show "length (id_bytes tx) \<le> length (tx_bytes tx (item_counts wits))" by simp
  have zero: "?wit = 0 \<longleftrightarrow> \<not> has_witness tx"
    by (auto simp: has_witness_def sum_list_eq_0_iff)
  have "?wit < 2 ^ 64"
  proof (cases "has_witness tx")
    case True
    then show ?thesis using total small by simp
  next
    case False
    then have "?wit = 0" using zero by blast
    then show ?thesis by (simp only:) simp
  qed
  then have "unat (of_nat ?wit :: u64) = ?wit" by (rule unat_len)
  then have pos: "(0 :: u64) < of_nat ?wit \<longleftrightarrow> has_witness tx"
    using zero by (metis neq0_conv unat_eq_zero word_neq_0_conv word_gt_0)
  have sizes: "tx_sizes tx = (of_nat (length (id_bytes tx)),
      if has_witness tx then of_nat ?wit + 2 + of_nat (length (inputs tx)) else of_nat ?wit)"
    unfolding tx_sizes_def Let_def foldl_input_size [OF signed] prod.case foldl_output_size
    by (simp add: pos stripped BRVarIntSize_eq ac_simps)
  show "tx_sizes tx = (of_nat (length (id_bytes tx)), of_nat (length (tx_bytes tx (item_counts wits)) - length (id_bytes tx)))"
  proof (cases "has_witness tx")
    case True
    then show ?thesis unfolding sizes total by (simp add: ac_simps)
  next
    case False
    then have none: "?wit = 0" using zero by blast
    from False show ?thesis unfolding sizes total by (simp add: none)
  qed
qed

section \<open>Shuffling\<close>

lemma mset_swap_outputs: "i < length xs \<Longrightarrow> j < length xs \<Longrightarrow> mset (swap_outputs i j xs) = mset xs"
  by (simp add: swap_outputs_def mset_swap)

lemma length_swap_outputs [simp]: "length (swap_outputs i j xs) = length xs"
  by (simp add: swap_outputs_def)

lemma mset_shuffle:
  assumes "\<And>i. i \<in> set is \<Longrightarrow> i < n \<and> f i < n" "length xs = n"
  shows "mset (foldl (\<lambda>xs i. swap_outputs i (f i) xs) xs is) = mset xs"
  using assms
proof (induction "is" arbitrary: xs)
  case (Cons i "is")
  then have "mset (foldl (\<lambda>xs i. swap_outputs i (f i) xs) (swap_outputs i (f i) xs) is) = mset (swap_outputs i (f i) xs)"
    by (intro Cons.IH) auto
  with Cons.prems show ?case by (simp add: mset_swap_outputs)
qed simp

lemma shuffle_outputs:
  assumes "\<And>i n. 0 < n \<Longrightarrow> rand i n < n"
  shows "mset (outputs (BRTransactionShuffleOutputs rand tx)) = mset (outputs tx) \<and>
    BRTransactionShuffleOutputs rand tx = tx\<lparr>outputs := outputs (BRTransactionShuffleOutputs rand tx)\<rparr>"
proof -
  let ?n = "length (outputs tx)"
  have "i < ?n \<and> i + rand i (?n - i) < ?n" if "i \<in> set [0..<?n - 1]" for i
  proof -
    from that have i: "i < ?n - 1" by simp
    then have "rand i (?n - i) < ?n - i" by (intro assms) linarith
    with i show ?thesis by linarith
  qed
  then show ?thesis
    using mset_shuffle [of "[0..<?n - 1]" ?n "\<lambda>i. i + rand i (?n - i)" "outputs tx"]
    by (simp add: BRTransactionShuffleOutputs_def)
qed

section \<open>Transactions as set items\<close>

lemma UInt32GetLE_UInt64GetLE: "UInt32GetLE b = ucast (UInt64GetLE b)"
  by (rule bit_word_eqI) (simp add: bit_UInt32GetLE bit_UInt64GetLE bit_simps)

interpretation tx_set: item_equality BRTransactionHash BRTransactionEq
  by unfold_locales (auto simp: BRTransactionHash_def BRTransactionEq_def UInt256Eq_def UInt32GetLE_UInt64GetLE)

section \<open>Properties\<close>

text \<open>
  C23: Serializing and parsing. For a transaction with at least one input, whose unsigned inputs
  carry a standard script and an amount other than 0, and whose signatures are not themselves
  standard output scripts, the two calls of \<open>BRTransactionSerialize\<close> (the size query and the
  write) produce bytes that \<open>BRTransactionParse\<close> reads back as the same transaction, witnesses
  included; signed inputs come back without the script and amount, which are not on the wire, and
  once all inputs are signed the transaction id is the hash of the serialization without marker and
  witnesses and \<open>wtxHash\<close> the hash of all of it.
\<close>

theorem tx_serialize_parse:
  assumes "wf_tx tx wits"
  shows "\<exists>b. BRTransactionSerialize tx None = Some (None, length b) \<and>
    (\<forall>m. length m = length b \<longrightarrow> BRTransactionSerialize tx (Some m) = Some (Some b, length b)) \<and>
    BRTransactionParse b = Returns (received_tx tx (item_counts wits))"
proof -
  let ?b = "tx_bytes tx (item_counts wits)"
  have "witness_counts (inputs tx) = Some (item_counts wits)"
    using assms by (intro witness_counts_items) (simp add: wf_tx_def)
  then obtain w where w: "\<And>data. BRTransactionSerialize tx data = Some (w data)" "two_pass_writer w ?b"
    using BRTransactionSerialize_writer by metis
  have "w None = (None, length ?b)" by (rule two_pass_writer.query [OF w(2)])
  moreover have "w (Some m) = (Some ?b, length ?b)" if "length m = length ?b" for m
    using two_pass_writer.fill [OF w(2), of m] that by simp
  ultimately show ?thesis using w(1) BRTransactionParse_bytes [OF assms] by (intro exI [of _ ?b]) simp
qed

definition example_tx :: BRTransaction where
  "example_tx = \<lparr>txHash = UINT256_ZERO, wtxHash = UINT256_ZERO, txVersion = 1,
     inputs = [\<lparr>inTxHash = replicate 32 7, inIndex = 0, inAmount = 0, inScript = None, inSignature = Some [],
                inWitness = Some [2, 0x30, 0x31, 1, 0x41], inSequence = TXIN_SEQUENCE\<rparr>],
     outputs = [\<lparr>outAmount = 5000, outScript = Some [0x6a]\<rparr>], lockTime = 0, blockHeight = TX_UNCONFIRMED, timestamp = 0\<rparr>"

lemma wf_example_tx: "wf_tx example_tx [[[0x30, 0x31], [0x41]]]"
proof -
  have "\<not> BRScriptPubKeyIsValid []"
    by (simp add: BRScriptPubKeyIsValid_iff valid_script_pubkey_def std_scripts)
  then show ?thesis
    by (simp add: wf_tx_def example_tx_def wf_input_def witnesses_def script_bytes_def var_int_bytes_def tx_bytes_def
        has_witness_def body_bytes_def inputs_bytes_def outputs_bytes_def input_bytes_def output_bytes_def wire_input_def
        data_input_def witness_bytes_def item_counts_def)
qed

theorem tx_serialize_parse_witness:
  "\<exists>b. BRTransactionSerialize example_tx None = Some (None, length b) \<and>
    BRTransactionSerialize example_tx (Some (replicate (length b) 0)) = Some (Some b, length b) \<and>
    BRTransactionParse b = Returns (received_tx example_tx (item_counts [[[0x30, 0x31], [0x41]]]))"
  using tx_serialize_parse [OF wf_example_tx] by (metis length_replicate)

text \<open>
  C26: The sizes are exact for signed transactions whose witnesses have fewer than 253 items:
  \<open>BRTransactionSize\<close> is the length of the serialization, and \<open>BRTransactionVSize\<close> a quarter of its
  BIP141 weight, rounded up.
\<close>

theorem tx_size_exact:
  assumes "BRTransactionIsSigned tx" "\<forall>inp \<in> set (inputs tx). length (inTxHash inp) = 32"
    and "witnesses (inputs tx) wits" "\<forall>ds \<in> set wits. length ds < 253"
    and "length (tx_bytes tx (item_counts wits)) < 2 ^ 61"
  shows "unat (BRTransactionSize tx) = length (tx_bytes tx (item_counts wits)) \<and>
    unat (BRTransactionVSize tx) = (3 * length (id_bytes tx) + length (tx_bytes tx (item_counts wits)) + 3) div 4"
proof -
  let ?t = "length (tx_bytes tx (item_counts wits))" and ?s = "length (id_bytes tx)"
  have sizes: "tx_sizes tx = (of_nat ?s, of_nat (?t - ?s))" and le: "?s \<le> ?t"
    using tx_sizes_bytes [of tx wits] assms by (auto simp: BRTransactionIsSigned_def)
  have "BRTransactionSize tx = of_nat ?t"
    using le by (simp add: BRTransactionSize_def sizes flip: of_nat_add)
  moreover have "BRTransactionVSize tx = of_nat (3 * ?s + ?t + 3) div 4"
  proof -
    have "3 * ?s + ?t + 3 = ?s * 4 + (?t - ?s) + 3" using le by simp
    then show ?thesis by (simp add: BRTransactionVSize_def sizes)
  qed
  moreover have "unat (of_nat ?t :: u64) = ?t" "unat (of_nat (3 * ?s + ?t + 3) :: u64) = 3 * ?s + ?t + 3"
    by (rule unat_len, use assms(5) le in simp)+
  ultimately show ?thesis by (simp add: unat_div)
qed

theorem tx_size_exact_witness:
  "unat (BRTransactionSize example_tx) = length (tx_bytes example_tx (item_counts [[[0x30, 0x31], [0x41]]])) \<and>
    unat (BRTransactionVSize example_tx) =
      (3 * length (id_bytes example_tx) + length (tx_bytes example_tx (item_counts [[[0x30, 0x31], [0x41]]])) + 3) div 4"
proof (rule tx_size_exact)
  show "witnesses (inputs example_tx) [[[0x30, 0x31], [0x41]]]" using wf_example_tx by (simp add: wf_tx_def)
  have "length (tx_bytes example_tx (item_counts [[[0x30, 0x31], [0x41]]])) < 2 ^ 56"
    using wf_example_tx unfolding wf_tx_def by blast
  then show "length (tx_bytes example_tx (item_counts [[[0x30, 0x31], [0x41]]])) < 2 ^ 61"
    by (rule order_less_le_trans) simp
qed (simp_all add: example_tx_def BRTransactionIsSigned_def)

text \<open>
  C25: The signature pre-image of BIP143. For an input with an amount other than 0,
  \<open>_BRTransactionWitnessData\<close> writes version, hash of the previous outputs, hash of the sequence
  numbers, outpoint, script code, amount, sequence, hash of the outputs, lock time and hash type, with
  the zero hashes that the hash type asks for, after a size query that returns exactly this length.
\<close>

theorem bip143_preimage:
  assumes "i < length (inputs tx)" "inAmount (inputs tx ! i) \<noteq> 0"
    and "length m = snd (BRTransactionWitnessData tx (Some i) hashType None)"
  shows "BRTransactionWitnessData tx (Some i) hashType (Some m) =
    (Some (bip143_bytes tx i hashType), length (bip143_bytes tx i hashType))"
  using two_pass_writer.two_pass [OF BRTransactionWitnessData_writer [OF assms(1,2)] assms(3)] .

definition example_unsigned :: BRTransaction where
  "example_unsigned = example_tx\<lparr>inputs := [(hd (inputs example_tx))\<lparr>inAmount := 9000, inSignature := None,
     inScript := Some (0 # 20 # replicate 20 5), inWitness := None\<rparr>]\<rparr>"

theorem bip143_preimage_witness:
  "\<exists>m. fst (BRTransactionWitnessData example_unsigned (Some 0) SIGHASH_ALL (Some m)) =
    Some ([1, 0, 0, 0] @ BRSHA256_2 (replicate 32 7 @ [0, 0, 0, 0]) @ BRSHA256_2 [0xff, 0xff, 0xff, 0xff] @
      replicate 32 7 @ [0, 0, 0, 0] @ [0x19, 0x76, 0xa9, 0x14] @ replicate 20 5 @ [0x88, 0xac] @
      [0x28, 0x23, 0, 0, 0, 0, 0, 0] @ [0xff, 0xff, 0xff, 0xff] @
      BRSHA256_2 [0x88, 0x13, 0, 0, 0, 0, 0, 0, 1, 0x6a] @ [0, 0, 0, 0] @ [1, 0, 0, 0])"
    (is "\<exists>m. fst (?write m) = Some ?expected")
proof (rule exI)
  let ?m = "replicate (snd (BRTransactionWitnessData example_unsigned (Some 0) SIGHASH_ALL None)) 0"
  have "?write ?m = (Some (bip143_bytes example_unsigned 0 SIGHASH_ALL), length (bip143_bytes example_unsigned 0 SIGHASH_ALL))"
    by (rule bip143_preimage) (simp_all add: example_unsigned_def example_tx_def)
  moreover have "bip143_bytes example_unsigned 0 SIGHASH_ALL = ?expected"
    by (simp add: bip143_bytes_def bip143_script_code_def example_unsigned_def example_tx_def Let_def SIGHASH_ALL_def TXIN_SEQUENCE_def
      outputs_bytes_def output_bytes_def script_bytes_def var_int_bytes_def UInt32SetLE_def UInt64SetLE_def del: replicate.simps)
  ultimately show "fst (?write ?m) = Some ?expected" by simp
qed

text \<open>
  C24: The signature pre-image of the older scheme, for every hash type without the fork id:
  \<open>_BRTransactionData\<close> returns, and writes the transaction with only the signed input's script, the
  other inputs blanked (and, for NONE and SINGLE, their sequence numbers cleared), only the one input
  for ANYONECANPAY, and the outputs the type selects, followed by the hash type.
\<close>

theorem legacy_preimage:
  assumes "index < length (inputs tx)" "hashType AND 0x40 = 0"
  shows "BRTransactionData tx (Some index) hashType None = Some (None, length (preimage_bytes tx index hashType)) \<and>
    (\<forall>m. length m = length (preimage_bytes tx index hashType) \<longrightarrow>
       BRTransactionData tx (Some index) hashType (Some m) =
         Some (Some (preimage_bytes tx index hashType), length (preimage_bytes tx index hashType)))"
proof -
  obtain w where "\<And>data. BRTransactionData tx (Some index) hashType data = Some (w data)"
      "two_pass_writer w (preimage_bytes tx index hashType)"
    using BRTransactionData_preimage [OF assms] by blast
  then show ?thesis using two_pass_writer.query [of w] two_pass_writer.fill [of w] by simp
qed

theorem legacy_preimage_witness:
  "BRTransactionData example_unsigned (Some 0) 0x83 (Some (replicate (length (preimage_bytes example_unsigned 0 0x83)) 0)) =
     Some (Some (preimage_bytes example_unsigned 0 0x83), length (preimage_bytes example_unsigned 0 0x83))"
proof -
  have "0 < length (inputs example_unsigned)" "(0x83 :: u32) AND 0x40 = 0"
    by (simp_all add: example_unsigned_def example_tx_def)
  from legacy_preimage [OF this] show ?thesis by simp
qed

text \<open>
  A length that wraps around defeats the bounds check of the parser. In this 58 byte message the
  signature length is \<open>2 ^ 64 - 50\<close>; at offset 50 the sum \<open>off + sLen\<close> is 0, the check
  \<open>off + sLen <= bufLen\<close> passes, and the code goes on to copy \<open>sLen\<close> bytes out of the buffer.
\<close>

theorem tx_parse_overflow:
  "BRTransactionParse ([1, 0, 0, 0, 1] @ replicate 36 0 @ [0xff, 0xce, 0xff, 0xff, 0xff, 0xff, 0xff, 0xff, 0xff] @ replicate 8 0)
    = Undefined"
proof -
  let ?z = "replicate 36 0 :: bytes" and ?e = "replicate 8 0 :: bytes"
  define buf where "buf = [1, 0, 0, 0, 1] @ ?z @ [0xff, 0xce, 0xff, 0xff, 0xff, 0xff, 0xff, 0xff, 0xff] @ ?e"
  have v: "var_int_bytes 0xffffffffffffffce = [0xff, 0xce, 0xff, 0xff, 0xff, 0xff, 0xff, 0xff, 0xff]"
    by (simp add: var_int_bytes_def UInt64SetLE_def)
  have one: "var_int_bytes 1 = [1]" by (simp add: var_int_bytes_def)
  have len: "length buf < 2 ^ 64" by (simp add: buf_def)
  have z: "?z = replicate 32 0 @ replicate 4 0" by (simp flip: replicate_add)
  have g: "guarded buf 0 4 = Some (Some [1, 0, 0, 0])" "guarded buf 5 32 = Some (Some (replicate 32 0))"
      "guarded buf 37 4 = Some (Some (replicate 4 0))"
    by (rule guardedI [OF _ len, of "[]" _ "drop 4 buf"], simp_all add: buf_def,
      rule guardedI [of _ "[1, 0, 0, 0, 1]" _ "drop 37 buf"], simp_all add: buf_def z,
      rule guardedI [of _ "[1, 0, 0, 0, 1] @ replicate 32 0" _ "drop 41 buf"], simp_all add: buf_def z)
  have c: "var_int_at buf 4 = (1, 1)" "var_int_at buf 41 = (0xffffffffffffffce, 9)"
    using var_int_atI [of buf "[1, 0, 0, 0]" 1 "drop 5 buf" 4] len
      var_int_atI [of buf "[1, 0, 0, 0, 1] @ ?z" "0xffffffffffffffce" ?e 41]
    by (simp_all add: buf_def v one)
  have bad: "guarded buf 50 0xffffffffffffffce = None" by (simp add: guarded_def buf_def)
  have off: "(5 :: u64) \<le> of_nat (length buf)" by (simp add: buf_def)
  have "parse_input buf False 5 = None"
    by (simp add: parse_input_def g c bad)
  then have "parse_inputs buf False 1 5 True = None" using off by simp
  then have "BRTransactionParse buf = Undefined"
    by (simp add: BRTransactionParse_def g c allocates_def)
  then show ?thesis by (simp add: buf_def)
qed

text \<open>
  Shuffling the outputs permutes them, whatever random numbers in range are drawn, and changes
  nothing else.
\<close>

theorem shuffle_permutes:
  assumes "\<And>i n. 0 < n \<Longrightarrow> rand i n < n"
  shows "mset (outputs (BRTransactionShuffleOutputs rand tx)) = mset (outputs tx) \<and>
    BRTransactionShuffleOutputs rand tx = tx\<lparr>outputs := outputs (BRTransactionShuffleOutputs rand tx)\<rparr>"
  by (rule shuffle_outputs [OF assms])

theorem shuffle_permutes_witness:
  "mset (outputs (BRTransactionShuffleOutputs (\<lambda>i n. n - 1) example_tx)) = mset (outputs example_tx) \<and>
    BRTransactionShuffleOutputs (\<lambda>i n. n - 1) example_tx =
      example_tx\<lparr>outputs := outputs (BRTransactionShuffleOutputs (\<lambda>i n. n - 1) example_tx)\<rparr>"
  by (rule shuffle_permutes) simp

end
