(* ===== verification/Mac.thy ===== *)
theory Mac
  imports Hash
begin

text \<open>
  Keyed hashes of \<open>support/BRCrypto.c\<close>: HMAC, its random bit generator, PBKDF2, MurmurHash3 and
  SipHash. A hash function \<open>void hash(void *, const void *, size_t)\<close> is a function on byte strings with
  its \<open>hashLen\<close>.
\<close>

section \<open>HMAC\<close>

definition xor_bytes :: "bytes \<Rightarrow> bytes \<Rightarrow> bytes" where
  "xor_bytes a b = map2 (XOR) a b"

lemma length_xor_bytes [simp]: "length (xor_bytes a b) = min (length a) (length b)"
  by (simp add: xor_bytes_def)

definition hmac_block :: "nat \<Rightarrow> nat" where
  "hmac_block hashLen = (if hashLen > 32 then 128 else 64)"

definition hmac_key :: "(bytes \<Rightarrow> bytes) \<Rightarrow> nat \<Rightarrow> bytes \<Rightarrow> bytes" where
  "hmac_key hash hashLen key = (if length key > hmac_block hashLen then hash key else key)"

definition hmac_pad :: "u8 \<Rightarrow> nat \<Rightarrow> bytes \<Rightarrow> bytes" where
  "hmac_pad x blockLen key = map (\<lambda>b. b XOR x) (key @ replicate (blockLen - length key) 0)"

definition BRHMAC :: "(bytes \<Rightarrow> bytes) \<Rightarrow> nat \<Rightarrow> bytes \<Rightarrow> bytes \<Rightarrow> bytes" where
  "BRHMAC hash hashLen key data =
     (let blockLen = hmac_block hashLen; k = hmac_key hash hashLen key;
          kipad = hmac_pad 0x36 blockLen k; kopad = hmac_pad 0x5c blockLen k
      in hash (kopad @ hash (kipad @ data)))"

section \<open>The random bit generator\<close>

text \<open>
  \<open>K\<close> and \<open>V\<close> are updated; the output is cut to \<open>outLen\<close> bytes in its last block. A seeding call has
  \<open>Some\<close> seed, nonce and personalization (each may be empty).
\<close>

fun drbg_output :: "(bytes \<Rightarrow> bytes) \<Rightarrow> nat \<Rightarrow> nat \<Rightarrow> nat \<Rightarrow> bytes \<Rightarrow> bytes \<Rightarrow> nat \<Rightarrow> bytes \<times> bytes" where
  "drbg_output hash hashLen outLen i K V 0 = (V, [])"
| "drbg_output hash hashLen outLen i K V (Suc fuel) =
     (if i * hashLen < outLen then
        (let V' = BRHMAC hash hashLen K V;
             (V'', out) = drbg_output hash hashLen outLen (i + 1) K V' fuel
         in (V'', take (if i * hashLen + hashLen \<le> outLen then hashLen else outLen mod hashLen) V' @ out))
      else (V, []))"

definition BRHMACDRBG ::
    "(bytes \<Rightarrow> bytes) \<Rightarrow> nat \<Rightarrow> nat \<Rightarrow> bytes \<Rightarrow> bytes \<Rightarrow> (bytes \<times> bytes \<times> bytes) option \<Rightarrow> bytes \<times> bytes \<times> bytes" where
  "BRHMACDRBG hash hashLen outLen K V entropy =
     (let (K0, V0) = (if entropy \<noteq> None then (replicate hashLen 0, replicate hashLen 1) else (K, V));
          tail = (case entropy of None \<Rightarrow> [] | Some (seed, nonce, ps) \<Rightarrow> seed @ nonce @ ps);
          K1 = BRHMAC hash hashLen K0 (V0 @ [0] @ tail);
          V1 = BRHMAC hash hashLen K1 V0;
          K2 = (if entropy \<noteq> None then BRHMAC hash hashLen K1 (V1 @ [1] @ tail) else K1);
          V2 = (if entropy \<noteq> None then BRHMAC hash hashLen K2 V1 else V1);
          (V3, out) = drbg_output hash hashLen outLen 0 K2 V2 outLen
      in (K2, V3, out))"

section \<open>PBKDF2\<close>

fun pbkdf2_rounds :: "(bytes \<Rightarrow> bytes) \<Rightarrow> nat \<Rightarrow> bytes \<Rightarrow> nat \<Rightarrow> bytes \<Rightarrow> bytes \<Rightarrow> bytes" where
  "pbkdf2_rounds hash hashLen pw 0 U T = T"
| "pbkdf2_rounds hash hashLen pw (Suc n) U T =
     (let U' = BRHMAC hash hashLen pw U in pbkdf2_rounds hash hashLen pw n U' (xor_bytes T U'))"

definition pbkdf2_block :: "(bytes \<Rightarrow> bytes) \<Rightarrow> nat \<Rightarrow> bytes \<Rightarrow> bytes \<Rightarrow> nat \<Rightarrow> nat \<Rightarrow> bytes" where
  "pbkdf2_block hash hashLen pw salt rounds i =
     (let U = BRHMAC hash hashLen pw (salt @ UInt32SetBE (of_nat (i + 1)))
      in pbkdf2_rounds hash hashLen pw (rounds - 1) U U)"

definition BRPBKDF2 :: "nat \<Rightarrow> (bytes \<Rightarrow> bytes) \<Rightarrow> nat \<Rightarrow> bytes \<Rightarrow> bytes \<Rightarrow> nat \<Rightarrow> bytes" where
  "BRPBKDF2 dkLen hash hashLen pw salt rounds =
     concat (map (\<lambda>i. take (if i * hashLen + hashLen \<le> dkLen then hashLen else dkLen mod hashLen)
                       (pbkdf2_block hash hashLen pw salt rounds i))
       [0..<(dkLen + hashLen - 1) div hashLen])"

section \<open>Hashes for tables\<close>

definition fmix32 :: "u32 \<Rightarrow> u32" where
  "fmix32 h =
     (let h1 = (h XOR drop_bit 16 h) * 0x85ebca6b; h2 = (h1 XOR drop_bit 13 h1) * 0xc2b2ae35
      in h2 XOR drop_bit 16 h2)"

definition murmur_C1 :: u32 where "murmur_C1 = 0xcc9e2d51"
definition murmur_C2 :: u32 where "murmur_C2 = 0x1b873593"

definition murmur_step :: "u32 \<Rightarrow> u32 \<Rightarrow> u32" where
  "murmur_step h w =
     (let k = rol32 (w * murmur_C1) 15 * murmur_C2 in rol32 (h XOR k) 13 * 5 + 0xe6546b64)"

definition BRMurmur3_32 :: "bytes \<Rightarrow> u32 \<Rightarrow> u32" where
  "BRMurmur3_32 data seed =
     (let cnt = length data div 4;
          h = foldl (\<lambda>h i. murmur_step h (le32_at data i)) seed [0..<cnt];
          t = drop (cnt * 4) data;
          k = foldr (XOR) (map (\<lambda>j. push_bit (8 * j) (ucast (t ! j))) [0..<length t]) 0;
          h' = (if length t = 0 then h else h XOR (rol32 (k * murmur_C1) 15 * murmur_C2))
      in fmix32 (h' XOR of_nat (length data)))"

definition sipround :: "u64 \<times> u64 \<times> u64 \<times> u64 \<Rightarrow> u64 \<times> u64 \<times> u64 \<times> u64" where
  "sipround = (\<lambda>(a0, b0, c0, d0).
     let a1 = a0 + b0; b1 = rol64 b0 13 XOR a1; a2 = rol64 a1 32;
         c1 = c0 + d0; d1 = rol64 d0 16 XOR c1;
         a3 = a2 + d1; d2 = rol64 d1 21 XOR a3;
         c2 = c1 + b1; b2 = rol64 b1 17 XOR c2; c3 = rol64 c2 32
     in (a3, b2, c3, d2))"

definition sip_block :: "nat \<Rightarrow> u64 \<times> u64 \<times> u64 \<times> u64 \<Rightarrow> u64 \<Rightarrow> u64 \<times> u64 \<times> u64 \<times> u64" where
  "sip_block n = (\<lambda>(a, b, c, d) x. let (a', b', c', d') = (sipround ^^ n) (a, b, c, d XOR x) in (a' XOR x, b', c', d'))"

definition BRSip64 :: "bytes \<Rightarrow> bytes \<Rightarrow> u64" where
  "BRSip64 key16 data =
     (let k0 = UInt64GetLE key16; k1 = UInt64GetLE (drop 8 key16);
          st0 = (0x736f6d6570736575 XOR k0, 0x646f72616e646f6d XOR k1, 0x6c7967656e657261 XOR k0, 0x7465646279746573 XOR k1);
          cnt = length data div 8;
          st1 = foldl (\<lambda>st i. sip_block 2 st (le64_at data i)) st0 [0..<cnt];
          t = drop (cnt * 8) data;
          x = foldr (OR) (map (\<lambda>j. push_bit (8 * j) (ucast (t ! j))) [0..<length t]) (push_bit 56 (of_nat (length data)));
          (a, b, c, d) = sip_block 2 st1 x;
          (a', b', c', d') = (sipround ^^ 4) (a, b, c XOR 0xff, d)
      in a' XOR b' XOR c' XOR d')"

section \<open>Salsa20 and scrypt\<close>

text \<open>A quarter round on the words at four positions.\<close>

definition salsa_quarter :: "u32 list \<Rightarrow> nat \<times> nat \<times> nat \<times> nat \<Rightarrow> u32 list" where
  "salsa_quarter x = (\<lambda>(a, b, c, d).
     let x1 = x[b := x ! b XOR rol32 (x ! a + x ! d) 7];
         x2 = x1[c := x1 ! c XOR rol32 (x1 ! b + x1 ! a) 9];
         x3 = x2[d := x2 ! d XOR rol32 (x2 ! c + x2 ! b) 13]
     in x3[a := x3 ! a XOR rol32 (x3 ! d + x3 ! c) 18])"

definition salsa_double_round :: "u32 list \<Rightarrow> u32 list" where
  "salsa_double_round x =
     foldl salsa_quarter x [(0, 4, 8, 12), (5, 9, 13, 1), (10, 14, 2, 6), (15, 3, 7, 11),
       (0, 1, 2, 3), (5, 6, 7, 4), (10, 11, 8, 9), (15, 12, 13, 14)]"

definition salsa20_8 :: "u32 list \<Rightarrow> u32 list" where
  "salsa20_8 b = map2 (+) b ((salsa_double_round ^^ 4) b)"

text \<open>A block of \<open>r\<close> is a list of \<open>2 * r\<close> pieces of 16 words.\<close>

type_synonym scrypt_block = "u32 list list"

definition xor_words :: "u32 list \<Rightarrow> u32 list \<Rightarrow> u32 list" where
  "xor_words a b = map2 (XOR) a b"

definition blockmix_salsa8 :: "scrypt_block \<Rightarrow> scrypt_block" where
  "blockmix_salsa8 src =
     (let r = length src div 2;
          (b, dest) = foldl (\<lambda>(b, dest) i.
              let b1 = salsa20_8 (xor_words b (src ! (2 * i)));
                  dest1 = dest[i := b1];
                  b2 = salsa20_8 (xor_words b1 (src ! (2 * i + 1)))
              in (b2, dest1[i + r := b2])) (src ! (2 * r - 1), src) [0..<r]
      in dest)"

definition xor_block :: "scrypt_block \<Rightarrow> scrypt_block \<Rightarrow> scrypt_block" where
  "xor_block a b = map2 xor_words a b"

text \<open>\<open>le64(x[(2*r - 1)*8]) & (n - 1)\<close>\<close>

definition scrypt_index :: "nat \<Rightarrow> scrypt_block \<Rightarrow> nat" where
  "scrypt_index n x =
     (let w = x ! (length x - 1); lo = w ! 0; hi = w ! 1
      in unat ((push_bit 32 (ucast hi) OR ucast lo :: u64) AND ucast (of_nat n - 1 :: u32)))"

definition scrypt_fill :: "scrypt_block list \<times> scrypt_block \<Rightarrow> nat \<Rightarrow> scrypt_block list \<times> scrypt_block" where
  "scrypt_fill = (\<lambda>(v, x) j. let y = blockmix_salsa8 x in (v @ [x, y], blockmix_salsa8 y))"

definition scrypt_mix :: "nat \<Rightarrow> scrypt_block list \<Rightarrow> scrypt_block \<Rightarrow> nat \<Rightarrow> scrypt_block" where
  "scrypt_mix n v x j =
     (let y = blockmix_salsa8 (xor_block x (v ! scrypt_index n x))
      in blockmix_salsa8 (xor_block y (v ! scrypt_index n y)))"

definition words_of_bytes :: "bytes \<Rightarrow> u32 list" where
  "words_of_bytes b = map (le32_at b) [0..<length b div 4]"

definition bytes_of_words :: "u32 list \<Rightarrow> bytes" where
  "bytes_of_words ws = concat (map UInt32SetLE ws)"

definition scrypt_lane :: "nat \<Rightarrow> nat \<Rightarrow> bytes \<Rightarrow> bytes" where
  "scrypt_lane n r b =
     (let x0 = chunks 16 (words_of_bytes b);
          (v, x1) = foldl scrypt_fill ([], x0) [0..<(n + 1) div 2];
          x2 = foldl (scrypt_mix n v) x1 [0..<(n + 1) div 2]
      in bytes_of_words (concat x2))"

definition BRScrypt :: "nat \<Rightarrow> bytes \<Rightarrow> bytes \<Rightarrow> nat \<Rightarrow> nat \<Rightarrow> nat \<Rightarrow> bytes" where
  "BRScrypt dkLen pw salt n r p =
     (let b = BRPBKDF2 (128 * r * p) BRSHA256 32 pw salt 1;
          b' = concat (map (\<lambda>i. scrypt_lane n r (take (128 * r) (drop (128 * r * i) b))) [0..<p])
      in BRPBKDF2 dkLen BRSHA256 32 pw b' 1)"

section \<open>What they compute\<close>

lemma xor_bytes_fold_length: "(\<And>u. u \<in> set us \<Longrightarrow> length u = length t) \<Longrightarrow> length (foldl xor_bytes t us) = length t"
  by (induction us arbitrary: t) simp_all

text \<open>PBKDF2 as in RFC 8018: \<open>T i\<close> is the exclusive or of the iterates \<open>U 1, \<dots>, U c\<close>.\<close>

definition pbkdf2_T :: "(bytes \<Rightarrow> bytes) \<Rightarrow> nat \<Rightarrow> bytes \<Rightarrow> bytes \<Rightarrow> nat \<Rightarrow> nat \<Rightarrow> bytes" where
  "pbkdf2_T hash hashLen pw salt rounds i =
     (let prf = BRHMAC hash hashLen pw; U1 = prf (salt @ UInt32SetBE (of_nat i))
      in foldl xor_bytes U1 (map (\<lambda>j. (prf ^^ j) U1) [1..<rounds]))"

lemma pbkdf2_rounds_foldl:
  "pbkdf2_rounds hash hashLen pw n U T = foldl xor_bytes T (map (\<lambda>j. (BRHMAC hash hashLen pw ^^ j) U) [1..<Suc n])"
proof (induction n arbitrary: U T)
  case (Suc n)
  let ?f = "BRHMAC hash hashLen pw"
  have list: "[1..<Suc (Suc n)] = 1 # map Suc [1..<Suc n]"
    by (simp add: upt_conv_Cons map_Suc_upt del: upt_Suc)
  have "pbkdf2_rounds hash hashLen pw (Suc n) U T = foldl xor_bytes (xor_bytes T (?f U)) (map (\<lambda>j. (?f ^^ Suc j) U) [1..<Suc n])"
    by (simp only: pbkdf2_rounds.simps Let_def Suc.IH funpow_Suc_right comp_def)
  also have "\<dots> = foldl xor_bytes T (map (\<lambda>j. (?f ^^ j) U) [1..<Suc (Suc n)])"
    unfolding list by (simp del: upt_Suc add: comp_def)
  finally show ?case .
qed simp

lemma pbkdf2_block_T: "0 < rounds \<Longrightarrow> pbkdf2_block hash hashLen pw salt rounds i = pbkdf2_T hash hashLen pw salt rounds (i + 1)"
  by (simp add: pbkdf2_block_def pbkdf2_T_def pbkdf2_rounds_foldl Let_def del: upt_Suc)

text \<open>Output that is collected block by block is cut in its last block only.\<close>

lemma blocks_cut:
  assumes "0 < h" "\<And>i. length (f i) = h"
  shows "concat (map (\<lambda>i. take (if i * h + h \<le> n then h else n mod h) (f i)) [0..<(n + h - 1) div h])
    = take n (concat (map f [0..<(n + h - 1) div h]))"
proof -
  have full: "concat (map (\<lambda>i. take (if i * h + h \<le> n then h else n mod h) (f i)) [0..<k]) = concat (map f [0..<k]) \<and>
      length (concat (map f [0..<k])) = k * h" if "k * h \<le> n" for k
    using that by (induction k) (auto simp: assms(2) add.commute)
  have "n div h * h \<le> n" by (simp add: div_times_less_eq_dividend)
  note whole = full [OF this]
  show ?thesis
  proof (cases "n mod h = 0")
    case True
    then have "(n + h - 1) div h = n div h"
      using assms(1) by (metis Suc_diff_1 add.commute add_diff_assoc2 diff_less div_less dvd_eq_mod_eq_0 div_plus_div_distrib_dvd_left
          Nat.add_0_right less_one linorder_not_less Nat.add_diff_assoc Suc_leI One_nat_def)
    moreover have "length (concat (map f [0..<n div h])) = n" using whole True by (simp add: mod_0_imp_dvd)
    ultimately show ?thesis using whole by simp
  next
    case False
    let ?k = "n div h"
    have n: "n = ?k * h + n mod h" by simp
    have lt: "n mod h < h" using assms(1) by simp
    obtain m where m: "n mod h = Suc m" using False by (cases "n mod h") auto
    then have "n = ?k * h + Suc m" using n by simp
    then have "n + h - 1 = (?k + 1) * h + m" by simp
    moreover have "m div h = 0" using lt m by simp
    ultimately have "(n + h - 1) div h = Suc ?k" using assms(1) by (metis Suc_eq_plus1 add_0 div_mult_self3 add.commute less_not_refl)
    moreover have "\<not> ?k * h + h \<le> n" using n lt by linarith
    moreover have "take n (concat (map f [0..<?k]) @ f ?k) = concat (map f [0..<?k]) @ take (n mod h) (f ?k)"
      using whole n by (simp add: minus_div_mult_eq_mod)
    ultimately show ?thesis using whole by simp
  qed
qed

lemma length_BRHMAC [simp]: "(\<And>x. length (hash x) = hashLen) \<Longrightarrow> length (BRHMAC hash hashLen key data) = hashLen"
  by (simp add: BRHMAC_def Let_def)

lemma length_pbkdf2_block:
  assumes "\<And>x. length (hash x) = hashLen"
  shows "length (pbkdf2_block hash hashLen pw salt rounds i) = hashLen"
proof -
  have iter: "length ((BRHMAC hash hashLen pw ^^ j) U) = hashLen" if "length U = hashLen" for j U
    using that assms by (cases j) simp_all
  show ?thesis unfolding pbkdf2_block_def Let_def pbkdf2_rounds_foldl
    by (subst xor_bytes_fold_length) (auto simp: iter assms simp del: upt_Suc)
qed

lemma BRPBKDF2_cut:
  assumes "0 < hashLen" "\<And>x. length (hash x) = hashLen"
  shows "BRPBKDF2 dkLen hash hashLen pw salt rounds =
    take dkLen (concat (map (pbkdf2_block hash hashLen pw salt rounds) [0..<(dkLen + hashLen - 1) div hashLen]))"
  unfolding BRPBKDF2_def by (rule blocks_cut [OF assms(1) length_pbkdf2_block [OF assms(2)]])

lemma length_BRPBKDF2:
  assumes "0 < hashLen" "\<And>x. length (hash x) = hashLen"
  shows "length (BRPBKDF2 dkLen hash hashLen pw salt rounds) = dkLen"
proof -
  let ?n = "(dkLen + hashLen - 1) div hashLen" and ?f = "pbkdf2_block hash hashLen pw salt rounds"
  have "length (concat (map ?f [0..<?n])) = hashLen * ?n"
    using length_concat_map [of ?f hashLen "[0..<?n]"] length_pbkdf2_block [OF assms(2)] by simp
  moreover have "dkLen + hashLen - 1 < hashLen * ?n + hashLen"
    using dividend_less_times_div [OF assms(1), of "dkLen + hashLen - 1"] by simp
  then have "dkLen \<le> hashLen * ?n" using assms(1) by linarith
  ultimately show ?thesis unfolding BRPBKDF2_cut [OF assms] by simp
qed

section \<open>Properties\<close>

text \<open>
  C34: PBKDF2. For every hash function with a fixed output length and at least one round, the derived
  key has the requested length and is the beginning of \<open>T 1 || T 2 || \<dots>\<close>, where \<open>T i\<close> is the exclusive
  or of the first \<open>rounds\<close> iterates of the HMAC.
\<close>

theorem pbkdf2_spec:
  assumes "0 < hashLen" "\<And>x. length (hash x) = hashLen" "0 < rounds"
  shows "BRPBKDF2 dkLen hash hashLen pw salt rounds =
      take dkLen (concat (map (pbkdf2_T hash hashLen pw salt rounds) [1..<(dkLen + hashLen - 1) div hashLen + 1])) \<and>
    length (BRPBKDF2 dkLen hash hashLen pw salt rounds) = dkLen"
proof
  let ?n = "(dkLen + hashLen - 1) div hashLen" and ?f = "pbkdf2_block hash hashLen pw salt rounds"
  have "map ?f [0..<?n] = map (pbkdf2_T hash hashLen pw salt rounds) (map Suc [0..<?n])"
    by (simp add: pbkdf2_block_T [OF assms(3)])
  also have "map Suc [0..<?n] = [1..<?n + 1]" by (simp add: map_Suc_upt)
  finally show "BRPBKDF2 dkLen hash hashLen pw salt rounds =
      take dkLen (concat (map (pbkdf2_T hash hashLen pw salt rounds) [1..<?n + 1]))"
    using BRPBKDF2_cut [OF assms(1,2)] by simp
qed (rule length_BRPBKDF2 [OF assms(1,2)])

theorem pbkdf2_spec_witness:
  "BRPBKDF2 40 BRSHA256 32 [1] [2] 2048 = take 40 (concat (map (pbkdf2_T BRSHA256 32 [1] [2] 2048) [1..<3])) \<and>
    length (BRPBKDF2 40 BRSHA256 32 [1] [2] 2048) = 40"
proof -
  have h: "(40 + 32 - 1) div 32 + 1 = (3 :: nat)" by simp
  show ?thesis
    using pbkdf2_spec [of 32 BRSHA256 2048 40 "[1]" "[2]"] unfolding h by (metis length_BRSHA256 zero_less_numeral)
qed

end
