(* ===== verification/Base58.thy ===== *)
theory Base58
  imports Hash
begin

text \<open>
  Base58 and Base58Check of \<open>support/BRBase58.c\<close>. A C string that is read is the list of its bytes
  in front of the terminator; a string that is written ends with the byte 0. \<open>radix_value\<close> is the
  number a big-endian list of digits stands for, and the section on radix conversion shows that the
  two multiply-and-carry loops are multiplications of that number in buffers that never overflow.
\<close>

section \<open>The operations\<close>

text \<open>The characters of \<open>"123456789ABCDEFGHJKLMNPQRSTUVWXYZabcdefghijkmnopqrstuvwxyz"\<close>.\<close>

definition bitcoinAlphabet :: bytes where
  "bitcoinAlphabet = map of_nat ([49..<58] @ [65..<73] @ [74..<79] @ [80..<91] @ [97..<108] @ [109..<123])"

text \<open>
  The inner loop of the encoder, from the last byte of the buffer to the first: the carry out of the
  first byte and the new buffer.
\<close>

fun base58_carry :: "u8 \<Rightarrow> u32 \<times> bytes \<Rightarrow> u32 \<times> bytes" where
  "base58_carry b (carry, out) =
     (let carry' = carry + push_bit 8 (ucast b) in (carry' div 58, ucast (carry' mod 58) # out))"

definition base58_push :: "bytes \<Rightarrow> u8 \<Rightarrow> bytes" where
  "base58_push buf d = snd (foldr base58_carry buf (ucast d, []))"

definition BRBase58EncodeEx :: "bytes option \<Rightarrow> bytes \<Rightarrow> bytes \<Rightarrow> bytes option \<times> nat" where
  "BRBase58EncodeEx str data alphabet =
     (let zcount = length (takeWhile (\<lambda>b. b = 0) data);
          buf0 = replicate ((length data - zcount) * 138 div 100 + 1) 0;
          buf = foldl base58_push buf0 (drop zcount data);
          i = length (takeWhile (\<lambda>b. b = 0) buf);
          len = (zcount + length buf - i) + 1
      in (poke str 0 (replicate zcount (alphabet ! 0) @ map (\<lambda>d. alphabet ! unat d) (drop i buf) @ [0]),
          if room str len then len else 0))"

definition BRBase58Encode :: "bytes option \<Rightarrow> bytes \<Rightarrow> bytes option \<times> nat" where
  "BRBase58Encode str data = BRBase58EncodeEx str data bitcoinAlphabet"

text \<open>The \<open>switch\<close> of the decoder; \<open>UINT32_MAX\<close> is not a digit.\<close>

definition base58_digit :: "u8 \<Rightarrow> u32" where
  "base58_digit c =
     (if 0x31 \<le> c \<and> c \<le> 0x39 then ucast c - 0x31
      else if 0x41 \<le> c \<and> c \<le> 0x48 then ucast c + (9 - 0x41)
      else if 0x4a \<le> c \<and> c \<le> 0x4e then ucast c + (17 - 0x4a)
      else if 0x50 \<le> c \<and> c \<le> 0x5a then ucast c + (22 - 0x50)
      else if 0x61 \<le> c \<and> c \<le> 0x6b then ucast c + (33 - 0x61)
      else if 0x6d \<le> c \<and> c \<le> 0x7a then ucast c + (44 - 0x6d)
      else - 1)"

fun base256_carry :: "u8 \<Rightarrow> u32 \<times> bytes \<Rightarrow> u32 \<times> bytes" where
  "base256_carry b (carry, out) =
     (let carry' = carry + ucast b * 58 in (drop_bit 8 carry', ucast (carry' AND 0xff) # out))"

definition base256_push :: "bytes \<Rightarrow> u32 \<Rightarrow> bytes" where
  "base256_push buf d = snd (foldr base256_carry buf (d, []))"

fun base58_decode_loop :: "bytes \<Rightarrow> bytes \<Rightarrow> bytes" where
  "base58_decode_loop buf [] = buf"
| "base58_decode_loop buf (c # str) =
     (let carry = base58_digit c
      in if carry \<ge> 58 then buf else base58_decode_loop (base256_push buf carry) str)"

definition BRBase58Decode :: "bytes option \<Rightarrow> bytes \<Rightarrow> bytes option \<times> nat" where
  "BRBase58Decode data str =
     (let zcount = length (takeWhile (\<lambda>c. c = 0x31) str);
          rest = drop zcount str;
          buf = base58_decode_loop (replicate (length rest * 733 div 1000 + 1) 0) rest;
          i = length (takeWhile (\<lambda>b. b = 0) buf);
          len = zcount + length buf - i
      in (poke data 0 (replicate zcount 0 @ drop i buf), if room data len then len else 0))"

text \<open>The checksum is the first four bytes of the double SHA-256.\<close>

definition BRBase58CheckEncode :: "bytes option \<Rightarrow> bytes \<Rightarrow> bytes option \<times> nat" where
  "BRBase58CheckEncode str data = BRBase58Encode str (take (length data + 4) (data @ BRSHA256_2 data))"

definition BRBase58CheckDecode :: "bytes option \<Rightarrow> bytes \<Rightarrow> bytes option \<times> nat" where
  "BRBase58CheckDecode data str =
     (let (b, len0) = BRBase58Decode (Some (replicate (length str) 0)) str;
          buf = (case b of Some m \<Rightarrow> m | None \<Rightarrow> []);
          len = (if len0 \<ge> 4
                 then (let n = len0 - 4 in if take 4 (drop n buf) \<noteq> take 4 (BRSHA256_2 (take n buf)) then 0 else n)
                 else 0)
      in (if len0 \<ge> 4 then poke data 0 (take len buf) else data, if room data len then len else 0))"

text \<open>
  \<open>BRBase58DecodeEx\<close> takes any alphabet. The skip over the leading zeroes of \<open>buf\<close> has no bound:
  \<open>None\<close> is the read behind the buffer when all of it is zero. A character of the alphabet that
  occurs twice counts as its last occurrence.
\<close>

definition reverse_lookup :: "bytes \<Rightarrow> u8 \<Rightarrow> nat option" where
  "reverse_lookup alphabet c = map_of (rev (zip alphabet [0..<length alphabet])) c"

definition base256_push_ex :: "bytes \<Rightarrow> nat \<Rightarrow> bytes" where
  "base256_push_ex buf d =
     snd (foldr (\<lambda>b (carry, out).
            let carry' = carry + 58 * unat b in (carry' div 256, of_nat (carry' mod 256) # out)) buf (d, []))"

fun decode_ex_loop :: "bytes \<Rightarrow> bytes \<Rightarrow> bytes \<Rightarrow> bytes option" where
  "decode_ex_loop alphabet buf [] = Some buf"
| "decode_ex_loop alphabet buf (c # str) =
     (case reverse_lookup alphabet c of
        None \<Rightarrow> None
      | Some d \<Rightarrow> decode_ex_loop alphabet (base256_push_ex buf d) str)"

definition BRBase58DecodeEx :: "bytes option \<Rightarrow> bytes \<Rightarrow> bytes \<Rightarrow> (bytes option \<times> nat) option" where
  "BRBase58DecodeEx data str alphabet =
     (let zcount = length (takeWhile (\<lambda>c. reverse_lookup alphabet c = Some 0) str);
          rest = drop zcount str
      in case decode_ex_loop alphabet (replicate (length rest * 733 div 1000 + 1) 0) rest of
           None \<Rightarrow> Some (data, 0)
         | Some buf \<Rightarrow>
             if \<forall>b \<in> set buf. b = 0 then None
             else let i = length (takeWhile (\<lambda>b. b = 0) buf); len = zcount + length buf - i
                  in Some (poke data 0 (replicate zcount 0 @ drop i buf), if room data len then len else 0))"

section \<open>Radix conversion\<close>

definition radix_value :: "nat \<Rightarrow> nat list \<Rightarrow> nat" where
  "radix_value r ds = foldl (\<lambda>v d. v * r + d) 0 ds"

lemma foldl_radix: "foldl (\<lambda>v d. v * r + d) v ds = v * r ^ length ds + radix_value r ds"
proof (induction ds arbitrary: v)
  case Nil then show ?case by (simp add: radix_value_def)
next
  case (Cons d ds)
  have "foldl (\<lambda>v d. v * r + d) v (d # ds) = (v * r + d) * r ^ length ds + radix_value r ds"
    by (simp add: Cons.IH)
  moreover have "radix_value r (d # ds) = d * r ^ length ds + radix_value r ds"
    using Cons.IH [of d] by (simp add: radix_value_def)
  ultimately show ?case by (simp add: algebra_simps)
qed

lemma radix_value_simps [simp]:
  "radix_value r [] = 0" "radix_value r (d # ds) = d * r ^ length ds + radix_value r ds"
  using foldl_radix [of r d ds] by (simp_all add: radix_value_def)

lemma radix_value_append: "radix_value r (xs @ ys) = radix_value r xs * r ^ length ys + radix_value r ys"
  using foldl_radix [of r "radix_value r xs" ys] by (simp add: radix_value_def)

lemma radix_value_replicate [simp]: "radix_value r (replicate n 0) = 0"
  by (induction n) auto

lemma radix_value_less: "(\<And>d. d \<in> set ds \<Longrightarrow> d < r) \<Longrightarrow> radix_value r ds < r ^ length ds"
proof (induction ds)
  case (Cons d ds)
  have "d < r" by (rule Cons.prems) simp
  then have "d + 1 \<le> r" by simp
  then have "(d + 1) * r ^ length ds \<le> r * r ^ length ds" by (rule mult_right_mono) simp
  moreover have "radix_value r ds < r ^ length ds" using Cons by simp
  ultimately show ?case by simp
qed simp

text \<open>A number has one representation of each length.\<close>

lemma radix_value_inj:
  assumes "length xs = length ys" "\<And>d. d \<in> set xs \<union> set ys \<Longrightarrow> d < r" "radix_value r xs = radix_value r ys"
  shows "xs = ys"
  using assms
proof (induction xs ys rule: list_induct2)
  case (Cons x xs y ys)
  then have lt: "radix_value r xs < r ^ length xs" "radix_value r ys < r ^ length xs"
    using radix_value_less [of xs r] radix_value_less [of ys r] Cons.hyps Cons.prems(1) by simp_all
  have eq: "x * r ^ length xs + radix_value r xs = y * r ^ length xs + radix_value r ys"
    using Cons by simp
  have "r ^ length xs \<noteq> 0" using lt(1) by linarith
  then have "(x * r ^ length xs + radix_value r xs) div r ^ length xs = x"
    "(y * r ^ length xs + radix_value r ys) div r ^ length xs = y" using lt by simp_all
  then have "x = y" using eq by metis
  with Cons eq show ?case by simp
qed simp

text \<open>
  Both inner loops multiply the number in the buffer by \<open>mul\<close> and add the incoming carry; what does
  not fit into the buffer is the carry that falls off in front.
\<close>

definition radix_push :: "nat \<Rightarrow> nat \<Rightarrow> nat list \<Rightarrow> nat \<Rightarrow> nat \<times> nat list" where
  "radix_push r mul ds c =
     foldr (\<lambda>d (carry, out). ((carry + d * mul) div r, (carry + d * mul) mod r # out)) ds (c, [])"

lemma radix_push_value:
  assumes "0 < r"
  shows "length (snd (radix_push r mul ds c)) = length ds \<and> (\<forall>d \<in> set (snd (radix_push r mul ds c)). d < r) \<and>
    fst (radix_push r mul ds c) * r ^ length ds + radix_value r (snd (radix_push r mul ds c)) = mul * radix_value r ds + c"
proof (induction ds)
  case (Cons d ds)
  define q where "q = fst (radix_push r mul ds c) + d * mul"
  let ?out = "snd (radix_push r mul ds c)"
  have p: "radix_push r mul (d # ds) c = (q div r, q mod r # ?out)"
    by (simp add: radix_push_def q_def split: prod.split)
  have "q div r * r ^ length (d # ds) + q mod r * r ^ length ds = (q div r * r + q mod r) * r ^ length ds"
    by (simp only: distrib_right power_Suc length_Cons mult.assoc)
  also have "\<dots> = q * r ^ length ds" by simp
  also have "\<dots> + radix_value r ?out = mul * radix_value r (d # ds) + c"
    using Cons by (simp add: q_def algebra_simps)
  finally have "q div r * r ^ length (d # ds) + q mod r * r ^ length ds + radix_value r ?out = mul * radix_value r (d # ds) + c"
    by simp
  then show ?case using Cons assms by (simp add: p add.assoc)
qed (use assms in \<open>simp add: radix_push_def\<close>)

lemma radix_push_fits:
  assumes "0 < r" "mul * radix_value r ds + c < r ^ length ds"
  shows "radix_value r (snd (radix_push r mul ds c)) = mul * radix_value r ds + c"
proof -
  have "fst (radix_push r mul ds c) * r ^ length ds < r ^ length ds"
    using radix_push_value [OF assms(1), of mul ds c] assms(2) by linarith
  then have "fst (radix_push r mul ds c) = 0" by simp
  then show ?thesis using radix_push_value [OF assms(1), of mul ds c] by simp
qed

lemma radix_push_carry:
  assumes "0 < r" "\<And>d. d \<in> set ds \<Longrightarrow> d < r" "c < mul"
  shows "fst (radix_push r mul ds c) < mul"
proof -
  let ?N = "r ^ length ds"
  have "fst (radix_push r mul ds c) * ?N \<le> mul * radix_value r ds + c"
    using radix_push_value [OF assms(1), of mul ds c] by linarith
  also have "\<dots> < mul * (radix_value r ds + 1)" using assms(3) by simp
  also have "\<dots> \<le> mul * ?N" using radix_value_less [of ds r] assms(2) by (intro mult_left_mono) auto
  finally show ?thesis by simp
qed

text \<open>The loops on words compute these numbers: no intermediate value exceeds 32 bits.\<close>

lemma unat_small_u32: "unat x + unat y * m < 2 ^ 32 \<Longrightarrow> unat ((x :: u32) + y * of_nat m) = unat x + unat y * m"
proof -
  assume *: "unat x + unat y * m < 2 ^ 32"
  have "x + y * of_nat m = of_nat (unat x + unat y * m)" by simp
  then show ?thesis using unat_of_nat_small [of "unat x + unat y * m", where 'a = 32] * by simp
qed

lemma base58_push_value:
  assumes "\<And>b. b \<in> set buf \<Longrightarrow> unat b < 58"
  shows "map unat (base58_push buf d) = snd (radix_push 58 256 (map unat buf) (unat d))"
proof -
  let ?F = "foldr base58_carry"
  have "unat (fst (?F buf (ucast d, []))) = fst (radix_push 58 256 (map unat buf) (unat d)) \<and>
      map unat (snd (?F buf (ucast d, []))) = snd (radix_push 58 256 (map unat buf) (unat d))"
    using assms
  proof (induction buf)
    case Nil then show ?case by (simp add: radix_push_def)
  next
    case (Cons b bs)
    let ?R = "radix_push 58 256 (map unat bs) (unat d)"
    obtain carry out where F: "?F bs (ucast d, []) = (carry, out)" by (rule prod.exhaust)
    have IH: "unat carry = fst ?R" "map unat out = snd ?R" using Cons F by auto
    have "fst ?R < 256" using Cons.prems by (intro radix_push_carry unat_u8_less) auto
    then have le: "unat carry + unat (ucast b :: u32) * 256 < 2 ^ 32" using IH Cons.prems [of b] by simp
    have "push_bit 8 (ucast b :: u32) = ucast b * of_nat 256" by (simp add: push_bit_eq_mult)
    then have v: "unat (carry + push_bit 8 (ucast b)) = unat carry + unat b * 256"
      using unat_small_u32 [OF le] by simp
    have R: "radix_push 58 256 (map unat (b # bs)) (unat d)
        = ((fst ?R + unat b * 256) div 58, (fst ?R + unat b * 256) mod 58 # snd ?R)"
      by (simp add: radix_push_def split: prod.split)
    have "unat (ucast ((carry + push_bit 8 (ucast b)) mod 58) :: u8) = (unat carry + unat b * 256) mod 58"
      by (simp add: unsigned_ucast_eq unat_mod v take_bit_nat_eq_self order_less_trans [OF mod_less_divisor])
    then show ?case unfolding R by (simp add: F IH unat_div v Let_def)
  qed
  then show ?thesis by (simp add: base58_push_def)
qed

lemma base256_push_value:
  assumes "d < 58"
  shows "map unat (base256_push buf d) = snd (radix_push 256 58 (map unat buf) (unat d))"
proof -
  let ?F = "foldr base256_carry"
  have "unat (fst (?F buf (d, []))) = fst (radix_push 256 58 (map unat buf) (unat d)) \<and>
      map unat (snd (?F buf (d, []))) = snd (radix_push 256 58 (map unat buf) (unat d))"
  proof (induction buf)
    case Nil then show ?case by (simp add: radix_push_def)
  next
    case (Cons b bs)
    let ?R = "radix_push 256 58 (map unat bs) (unat d)"
    obtain carry out where F: "?F bs (d, []) = (carry, out)" by (rule prod.exhaust)
    have IH: "unat carry = fst ?R" "map unat out = snd ?R" using Cons F by auto
    have "unat d < 58" using assms by (simp add: word_less_nat_alt)
    then have "fst ?R < 58" by (intro radix_push_carry) (auto simp: unat_u8_less)
    then have le: "unat carry + unat (ucast b :: u32) * 58 < 2 ^ 32" using IH unat_u8_less [of b] by simp
    have v: "unat (carry + ucast b * 58) = unat carry + unat b * 58"
      using unat_small_u32 [OF le] by simp
    have R: "radix_push 256 58 (map unat (b # bs)) (unat d)
        = ((fst ?R + unat b * 58) div 256, (fst ?R + unat b * 58) mod 256 # snd ?R)"
      by (simp add: radix_push_def split: prod.split)
    have "unat (ucast ((carry + ucast b * 58) AND 0xff) :: u8) = (unat carry + unat b * 58) mod 256"
      by (simp add: and_ff unsigned_ucast_eq v take_bit_eq_mod unat_mod)
    moreover have "unat (drop_bit 8 (carry + ucast b * 58)) = (unat carry + unat b * 58) div 256"
      by (simp add: unat_drop_bit_eq v drop_bit_eq_div unat_div)
    ultimately show ?case unfolding R by (simp add: F IH Let_def)
  qed
  then show ?thesis by (simp add: base256_push_def)
qed

lemma length_base58_carry [simp]: "length (snd (base58_carry b p)) = Suc (length (snd p))"
  by (cases p) (simp add: Let_def)

lemma length_base58_push [simp]: "length (base58_push buf d) = length buf"
proof -
  have "length (snd (foldr base58_carry buf p)) = length buf + length (snd p)" for p
    by (induction buf) simp_all
  then show ?thesis by (simp add: base58_push_def)
qed

lemma length_base256_carry [simp]: "length (snd (base256_carry b p)) = Suc (length (snd p))"
  by (cases p) (simp add: Let_def)

lemma length_base256_push [simp]: "length (base256_push buf d) = length buf"
proof -
  have "length (snd (foldr base256_carry buf p)) = length buf + length (snd p)" for p
    by (induction buf) simp_all
  then show ?thesis by (simp add: base256_push_def)
qed

abbreviation value256 :: "bytes \<Rightarrow> nat" where "value256 b \<equiv> radix_value 256 (map unat b)"
abbreviation value58 :: "bytes \<Rightarrow> nat" where "value58 b \<equiv> radix_value 58 (map unat b)"

definition digits58 :: "bytes \<Rightarrow> bool" where
  "digits58 b \<longleftrightarrow> (\<forall>d \<in> set b. unat d < 58)"

lemma base58_push_fits:
  assumes "digits58 buf" "256 * value58 buf + unat d < 58 ^ length buf"
  shows "digits58 (base58_push buf d) \<and> value58 (base58_push buf d) = 256 * value58 buf + unat d"
proof -
  have v: "map unat (base58_push buf d) = snd (radix_push 58 256 (map unat buf) (unat d))"
    using assms(1) by (intro base58_push_value) (simp add: digits58_def)
  have "\<forall>x \<in> unat ` set (base58_push buf d). x < 58"
    using radix_push_value [of 58 256 "map unat buf" "unat d"] unfolding v [symmetric] by simp
  moreover have "value58 (base58_push buf d) = 256 * value58 buf + unat d"
    unfolding v by (rule radix_push_fits) (use assms(2) in simp_all)
  ultimately show ?thesis by (simp add: digits58_def)
qed

lemma base58_foldl:
  assumes "digits58 buf" "value58 buf * 256 ^ length ds + value256 ds < 58 ^ length buf"
  shows "digits58 (foldl base58_push buf ds) \<and> length (foldl base58_push buf ds) = length buf \<and>
    value58 (foldl base58_push buf ds) = value58 buf * 256 ^ length ds + value256 ds"
  using assms
proof (induction ds arbitrary: buf)
  case (Cons d ds)
  have eq: "value58 buf * 256 ^ length (d # ds) + value256 (d # ds)
      = (256 * value58 buf + unat d) * 256 ^ length ds + value256 ds"
    by (simp add: algebra_simps)
  have "256 * value58 buf + unat d \<le> (256 * value58 buf + unat d) * 256 ^ length ds" by simp
  also have "\<dots> < 58 ^ length buf" using Cons.prems(2) unfolding eq by linarith
  finally have "256 * value58 buf + unat d < 58 ^ length buf" .
  note push = base58_push_fits [OF Cons.prems(1) this]
  then have "value58 (base58_push buf d) * 256 ^ length ds + value256 ds < 58 ^ length (base58_push buf d)"
    using Cons.prems(2) unfolding eq by simp
  then show ?case using Cons.IH [of "base58_push buf d"] push by (simp only: foldl.simps eq length_base58_push)
qed simp

lemma base256_foldl:
  assumes "\<And>c. c \<in> set cs \<Longrightarrow> c < (58 :: u32)" "value256 buf * 58 ^ length cs + radix_value 58 (map unat cs) < 256 ^ length buf"
  shows "length (foldl base256_push buf cs) = length buf \<and>
    value256 (foldl base256_push buf cs) = value256 buf * 58 ^ length cs + radix_value 58 (map unat cs)"
  using assms
proof (induction cs arbitrary: buf)
  case (Cons c cs)
  have eq: "value256 buf * 58 ^ length (c # cs) + radix_value 58 (map unat (c # cs))
      = (58 * value256 buf + unat c) * 58 ^ length cs + radix_value 58 (map unat cs)"
    by (simp add: algebra_simps)
  have "58 * value256 buf + unat c \<le> (58 * value256 buf + unat c) * 58 ^ length cs" by simp
  also have "\<dots> < 256 ^ length buf" using Cons.prems(2) unfolding eq by linarith
  finally have fits: "58 * value256 buf + unat c < 256 ^ length buf" .
  have push: "value256 (base256_push buf c) = 58 * value256 buf + unat c"
    unfolding base256_push_value [OF Cons.prems(1) [OF list.set_intros(1)]]
    by (rule radix_push_fits) (use fits in simp_all)
  then have "value256 (base256_push buf c) * 58 ^ length cs + radix_value 58 (map unat cs) < 256 ^ length (base256_push buf c)"
    using Cons.prems(2) unfolding eq by simp
  then show ?case using Cons.IH [of "base256_push buf c"] Cons.prems(1) push
    by (simp only: foldl.simps eq length_base256_push list.set_intros simp_thms)
qed simp

text \<open>The sizes of the buffers: 138/100 digits per byte and 733/1000 bytes per digit are enough.\<close>

lemma power_scaled:
  assumes "(b :: nat) ^ q' \<le> a ^ p'" "p' * q \<le> p * q'" "1 < a" "0 < q" "0 < q'"
  shows "b ^ n < a ^ (n * p div q + 1)"
proof -
  define k where "k = n * p div q + 1"
  have "n * p < q * k" using assms(4) by (simp add: k_def dividend_less_times_div)
  then have lt: "n * p * q' < q * k * q'" using assms(5) by simp
  have "q * (n * p') = n * (p' * q)" by (simp only: ac_simps)
  also have "\<dots> \<le> n * (p * q')" using assms(2) by (rule mult_le_mono2)
  also have "\<dots> < q * k * q'" using lt by (simp only: mult.assoc)
  finally have "n * p' < k * q'" by (simp only: mult.assoc mult_less_cancel1)
  then have "a ^ (n * p') < a ^ (k * q')" using assms(3) by simp
  moreover have "(b ^ n) ^ q' \<le> a ^ (n * p')"
    using power_mono [OF assms(1), of n] by (simp flip: power_mult add: mult.commute)
  ultimately have "(b ^ n) ^ q' < (a ^ k) ^ q'" by (simp flip: power_mult)
  then show ?thesis unfolding k_def by (rule power_less_imp_less_base) simp
qed

lemma base58_room: "256 ^ n < (58 :: nat) ^ (n * 138 div 100 + 1)"
  by (rule power_scaled [where q' = 8 and p' = 11]) simp_all

lemma base256_room: "58 ^ n < (256 :: nat) ^ (n * 733 div 1000 + 1)"
  by (rule power_scaled [where q' = 71 and p' = 52]) simp_all

text \<open>A number has one representation without a leading zero.\<close>

lemma minimal_digits:
  assumes "\<And>d. d \<in> set xs \<union> set ys \<Longrightarrow> d < r" "xs = [] \<or> hd xs \<noteq> 0" "ys = [] \<or> hd ys \<noteq> 0"
    and "radix_value r xs = radix_value r ys"
  shows "xs = ys"
proof -
  have ge: "r ^ (length zs - 1) \<le> radix_value r zs" if "zs \<noteq> []" "hd zs \<noteq> 0" for zs
  proof (cases zs)
    case (Cons z zs')
    with that have "1 * r ^ length zs' \<le> z * r ^ length zs'" by (intro mult_right_mono) auto
    then have "r ^ length zs' \<le> z * r ^ length zs' + radix_value r zs'" by (simp only: mult_1 trans_le_add1)
    then show ?thesis using Cons by simp
  qed (use that in simp)
  have le: "length as \<le> length bs"
    if "\<And>d. d \<in> set as \<union> set bs \<Longrightarrow> d < r" "as = [] \<or> hd as \<noteq> 0" "radix_value r as = radix_value r bs" for as bs
  proof (rule ccontr)
    assume "\<not> length as \<le> length bs"
    then have as: "as \<noteq> []" "length bs \<le> length as - 1" by auto
    then have "0 < r" using that(1) [of "hd as"] by simp
    then have "r ^ length bs \<le> r ^ (length as - 1)" using as(2) by (intro power_increasing) auto
    also have "\<dots> \<le> radix_value r bs" using ge [of as] as that by simp
    also have "\<dots> < r ^ length bs" using that(1) by (intro radix_value_less) simp
    finally show False by simp
  qed
  have "length xs = length ys" using le [of xs ys] le [of ys xs] assms by (simp add: le_antisym Un_commute)
  then show ?thesis using assms(1,4) by (rule radix_value_inj)
qed

section \<open>The encoding\<close>

text \<open>
  The text of a byte string: a \<open>1\<close> for each leading zero byte, then the digits of the number.
\<close>

definition leading :: "'a \<Rightarrow> 'a list \<Rightarrow> nat" where
  "leading z xs = length (takeWhile (\<lambda>x. x = z) xs)"

lemma leading_split: "xs = replicate (leading z xs) z @ drop (leading z xs) xs"
proof -
  have "takeWhile (\<lambda>x. x = z) xs = replicate (leading z xs) z"
    unfolding leading_def by (rule replicate_eqI) (auto dest: set_takeWhileD)
  then show ?thesis by (metis dropWhile_eq_drop leading_def takeWhile_dropWhile_id)
qed

lemma leading_le: "leading z xs \<le> length xs"
  unfolding leading_def by (rule length_takeWhile_le)

lemma hd_after_leading: "drop (leading z xs) xs = [] \<or> hd (drop (leading z xs) xs) \<noteq> z"
  unfolding leading_def dropWhile_eq_drop [symmetric]
  by (metis (mono_tags) hd_dropWhile)

lemma leading_replicate: "ys = [] \<or> hd ys \<noteq> z \<Longrightarrow> leading z (replicate n z @ ys) = n"
  by (cases ys) (auto simp: leading_def takeWhile_append1 takeWhile_append)

definition base58_digits :: "bytes \<Rightarrow> bytes" where
  "base58_digits data =
     (let rest = drop (leading 0 data) data;
          buf = foldl base58_push (replicate (length rest * 138 div 100 + 1) 0) rest
      in drop (leading 0 buf) buf)"

definition base58_text :: "bytes \<Rightarrow> bytes" where
  "base58_text data = map (\<lambda>d. bitcoinAlphabet ! unat d) (replicate (leading 0 data) 0 @ base58_digits data)"

lemma digits58_less: "digits58 b \<Longrightarrow> value58 b < 58 ^ length b"
  using radix_value_less [of "map unat b" 58] by (auto simp: digits58_def)

lemma value256_less: "value256 b < 256 ^ length b"
proof -
  have "value256 b < 256 ^ length (map unat b)" by (rule radix_value_less) (auto simp: unat_u8_less)
  then show ?thesis by simp
qed

lemma value_after_leading: "radix_value r (map unat (drop (leading 0 b) b)) = radix_value r (map unat (b :: bytes))"
  by (subst (2) leading_split [of b 0]) (simp add: radix_value_append)

lemma base58_digits_props:
  "digits58 (base58_digits data)" "value58 (base58_digits data) = value256 data"
  "base58_digits data = [] \<or> hd (base58_digits data) \<noteq> 0"
proof -
  let ?rest = "drop (leading 0 data) data"
  let ?zeros = "replicate (length ?rest * 138 div 100 + 1) 0 :: bytes"
  let ?buf = "foldl base58_push ?zeros ?rest"
  have d: "base58_digits data = drop (leading 0 ?buf) ?buf" by (simp add: base58_digits_def Let_def)
  have "value256 ?rest < 256 ^ length ?rest" by (rule value256_less)
  also have "\<dots> < 58 ^ length ?zeros" using base58_room [of "length ?rest"] by simp
  finally have "value256 ?rest < 58 ^ length ?zeros" .
  then have f: "digits58 ?buf \<and> length ?buf = length ?zeros \<and>
      value58 ?buf = value58 ?zeros * 256 ^ length ?rest + value256 ?rest"
    using base58_foldl [of ?zeros ?rest] by (simp add: digits58_def)
  then show "digits58 (base58_digits data)" unfolding d digits58_def by (meson in_set_dropD)
  have "value58 ?zeros = 0" by simp
  then have "value58 ?buf = value256 ?rest" using f by (metis add_0 mult_0)
  then show "value58 (base58_digits data) = value256 data"
    unfolding d by (simp only: value_after_leading)
  show "base58_digits data = [] \<or> hd (base58_digits data) \<noteq> 0" unfolding d by (rule hd_after_leading)
qed

lemma length_base58_text_le: "length (base58_text data) \<le> 2 * length data + 1"
proof -
  let ?n = "length (drop (leading 0 data) data)"
  let ?buf = "foldl base58_push (replicate (?n * 138 div 100 + 1) 0) (drop (leading 0 data) data)"
  have len: "length (foldl base58_push buf ds) = length buf" for buf ds
    by (induction ds arbitrary: buf) simp_all
  have "length (base58_digits data) \<le> length ?buf" by (simp add: base58_digits_def Let_def)
  then have "length (base58_digits data) \<le> ?n * 138 div 100 + 1" by (simp only: len length_replicate)
  moreover have "?n * 138 div 100 \<le> 2 * ?n" by linarith
  ultimately show ?thesis using leading_le [of 0 data] by (simp add: base58_text_def)
qed

lemma BRBase58Encode_text:
  "BRBase58Encode str data = (poke str 0 (base58_text data @ [0]),
     if room str (length (base58_text data) + 1) then length (base58_text data) + 1 else 0)"
  by (simp add: BRBase58Encode_def BRBase58EncodeEx_def base58_text_def base58_digits_def Let_def leading_le
      flip: leading_def)

interpretation base58: buffer_writer "\<lambda>str. BRBase58Encode str data" "base58_text data @ [0]" for data
  unfolding BRBase58Encode_text using poke_writer [of "base58_text data @ [0]"]
  by (simp only: length_append_singleton Suc_eq_plus1)

text \<open>Every character of the alphabet is read as its position.\<close>

lemma length_alphabet: "length bitcoinAlphabet = 58"
  by (simp add: bitcoinAlphabet_def)

lemma base58_digit_alphabet: "unat d < 58 \<Longrightarrow> base58_digit (bitcoinAlphabet ! unat d) = ucast d"
proof -
  assume d: "unat d < 58"
  have all: "\<forall>n \<in> set [0..<58]. base58_digit (bitcoinAlphabet ! n) = of_nat n"
    by code_simp
  have "of_nat (unat d) = (ucast d :: u32)" by simp
  with d all show ?thesis by simp
qed

lemma alphabet_not_1: "unat d < 58 \<Longrightarrow> d \<noteq> 0 \<Longrightarrow> bitcoinAlphabet ! unat d \<noteq> 0x31"
proof -
  assume d: "unat d < 58" "d \<noteq> 0"
  have all: "\<forall>n \<in> set [1..<58]. bitcoinAlphabet ! n \<noteq> 0x31" by code_simp
  have "0 < unat d" using d(2) by (simp add: unat_gt_0)
  with d(1) have "unat d \<in> set [1..<58]" by simp
  with all show ?thesis by blast
qed

lemma base58_decode_loop_digits:
  "digits58 ds \<Longrightarrow> base58_decode_loop buf (map (\<lambda>d. bitcoinAlphabet ! unat d) ds) = foldl base256_push buf (map ucast ds)"
proof (induction ds arbitrary: buf)
  case (Cons d ds)
  then have d: "unat d < 58" by (simp add: digits58_def)
  then have "\<not> 58 \<le> (ucast d :: u32)" by (simp add: word_le_nat_alt)
  then show ?case using Cons d by (simp add: base58_digit_alphabet digits58_def Let_def)
qed simp

lemma text_rest: "drop (leading 0 data) (base58_text data) = map (\<lambda>d. bitcoinAlphabet ! unat d) (base58_digits data)"
  by (simp add: base58_text_def)

lemma text_leading: "leading 0x31 (base58_text data) = leading 0 data"
proof -
  let ?chr = "\<lambda>d. bitcoinAlphabet ! unat d"
  have chr0: "bitcoinAlphabet ! 0 = 0x31" by code_simp
  have "map ?chr (base58_digits data) = [] \<or> hd (map ?chr (base58_digits data)) \<noteq> 0x31"
    using base58_digits_props(1,3) [of data] alphabet_not_1 by (cases "base58_digits data") (auto simp: digits58_def)
  then show ?thesis by (simp add: base58_text_def chr0 leading_replicate)
qed

text \<open>The buffer of the decoder at the end, without its leading zeroes.\<close>

definition decoded_buf :: "bytes \<Rightarrow> bytes" where
  "decoded_buf rest = base58_decode_loop (replicate (length rest * 733 div 1000 + 1) 0) rest"

lemma decoded_buf_text:
  "drop (leading 0 (decoded_buf (drop (leading 0 data) (base58_text data)))) (decoded_buf (drop (leading 0 data) (base58_text data)))
    = drop (leading 0 data) data"
proof -
  let ?ds = "base58_digits data" and ?z = "leading 0 data"
  let ?zeros = "replicate (length ?ds * 733 div 1000 + 1) 0 :: bytes"
  note props = base58_digits_props [of data]
  have u: "map unat (map ucast ?ds :: u32 list) = map unat ?ds" by simp
  have lt: "radix_value 58 (map unat (map ucast ?ds :: u32 list)) < 256 ^ length ?zeros"
    unfolding u using digits58_less [OF props(1)] base256_room [of "length ?ds"]
    by (simp only: length_replicate order_less_trans)
  define b where "b = foldl base256_push ?zeros (map ucast ?ds)"
  have "value256 b = value256 ?zeros * 58 ^ length (map ucast ?ds :: u32 list) + radix_value 58 (map unat (map ucast ?ds :: u32 list))"
    unfolding b_def using props(1) lt
    by (intro base256_foldl [THEN conjunct2]) (auto simp: digits58_def word_less_nat_alt)
  then have v: "value256 b = value256 data" using props(2) by (simp add: comp_def)
  have "map unat (drop (leading 0 b) b) = map unat (drop ?z data)"
  proof (rule minimal_digits)
    show "radix_value 256 (map unat (drop (leading 0 b) b)) = radix_value 256 (map unat (drop ?z data))"
      by (simp only: value_after_leading v)
    show "map unat (drop (leading 0 b) b) = [] \<or> hd (map unat (drop (leading 0 b) b)) \<noteq> 0"
      using hd_after_leading [of 0 b] by (metis hd_map list.map_disc_iff unat_eq_zero)
    show "map unat (drop ?z data) = [] \<or> hd (map unat (drop ?z data)) \<noteq> 0"
      using hd_after_leading [of 0 data] by (metis hd_map list.map_disc_iff unat_eq_zero)
  qed (auto simp: unat_u8_less)
  then have "drop (leading 0 b) b = drop ?z data"
    by (rule map_injective) (auto intro!: injI simp: word_unat_eq_iff)
  then show ?thesis
    by (simp add: text_rest decoded_buf_def b_def base58_decode_loop_digits [OF props(1)])
qed

lemma leading_append_data: "replicate (leading 0 data) 0 @ drop (leading 0 data) data = (data :: bytes)"
  by (rule leading_split [symmetric])

lemma decoded_buf_length:
  assumes "drop (leading 0 b) b = drop (leading 0 data) data"
  shows "leading 0 data + length b - leading 0 b = length data"
  using arg_cong [OF assms, of length] leading_le [of 0 data] leading_le [of 0 b] by simp

lemma BRBase58Decode_text:
  "BRBase58Decode buf (base58_text data) = (poke buf 0 data, if room buf (length data) then length data else 0)"
proof -
  let ?b = "decoded_buf (drop (leading 0 data) (base58_text data))"
  have "BRBase58Decode buf (base58_text data) = (poke buf 0 (replicate (leading 0 data) 0 @ drop (leading 0 ?b) ?b),
      if room buf (leading 0 data + length ?b - leading 0 ?b) then leading 0 data + length ?b - leading 0 ?b else 0)"
    by (simp add: BRBase58Decode_def Let_def text_leading decoded_buf_def del: length_drop flip: leading_def)
  then show ?thesis
    by (simp only: decoded_buf_text decoded_buf_length [OF decoded_buf_text] leading_append_data)
qed

text \<open>Decoding stops at the first character that is not a digit.\<close>

lemma base58_decode_loop_prefix:
  "base58_decode_loop buf str = base58_decode_loop buf (takeWhile (\<lambda>c. base58_digit c < 58) str)"
  by (induction str arbitrary: buf) (auto simp: Let_def not_le)

definition base58_decoded :: "bytes \<Rightarrow> bytes" where
  "base58_decoded str =
     (let z = leading 0x31 str; rest = drop z str;
          buf = base58_decode_loop (replicate (length rest * 733 div 1000 + 1) 0) rest
      in replicate z 0 @ drop (leading 0 buf) buf)"

lemma BRBase58Decode_eq:
  "BRBase58Decode buf str = (poke buf 0 (base58_decoded str), if room buf (length (base58_decoded str)) then length (base58_decoded str) else 0)"
  by (simp add: BRBase58Decode_def base58_decoded_def Let_def leading_le flip: leading_def)

interpretation base58_decode: buffer_writer "\<lambda>data. BRBase58Decode data str" "base58_decoded str" for str
  unfolding BRBase58Decode_eq by (rule poke_writer)

lemma base58_decoded_text: "base58_decoded (base58_text data) = data"
proof -
  have "BRBase58Decode None (base58_text data) = (None, length (base58_decoded (base58_text data)))"
    by (rule base58_decode.query)
  then have "length (base58_decoded (base58_text data)) = length data" by (simp add: BRBase58Decode_text)
  then have "Some (base58_decoded (base58_text data)) = Some data"
    using BRBase58Decode_text [of "Some (replicate (length data) 0)" data]
      base58_decode.fill [of "base58_text data" "replicate (length data) 0"] by simp
  then show ?thesis by simp
qed

text \<open>The decoded bytes are never longer than the text.\<close>

lemma length_base58_decode_loop: "length (base58_decode_loop buf str) = length buf"
  by (induction buf str rule: base58_decode_loop.induct) (simp_all add: Let_def)

lemma length_base58_decoded: "length (base58_decoded str) \<le> length str"
proof -
  let ?rest = "drop (leading 0x31 str) str"
  have "length ?rest * 733 div 1000 + 1 \<le> length ?rest" if "?rest \<noteq> []"
  proof -
    have "length ?rest * 733 div 1000 < length ?rest"
      using that by (simp add: div_less_iff_less_mult del: length_drop)
    then show ?thesis by simp
  qed
  moreover have "base58_decoded str = replicate (leading 0x31 str) 0" if "?rest = []"
    using that by (simp add: base58_decoded_def Let_def leading_def)
  ultimately show ?thesis using leading_le [of "0x31" str]
    by (cases "?rest = []") (auto simp: base58_decoded_def Let_def length_base58_decode_loop)
qed

section \<open>The decoder for any alphabet\<close>

lemma reverse_lookup_alphabet: "unat d < 58 \<Longrightarrow> reverse_lookup bitcoinAlphabet (bitcoinAlphabet ! unat d) = Some (unat d)"
proof -
  assume d: "unat d < 58"
  have all: "\<forall>n \<in> set [0..<58]. reverse_lookup bitcoinAlphabet (bitcoinAlphabet ! n) = Some n" by code_simp
  from d have "unat d \<in> set [0..<58]" by simp
  with all show ?thesis by blast
qed

lemma base256_push_ex_eq: "d < 58 \<Longrightarrow> base256_push_ex buf d = base256_push buf (of_nat d)"
proof -
  assume d: "d < 58"
  let ?F = "foldr (\<lambda>b (carry, out). let carry' = carry + 58 * unat b in (carry' div 256, of_nat (carry' mod 256) # out))"
  have "map unat (snd (?F buf (d, []) :: nat \<times> bytes)) = snd (radix_push 256 58 (map unat buf) d) \<and>
      fst (?F buf (d, []) :: nat \<times> bytes) = fst (radix_push 256 58 (map unat buf) d)"
    by (induction buf) (auto simp: radix_push_def mult.commute Let_def unat_of_nat_small split: prod.splits)
  moreover have "map unat (base256_push buf (of_nat d)) = snd (radix_push 256 58 (map unat buf) d)"
    using base256_push_value [of "of_nat d" buf] d by (simp add: word_less_nat_alt unat_of_nat_small)
  ultimately have "map unat (base256_push_ex buf d) = map unat (base256_push buf (of_nat d))"
    by (simp add: base256_push_ex_def)
  then show ?thesis by (rule map_injective) (auto intro!: injI simp: word_unat_eq_iff)
qed

lemma decode_ex_loop_digits:
  "digits58 ds \<Longrightarrow> decode_ex_loop bitcoinAlphabet buf (map (\<lambda>d. bitcoinAlphabet ! unat d) ds) =
    Some (base58_decode_loop buf (map (\<lambda>d. bitcoinAlphabet ! unat d) ds))"
proof (induction ds arbitrary: buf)
  case (Cons d ds)
  then have d: "unat d < 58" by (simp add: digits58_def)
  then have "\<not> 58 \<le> (ucast d :: u32)" by (simp add: word_le_nat_alt)
  moreover have "(of_nat (unat d) :: u32) = ucast d" by simp
  ultimately show ?case
    using Cons d by (simp add: base58_digit_alphabet digits58_def Let_def reverse_lookup_alphabet base256_push_ex_eq del: of_nat_unat)
qed simp

section \<open>The checksum\<close>

definition base58check_bytes :: "bytes \<Rightarrow> bytes" where
  "base58check_bytes data = data @ take 4 (BRSHA256_2 data)"

lemma BRBase58CheckEncode_text: "BRBase58CheckEncode str data = BRBase58Encode str (base58check_bytes data)"
  by (simp add: BRBase58CheckEncode_def base58check_bytes_def)

interpretation base58check: buffer_writer "\<lambda>str. BRBase58CheckEncode str data"
    "base58_text (base58check_bytes data) @ [0]" for data
  unfolding BRBase58CheckEncode_text by unfold_locales

lemma length_base58_digits: "length (drop (leading 0 data) data) \<le> length (base58_digits data)"
proof (rule ccontr)
  let ?rest = "drop (leading 0 data) data"
  assume "\<not> ?thesis"
  then have lt: "length (base58_digits data) < length ?rest" by simp
  then have ne: "?rest \<noteq> []" by auto
  then obtain d ds where d: "?rest = d # ds" "d \<noteq> 0" using hd_after_leading [of 0 data] by (cases ?rest) auto
  have "1 * 256 ^ length ds \<le> unat d * 256 ^ length ds"
    using d(2) by (intro mult_right_mono) (simp_all add: Suc_le_eq unat_gt_0)
  then have "256 ^ length ds \<le> value256 ?rest" by (simp only: d(1) list.map radix_value_simps length_map mult_1 trans_le_add1)
  also have "\<dots> = value58 (base58_digits data)" by (simp only: value_after_leading base58_digits_props)
  also have "\<dots> < 58 ^ length (base58_digits data)"
    by (rule digits58_less [OF base58_digits_props(1)])
  also have "\<dots> \<le> 58 ^ length ds" using lt d by (intro power_increasing) auto
  also have "(58 :: nat) ^ length ds \<le> 256 ^ length ds" by (rule power_mono) auto
  finally show False by simp
qed

lemma length_base58_text: "length data \<le> length (base58_text data)"
  using length_base58_digits [of data] leading_le [of 0 data] by (simp add: base58_text_def)

text \<open>The payload of a string, empty if the checksum is wrong.\<close>

definition base58check_payload :: "bytes \<Rightarrow> bytes" where
  "base58check_payload str =
     (let b = base58_decoded str; n = length b - 4
      in if 4 \<le> length b \<and> take 4 (drop n b) = take 4 (BRSHA256_2 (take n b)) then take n b else [])"

lemma BRBase58CheckDecode_eq:
  "BRBase58CheckDecode data str =
     (poke data 0 (base58check_payload str),
      if room data (length (base58check_payload str)) then length (base58check_payload str) else 0)"
proof -
  have "poke data 0 [] = data" by (cases data) simp_all
  then show ?thesis
    using length_base58_decoded [of str]
    by (auto simp: BRBase58CheckDecode_def base58check_payload_def BRBase58Decode_eq Let_def)
qed

interpretation base58check_decode: buffer_writer "\<lambda>data. BRBase58CheckDecode data str" "base58check_payload str" for str
  unfolding BRBase58CheckDecode_eq by (rule poke_writer)

lemma base58check_payload_text: "base58check_payload (base58_text (base58check_bytes data)) = data"
  by (simp add: base58check_payload_def base58_decoded_text base58check_bytes_def)

lemma BRBase58CheckDecode_text:
  "BRBase58CheckDecode buf (base58_text (base58check_bytes data)) = (poke buf 0 data, if room buf (length data) then length data else 0)"
  by (simp add: BRBase58CheckDecode_eq base58check_payload_text)

section \<open>Properties\<close>

text \<open>
  C32: Base58 round trip, for data of any length and content: the size query returns the length of
  the text with its terminator, the call with that buffer writes it, and decoding the text gives the
  data back, leading zero bytes included; a buffer that is too short gets 0 and is not written.
\<close>

theorem base58_round_trip:
  "\<exists>text. 0x00 \<notin> set text \<and> BRBase58Encode None data = (None, length text + 1) \<and>
     BRBase58Encode (Some (replicate (length text + 1) x)) data = (Some (text @ [0]), length text + 1) \<and>
     BRBase58Encode (Some (replicate (length text) x)) data = (Some (replicate (length text) x), 0) \<and>
     BRBase58Decode None text = (None, length data) \<and>
     BRBase58Decode (Some (replicate (length data) y)) text = (Some data, length data)"
proof -
  have "\<forall>n \<in> set [0..<58]. bitcoinAlphabet ! n \<noteq> 0" by code_simp
  then have "bitcoinAlphabet ! unat d \<noteq> 0" if "unat d < 58" for d :: u8 using that by simp
  from this this [of 0] have "0x00 \<notin> set (base58_text data)"
    using base58_digits_props(1) [of data] by (auto simp: base58_text_def digits58_def)
  then show ?thesis
    by (intro exI [of _ "base58_text data"]) (simp add: BRBase58Decode_text BRBase58Encode_text)
qed

text \<open>
  \<open>BRBase58DecodeEx\<close> with the alphabet of Bitcoin decodes the text of every byte string that has a
  byte other than 0; on the text of a string of zeroes it reads on behind its buffer.
\<close>

theorem base58_decode_ex:
  "BRBase58DecodeEx buf (base58_text data) bitcoinAlphabet =
     (if data = replicate (length data) 0 then None
      else Some (poke buf 0 data, if room buf (length data) then length data else 0))"
proof -
  let ?ds = "base58_digits data" and ?z = "leading 0 data" and ?chr = "\<lambda>d. bitcoinAlphabet ! unat d"
  note props = base58_digits_props [of data]
  let ?t = "base58_text data"
  have chr: "reverse_lookup bitcoinAlphabet (?chr d) = Some (unat d)" if "d \<in> set (replicate ?z 0 @ ?ds)" for d
    using that props(1) by (intro reverse_lookup_alphabet) (auto simp: digits58_def)
  have all: "takeWhile (\<lambda>c. reverse_lookup bitcoinAlphabet c = Some 0) ?t = map ?chr (takeWhile (\<lambda>d. d = 0) (replicate ?z 0 @ ?ds))"
  proof -
    have "takeWhile (\<lambda>d. reverse_lookup bitcoinAlphabet (?chr d) = Some 0) (replicate ?z 0 @ ?ds) = takeWhile (\<lambda>d. d = 0) (replicate ?z 0 @ ?ds)"
      by (rule takeWhile_cong) (auto simp: chr unat_eq_zero)
    then show ?thesis unfolding base58_text_def takeWhile_map by (simp add: comp_def)
  qed
  then have z: "length (takeWhile (\<lambda>c. reverse_lookup bitcoinAlphabet c = Some 0) ?t) = ?z"
    using leading_replicate [OF props(3), of ?z] by (simp add: leading_def)
  let ?b = "decoded_buf (drop ?z ?t)"
  have loop: "decode_ex_loop bitcoinAlphabet (replicate (length (drop ?z ?t) * 733 div 1000 + 1) 0) (drop ?z ?t) = Some ?b"
    unfolding text_rest decoded_buf_def by (rule decode_ex_loop_digits [OF props(1)])
  have zero: "(\<forall>x \<in> set ?b. x = 0) \<longleftrightarrow> data = replicate (length data) 0"
  proof -
    have "(\<forall>x \<in> set xs. x = 0) \<longleftrightarrow> drop (leading 0 xs) xs = []" for xs :: bytes
      by (simp add: leading_def flip: dropWhile_eq_drop)
    moreover have "data = replicate (length data) 0 \<longleftrightarrow> (\<forall>x \<in> set data. x = 0)"
      by (metis in_set_replicate replicate_eqI)
    ultimately show ?thesis by (metis decoded_buf_text)
  qed
  show ?thesis
    unfolding BRBase58DecodeEx_def Let_def z loop option.case zero
    by (simp add: decoded_buf_text leading_append_data decoded_buf_length [OF decoded_buf_text] del: length_drop flip: leading_def)
qed

text \<open>
  Base58Check. The decoder returns a payload (of one byte or more) exactly for the strings that
  Base58 decodes to the payload followed by the first four bytes of its double SHA-256, and the text
  the encoder writes is such a string, so that encoding and decoding is a round trip.
\<close>

theorem base58check_exact:
  assumes "payload \<noteq> []"
  shows "(BRBase58CheckDecode (Some (replicate (length payload) y)) str = (Some payload, length payload) \<longleftrightarrow>
      BRBase58Decode (Some (replicate (length payload + 4) y)) str
        = (Some (payload @ take 4 (BRSHA256_2 payload)), length payload + 4)) \<and>
    (\<exists>text. BRBase58CheckEncode (Some (replicate (length text + 1) x)) payload = (Some (text @ [0]), length text + 1) \<and>
       BRBase58CheckDecode (Some (replicate (length payload) y)) text = (Some payload, length payload))"
proof
  show "\<exists>text. BRBase58CheckEncode (Some (replicate (length text + 1) x)) payload = (Some (text @ [0]), length text + 1) \<and>
       BRBase58CheckDecode (Some (replicate (length payload) y)) text = (Some payload, length payload)"
    by (intro exI [of _ "base58_text (base58check_bytes payload)"])
      (simp add: BRBase58CheckDecode_text BRBase58CheckEncode_text BRBase58Encode_text)
next
  let ?d = "base58_decoded str"
  have "BRBase58CheckDecode (Some (replicate (length payload) y)) str = (Some payload, length payload)
    \<longleftrightarrow> base58check_payload str = payload"
    using assms by (auto simp: BRBase58CheckDecode_eq)
  also have "\<dots> \<longleftrightarrow> ?d = payload @ take 4 (BRSHA256_2 payload)"
  proof (cases "4 \<le> length ?d")
    case True
    obtain p c where pc: "?d = p @ c" "length c = 4"
      using True by (metis append_take_drop_id length_drop diff_diff_cancel)
    have "p @ c = payload @ take 4 (BRSHA256_2 payload) \<longleftrightarrow> p = payload \<and> c = take 4 (BRSHA256_2 payload)"
      using pc(2) by (intro append_eq_append_conv) simp
    then show ?thesis using pc assms by (auto simp: base58check_payload_def)
  qed (use assms in \<open>auto simp: base58check_payload_def\<close>)
  finally have "BRBase58CheckDecode (Some (replicate (length payload) y)) str = (Some payload, length payload)
    \<longleftrightarrow> ?d = payload @ take 4 (BRSHA256_2 payload)" .
  moreover have "BRBase58Decode (Some (replicate (length payload + 4) y)) str
        = (Some (payload @ take 4 (BRSHA256_2 payload)), length payload + 4) \<longleftrightarrow> ?d = payload @ take 4 (BRSHA256_2 payload)"
    by (auto simp: BRBase58Decode_eq)
  ultimately show "BRBase58CheckDecode (Some (replicate (length payload) y)) str = (Some payload, length payload) \<longleftrightarrow>
      BRBase58Decode (Some (replicate (length payload + 4) y)) str
        = (Some (payload @ take 4 (BRSHA256_2 payload)), length payload + 4)"
    by simp
qed

theorem base58check_exact_witness:
  "\<exists>text. BRBase58CheckEncode (Some (replicate (length text + 1) 0)) [5, 6] = (Some (text @ [0]), length text + 1) \<and>
       BRBase58CheckDecode (Some [0, 0]) text = (Some [5, 6], 2)"
proof -
  have "([5, 6] :: bytes) \<noteq> []" by simp
  from base58check_exact [OF this, of 0 "[]" 0] show ?thesis by (simp add: numeral_2_eq_2)
qed

end
