(* ===== verification/Bech32.thy ===== *)
theory Bech32
  imports Script
begin

text \<open>
  Bech32 addresses, \<open>support/BRBech32.c\<close>. A C string is the list of its bytes in front of the
  terminator. The proofs read the five bit groups and the program bytes as one stream of bits.
\<close>

section \<open>The operations\<close>

definition polymod :: "u32 \<Rightarrow> u32" where
  "polymod x =
     push_bit 5 (x AND 0x1ffffff) XOR (- (drop_bit 25 x AND 1) AND 0x3b6a57b2) XOR
     (- (drop_bit 26 x AND 1) AND 0x26508e6d) XOR (- (drop_bit 27 x AND 1) AND 0x1ea119fa) XOR
     (- (drop_bit 28 x AND 1) AND 0x3d4233dd) XOR (- (drop_bit 29 x AND 1) AND 0x2a1462b3)"

text \<open>\<open>islower\<close>, \<open>isupper\<close> and \<open>tolower\<close> in the C locale\<close>

definition is_lower :: "u8 \<Rightarrow> bool" where "is_lower c \<longleftrightarrow> 0x61 \<le> c \<and> c \<le> 0x7a"
definition is_upper :: "u8 \<Rightarrow> bool" where "is_upper c \<longleftrightarrow> 0x41 \<le> c \<and> c \<le> 0x5a"
definition to_lower :: "u8 \<Rightarrow> u8" where "to_lower c = (if is_upper c then c + 0x20 else c)"

text \<open>The \<open>switch\<close> over the digits.\<close>

definition bech32_digit :: "u8 \<Rightarrow> u8 option" where
  "bech32_digit c = map_of [
     (0x71, 0), (0x70, 1), (0x7a, 2), (0x72, 3), (0x79, 4), (0x39, 5), (0x78, 6), (0x38, 7),
     (0x67, 8), (0x66, 9), (0x32, 10), (0x74, 11), (0x76, 12), (0x64, 13), (0x77, 14), (0x30, 15),
     (0x73, 16), (0x33, 17), (0x6a, 18), (0x6e, 19), (0x35, 20), (0x34, 21), (0x6b, 22), (0x68, 23),
     (0x63, 24), (0x65, 25), (0x36, 26), (0x6d, 27), (0x75, 28), (0x61, 29), (0x37, 30), (0x6c, 31)] c"

fun last_separator :: "bytes \<Rightarrow> nat \<Rightarrow> nat" where
  "last_separator addr 0 = 0"
| "last_separator addr (Suc n) = (if (addr @ [0]) ! Suc n \<noteq> 0x31 then last_separator addr n else Suc n)"

text \<open>The digit \<open>c\<close> is or-ed into the program as its bits \<open>5 * j\<close> to \<open>5 * j + 4\<close>.\<close>

definition bech32_store :: "bytes \<Rightarrow> nat \<Rightarrow> u8 \<Rightarrow> bytes" where
  "bech32_store buf j c =
     (let x = (j mod 8) * 5 - ((j mod 8) * 5 div 8) * 8;
          p = (j div 8) * 5 + (j mod 8) * 5 div 8;
          buf1 = buf[p := buf ! p OR ucast (drop_bit x (push_bit 3 (ucast c :: u32)))]
      in if x > 3 then buf1[p + 1 := buf1 ! (p + 1) OR ucast (push_bit (11 - x) (ucast c :: u32))] else buf1)"

text \<open>
  The loop over the \<open>n\<close> characters behind the separator; \<open>k\<close> is \<open>i - (sep + 1)\<close>, so \<open>j\<close> is
  \<open>k - 1\<close>.
\<close>

fun bech32_decode_loop :: "nat \<Rightarrow> nat \<Rightarrow> bytes \<Rightarrow> u32 \<Rightarrow> u8 \<Rightarrow> bytes \<Rightarrow> (u32 \<times> u8 \<times> bytes) option" where
  "bech32_decode_loop n k [] chk ver buf = Some (chk, ver, buf)"
| "bech32_decode_loop n k (a # addr) chk ver buf =
     (case bech32_digit (to_lower a) of
        None \<Rightarrow> None
      | Some c \<Rightarrow>
          let chk' = polymod chk XOR ucast c; ver' = (if k = 0 then c else ver)
          in if k = 0 \<or> k + 6 \<ge> n then bech32_decode_loop n (k + 1) addr chk' ver' buf
             else bech32_decode_loop n (k + 1) addr chk' ver' (bech32_store buf (k - 1) c))"

text \<open>The checksum over the human readable part.\<close>

definition bech32_hrp_chk :: "bytes \<Rightarrow> u32" where
  "bech32_hrp_chk hrp =
     (let chk1 = foldl (\<lambda>chk c. polymod chk XOR ucast (drop_bit 5 c)) 1 hrp
      in foldl (\<lambda>chk c. polymod chk XOR ucast (c AND 0x1f)) (polymod chk1) hrp)"

text \<open>\<open>None\<close> is the result 0; otherwise the contents of \<open>hrp84\<close> and \<open>data42\<close>.\<close>

definition BRBech32Decode :: "bytes \<Rightarrow> (bytes \<times> bytes) option" where
  "BRBech32Decode addr =
     (let lower = (\<exists>c \<in> set addr. is_lower c); upper = (\<exists>c \<in> set addr. is_upper c);
          addrLen = length addr; sep = last_separator addr addrLen
      in if \<exists>c \<in> set addr. c < 33 \<or> c > 126 then None
         else if addrLen < 8 \<or> addrLen > 90 \<or> sep < 1 \<or> sep + 2 + 6 > addrLen \<or> (upper \<and> lower) then None
         else
           let hrp = map to_lower (take sep addr);
               chk1 = foldl (\<lambda>chk c. polymod chk XOR ucast (drop_bit 5 (to_lower c))) 1 (take sep addr);
               chk2 = foldl (\<lambda>chk c. polymod chk XOR ucast (c AND 0x1f)) (polymod chk1) (take sep addr)
           in case bech32_decode_loop (addrLen - (sep + 1)) 0 (drop (sep + 1) addr) chk2 0xff (replicate 52 0) of
                None \<Rightarrow> None
              | Some (chk, ver, buf) \<Rightarrow>
                  let bufLen = (addrLen - (sep + 2 + 6)) * 5 div 8
                  in if chk \<noteq> 1 \<or> ver > 16 \<or> bufLen < 2 \<or> bufLen > 40 then None
                     else Some (hrp, (if ver = 0 then OP_0 else ver + OP_1 - 1) # of_nat bufLen # take bufLen buf))"

text \<open>The characters of \<open>"qpzry9x8gf2tvdw0s3jn54khce6mua7l"\<close>.\<close>

definition bech32_chars :: bytes where
  "bech32_chars = concat [[0x71, 0x70, 0x7a, 0x72, 0x79, 0x39, 0x78, 0x38], [0x67, 0x66, 0x32, 0x74, 0x76, 0x64, 0x77, 0x30],
     [0x73, 0x33, 0x6a, 0x6e, 0x35, 0x34, 0x6b, 0x68], [0x63, 0x65, 0x36, 0x6d, 0x75, 0x61, 0x37, 0x6c]]"

text \<open>\<open>chk = polymod(chk) ^ c, addr[i++] = chars[c]\<close>\<close>

definition bech32_emit :: "u32 \<times> bytes \<Rightarrow> u8 \<Rightarrow> u32 \<times> bytes" where
  "bech32_emit = (\<lambda>(chk, addr) c. (polymod chk XOR ucast c, addr @ [bech32_chars ! unat c]))"

definition bech32_encode_step :: "bytes \<Rightarrow> nat \<Rightarrow> (u32 \<times> bytes) \<times> u8 \<Rightarrow> nat \<Rightarrow> (u32 \<times> bytes) \<times> u8" where
  "bech32_encode_step data len = (\<lambda>(st, b0) j.
     let a = b0; b = (if j < len then data ! (2 + j) else 0);
         x = (j mod 5) * 8 - ((j mod 5) * 8 div 5) * 5;
         c = ucast ((push_bit (5 - x) (ucast a :: u32) OR drop_bit (3 + x) (ucast b)) AND 0x1f);
         st1 = (if j < len \<or> j mod 5 > 0 then bech32_emit st c else st);
         c' = (if x \<ge> 2 then ucast (drop_bit (x - 2) (ucast b :: u32) AND 0x1f) else c);
         st2 = (if x \<ge> 2 \<and> j < len then bech32_emit st1 c' else st1)
     in (st2, b))"

text \<open>
  The encoder collects the text in \<open>char addr[91]\<close>: its check of the size counts the bytes of the
  program and not the characters they take, so a longer text is \<open>Undefined\<close>. \<open>Returns text\<close> is the
  text without terminator, of which the code returns the length plus one.
\<close>

definition BRBech32Encode :: "bytes \<Rightarrow> bytes \<Rightarrow> bytes outcome" where
  "BRBech32Encode hrp data =
     (if length hrp > 84 \<or> (\<exists>c \<in> set hrp. c < 33 \<or> c > 126 \<or> is_upper c) then Null
      else
        let chk0 = bech32_hrp_chk hrp;
            ver = (if data ! 0 \<ge> OP_1 then data ! 0 + 1 - OP_1 else 0);
            len = unat (data ! 1)
        in if data ! 0 > OP_0 \<and> data ! 0 < OP_1 then Null
           else if ver > 16 \<or> len < 2 \<or> len > 40 \<or> (length hrp + 1) + 1 + len + 6 \<ge> 91 then Null
           else
             let st0 = bech32_emit (chk0, hrp @ [0x31]) ver;
                 ((chk1, addr), b) = foldl (bech32_encode_step data len) (st0, 0) [0..<len + 1];
                 chk2 = ((polymod ^^ 6) chk1) XOR 1;
                 text = addr @ map (\<lambda>j. bech32_chars ! unat (drop_bit ((5 - j) * 5) chk2 AND 0x1f)) [0..<6]
             in if length text + 1 > 91 then Undefined else Returns text)"

section \<open>The checksum\<close>

lemma neg_bit_mask: "- (drop_bit k x AND 1) AND m = (if bit x k then m else (0 :: u32))"
  by (simp add: and_one_eq bit_iff_odd_drop_bit odd_iff_mod_2_eq_one flip: mod_2_eq_odd)

lemma polymod_alt:
  "polymod x = push_bit 5 (take_bit 25 x) XOR (if bit x 25 then 0x3b6a57b2 else 0) XOR (if bit x 26 then 0x26508e6d else 0) XOR
     (if bit x 27 then 0x1ea119fa else 0) XOR (if bit x 28 then 0x3d4233dd else 0) XOR (if bit x 29 then 0x2a1462b3 else 0)"
  unfolding polymod_def neg_bit_mask by (simp add: take_bit_eq_mask mask_eq_exp_minus_1)

lemma polymod_xor: "polymod (x XOR y) = polymod x XOR polymod y"
proof -
  have sel: "(if bit (x XOR y) k then m else 0) = (if bit x k then m else 0) XOR (if bit y k then m else (0 :: u32))" for k m
    by (simp add: bit_xor_iff)
  show ?thesis unfolding polymod_alt sel push_bit_xor take_bit_xor by (simp only: ac_simps)
qed

lemma polymod_small: "x < 2 ^ 25 \<Longrightarrow> polymod x = push_bit 5 x"
proof -
  assume "x < 2 ^ 25"
  then have x: "take_bit 25 x = x"
    by (simp add: word_unat_eq_iff unsigned_take_bit_eq take_bit_nat_eq_self word_less_nat_alt)
  then have "\<not> bit x k" if "25 \<le> k" for k using that by (metis bit_take_bit_iff not_le)
  with x show ?thesis by (simp add: polymod_alt)
qed

lemma polymod_less: "take_bit 30 (polymod x) = polymod x"
proof -
  have "take_bit 30 (if b then m else 0) = (if b then m else (0 :: u32))" if "take_bit 30 m = m" for b m
    using that by simp
  note sel = this
  have "take_bit 30 (push_bit 5 (take_bit 25 x)) = push_bit 5 (take_bit 25 x)"
    by (simp add: take_bit_push_bit)
  then show ?thesis
    unfolding polymod_alt take_bit_xor by (simp only: sel [OF trans [OF take_bit_word_eq_self refl]])
      (simp add: take_bit_eq_mod)
qed

text \<open>Six more digits: the checksum digits of \<open>v\<close> make it \<open>v\<close>.\<close>

abbreviation chk_step :: "u32 \<Rightarrow> u8 \<Rightarrow> u32" where
  "chk_step chk c \<equiv> polymod chk XOR ucast c"

lemma polymod_push: "unat c < 32 \<Longrightarrow> k \<le> 4 \<Longrightarrow> polymod (push_bit (5 * k) (ucast (c :: u8))) = push_bit (5 * Suc k) (ucast c)"
proof -
  assume c: "unat c < 32" and k: "k \<le> 4"
  have "unat (ucast c :: u32) < 2 ^ 5" using c by (simp add: unsigned_ucast_eq take_bit_nat_eq_self)
  then have "2 ^ (5 * k) * unat (ucast c :: u32) < 2 ^ (5 * k) * 2 ^ 5" by simp
  also have "\<dots> = 2 ^ (5 * k + 5)" by (simp add: power_add)
  also have "\<dots> \<le> 2 ^ 25" using k by (intro power_increasing) auto
  finally have lt: "2 ^ (5 * k) * unat (ucast c :: u32) < 2 ^ 25" .
  then have lt32: "2 ^ (5 * k) * unat (ucast c :: u32) < 2 ^ LENGTH(32)" by (rule order_less_trans) simp
  have "push_bit (5 * k) (ucast c :: u32) = of_nat (2 ^ (5 * k) * unat (ucast c :: u32))"
    by (simp add: push_bit_eq_mult)
  then have "unat (push_bit (5 * k) (ucast c :: u32)) = 2 ^ (5 * k) * unat (ucast c :: u32)"
    using unat_of_nat_small [OF lt32] by (simp only:)
  then have "push_bit (5 * k) (ucast c :: u32) < 2 ^ 25" using lt by (simp add: word_less_nat_alt)
  then show ?thesis by (simp add: polymod_small push_bit_push_bit)
qed

lemma fold_six:
  assumes "\<And>i :: nat. unat (d i :: u8) < 32"
  shows "foldl chk_step s [d 0, d 1, d 2, d 3, d 4, d 5] =
    (polymod ^^ 6) s XOR (push_bit 25 (ucast (d 0)) XOR push_bit 20 (ucast (d 1)) XOR push_bit 15 (ucast (d 2)) XOR
      push_bit 10 (ucast (d 3)) XOR push_bit 5 (ucast (d 4)) XOR ucast (d 5))"
proof -
  have p: "polymod (ucast (d i)) = push_bit 5 (ucast (d i))" "polymod (push_bit 5 (ucast (d i))) = push_bit 10 (ucast (d i))"
    "polymod (push_bit 10 (ucast (d i))) = push_bit 15 (ucast (d i))" "polymod (push_bit 15 (ucast (d i))) = push_bit 20 (ucast (d i))"
    "polymod (push_bit 20 (ucast (d i))) = push_bit 25 (ucast (d i))" for i
    using polymod_push [OF assms, of 0] polymod_push [OF assms, of 1] polymod_push [OF assms, of 2]
      polymod_push [OF assms, of 3] polymod_push [OF assms, of 4] by simp_all
  have "(polymod ^^ 6) s = polymod (polymod (polymod (polymod (polymod (polymod s)))))"
    by (simp add: numeral_eq_Suc)
  then show ?thesis by (simp only: foldl.simps polymod_xor p) (simp only: ac_simps)
qed

definition chk_digit :: "u32 \<Rightarrow> nat \<Rightarrow> u8" where
  "chk_digit v i = ucast (drop_bit ((5 - i) * 5) v AND 0x1f)"

lemma bit_1f_int: "bit (0x1f :: int) n \<longleftrightarrow> n < 5"
proof -
  have "(0x1f :: int) = mask 5" by (simp add: mask_eq_exp_minus_1)
  then show ?thesis by (simp only: bit_mask_iff) auto
qed

lemma bit_1f_u32: "bit (0x1f :: u32) n \<longleftrightarrow> n < 5"
proof -
  have "(0x1f :: u32) = mask 5" by (simp add: mask_eq_exp_minus_1)
  then show ?thesis by (simp only: bit_mask_iff) auto
qed

lemma bit_chk_digit: "bit (chk_digit v i) n \<longleftrightarrow> n < 5 \<and> bit v ((5 - i) * 5 + n)"
  by (auto simp: chk_digit_def bit_simps bit_1f_int dest: bit_imp_le_length)

lemma bit_push_chk_digit:
  "k = (5 - i) * 5 \<Longrightarrow> bit (push_bit k (ucast (chk_digit v i) :: u32)) n \<longleftrightarrow> n < 32 \<and> k \<le> n \<and> n < k + 5 \<and> bit v n"
  by (auto simp: bit_simps bit_chk_digit)

lemma chk_digits_join:
  assumes "take_bit 30 v = v"
  shows "push_bit 25 (ucast (chk_digit v 0)) XOR push_bit 20 (ucast (chk_digit v 1)) XOR push_bit 15 (ucast (chk_digit v 2)) XOR
      push_bit 10 (ucast (chk_digit v 3)) XOR push_bit 5 (ucast (chk_digit v 4)) XOR push_bit 0 (ucast (chk_digit v 5)) = v"
proof (rule bit_word_eqI)
  fix n assume n: "n < LENGTH(32)"
  have hi: "bit v n \<Longrightarrow> n < 30" using assms by (metis bit_take_bit_iff)
  have b:
    "bit (push_bit 25 (ucast (chk_digit v 0)) :: u32) n \<longleftrightarrow> n < 32 \<and> 25 \<le> n \<and> n < 25 + 5 \<and> bit v n"
    "bit (push_bit 20 (ucast (chk_digit v 1)) :: u32) n \<longleftrightarrow> n < 32 \<and> 20 \<le> n \<and> n < 20 + 5 \<and> bit v n"
    "bit (push_bit 15 (ucast (chk_digit v 2)) :: u32) n \<longleftrightarrow> n < 32 \<and> 15 \<le> n \<and> n < 15 + 5 \<and> bit v n"
    "bit (push_bit 10 (ucast (chk_digit v 3)) :: u32) n \<longleftrightarrow> n < 32 \<and> 10 \<le> n \<and> n < 10 + 5 \<and> bit v n"
    "bit (push_bit 5 (ucast (chk_digit v 4)) :: u32) n \<longleftrightarrow> n < 32 \<and> 5 \<le> n \<and> n < 5 + 5 \<and> bit v n"
    "bit (push_bit 0 (ucast (chk_digit v 5)) :: u32) n \<longleftrightarrow> n < 32 \<and> 0 \<le> n \<and> n < 0 + 5 \<and> bit v n"
    by (rule bit_push_chk_digit, simp)+
  show "bit ((push_bit 25 (ucast (chk_digit v 0)) :: u32) XOR push_bit 20 (ucast (chk_digit v 1)) XOR push_bit 15 (ucast (chk_digit v 2)) XOR
      push_bit 10 (ucast (chk_digit v 3)) XOR push_bit 5 (ucast (chk_digit v 4)) XOR push_bit 0 (ucast (chk_digit v 5))) n = bit v n"
    unfolding bit_xor_iff b using n hi by (cases "bit v n") (simp_all, presburger?)
qed

lemma unat_chk_digit: "unat (chk_digit v i) < 32"
proof -
  have "take_bit 5 (chk_digit v i) = chk_digit v i"
    by (rule bit_word_eqI) (auto simp: bit_simps bit_chk_digit)
  then have "unat (chk_digit v i) = take_bit 5 (unat (chk_digit v i))" by (metis unsigned_take_bit_eq)
  also have "\<dots> < 2 ^ 5" by (rule take_bit_nat_less_exp)
  finally show ?thesis by simp
qed

lemma checksum_closes:
  assumes "v = (polymod ^^ 6) s XOR 1"
  shows "foldl chk_step s (map (chk_digit v) [0..<6]) = 1"
proof -
  have "(polymod ^^ 6) s = polymod ((polymod ^^ 5) s)" by (simp add: numeral_eq_Suc)
  then have "take_bit 30 ((polymod ^^ 6) s) = (polymod ^^ 6) s" by (simp only: polymod_less)
  then have v: "take_bit 30 v = v" by (simp add: assms take_bit_xor)
  have "map (chk_digit v) [0..<6] = [chk_digit v 0, chk_digit v 1, chk_digit v 2, chk_digit v 3, chk_digit v 4, chk_digit v 5]"
    by (simp add: upt_rec eval_nat_numeral)
  then have "foldl chk_step s (map (chk_digit v) [0..<6]) = (polymod ^^ 6) s XOR v"
    using fold_six [of "chk_digit v", OF unat_chk_digit] chk_digits_join [OF v] by simp
  then show ?thesis by (simp add: assms)
qed

section \<open>The stream of bits\<close>

text \<open>
  Bit \<open>s\<close> of the program, most significant first, and bit \<open>s\<close> of a list of five bit digits; \<open>group
  d k\<close> is digit number \<open>k\<close> of the program \<open>d\<close>.
\<close>

definition byte_stream :: "bytes \<Rightarrow> nat \<Rightarrow> bool" where
  "byte_stream d s \<longleftrightarrow> s div 8 < length d \<and> bit (d ! (s div 8)) (7 - s mod 8)"

definition digit_stream :: "bytes \<Rightarrow> nat \<Rightarrow> bool" where
  "digit_stream ds s \<longleftrightarrow> s div 5 < length ds \<and> bit (ds ! (s div 5)) (4 - s mod 5)"

definition group :: "bytes \<Rightarrow> nat \<Rightarrow> u8" where
  "group d k = horner_sum of_bool 2 (map (\<lambda>m. byte_stream d (5 * k + 4 - m)) [0..<5])"

lemma bit_group: "bit (group d k) m \<longleftrightarrow> m < 5 \<and> byte_stream d (5 * k + 4 - m)"
  by (auto simp: group_def bit_horner_sum_bit_word_iff)

lemma unat_less_32: "(\<And>n. bit (c :: u8) n \<Longrightarrow> n < 5) \<Longrightarrow> unat c < 32"
proof -
  assume *: "\<And>n. bit c n \<Longrightarrow> n < 5"
  have "take_bit 5 c = c" by (rule bit_word_eqI) (use * in \<open>auto simp: bit_simps\<close>)
  then have "unat c = take_bit 5 (unat c)" by (metis unsigned_take_bit_eq)
  also have "\<dots> < 2 ^ 5" by (rule take_bit_nat_less_exp)
  finally show ?thesis by simp
qed

lemma unat_group: "unat (group d k) < 32"
  by (rule unat_less_32) (simp add: bit_group)

text \<open>The two digits a round of the encoder may complete.\<close>

lemma group_first:
  assumes "j \<le> length d" "a = (if j = 0 then 0 else d ! (j - 1))" "b = (if j < length d then d ! j else 0)"
    and x: "x = 8 * j mod 5"
  shows "ucast ((push_bit (5 - x) (ucast a :: u32) OR drop_bit (3 + x) (ucast b)) AND 0x1f) = group d (8 * j div 5)"
proof (rule bit_word_eqI)
  fix n assume n: "n < LENGTH(8)"
  have K: "5 * (8 * j div 5) + x = 8 * j" by (simp add: x)
  have x5: "x < 5" by (simp add: x)
  show "bit (ucast ((push_bit (5 - x) (ucast a :: u32) OR drop_bit (3 + x) (ucast b)) AND 0x1f) :: u8) n = bit (group d (8 * j div 5)) n"
  proof (cases "n < 5")
    case True
    show ?thesis
    proof (cases "n + x < 5")
      case lt: True
      define r where "r = 4 - n - x"
      have r: "r < 8" "7 - r = n + (x + 3)" using lt by (auto simp: r_def)
      have s: "5 * (8 * j div 5) + 4 - n = 8 * j + r" using K lt unfolding r_def by linarith
      have idx: "(8 * j + r) div 8 = j" "7 - (8 * j + r) mod 8 = n + (x + 3)" using r by auto
      show ?thesis unfolding bit_group s byte_stream_def idx using True lt assms(3)
        by (auto simp: bit_simps bit_1f_int add.commute add.left_commute dest: bit_imp_le_length)
    next
      case False
      then have j: "0 < j" using x True by (cases j) auto
      define r where "r = 12 - n - x"
      have r: "r < 8" "4 \<le> r" "n + x = 12 - r" using False True x5 by (auto simp: r_def)
      have "8 * j = 8 * (j - 1) + 8" using j by simp
      then have s: "5 * (8 * j div 5) + 4 - n = 8 * (j - 1) + r" using K r True by linarith
      have "7 - r = n - (5 - x)" using r False x5 by linarith
      moreover have "(8 * (j - 1) + r) mod 8 = r" "(8 * (j - 1) + r) div 8 = j - 1" using r(1) by simp_all
      ultimately have idx: "(8 * (j - 1) + r) div 8 = j - 1" "7 - (8 * (j - 1) + r) mod 8 = n - (5 - x)" by simp_all
      have drop: "\<not> bit (drop_bit (3 + x) (ucast b :: u32)) n"
        using False bit_u8_high [of "3 + x + n" b] by (simp add: bit_simps)
      have push: "bit (push_bit (5 - x) (ucast a :: u32)) n \<longleftrightarrow> bit a (n - (5 - x))"
      proof -
        have "5 - x \<le> n" "n - (5 - x) < 32" "n < 32" using True False by linarith+
        then show ?thesis by (simp add: bit_simps)
      qed
      have "bit (ucast ((push_bit (5 - x) (ucast a :: u32) OR drop_bit (3 + x) (ucast b)) AND 0x1f) :: u8) n
          \<longleftrightarrow> bit (push_bit (5 - x) (ucast a :: u32)) n \<or> bit (drop_bit (3 + x) (ucast b :: u32)) n"
        using True by (simp only: bit_unsigned_iff bit_and_iff bit_or_iff bit_1f_u32) simp
      then show ?thesis
        unfolding bit_group s byte_stream_def idx using True j assms(1) drop push
        by (simp only: assms(2)) auto
    qed
  next
    case False
    then show ?thesis by (auto simp: bit_group bit_simps bit_1f_int)
  qed
qed

lemma group_second:
  assumes "j < length d" "2 \<le> x" and x: "x = 8 * j mod 5"
  shows "ucast (drop_bit (x - 2) (ucast (d ! j) :: u32) AND 0x1f) = group d (Suc (8 * j div 5))"
proof (rule bit_word_eqI)
  fix n assume n: "n < LENGTH(8)"
  have K: "5 * (8 * j div 5) + x = 8 * j" by (simp add: x)
  have x5: "x < 5" by (simp add: x)
  show "bit (ucast (drop_bit (x - 2) (ucast (d ! j) :: u32) AND 0x1f) :: u8) n = bit (group d (Suc (8 * j div 5))) n"
  proof (cases "n < 5")
    case True
    define r where "r = 9 - n - x"
    have r: "r < 8" "7 - r = x - 2 + n" using True x5 assms(2) by (auto simp: r_def)
    have s: "5 * Suc (8 * j div 5) + 4 - n = 8 * j + r" using K True x5 by (simp add: r_def)
    have idx: "(8 * j + r) div 8 = j" "7 - (8 * j + r) mod 8 = x - 2 + n" using r by auto
    show ?thesis unfolding bit_group s byte_stream_def idx using True assms(1)
      by (auto simp: bit_simps bit_1f_int add.commute dest: bit_imp_le_length)
  next
    case False
    then show ?thesis by (auto simp: bit_group bit_simps bit_1f_int)
  qed
qed

text \<open>The encoder emits the digits of the program, the last one filled up with zero bits.\<close>

abbreviation emits :: "u32 \<times> bytes \<Rightarrow> bytes \<Rightarrow> u32 \<times> bytes" where
  "emits st ds \<equiv> foldl bech32_emit st ds"

lemma encode_x: "(j mod 5) * 8 - ((j mod 5) * 8 div 5) * 5 = 8 * j mod 5" for j :: nat
proof -
  have "(j mod 5) * 8 - ((j mod 5) * 8 div 5) * 5 = (j mod 5) * 8 mod 5" by (simp add: minus_div_mult_eq_mod)
  also have "\<dots> = 8 * j mod 5" by (metis mod_mult_left_eq mult.commute)
  finally show ?thesis .
qed

lemma encode_step:
  assumes "data = op # n # d @ rest" "j < length d" "b = (if j = 0 then 0 else d ! (j - 1))"
  shows "bech32_encode_step data (length d) (st, b) j =
    (emits st (map (group d) [8 * j div 5..<8 * Suc j div 5]), d ! j)"
proof -
  define x where "x = 8 * j mod 5"
  let ?K = "8 * j div 5"
  have dat: "data ! Suc (Suc j) = d ! j" using assms(1,2) by (simp add: nth_append)
  note first = group_first [OF less_imp_le [OF assms(2)] assms(3) refl x_def]
  note second = group_second [OF assms(2) _ x_def]
  have K: "5 * ?K + x = 8 * j" by (simp add: x_def)
  show ?thesis
  proof (cases "2 \<le> x")
    case True
    have "x < 5" by (simp add: x_def)
    then have "8 * Suc j div 5 = Suc (Suc ?K)" using True K by simp
    then show ?thesis using first second [OF True] True assms(2)
      by (simp add: bech32_encode_step_def encode_x x_def [symmetric] dat Let_def)
  next
    case False
    then have "8 * Suc j div 5 = Suc ?K" using K by simp
    then show ?thesis using first False assms(2)
      by (simp add: bech32_encode_step_def encode_x x_def [symmetric] dat Let_def)
  qed
qed

lemma encode_last:
  assumes "b = (if length d = 0 then 0 else d ! (length d - 1))"
  shows "fst (bech32_encode_step data (length d) (st, b) (length d))
    = emits st (map (group d) [8 * length d div 5..<(8 * length d + 4) div 5])"
proof -
  define x where "x = 8 * length d mod 5"
  note first = group_first [OF order_refl assms refl x_def]
  have K: "5 * (8 * length d div 5) + x = 8 * length d" by (simp add: x_def)
  have x5: "x < 5" by (simp add: x_def)
  have j0: "0 < length d mod 5 \<longleftrightarrow> 0 < x" unfolding x_def by presburger
  show ?thesis
  proof (cases "0 < x")
    case True
    then have "(8 * length d + 4) div 5 = Suc (8 * length d div 5)" using K x5 by linarith
    then show ?thesis using first True
      by (simp add: bech32_encode_step_def encode_x x_def [symmetric] Let_def j0)
  next
    case False
    then have "(8 * length d + 4) div 5 = 8 * length d div 5" using K by linarith
    then show ?thesis using False
      by (simp add: bech32_encode_step_def encode_x x_def [symmetric] Let_def j0)
  qed
qed

lemma upt_glue: "i \<le> j \<Longrightarrow> j \<le> k \<Longrightarrow> [i..<j] @ [j..<k] = [i..<k]"
  by (metis le_Suc_ex upt_add_eq_append)

lemma encode_loop:
  assumes "data = op # n # d @ rest"
  shows "fst (foldl (bech32_encode_step data (length d)) (st, 0) [0..<length d + 1])
    = emits st (map (group d) [0..<(8 * length d + 4) div 5])"
proof -
  have "j \<le> length d \<Longrightarrow> foldl (bech32_encode_step data (length d)) (st, 0) [0..<j] =
      (emits st (map (group d) [0..<8 * j div 5]), if j = 0 then 0 else d ! (j - 1))" for j
  proof (induction j)
    case (Suc j)
    let ?f = "bech32_encode_step data (length d)"
    have glue: "[0..<8 * j div 5] @ [8 * j div 5..<8 * Suc j div 5] = [0..<8 * Suc j div 5]"
      by (intro upt_glue div_le_mono) auto
    have "foldl ?f (st, 0) [0..<Suc j] = ?f (foldl ?f (st, 0) [0..<j]) j" by simp
    also have "foldl ?f (st, 0) [0..<j] = (emits st (map (group d) [0..<8 * j div 5]), if j = 0 then 0 else d ! (j - 1))"
      using Suc by simp
    also have "?f \<dots> j = (emits (emits st (map (group d) [0..<8 * j div 5])) (map (group d) [8 * j div 5..<8 * Suc j div 5]), d ! j)"
      by (rule encode_step [OF assms(1) _ refl]) (use Suc.prems in simp)
    also have "\<dots> = (emits st (map (group d) [0..<8 * Suc j div 5]), if Suc j = 0 then 0 else d ! (Suc j - 1))"
      unfolding foldl_append [symmetric] map_append [symmetric] glue by simp
    finally show ?case .
  qed simp
  note loop = this [OF order_refl]
  have glue: "[0..<8 * length d div 5] @ [8 * length d div 5..<(8 * length d + 4) div 5] = [0..<(8 * length d + 4) div 5]"
    by (intro upt_glue div_le_mono) auto
  have "foldl (bech32_encode_step data (length d)) (st, 0) [0..<length d + 1]
      = bech32_encode_step data (length d) (foldl (bech32_encode_step data (length d)) (st, 0) [0..<length d]) (length d)"
    by simp
  then show ?thesis
    unfolding loop by (simp only: encode_last foldl_append [symmetric] map_append [symmetric] glue)
qed

section \<open>The decoder puts the digits together\<close>

fun store_all :: "bytes \<Rightarrow> nat \<Rightarrow> bytes \<Rightarrow> bytes" where
  "store_all buf j [] = buf"
| "store_all buf j (c # cs) = store_all (bech32_store buf j c) (j + 1) cs"

lemma length_bech32_store [simp]: "length (bech32_store buf j c) = length buf"
  by (simp add: bech32_store_def Let_def)

lemma store_x: "(j mod 8) * 5 - ((j mod 8) * 5 div 8) * 8 = 5 * j mod 8"
  and store_p: "(j div 8) * 5 + (j mod 8) * 5 div 8 = 5 * j div 8" for j :: nat
proof -
  have "(j mod 8) * 5 - ((j mod 8) * 5 div 8) * 8 = (j mod 8) * 5 mod 8" by (simp add: minus_div_mult_eq_mod)
  also have "\<dots> = 5 * j mod 8" by (metis mod_mult_left_eq mult.commute)
  finally show "(j mod 8) * 5 - ((j mod 8) * 5 div 8) * 8 = 5 * j mod 8" .
  show "(j div 8) * 5 + (j mod 8) * 5 div 8 = 5 * j div 8"
  proof -
    have "5 * j = 8 * (5 * (j div 8)) + (j mod 8) * 5" using mult_div_mod_eq [of 8 j] by linarith
    then show ?thesis by (metis add.commute div_mult_self2 mult.commute zero_neq_numeral)
  qed
qed

lemma bech32_store_bit:
  assumes c: "\<And>m. bit c m \<Longrightarrow> m < 5" and len: "5 * j + 4 < 8 * length buf" and q: "q < length buf" and n: "n < 8"
  shows "bit (bech32_store buf j c ! q) n \<longleftrightarrow>
    bit (buf ! q) n \<or> (8 * q + 7 - n) div 5 = j \<and> bit c (4 - (8 * q + 7 - n) mod 5)"
proof -
  define x where "x = 5 * j mod 8"
  define p where "p = 5 * j div 8"
  have px: "8 * p + x = 5 * j" "x < 8" by (simp_all add: x_def p_def)
  have st: "bech32_store buf j c =
      (let buf1 = buf[p := buf ! p OR ucast (drop_bit x (push_bit 3 (ucast c :: u32)))]
       in if x > 3 then buf1[p + 1 := buf1 ! (p + 1) OR ucast (push_bit (11 - x) (ucast c :: u32))] else buf1)"
    unfolding bech32_store_def store_x store_p x_def p_def by (simp only: Let_def)
  have p: "p < length buf" "3 < x \<Longrightarrow> p + 1 < length buf" using px len by linarith+
  have first: "bit (ucast (drop_bit x (push_bit 3 (ucast c :: u32))) :: u8) n \<longleftrightarrow> 3 \<le> n + x \<and> bit c (n + x - 3)"
    using n c [of "n + x - 3"] px(2) by (auto simp: bit_simps add.commute)
  have second: "bit (ucast (push_bit (11 - x) (ucast c :: u32)) :: u8) n \<longleftrightarrow> 11 - x \<le> n \<and> bit c (n - (11 - x))"
    using n by (auto simp: bit_simps)
  consider "q = p" | "q = p + 1" | "q \<noteq> p" "q \<noteq> p + 1" by blast
  then show ?thesis
  proof cases
    case 1
    have "(8 * q + 7 - n) div 5 = j \<and> bit c (4 - (8 * q + 7 - n) mod 5) \<longleftrightarrow> 3 \<le> n + x \<and> bit c (n + x - 3)"
    proof (cases "3 \<le> n + x \<and> n + x < 8")
      case True
      then obtain r where r: "8 * q + 7 - n = 5 * j + r" "r < 5" "4 - r = n + x - 3"
        using px 1 n by (intro that [of "7 - n - x"]; linarith)
      then have "(8 * q + 7 - n) div 5 = j" "(8 * q + 7 - n) mod 5 = r" by simp_all
      then show ?thesis using True r(3) by simp
    next
      case False
      then have "\<not> (8 * q + 7 - n) div 5 = j" using px 1 n by linarith
      moreover have "\<not> (3 \<le> n + x \<and> bit c (n + x - 3))" using False c [of "n + x - 3"] by linarith
      ultimately show ?thesis by blast
    qed
    then show ?thesis using 1 p first by (auto simp: st Let_def bit_or_iff)
  next
    case 2
    have "(8 * q + 7 - n) div 5 = j \<and> bit c (4 - (8 * q + 7 - n) mod 5) \<longleftrightarrow> 3 < x \<and> 11 - x \<le> n \<and> bit c (n - (11 - x))"
    proof (cases "11 \<le> n + x")
      case True
      then obtain r where r: "8 * q + 7 - n = 5 * j + r" "r < 5" "4 - r = n - (11 - x)"
        using px 2 n by (intro that [of "15 - n - x"]; linarith)
      then have "(8 * q + 7 - n) div 5 = j" "(8 * q + 7 - n) mod 5 = r" by simp_all
      moreover have "3 < x" "11 - x \<le> n" using True n px(2) by linarith+
      ultimately show ?thesis using r(3) by simp
    next
      case False
      then have "\<not> (8 * q + 7 - n) div 5 = j" using px 2 n by linarith
      then show ?thesis using False px(2) by auto
    qed
    then show ?thesis using 2 p second q by (auto simp: st Let_def bit_or_iff)
  next
    case 3
    then have "\<not> (8 * q + 7 - n) div 5 = j" using px n by linarith
    then show ?thesis using 3 by (auto simp: st Let_def)
  qed
qed

lemma length_store_all [simp]: "length (store_all buf j ds) = length buf"
  by (induction ds arbitrary: buf j) simp_all

lemma store_all_bit:
  assumes "\<forall>c \<in> set ds. \<forall>m. bit c m \<longrightarrow> m < 5" "5 * (j + length ds) \<le> 8 * length buf" "q < length buf" "n < 8"
  shows "bit (store_all buf j ds ! q) n \<longleftrightarrow> bit (buf ! q) n \<or>
    (let s = 8 * q + 7 - n in j \<le> s div 5 \<and> s div 5 < j + length ds \<and> bit (ds ! (s div 5 - j)) (4 - s mod 5))"
  using assms
proof (induction ds arbitrary: buf j)
  case (Cons c cs)
  let ?s = "8 * q + 7 - n"
  have step: "bit (bech32_store buf j c ! q) n \<longleftrightarrow> bit (buf ! q) n \<or> ?s div 5 = j \<and> bit c (4 - ?s mod 5)"
    using Cons.prems by (intro bech32_store_bit) auto
  have "bit (store_all buf j (c # cs) ! q) n \<longleftrightarrow> bit (bech32_store buf j c ! q) n \<or>
      (j + 1 \<le> ?s div 5 \<and> ?s div 5 < j + 1 + length cs \<and> bit (cs ! (?s div 5 - (j + 1))) (4 - ?s mod 5))"
    using Cons.IH [where buf = "bech32_store buf j c" and j = "j + 1"] Cons.prems by (simp add: Let_def)
  then show ?case unfolding step Let_def
    by (cases "?s div 5 = j") (auto simp: nth_Cons' Suc_diff_le)
qed (auto simp: Let_def)

lemma store_groups:
  assumes "length d \<le> 40"
  shows "take (length d) (store_all (replicate 52 0) 0 (map (group d) [0..<(8 * length d + 4) div 5])) = d"
proof (rule nth_equalityI)
  fix q assume "q < length (take (length d) (store_all (replicate 52 0) 0 (map (group d) [0..<(8 * length d + 4) div 5])))"
  then have q: "q < length d" by simp
  let ?ds = "map (group d) [0..<(8 * length d + 4) div 5]"
  show "take (length d) (store_all (replicate 52 0) 0 ?ds) ! q = d ! q"
  proof (rule bit_word_eqI)
    fix n assume "n < LENGTH(8)"
    then have n: "n < 8" by simp
    define s where "s = 8 * q + 7 - n"
    have s: "s div 8 = q" "7 - s mod 8 = n"
    proof -
      define r where "r = 7 - n"
      have "s = 8 * q + r" "r < 8" "7 - r = n" using n by (simp_all add: s_def r_def)
      then show "s div 8 = q" "7 - s mod 8 = n" by simp_all
    qed
    have in_range: "s div 5 < (8 * length d + 4) div 5" using q n by (simp add: s_def div_less_iff_less_mult less_eq_div_iff_mult_less_eq)
    have pos: "5 * (s div 5) + 4 - (4 - s mod 5) = s" by presburger
    have "bit (store_all (replicate 52 0) 0 ?ds ! q) n \<longleftrightarrow> bit (?ds ! (s div 5)) (4 - s mod 5)"
      using store_all_bit [of ?ds 0 "replicate 52 0" q n] q n assms in_range
      by (auto simp: bit_group s_def [symmetric] Let_def)
    also have "\<dots> \<longleftrightarrow> byte_stream d s"
    proof -
      have "4 - s mod 5 < 5" by simp
      then show ?thesis using in_range by (simp add: bit_group pos)
    qed
    also have "\<dots> \<longleftrightarrow> bit (d ! q) n" using q by (simp add: byte_stream_def s)
    finally show "bit (take (length d) (store_all (replicate 52 0) 0 ?ds) ! q) n = bit (d ! q) n" using q by simp
  qed
qed (use assms in simp)

section \<open>Decoding what was encoded\<close>

abbreviation bech32_char :: "u8 \<Rightarrow> u8" where
  "bech32_char d \<equiv> bech32_chars ! unat d"

lemma bech32_char_facts:
  assumes "unat d < 32"
  shows "bech32_digit (to_lower (bech32_char d)) = Some d" "bech32_char d \<noteq> 0x31" "\<not> is_upper (bech32_char d)"
    "33 \<le> bech32_char d" "bech32_char d \<le> 126"
proof -
  have all: "\<forall>n \<in> set [0..<32]. bech32_digit (to_lower (bech32_chars ! n)) = Some (of_nat n) \<and> bech32_chars ! n \<noteq> 0x31 \<and>
      \<not> is_upper (bech32_chars ! n) \<and> 33 \<le> bech32_chars ! n \<and> bech32_chars ! n \<le> 126"
    by code_simp
  have "unat d \<in> set [0..<32]" using assms by simp
  with all show "bech32_digit (to_lower (bech32_char d)) = Some d" "bech32_char d \<noteq> 0x31" "\<not> is_upper (bech32_char d)"
    "33 \<le> bech32_char d" "bech32_char d \<le> 126" by fastforce+
qed

lemma bech32_emit_pair: "bech32_emit (chk, addr) c = (chk_step chk c, addr @ [bech32_char c])"
  by (simp add: bech32_emit_def)

lemma chk_chars:
  "map (\<lambda>j. bech32_chars ! unat (drop_bit ((5 - j) * 5) v AND 0x1f)) [0..<6] = map bech32_char (map (chk_digit v) [0..<6])"
proof -
  have "unat (drop_bit k v AND 0x1f) = unat (ucast (drop_bit k v AND 0x1f) :: u8)" for k
  proof -
    have "(ucast (ucast (drop_bit k v AND 0x1f) :: u8) :: u32) = drop_bit k v AND 0x1f"
      by (rule bit_word_eqI) (auto simp: bit_simps bit_1f_u32 bit_1f_int)
    then show ?thesis by (metis unat_ucast_u8_u32)
  qed
  then show ?thesis by (simp add: chk_digit_def)
qed

lemma emits_text: "emits (chk, addr) ds = (foldl chk_step chk ds, addr @ map bech32_char ds)"
  by (induction ds arbitrary: chk addr) (simp_all add: bech32_emit_def)

lemma decode_checksum_part:
  assumes "\<And>c. c \<in> set cs \<Longrightarrow> unat c < 32" "n \<le> k + 6" "0 < k"
  shows "bech32_decode_loop n k (map bech32_char cs) chk ver buf = Some (foldl chk_step chk cs, ver, buf)"
  using assms by (induction cs arbitrary: k chk) (simp_all add: bech32_char_facts Let_def)

lemma decode_data_part:
  assumes "\<And>c. c \<in> set (ds @ cs) \<Longrightarrow> unat c < 32" "n = k + length ds + 6" "0 < k" "length cs = 6"
  shows "bech32_decode_loop n k (map bech32_char (ds @ cs)) chk ver buf =
    Some (foldl chk_step chk (ds @ cs), ver, store_all buf (k - 1) ds)"
  using assms
proof (induction ds arbitrary: k chk buf)
  case Nil
  then show ?case using decode_checksum_part [of cs n k chk ver buf] by simp
next
  case (Cons c ds)
  have "bech32_decode_loop n (k + 1) (map bech32_char (ds @ cs)) (chk_step chk c) ver (bech32_store buf (k - 1) c) =
      Some (foldl chk_step (chk_step chk c) (ds @ cs), ver, store_all (bech32_store buf (k - 1) c) (k + 1 - 1) ds)"
    using Cons.prems by (intro Cons.IH) auto
  then show ?case using Cons.prems by (simp add: bech32_char_facts Let_def)
qed

lemma last_separator_at:
  assumes "\<And>i. h < i \<Longrightarrow> i \<le> m \<Longrightarrow> (addr @ [0]) ! i \<noteq> 0x31" "(addr @ [0]) ! h = 0x31" "0 < h" "h \<le> m"
  shows "last_separator addr m = h"
  using assms
proof (induction m)
  case (Suc m)
  show ?case
  proof (cases "h = Suc m")
    case True
    then show ?thesis using Suc.prems(2) by simp
  next
    case False
    then have "last_separator addr m = h" using Suc by simp
    moreover have "(addr @ [0]) ! Suc m \<noteq> 0x31" using Suc.prems(1,4) False by (metis le_neq_implies_less order_refl)
    ultimately show ?thesis by simp
  qed
qed simp

lemma last_separator_text:
  assumes "0x31 \<notin> set rest" "hrp \<noteq> []"
  shows "last_separator (hrp @ 0x31 # rest) (length (hrp @ 0x31 # rest)) = length hrp"
proof (rule last_separator_at)
  fix i assume i: "length hrp < i" "i \<le> length (hrp @ 0x31 # rest)"
  then obtain k where k: "i = length hrp + Suc k" by (metis less_iff_Suc_add add_Suc_right)
  have "(rest @ [0]) ! k \<in> set (rest @ [0])" using i k by (intro nth_mem) simp
  then show "((hrp @ 0x31 # rest) @ [0]) ! i \<noteq> 0x31" using assms(1) k by (auto simp: nth_append)
qed (use assms(2) in \<open>simp_all add: nth_append\<close>)

text \<open>What the encoder writes, digit by digit.\<close>

definition witness_number :: "u8 \<Rightarrow> u8" where
  "witness_number op = (if op \<ge> OP_1 then op + 1 - OP_1 else 0)"

definition bech32_digits :: "bytes \<Rightarrow> u8 \<Rightarrow> bytes \<Rightarrow> bytes" where
  "bech32_digits hrp op prog =
     (let ds = witness_number op # map (group prog) [0..<(8 * length prog + 4) div 5];
          v = ((polymod ^^ 6) (foldl chk_step (bech32_hrp_chk hrp) ds)) XOR 1
      in ds @ map (chk_digit v) [0..<6])"

definition bech32_text :: "bytes \<Rightarrow> u8 \<Rightarrow> bytes \<Rightarrow> bytes" where
  "bech32_text hrp op prog = hrp @ 0x31 # map bech32_char (bech32_digits hrp op prog)"

lemma length_bech32_text:
  "length (bech32_text hrp op prog) = length hrp + 8 + (8 * length prog + 4) div 5"
  by (simp add: bech32_text_def bech32_digits_def Let_def)

lemma witness_version_cases: "witness_version op \<Longrightarrow> op = 0 \<or> (OP_1 \<le> op \<and> op \<le> OP_16)"
  by (simp add: witness_version_def OP_0_def)

lemma witness_number_le:
  assumes "witness_version op"
  shows "witness_number op \<le> 16" "(if witness_number op = 0 then OP_0 else witness_number op + OP_1 - 1) = op"
proof -
  have "witness_number op \<le> 16 \<and> (if witness_number op = 0 then OP_0 else witness_number op + OP_1 - 1) = op"
  proof (cases "op = 0")
    case False
    with witness_version_cases [OF assms] have op: "0x51 \<le> op" "op \<le> 0x60" by (simp_all add: OP_1_def OP_16_def)
    have "unat (op - 0x50) = unat op - 0x50" using unat_sub [of "0x50" op] op by (simp add: word_le_nat_alt)
    moreover have "0x51 \<le> unat op" "unat op \<le> 0x60" using op by (simp_all add: word_le_nat_alt)
    ultimately have "op - 0x50 \<le> 16" "op - 0x50 \<noteq> 0"
      by (simp_all add: word_le_nat_alt unat_eq_0 [symmetric] del: unat_eq_0)
    then show ?thesis using op by (simp add: witness_number_def OP_1_def)
  qed (simp add: witness_number_def OP_1_def OP_0_def)
  then show "witness_number op \<le> 16" "(if witness_number op = 0 then OP_0 else witness_number op + OP_1 - 1) = op" by blast+
qed

lemma bech32_digits_less:
  assumes "witness_version op" "c \<in> set (bech32_digits hrp op prog)"
  shows "unat c < 32"
  using assms(2) witness_number_le(1) [OF assms(1)] unat_group unat_chk_digit
  by (auto simp: bech32_digits_def Let_def word_le_nat_alt)

lemma BRBech32Encode_text:
  assumes "length hrp \<le> 84" "\<forall>c \<in> set hrp. 33 \<le> c \<and> c \<le> 126 \<and> \<not> is_upper c" "witness_version op"
    and "2 \<le> length prog" "length prog \<le> 40" "length hrp + length prog + 8 < 91"
  shows "BRBech32Encode hrp (op # of_nat (length prog) # prog @ rest) =
    (if length (bech32_text hrp op prog) + 1 > 91 then Undefined else Returns (bech32_text hrp op prog))"
proof -
  let ?data = "op # of_nat (length prog) # prog @ rest"
  have len: "unat (of_nat (length prog) :: u8) = length prog" using assms(5) by (intro unat_of_nat_small) simp
  have loop: "fst (foldl (bech32_encode_step ?data (length prog)) (st, 0) [0..<length prog + 1])
      = emits st (map (group prog) [0..<(8 * length prog + 4) div 5])" for st
    by (rule encode_loop [OF refl])
  have ver: "(if op \<ge> OP_1 then op + 1 - OP_1 else 0) = witness_number op"
    by (simp add: witness_number_def)
  have "\<not> (op > OP_0 \<and> op < OP_1)" using witness_version_cases [OF assms(3)] by (auto simp: OP_0_def)
  moreover have "\<not> witness_number op > 16" using witness_number_le(1) [OF assms(3)] by simp
  moreover have "\<not> (\<exists>c \<in> set hrp. c < 33 \<or> c > 126 \<or> is_upper c)" using assms(2) by (auto simp: not_less)
  moreover have dat: "?data ! 1 = of_nat (length prog)" "?data ! 0 = op" by simp_all
  let ?st = "(chk_step (bech32_hrp_chk hrp) (witness_number op), (hrp @ [0x31]) @ [bech32_char (witness_number op)])"
  obtain b where b: "foldl (bech32_encode_step ?data (length prog)) (?st, 0) [0..<length prog + 1]
      = (emits ?st (map (group prog) [0..<(8 * length prog + 4) div 5]), b)"
    using loop [of ?st] by (metis prod.collapse)
  ultimately have "BRBech32Encode hrp ?data =
      (let ds = map (group prog) [0..<(8 * length prog + 4) div 5];
           v = ((polymod ^^ 6) (foldl chk_step (chk_step (bech32_hrp_chk hrp) (witness_number op)) ds)) XOR 1;
           text = ((hrp @ [0x31]) @ [bech32_char (witness_number op)] @ map bech32_char ds) @ map bech32_char (map (chk_digit v) [0..<6])
       in if length text + 1 > 91 then Undefined else Returns text)"
    unfolding BRBech32Encode_def ver dat len chk_chars using assms(1,4,5,6)
    by (simp only: Let_def bech32_emit_pair b emits_text prod.case) simp
  then show ?thesis by (simp add: bech32_text_def bech32_digits_def Let_def)
qed

definition hrp_ok :: "bytes \<Rightarrow> bool" where
  "hrp_ok hrp \<longleftrightarrow> hrp \<noteq> [] \<and> (\<forall>c \<in> set hrp. 33 \<le> c \<and> c \<le> 126 \<and> \<not> is_upper c)"

lemma decode_digits_loop:
  assumes "witness_version op" "n = length (bech32_digits hrp op prog)"
  shows "bech32_decode_loop n 0 (map bech32_char (bech32_digits hrp op prog)) (bech32_hrp_chk hrp) 0xff buf =
    Some (1, witness_number op, store_all buf 0 (map (group prog) [0..<(8 * length prog + 4) div 5]))"
proof -
  let ?ds = "map (group prog) [0..<(8 * length prog + 4) div 5]" and ?v = "witness_number op"
  define c where "c = ((polymod ^^ 6) (foldl chk_step (bech32_hrp_chk hrp) (?v # ?ds))) XOR 1"
  let ?cs = "map (chk_digit c) [0..<6]"
  have digits: "bech32_digits hrp op prog = ?v # (?ds @ ?cs)"
    by (simp add: bech32_digits_def c_def Let_def)
  note less = bech32_digits_less [OF assms(1), of _ hrp prog, unfolded digits]
  have "bech32_decode_loop n 1 (map bech32_char (?ds @ ?cs)) (chk_step (bech32_hrp_chk hrp) ?v) ?v buf =
      Some (foldl chk_step (chk_step (bech32_hrp_chk hrp) ?v) (?ds @ ?cs), ?v, store_all buf (1 - 1) ?ds)"
    using less by (intro decode_data_part) (simp_all add: assms(2) digits)
  moreover have "foldl chk_step (chk_step (bech32_hrp_chk hrp) ?v) (?ds @ ?cs) = 1"
    using checksum_closes [OF c_def] by simp
  ultimately show ?thesis using less [of ?v] unfolding digits
    by (simp add: bech32_char_facts Let_def)
qed

lemma BRBech32Decode_text:
  assumes hrp: "hrp_ok hrp" and op: "witness_version op" and len: "2 \<le> length prog" "length prog \<le> 40"
    and fits: "length (bech32_text hrp op prog) \<le> 90"
  shows "BRBech32Decode (bech32_text hrp op prog) = Some (hrp, op # of_nat (length prog) # prog)"
proof -
  let ?addr = "bech32_text hrp op prog" and ?ds = "map bech32_char (bech32_digits hrp op prog)"
  have digit: "c \<noteq> 0x31 \<and> \<not> is_upper c \<and> 33 \<le> c \<and> c \<le> 126" if "c \<in> set ?ds" for c
    using that bech32_digits_less [OF op] bech32_char_facts by auto
  have sep: "last_separator ?addr (length ?addr) = length hrp"
    unfolding bech32_text_def by (rule last_separator_text) (use digit hrp in \<open>auto simp: hrp_ok_def\<close>)
  have upper: "\<not> (\<exists>c \<in> set ?addr. is_upper c)" "\<not> (\<exists>c \<in> set ?addr. c < 33 \<or> c > 126)"
    using digit hrp by (auto simp: bech32_text_def hrp_ok_def is_upper_def not_less)
  have lower: "map to_lower hrp = hrp" and lower': "c \<in> set hrp \<Longrightarrow> to_lower c = c" for c
    using hrp by (auto simp: hrp_ok_def to_lower_def intro: map_idI)
  have nds: "length ?ds = 7 + (8 * length prog + 4) div 5" by (simp add: bech32_digits_def Let_def)
  have parts: "take (length hrp) ?addr = hrp" "drop (length hrp + 1) ?addr = ?ds" "length ?addr - (length hrp + 1) = length ?ds"
    "length ?addr - (length hrp + 2 + 6) = (8 * length prog + 4) div 5"
    by (simp_all add: bech32_text_def nds [simplified])
  have chk: "foldl (\<lambda>chk c. polymod chk XOR ucast (drop_bit 5 (to_lower c))) s hrp =
      foldl (\<lambda>chk c. polymod chk XOR ucast (drop_bit 5 c)) s hrp" for s
    by (rule foldl_cong) (simp_all add: lower')
  have loop: "bech32_decode_loop (length ?ds) 0 ?ds
      (foldl (\<lambda>chk c. polymod chk XOR ucast (c AND 0x1f)) (polymod (foldl (\<lambda>chk c. polymod chk XOR ucast (drop_bit 5 c)) 1 hrp)) hrp)
      0xff (replicate 52 0) =
    Some (1, witness_number op, store_all (replicate 52 0) 0 (map (group prog) [0..<(8 * length prog + 4) div 5]))"
    using decode_digits_loop [OF op, of "length ?ds" hrp prog "replicate 52 0"] by (simp add: bech32_hrp_chk_def Let_def)
  have bufLen: "(8 * length prog + 4) div 5 * 5 div 8 = length prog" by presburger
  have "0 < length hrp" using hrp by (simp add: hrp_ok_def)
  moreover have "8 \<le> length ?addr" "length hrp + 2 + 6 \<le> length ?addr" by (simp_all add: length_bech32_text)
  ultimately show ?thesis
    unfolding BRBech32Decode_def sep parts chk loop bufLen Let_def
    using upper fits len witness_number_le [OF op] store_groups [OF len(2)]
    by (simp add: parts sep chk loop bufLen lower del: replicate.simps)
qed

section \<open>Properties\<close>

text \<open>
  C31: Bech32 round trip. For every human readable part of printable characters without capitals,
  witness version and program of 2 to 40 bytes whose address has at most 90 characters, the decoder
  reads the encoder's address as the same prefix and program, whatever follows the program in memory:
  the regrouping of bits is undone and the checksum comes out as 1.
\<close>

theorem bech32_round_trip:
  assumes "hrp_ok hrp" "witness_version op" "2 \<le> length prog" "length prog \<le> 40"
    and "length hrp + 8 + (8 * length prog + 4) div 5 \<le> 90"
  shows "\<exists>text. BRBech32Encode hrp (op # of_nat (length prog) # prog @ rest) = Returns text \<and>
    length text = length hrp + 8 + (8 * length prog + 4) div 5 \<and>
    BRBech32Decode text = Some (hrp, op # of_nat (length prog) # prog)"
proof (intro exI conjI)
  have "length prog \<le> (8 * length prog + 4) div 5" by presburger
  then show "BRBech32Encode hrp (op # of_nat (length prog) # prog @ rest) = Returns (bech32_text hrp op prog)"
    using assms by (subst BRBech32Encode_text) (auto simp: hrp_ok_def length_bech32_text)
  show "BRBech32Decode (bech32_text hrp op prog) = Some (hrp, op # of_nat (length prog) # prog)"
    using assms by (intro BRBech32Decode_text) (simp_all add: length_bech32_text)
qed (rule length_bech32_text)

theorem bech32_round_trip_witness:
  "\<exists>text. BRBech32Encode [0x62, 0x63] (0 # 20 # replicate 20 7) = Returns text \<and> length text = 42 \<and>
    BRBech32Decode text = Some ([0x62, 0x63], 0 # 20 # replicate 20 7)"
proof -
  have "hrp_ok [0x62, 0x63]" by (simp add: hrp_ok_def is_upper_def)
  moreover have "witness_version 0" by (simp add: witness_version_def OP_0_def)
  ultimately show ?thesis
    using bech32_round_trip [of "[0x62, 0x63]" 0 "replicate 20 7" "[]"] by simp
qed

text \<open>
  The size check of the encoder is wrong: it adds the length of the program in bytes, but the
  address holds 8 characters for 5 bytes. With a prefix of 30 characters and a program of 40 bytes the
  check passes and the encoder writes behind its buffer of 91 characters.
\<close>

theorem bech32_encode_overflow:
  "BRBech32Encode (replicate 30 0x61) (0x51 # 40 # replicate 40 0) = Undefined"
proof -
  have "BRBech32Encode (replicate 30 0x61) (0x51 # of_nat (length (replicate 40 0 :: bytes)) # replicate 40 0 @ []) = Undefined"
    by (subst BRBech32Encode_text) (simp_all add: length_bech32_text is_upper_def witness_version_def OP_1_def OP_16_def)
  then show ?thesis by simp
qed

end
