(* ===== verification/Address.thy ===== *)
theory Address
  imports Base58 Bech32
begin

text \<open>
  Addresses, the second half of \<open>support/BRAddress.c\<close>: from a script, a signature, a witness or a
  hash to the text of an address and back. The text that a function writes with its terminator is an
  \<open>outcome\<close>, \<open>Undefined\<close> where the C code reads memory it has not set or writes behind a buffer.
\<close>

section \<open>The operations\<close>

record BRAddressParams =
  pubKeyPrefix :: u8
  scriptPrefix :: u8
  privKeyPrefix :: u8
  bech32Prefix :: "bytes option"

definition BITCOIN_ADDRESS_PARAMS :: BRAddressParams where
  "BITCOIN_ADDRESS_PARAMS = \<lparr>pubKeyPrefix = 0, scriptPrefix = 5, privKeyPrefix = 128, bech32Prefix = Some [0x62, 0x63]\<rparr>"

definition BITCOIN_TEST_ADDRESS_PARAMS :: BRAddressParams where
  "BITCOIN_TEST_ADDRESS_PARAMS =
     \<lparr>pubKeyPrefix = 111, scriptPrefix = 196, privKeyPrefix = 239, bech32Prefix = Some [0x74, 0x62]\<rparr>"

text \<open>
  A text written with \<open>if (addr && r <= addrLen) memcpy(addr, a, r)\<close>, and the result
  \<open>(! addr || r <= addrLen) ? r : 0\<close>; a text that could not be made has length 0.
\<close>

fun write_text :: "bytes option \<Rightarrow> bytes outcome \<Rightarrow> (bytes option \<times> nat) outcome" where
  "write_text addr Undefined = Undefined"
| "write_text addr Null = Returns (addr, 0)"
| "write_text addr (Returns text) =
     Returns (poke addr 0 (text @ [0]), if room addr (length text + 1) then length text + 1 else 0)"

text \<open>\<open>l\<close> bytes at a pointer returned by \<open>BRScriptData\<close>\<close>

definition pointed :: "bytes option \<Rightarrow> nat \<Rightarrow> bytes" where
  "pointed d l = (case d of None \<Rightarrow> [] | Some b \<Rightarrow> take l b)"

definition BRAddressFromScriptPubKey :: "bytes option \<Rightarrow> BRAddressParams \<Rightarrow> bytes \<Rightarrow> (bytes option \<times> nat) outcome" where
  "BRAddressFromScriptPubKey addr params script =
     (if script = [] \<or> length script > MAX_SCRIPT_LENGTH then Returns (addr, 0)
      else let (elems, count) = script_elems script in
        if is_p2pkh script elems count then
          Returns (BRBase58CheckEncode addr
            (pubKeyPrefix params # pointed (fst (BRScriptData (drop (elems ! 2) script))) 20))
        else if is_p2sh script elems count then
          Returns (BRBase58CheckEncode addr
            (scriptPrefix params # pointed (fst (BRScriptData (drop (elems ! 1) script))) 20))
        else if is_witness script elems count then
          write_text addr (case bech32Prefix params of None \<Rightarrow> Null | Some hrp \<Rightarrow> BRBech32Encode hrp script)
        else Returns (addr, 0))"

definition is_op_number :: "u8 \<Rightarrow> bool" where
  "is_op_number op \<longleftrightarrow> op = OP_0 \<or> (op \<ge> OP_1 \<and> op \<le> OP_16)"

text \<open>
  The pointer \<open>d\<close> is also set by the condition of the second branch, and the function goes by \<open>d\<close>
  afterwards: with a single push that does not start with a small number, \<open>data\<close> is encoded without
  having been written.
\<close>

definition BRAddressFromScriptSig :: "bytes option \<Rightarrow> BRAddressParams \<Rightarrow> bytes \<Rightarrow> (bytes option \<times> nat) outcome" where
  "BRAddressFromScriptSig addr params script =
     (if script = [] \<or> length script > MAX_SCRIPT_LENGTH then Returns (addr, 0)
      else let (elems, count) = script_elems script in
        if count = 2 \<and> elem_op script elems 0 \<le> OP_PUSHDATA4 \<and> (elem_op script elems 1 = 65 \<or> elem_op script elems 1 = 33) then
          (let (d, l) = BRScriptData (drop (elems ! 1) script)
           in if (l \<noteq> 65 \<and> l \<noteq> 33) \<or> d = None then Returns (addr, 0)
              else Returns (BRBase58CheckEncode addr (pubKeyPrefix params # BRHash160 (pointed d l))))
        else if count \<ge> 1 \<and> elem_op script elems (count - 1) \<le> OP_PUSHDATA4 \<and> elem_op script elems (count - 1) > 0 then
          (let (d0, l0) = BRScriptData (drop (elems ! 0) script); (d, l) = BRScriptData (drop (elems ! (count - 1)) script)
           in if count \<ge> 2 \<or> (d0 \<noteq> None \<and> is_op_number (hd (pointed d0 l0)))
              then (if d = None then Returns (addr, 0)
                    else Returns (BRBase58CheckEncode addr (scriptPrefix params # BRHash160 (pointed d l))))
              else if d0 \<noteq> None then Undefined
              else Returns (addr, 0))
        else Returns (addr, 0))"

definition BRAddressFromWitness :: "bytes option \<Rightarrow> BRAddressParams \<Rightarrow> bytes \<Rightarrow> (bytes option \<times> nat) outcome" where
  "BRAddressFromWitness addr params witness =
     (if witness = [] \<or> length witness > MAX_SCRIPT_LENGTH then Returns (addr, 0)
      else let (elems, count) = script_elems witness;
               (d, l) = BRScriptData (drop (elems ! (count - 1)) witness);
               data = (if count = 2 \<and> elem_op witness elems 0 \<le> OP_PUSHDATA4 \<and> elem_op witness elems 0 > 0 \<and>
                          (elem_op witness elems 1 = 65 \<or> elem_op witness elems 1 = 33) then
                         (if (l \<noteq> 65 \<and> l \<noteq> 33) \<or> d = None then None else Some ([0, 20] @ BRHash160 (pointed d l)))
                       else if count \<ge> 2 \<and> is_op_number (elem_op witness elems 0) \<and>
                          elem_op witness elems (count - 1) \<le> OP_PUSHDATA4 \<and> elem_op witness elems (count - 1) > 0 then
                         (if d = None then None else Some ([elem_op witness elems 0, 32] @ BRSHA256 (pointed d l)))
                       else None)
           in write_text addr (case data of None \<Rightarrow> Null
                | Some b \<Rightarrow> BRBech32Encode (case bech32Prefix params of None \<Rightarrow> [] | Some hrp \<Rightarrow> hrp) b))"

definition BRAddressFromHash160 :: "bytes option \<Rightarrow> BRAddressParams \<Rightarrow> bytes \<Rightarrow> (bytes option \<times> nat) outcome" where
  "BRAddressFromHash160 addr params md20 =
     (case bech32Prefix params of
        Some hrp \<Rightarrow> write_text addr (BRBech32Encode hrp ([0, 20] @ take 20 md20))
      | None \<Rightarrow>
          (case BRBase58CheckEncode (Some (replicate 91 0)) (pubKeyPrefix params # take 20 md20) of
             (Some a, r) \<Rightarrow> Returns (poke addr 0 (take r a), if room addr r then r else 0)
           | (None, r) \<Rightarrow> Undefined))"

text \<open>The payload and result of \<open>BRBase58CheckDecode\<close> on a buffer of \<open>n\<close> bytes.\<close>

definition check_decoded :: "nat \<Rightarrow> bytes \<Rightarrow> bytes \<times> nat" where
  "check_decoded n addr =
     (case BRBase58CheckDecode (Some (replicate n 0)) addr of (Some b, r) \<Rightarrow> (take r b, r) | (None, r) \<Rightarrow> ([], r))"

text \<open>\<open>data[0] != OP_0 || data[1] == 20 || data[1] == 32\<close> and the prefix is that of the network.\<close>

definition bech32_address :: "BRAddressParams \<Rightarrow> bytes \<Rightarrow> bytes option" where
  "bech32_address params addr =
     (case BRBech32Decode addr of
        None \<Rightarrow> None
      | Some (hrp, data) \<Rightarrow>
          if length data > 2 \<and> bech32Prefix params = Some hrp \<and> (data ! 0 \<noteq> OP_0 \<or> data ! 1 = 20 \<or> data ! 1 = 32)
          then Some data else None)"

definition BRAddressScriptPubKey :: "bytes option \<Rightarrow> BRAddressParams \<Rightarrow> bytes \<Rightarrow> bytes option \<times> nat" where
  "BRAddressScriptPubKey script params addr =
     (let (data, r) = check_decoded 42 addr in
      if r = 21 then
        (if data ! 0 = pubKeyPrefix params then
           (poke script 0 ([OP_DUP, OP_HASH160, 20] @ take 20 (drop 1 data) @ [OP_EQUALVERIFY, OP_CHECKSIG]),
            if room script 25 then 25 else 0)
         else if data ! 0 = scriptPrefix params then
           (poke script 0 ([OP_HASH160, 20] @ take 20 (drop 1 data) @ [OP_EQUAL]), if room script 23 then 23 else 0)
         else (script, 0))
      else case bech32_address params addr of
          None \<Rightarrow> (script, 0)
        | Some data \<Rightarrow> (poke script 0 data, if room script (length data) then length data else 0))"

text \<open>\<open>Some md20\<close> if the result is true.\<close>

definition BRAddressHash160 :: "BRAddressParams \<Rightarrow> bytes \<Rightarrow> bytes option" where
  "BRAddressHash160 params addr =
     (let (data, r) = check_decoded 41 addr in
      if r = 21 then (if data ! 0 = pubKeyPrefix params \<or> data ! 0 = scriptPrefix params then Some (take 20 (drop 1 data)) else None)
      else case BRBech32Decode addr of
          None \<Rightarrow> None
        | Some (hrp, data) \<Rightarrow>
            if length data = 22 \<and> bech32Prefix params = Some hrp \<and> data ! 1 = 20 then Some (take 20 (drop 2 data)) else None)"

definition BRAddressIsValid :: "BRAddressParams \<Rightarrow> bytes \<Rightarrow> bool" where
  "BRAddressIsValid params addr =
     (let (data, r) = check_decoded 42 addr in
      if r = 21 then data ! 0 = pubKeyPrefix params \<or> data ! 0 = scriptPrefix params
      else bech32_address params addr \<noteq> None)"

text \<open>
  A \<open>BRAddress\<close> is the text in a zeroed array of 75 characters; \<open>BRAddressEq\<close> compares up to the
  terminator.
\<close>

definition BR_ADDRESS_NONE :: bytes where "BR_ADDRESS_NONE = replicate 75 0"

definition c_string :: "bytes \<Rightarrow> bytes" where
  "c_string s = takeWhile (\<lambda>c. c \<noteq> 0) s"

definition BRAddressEq :: "bytes \<Rightarrow> bytes \<Rightarrow> bool" where
  "BRAddressEq addr otherAddr \<longleftrightarrow> addr = otherAddr \<or> c_string (take 75 addr) = c_string (take 75 otherAddr)"

definition BRAddressFill :: "BRAddressParams \<Rightarrow> bytes \<Rightarrow> bytes" where
  "BRAddressFill params str =
     (if BRAddressIsValid params str
      then (let s = take 74 str in s @ [0] @ drop (length s + 1) BR_ADDRESS_NONE)
      else BR_ADDRESS_NONE)"

section \<open>Base58 addresses\<close>

lemma check_decoded_eq:
  "check_decoded n addr =
     (let p = base58check_payload addr in if length p \<le> n then (p, length p) else ([], 0))"
  by (simp add: check_decoded_def BRBase58CheckDecode_eq Let_def)

definition base58_address :: "u8 \<Rightarrow> bytes \<Rightarrow> bytes" where
  "base58_address v h = base58_text (base58check_bytes (v # h))"

lemma check_decoded_address: "length h = 20 \<Longrightarrow> 21 \<le> n \<Longrightarrow> check_decoded n (base58_address v h) = (v # h, 21)"
  by (simp add: check_decoded_eq base58_address_def base58check_payload_text Let_def)

lemma elems_p2pkh: "length h = 20 \<Longrightarrow> script_elems (p2pkh_script h) = ([0, 1, 2, 23, 24], 5)"
  using script_elems_chain [OF chain_p2pkh, of h] by simp

lemma elems_p2sh: "length h = 20 \<Longrightarrow> script_elems (p2sh_script h) = ([0, 1, 22], 3)"
  using script_elems_chain [OF chain_p2sh, of h] by simp

lemma BRAddressFromScriptPubKey_p2pkh:
  assumes "length h = 20"
  shows "BRAddressFromScriptPubKey addr params (p2pkh_script h) = Returns (BRBase58CheckEncode addr (pubKeyPrefix params # h))"
proof -
  have "is_p2pkh (p2pkh_script h) [0, 1, 2, 23, 24] 5"
    using assms by (simp add: is_p2pkh_def elem_op_def p2pkh_script_def nth_append)
  moreover have "pointed (fst (BRScriptData (drop 2 (p2pkh_script h)))) 20 = h"
    using assms by (simp add: pointed_def BRScriptData_def p2pkh_script_def opcodes)
  moreover have "p2pkh_script h \<noteq> []" "length (p2pkh_script h) \<le> MAX_SCRIPT_LENGTH"
    using assms by (simp_all add: p2pkh_script_def MAX_SCRIPT_LENGTH_def)
  ultimately show ?thesis
    by (simp add: BRAddressFromScriptPubKey_def elems_p2pkh [OF assms])
qed

lemma BRAddressFromScriptPubKey_p2sh:
  assumes "length h = 20"
  shows "BRAddressFromScriptPubKey addr params (p2sh_script h) = Returns (BRBase58CheckEncode addr (scriptPrefix params # h))"
proof -
  have "is_p2sh (p2sh_script h) [0, 1, 22] 3" "\<not> is_p2pkh (p2sh_script h) [0, 1, 22] 3"
    using assms by (simp_all add: is_p2sh_def is_p2pkh_def elem_op_def p2sh_script_def nth_append)
  moreover have "pointed (fst (BRScriptData (drop 1 (p2sh_script h)))) 20 = h"
    using assms by (simp add: pointed_def BRScriptData_def p2sh_script_def opcodes)
  moreover have "p2sh_script h \<noteq> []" "length (p2sh_script h) \<le> MAX_SCRIPT_LENGTH"
    using assms by (simp_all add: p2sh_script_def MAX_SCRIPT_LENGTH_def)
  ultimately show ?thesis
    by (simp add: BRAddressFromScriptPubKey_def elems_p2sh [OF assms])
qed

section \<open>Witness addresses\<close>

lemma is_witness_program:
  assumes "witness_version op" "2 \<le> length prog" "length prog \<le> 40" "op = OP_0 \<Longrightarrow> length prog = 20 \<or> length prog = 32"
  shows "script_elems (witness_script op prog) = ([0, 1], 2)" "is_witness (witness_script op prog) [0, 1] 2"
    "\<not> is_p2pkh (witness_script op prog) [0, 1] 2" "\<not> is_p2sh (witness_script op prog) [0, 1] 2"
    "witness_script op prog \<noteq> []" "length (witness_script op prog) \<le> MAX_SCRIPT_LENGTH"
proof -
  have len: "unat (of_nat (length prog) :: u8) = length prog" using assms(3) by (intro unat_of_nat_small) simp
  have "chain (witness_script op prog) 0 [0, 1]"
    by (rule chain_witness) (use assms in \<open>auto simp: opcodes\<close>)
  then show "script_elems (witness_script op prog) = ([0, 1], 2)" using script_elems_chain by fastforce
  have "(of_nat (length prog) :: u8) \<ge> 2" "(of_nat (length prog) :: u8) \<le> 40" using assms(2,3) len by (simp_all add: word_le_nat_alt)
  then show "is_witness (witness_script op prog) [0, 1] 2"
    using assms(1,4) by (auto simp: is_witness_def elem_op_def witness_script_def witness_version_def)
qed (use assms in \<open>auto simp: is_p2pkh_def is_p2sh_def witness_script_def MAX_SCRIPT_LENGTH_def\<close>)

text \<open>The texts that some networks could read both ways are excluded: Base58Check goes first.\<close>

definition not_base58 :: "bytes \<Rightarrow> bool" where
  "not_base58 text \<longleftrightarrow> snd (BRBase58CheckDecode None text) \<noteq> 21"

lemma not_base58_decoded: "not_base58 text \<Longrightarrow> snd (check_decoded n text) \<noteq> 21"
  by (simp add: not_base58_def BRBase58CheckDecode_eq check_decoded_eq Let_def)

lemma bech32_address_text:
  assumes "hrp_ok hrp" "witness_version op" "2 \<le> length prog" "length prog \<le> 40"
    and "op = OP_0 \<Longrightarrow> length prog = 20 \<or> length prog = 32"
    and "length (bech32_text hrp op prog) \<le> 90" "bech32Prefix params = Some hrp"
  shows "bech32_address params (bech32_text hrp op prog) = Some (witness_script op prog)"
  using BRBech32Decode_text [OF assms(1-4,6)] assms
  by (auto simp: bech32_address_def witness_script_def)

section \<open>Properties\<close>

text \<open>
  C27: Base58 addresses. For every 20 byte hash, the pay-to-pubkey-hash and (where its prefix differs)
  the pay-to-script-hash script is turned into an address that is valid and is turned back into the
  same script and the same hash; for a network without Bech32 prefix this is also the address of the
  hash itself.
\<close>

theorem address_base58_round_trip:
  assumes "length h = 20" "scr = p2pkh_script h \<or> (scr = p2sh_script h \<and> scriptPrefix params \<noteq> pubKeyPrefix params)"
  shows "\<exists>text. BRAddressFromScriptPubKey (Some (replicate (length text + 1) 0)) params scr = Returns (Some (text @ [0]), length text + 1) \<and>
    BRAddressScriptPubKey (Some (replicate (length scr) 0)) params text = (Some scr, length scr) \<and>
    BRAddressHash160 params text = Some h \<and> BRAddressIsValid params text \<and>
    (scr = p2pkh_script h \<and> bech32Prefix params = None \<longrightarrow>
      BRAddressFromHash160 (Some (replicate (length text + 1) 0)) params h = Returns (Some (text @ [0]), length text + 1))"
proof -
  let ?v = "if scr = p2pkh_script h then pubKeyPrefix params else scriptPrefix params"
  let ?t = "base58_address ?v h"
  have enc: "BRBase58CheckEncode (Some (replicate (length ?t + 1) 0)) (?v # h) = (Some (?t @ [0]), length ?t + 1)"
    using base58check.two_pass [of "replicate (length ?t + 1) 0" "?v # h"] base58check.query [of "?v # h"]
    by (simp add: base58_address_def)
  have "BRAddressFromScriptPubKey (Some (replicate (length ?t + 1) 0)) params scr = Returns (Some (?t @ [0]), length ?t + 1)"
    using assms enc by (auto simp: BRAddressFromScriptPubKey_p2pkh BRAddressFromScriptPubKey_p2sh)
  moreover have "BRAddressScriptPubKey (Some (replicate (length scr) 0)) params ?t = (Some scr, length scr)"
    using assms by (auto simp: BRAddressScriptPubKey_def check_decoded_address std_scripts)
  moreover have "BRAddressHash160 params ?t = Some h" "BRAddressIsValid params ?t"
    using assms by (auto simp: BRAddressHash160_def BRAddressIsValid_def check_decoded_address)
  moreover have "BRAddressFromHash160 (Some (replicate (length ?t + 1) 0)) params h = Returns (Some (?t @ [0]), length ?t + 1)"
    if "scr = p2pkh_script h" "bech32Prefix params = None"
  proof -
    have lt: "length ?t < 91"
      using length_base58_text_le [of "base58check_bytes (?v # h)"] assms(1) by (simp add: base58_address_def base58check_bytes_def)
    have "BRBase58CheckEncode (Some (replicate 91 0)) (?v # h) = (Some ((?t @ [0]) @ drop (length ?t + 1) (replicate 91 0)), length ?t + 1)"
      using base58check.fill [of "?v # h" "replicate 91 0"] lt by (simp add: base58_address_def)
    then show ?thesis using that assms(1) by (simp add: BRAddressFromHash160_def del: replicate.simps)
  qed
  ultimately show ?thesis by (intro exI [of _ ?t] conjI impI) simp_all
qed

theorem address_base58_round_trip_witness:
  "\<exists>text. BRAddressFromScriptPubKey (Some (replicate (length text + 1) 0)) BITCOIN_ADDRESS_PARAMS (p2sh_script (replicate 20 3))
      = Returns (Some (text @ [0]), length text + 1) \<and>
    BRAddressScriptPubKey (Some (replicate 23 0)) BITCOIN_ADDRESS_PARAMS text = (Some (p2sh_script (replicate 20 3)), 23) \<and>
    BRAddressHash160 BITCOIN_ADDRESS_PARAMS text = Some (replicate 20 3) \<and> BRAddressIsValid BITCOIN_ADDRESS_PARAMS text"
proof -
  have len: "length (p2sh_script (replicate 20 3)) = 23" by (simp add: p2sh_script_def)
  show ?thesis
    using address_base58_round_trip [of "replicate 20 3" "p2sh_script (replicate 20 3)" BITCOIN_ADDRESS_PARAMS]
    unfolding len by (auto simp: BITCOIN_ADDRESS_PARAMS_def)
qed

text \<open>
  C28: Witness addresses. For every witness program of a valid length, version and network prefix, the
  script is turned into an address that is valid and is turned back into the same script, and for 20
  bytes also into the hash, which has this address with version 0; provided the text is not by accident
  a Base58Check string of 21 bytes, which the functions try first.
\<close>

theorem address_witness_round_trip:
  assumes "hrp_ok hrp" "bech32Prefix params = Some hrp" "witness_version op" "2 \<le> length prog" "length prog \<le> 40"
    and "op = OP_0 \<Longrightarrow> length prog = 20 \<or> length prog = 32"
    and "length hrp + 8 + (8 * length prog + 4) div 5 \<le> 90" "not_base58 (bech32_text hrp op prog)"
  shows "\<exists>text. BRAddressFromScriptPubKey (Some (replicate (length text + 1) 0)) params (witness_script op prog)
      = Returns (Some (text @ [0]), length text + 1) \<and>
    BRAddressScriptPubKey (Some (replicate (length prog + 2) 0)) params text = (Some (witness_script op prog), length prog + 2) \<and>
    BRAddressIsValid params text \<and>
    BRAddressHash160 params text = (if length prog = 20 then Some prog else None) \<and>
    (op = OP_0 \<and> length prog = 20 \<longrightarrow>
      BRAddressFromHash160 (Some (replicate (length text + 1) 0)) params prog = Returns (Some (text @ [0]), length text + 1))"
proof -
  let ?t = "bech32_text hrp op prog"
  note prog = is_witness_program [OF assms(3-6), unfolded One_nat_def]
  have len: "length ?t \<le> 90" using assms(7) by (simp add: length_bech32_text)
  have le: "length prog \<le> (8 * length prog + 4) div 5" by presburger
  have enc: "BRBech32Encode hrp (op # of_nat (length prog) # prog @ []) = Returns ?t"
    using assms(1,3,4,5,7) le by (subst BRBech32Encode_text) (auto simp: hrp_ok_def length_bech32_text)
  have dec: "bech32_address params ?t = Some (witness_script op prog)"
    using assms(1-6) len by (intro bech32_address_text)
  have none: "snd (check_decoded n ?t) \<noteq> 21" for n by (rule not_base58_decoded [OF assms(8)])
  have "BRAddressFromScriptPubKey (Some (replicate (length ?t + 1) 0)) params (witness_script op prog) = Returns (Some (?t @ [0]), length ?t + 1)"
  proof -
    have "BRBech32Encode hrp (witness_script op prog) = Returns ?t" using enc by (simp add: witness_script_def)
    then show ?thesis using assms(2) prog(6) by (simp add: BRAddressFromScriptPubKey_def prog not_less)
  qed
  moreover have "BRAddressScriptPubKey (Some (replicate (length prog + 2) 0)) params ?t = (Some (witness_script op prog), length prog + 2)"
    using none [of 42] dec by (auto simp: BRAddressScriptPubKey_def case_prod_beta witness_script_def)
  moreover have "BRAddressIsValid params ?t"
    using none [of 42] dec by (simp add: BRAddressIsValid_def case_prod_beta)
  moreover have "BRAddressHash160 params ?t = (if length prog = 20 then Some prog else None)"
  proof -
    have "unat (of_nat (length prog) :: u8) = length prog" using assms(5) by (intro unat_of_nat_small) simp
    then have "(of_nat (length prog) :: u8) = 20 \<longleftrightarrow> length prog = 20" by (simp add: word_unat_eq_iff)
    then show ?thesis
      using none [of 41] BRBech32Decode_text [OF assms(1,3,4,5) len] assms(2)
      by (simp add: BRAddressHash160_def case_prod_beta)
  qed
  moreover have "BRAddressFromHash160 (Some (replicate (length ?t + 1) 0)) params prog = Returns (Some (?t @ [0]), length ?t + 1)"
    if "op = OP_0" "length prog = 20"
    using enc assms(2) that by (simp add: BRAddressFromHash160_def OP_0_def)
  ultimately show ?thesis by (intro exI [of _ ?t] conjI impI) simp_all
qed

text \<open>The address of the witness: \<open>bc1ql\<dots>\<close>, where the \<open>l\<close> is no Base58 digit.\<close>

lemma example_address_not_base58: "not_base58 (bech32_text [0x62, 0x63] OP_0 (replicate 20 0xff))"
proof -
  let ?t = "bech32_text [0x62, 0x63] OP_0 (replicate 20 0xff)"
  have g: "group (replicate 20 0xff) 0 = 31" by code_simp
  have u: "[0..<(8 * 20 + 4) div 5] = 0 # [1..<32]" by (simp add: upt_rec)
  have "witness_number OP_0 = 0" "bech32_chars ! 0 = 0x71" "bech32_chars ! 31 = 0x6c" by code_simp+
  then obtain r where t: "?t = [0x62, 0x63, 0x31, 0x71, 0x6c] @ r"
    unfolding bech32_text_def bech32_digits_def Let_def length_replicate u by (simp add: g)
  have r: "length r = 37"
    using arg_cong [OF t, of length] by (simp add: length_bech32_text)
  have p: "takeWhile (\<lambda>c. base58_digit c < 58) ([0x62, 0x63, 0x31, 0x71, 0x6c] @ r) = [0x62, 0x63, 0x31, 0x71]"
    by (simp add: base58_digit_def)
  have z: "leading 0x31 ([0x62, 0x63, 0x31, 0x71, 0x6c] @ r) = 0" by (simp add: leading_def)
  have loop: "base58_decode_loop (replicate 31 0) ([0x62, 0x63, 0x31, 0x71, 0x6c] @ r)
      = base58_decode_loop (replicate 31 0) [0x62, 0x63, 0x31, 0x71]"
    by (subst base58_decode_loop_prefix) (simp only: p)
  have "length (drop (leading 0 b) b) < 4" if "b = base58_decode_loop (replicate 31 0) [0x62, 0x63, 0x31, 0x71]" for b
    unfolding that by code_simp
  then have "length (base58_decoded ?t) < 4"
    unfolding t base58_decoded_def z Let_def using r by (simp add: loop [simplified])
  then show ?thesis
    by (simp add: not_base58_def BRBase58CheckDecode_eq base58check_payload_def)
qed

theorem address_witness_round_trip_witness:
  "\<exists>text. BRAddressFromScriptPubKey (Some (replicate (length text + 1) 0)) BITCOIN_ADDRESS_PARAMS (witness_script OP_0 (replicate 20 0xff))
      = Returns (Some (text @ [0]), length text + 1) \<and>
    BRAddressScriptPubKey (Some (replicate 22 0)) BITCOIN_ADDRESS_PARAMS text = (Some (witness_script OP_0 (replicate 20 0xff)), 22) \<and>
    BRAddressIsValid BITCOIN_ADDRESS_PARAMS text \<and> BRAddressHash160 BITCOIN_ADDRESS_PARAMS text = Some (replicate 20 0xff) \<and>
    BRAddressFromHash160 (Some (replicate (length text + 1) 0)) BITCOIN_ADDRESS_PARAMS (replicate 20 0xff)
      = Returns (Some (text @ [0]), length text + 1)"
proof -
  have "hrp_ok [0x62, 0x63]" by (simp add: hrp_ok_def is_upper_def)
  moreover have "witness_version OP_0" by (simp add: witness_version_def)
  moreover have "bech32Prefix BITCOIN_ADDRESS_PARAMS = Some [0x62, 0x63]" by (simp add: BITCOIN_ADDRESS_PARAMS_def)
  ultimately show ?thesis
    using address_witness_round_trip [of "[0x62, 0x63]" BITCOIN_ADDRESS_PARAMS OP_0 "replicate 20 0xff", OF _ _ _ _ _ _ _ example_address_not_base58]
    by simp
qed

text \<open>
  \<open>BRAddressFromScriptSig\<close> on the signature of a pay-to-pubkey output: for a script that is a single
  push of 1 to 75 bytes which does not start with a small number opcode (a signature starts with
  \<open>0x30\<close>), the function encodes its buffer \<open>data\<close> without having written it.
\<close>

theorem script_sig_single_push:
  assumes "0 < length sig" "length sig < 76" "\<not> is_op_number (hd sig)"
  shows "BRAddressFromScriptSig addr params (of_nat (length sig) # sig) = Undefined"
proof -
  let ?s = "of_nat (length sig) # sig"
  have n: "unat (of_nat (length sig) :: u8) = length sig" using assms(2) by (intro unat_of_nat_small) simp
  then have op: "(of_nat (length sig) :: u8) < OP_PUSHDATA1" using assms(2) by (simp add: opcodes word_less_nat_alt)
  have "elem_next ?s 0 = length ?s"
    using elem_next_push [OF op, of ?s 0] n by simp
  then have "chain ?s 0 [0]" by simp
  then have elems: "script_elems ?s = ([0], 1)" using script_elems_chain by fastforce
  have "(of_nat (length sig) :: u8) \<noteq> 0" using n assms(1) by auto
  moreover have "BRScriptData ?s = (Some sig, length sig)"
    using op n assms(1) by (auto simp: BRScriptData_def opcodes word_less_nat_alt)
  moreover have "hd (pointed (Some sig) (length sig)) = hd sig" by (simp add: pointed_def)
  moreover have "(of_nat (length sig) :: u8) \<le> OP_PUSHDATA4" using op by (simp add: opcodes word_less_nat_alt word_le_nat_alt)
  ultimately show ?thesis
    using assms by (simp add: BRAddressFromScriptSig_def elems elem_op_def MAX_SCRIPT_LENGTH_def word_gt_0)
qed

theorem script_sig_single_push_witness:
  "BRAddressFromScriptSig None BITCOIN_ADDRESS_PARAMS [2, 0x30, 0x06] = Undefined"
  using script_sig_single_push [of "[0x30, 0x06]"] by (simp add: is_op_number_def opcodes)

end
