(* ===== verification/Keys.thy ===== *)
theory Keys
  imports Mac Address "HOL-Library.Monad_Syntax"
begin

text \<open>
  Keys, \<open>support/BRKey.c\<close>, and hierarchical derivation, \<open>support/BRBIP32Sequence.c\<close>. The elliptic curve
  library secp256k1 is a git submodule and not part of the repository: its functions are the fields of
  the record \<open>secp\<close>, an argument of every definition that calls them, and what the properties need of
  its documented behaviour is the predicate \<open>secp_laws\<close>.
\<close>

section \<open>The curve library\<close>

text \<open>
  \<open>'p\<close>, \<open>'s\<close> and \<open>'r\<close> are its opaque public keys, signatures and recoverable signatures. A tweak of a
  secret returns success and the new contents of the secret; a serialization takes the flag for the
  compressed form.
\<close>

record ('p, 's, 'r) secp =
  seckey_verify :: "bytes \<Rightarrow> bool"
  privkey_tweak_add :: "bytes \<Rightarrow> bytes \<Rightarrow> bool \<times> bytes"
  privkey_tweak_mul :: "bytes \<Rightarrow> bytes \<Rightarrow> bool \<times> bytes"
  pubkey_create :: "bytes \<Rightarrow> 'p option"
  pubkey_serialize :: "'p \<Rightarrow> bool \<Rightarrow> bytes"
  pubkey_parse :: "bytes \<Rightarrow> 'p option"
  pubkey_tweak_add :: "'p \<Rightarrow> bytes \<Rightarrow> 'p option"
  pubkey_tweak_mul :: "'p \<Rightarrow> bytes \<Rightarrow> 'p option"
  ecdsa_sign :: "bytes \<Rightarrow> bytes \<Rightarrow> 's option"
  ecdsa_verify :: "'s \<Rightarrow> bytes \<Rightarrow> 'p \<Rightarrow> bool"
  signature_serialize_der :: "'s \<Rightarrow> bytes option"
  signature_parse_der :: "bytes \<Rightarrow> 's option"
  signature_serialize_compact :: "'s \<Rightarrow> bytes option"
  signature_parse_compact :: "bytes \<Rightarrow> 's option"
  sign_recoverable :: "bytes \<Rightarrow> bytes \<Rightarrow> 'r option"
  recoverable_serialize_compact :: "'r \<Rightarrow> (bytes \<times> nat) option"
  recoverable_parse_compact :: "bytes \<Rightarrow> nat \<Rightarrow> 'r option"
  ecdsa_recover :: "'r \<Rightarrow> bytes \<Rightarrow> 'p option"

text \<open>The wrappers: each returns success and the new contents of its first argument.\<close>

definition BRSecp256k1ModAdd :: "('p, 's, 'r) secp \<Rightarrow> bytes \<Rightarrow> bytes \<Rightarrow> bool \<times> bytes" where
  "BRSecp256k1ModAdd lib a b = privkey_tweak_add lib a b"

definition BRSecp256k1ModMul :: "('p, 's, 'r) secp \<Rightarrow> bytes \<Rightarrow> bytes \<Rightarrow> bool \<times> bytes" where
  "BRSecp256k1ModMul lib a b = privkey_tweak_mul lib a b"

definition BRSecp256k1PointGen :: "('p, 's, 'r) secp \<Rightarrow> bytes \<Rightarrow> bytes option" where
  "BRSecp256k1PointGen lib i = map_option (\<lambda>pk. pubkey_serialize lib pk True) (pubkey_create lib i)"

definition BRSecp256k1PointAdd :: "('p, 's, 'r) secp \<Rightarrow> bytes \<Rightarrow> bytes \<Rightarrow> bool \<times> bytes" where
  "BRSecp256k1PointAdd lib p i =
     (case do { pk \<leftarrow> pubkey_parse lib p; pubkey_tweak_add lib pk i } of
        None \<Rightarrow> (False, p) | Some pk \<Rightarrow> (True, pubkey_serialize lib pk True))"

definition BRSecp256k1PointMul :: "('p, 's, 'r) secp \<Rightarrow> bytes \<Rightarrow> bytes \<Rightarrow> bool \<times> bytes" where
  "BRSecp256k1PointMul lib p i =
     (case do { pk \<leftarrow> pubkey_parse lib p; pubkey_tweak_mul lib pk i } of
        None \<Rightarrow> (False, p) | Some pk \<Rightarrow> (True, pubkey_serialize lib pk True))"

section \<open>Keys\<close>

record BRKey =
  secret :: bytes
  pubKey :: bytes
  compressed :: bool

definition BRKeyClean :: BRKey where
  "BRKeyClean = \<lparr>secret = UINT256_ZERO, pubKey = replicate 65 0, compressed = False\<rparr>"

definition BRKeySetSecret :: "('p, 's, 'r) secp \<Rightarrow> bytes \<Rightarrow> bool \<Rightarrow> BRKey \<times> bool" where
  "BRKeySetSecret lib sec cflag =
     (BRKeyClean\<lparr>secret := UInt256Get sec, compressed := cflag\<rparr>, seckey_verify lib (UInt256Get sec))"

definition BRKeySetPubKey :: "('p, 's, 'r) secp \<Rightarrow> bytes \<Rightarrow> BRKey \<times> bool" where
  "BRKeySetPubKey lib pk =
     (BRKeyClean\<lparr>pubKey := pk @ replicate (65 - length pk) 0, compressed := length pk \<le> 33\<rparr>, pubkey_parse lib pk \<noteq> None)"

definition BRKeyIsPrivKey :: "('p, 's, 'r) secp \<Rightarrow> BRKey \<Rightarrow> bool" where
  "BRKeyIsPrivKey lib key = seckey_verify lib (secret key)"

definition BRKeyPrivKey :: "('p, 's, 'r) secp \<Rightarrow> BRKey \<Rightarrow> bytes option \<Rightarrow> BRAddressParams \<Rightarrow> bytes option \<times> nat" where
  "BRKeyPrivKey lib key privKey params =
     (if seckey_verify lib (secret key)
      then BRBase58CheckEncode privKey ([privKeyPrefix params] @ secret key @ (if compressed key then [1] else []))
      else (privKey, 0))"

text \<open>The key with its public key filled in if it was zero, and \<open>size\<close>.\<close>

definition fill_pubKey :: "('p, 's, 'r) secp \<Rightarrow> BRKey \<Rightarrow> BRKey \<times> nat" where
  "fill_pubKey lib key =
     (let size = (if compressed key then 33 else 65) in
      if take size (pubKey key) = replicate size 0 then
        (case pubkey_create lib (secret key) of
           Some pk \<Rightarrow> (let b = pubkey_serialize lib pk (compressed key)
                       in (key\<lparr>pubKey := b @ drop (length b) (pubKey key)\<rparr>, length b))
         | None \<Rightarrow> (key, 0))
      else (key, size))"

definition BRKeyPubKey :: "('p, 's, 'r) secp \<Rightarrow> BRKey \<Rightarrow> bytes option \<Rightarrow> BRKey \<times> bytes option \<times> nat" where
  "BRKeyPubKey lib key buf =
     (let (key', size) = fill_pubKey lib key
      in (key', poke buf 0 (take size (pubKey key')), if room buf size then size else 0))"

text \<open>The two keys after the call and the result. The same object (\<open>key1 == key2\<close>) matches itself.\<close>

definition BRKeyPubKeyMatch :: "('p, 's, 'r) secp \<Rightarrow> BRKey \<Rightarrow> BRKey \<Rightarrow> BRKey \<times> BRKey \<times> bool" where
  "BRKeyPubKeyMatch lib key1 key2 =
     (let key1 = fst (BRKeyPubKey lib key1 None); key2 = fst (BRKeyPubKey lib key2 None);
          p1 = pubKey key1; p2 = pubKey key2;
          half = (\<lambda>u c. c ! 0 = (if u ! 64 mod 2 \<noteq> 0 then 0x03 else 0x02) \<and> take 32 (drop 1 p1) = take 32 (drop 1 p2))
      in (key1, key2,
          if compressed key1 \<and> compressed key2 then take 33 p1 = take 33 p2
          else if \<not> compressed key1 \<and> \<not> compressed key2 then take 65 p1 = take 65 p2
          else if \<not> compressed key1 \<and> compressed key2 then half p1 p2
          else half p2 p1))"

definition UINT160_ZERO :: bytes where "UINT160_ZERO = replicate 20 0"

definition BRKeyHash160 :: "('p, 's, 'r) secp \<Rightarrow> BRKey \<Rightarrow> BRKey \<times> bytes" where
  "BRKeyHash160 lib key =
     (let (key', _, len) = BRKeyPubKey lib key None
      in (key', if len > 0 \<and> pubkey_parse lib (take len (pubKey key')) \<noteq> None
                then BRHash160 (take len (pubKey key')) else UINT160_ZERO))"

definition BRKeyAddress :: "('p, 's, 'r) secp \<Rightarrow> BRKey \<Rightarrow> bytes option \<Rightarrow> BRAddressParams \<Rightarrow> BRKey \<times> (bytes option \<times> nat) outcome" where
  "BRKeyAddress lib key addr params =
     (let (key', hash) = BRKeyHash160 lib key
      in (key', if hash \<noteq> UINT160_ZERO then BRAddressFromHash160 addr params hash else Returns (addr, 0)))"

definition BRKeyLegacyAddr :: "('p, 's, 'r) secp \<Rightarrow> BRKey \<Rightarrow> bytes option \<Rightarrow> BRAddressParams \<Rightarrow> BRKey \<times> bytes option \<times> nat" where
  "BRKeyLegacyAddr lib key addr params =
     (let (key', hash) = BRKeyHash160 lib key
      in (key', if hash \<noteq> UINT160_ZERO then BRBase58CheckEncode addr (pubKeyPrefix params # hash) else (addr, 0)))"

text \<open>\<open>BRKeyECDH\<close>: the x coordinate of the shared point.\<close>

definition BRKeyECDH :: "('p, 's, 'r) secp \<Rightarrow> BRKey \<Rightarrow> BRKey \<Rightarrow> BRKey \<times> bytes" where
  "BRKeyECDH lib privKey pub =
     (let (pub', p, pLen) = BRKeyPubKey lib pub (Some (replicate 65 0));
          b = (case p of None \<Rightarrow> [] | Some b \<Rightarrow> b);
          b' = (if pLen = 65 then b[0 := (if b ! 64 mod 2 \<noteq> 0 then 0x03 else 0x02)] else b);
          (_, q) = BRSecp256k1PointMul lib (take 33 b') (secret privKey)
      in (pub', take 32 (drop 1 q)))"

text \<open>\<open>strspn(privKey, "0123456789ABCDEFabcdef") == 64\<close>\<close>

definition is_hex_digit :: "u8 \<Rightarrow> bool" where
  "is_hex_digit c \<longleftrightarrow> (0x30 \<le> c \<and> c \<le> 0x39) \<or> (0x41 \<le> c \<and> c \<le> 0x46) \<or> (0x61 \<le> c \<and> c \<le> 0x66)"

definition BRPrivKeyIsValid :: "BRAddressParams \<Rightarrow> bytes \<Rightarrow> bool" where
  "BRPrivKeyIsValid params privKey =
     (let (data, dataLen) = check_decoded 34 privKey; strLen = length privKey in
      if dataLen = 33 \<or> dataLen = 34 then data ! 0 = privKeyPrefix params
      else if (strLen = 30 \<or> strLen = 22) \<and> privKey ! 0 = 0x53 then BRSHA256 (privKey @ [0x3f]) ! 0 = 0
      else length (takeWhile is_hex_digit privKey) = 64)"

section \<open>Signatures\<close>

definition write_sig :: "bytes option \<Rightarrow> bytes option \<Rightarrow> bytes option \<times> nat" where
  "write_sig sig s =
     (case s of None \<Rightarrow> (sig, 0) | Some b \<Rightarrow> (poke sig 0 b, if room sig (length b) then length b else 0))"

definition BRKeySign :: "('p, 's, 'r) secp \<Rightarrow> BRKey \<Rightarrow> bytes option \<Rightarrow> bytes \<Rightarrow> bytes option \<times> nat" where
  "BRKeySign lib key sig md = write_sig sig (do { s \<leftarrow> ecdsa_sign lib md (secret key); signature_serialize_der lib s })"

definition BRKeySignJOSE :: "('p, 's, 'r) secp \<Rightarrow> BRKey \<Rightarrow> bytes option \<Rightarrow> bytes \<Rightarrow> bytes option \<times> nat" where
  "BRKeySignJOSE lib key sig md =
     write_sig sig (do { s \<leftarrow> ecdsa_sign lib md (secret key); signature_serialize_compact lib s })"

definition verify_with ::
    "('p, 's, 'r) secp \<Rightarrow> (bytes \<Rightarrow> 's option) \<Rightarrow> BRKey \<Rightarrow> bytes \<Rightarrow> bytes \<Rightarrow> BRKey \<times> bool" where
  "verify_with lib parse_sig key md sig =
     (let (key', _, len) = BRKeyPubKey lib key None
      in (key', len > 0 \<and> (case (pubkey_parse lib (take len (pubKey key')), parse_sig sig) of
            (Some pk, Some s) \<Rightarrow> ecdsa_verify lib s md pk | _ \<Rightarrow> False)))"

definition BRKeyVerify :: "('p, 's, 'r) secp \<Rightarrow> BRKey \<Rightarrow> bytes \<Rightarrow> bytes \<Rightarrow> BRKey \<times> bool" where
  "BRKeyVerify lib = verify_with lib (signature_parse_der lib)"

definition BRKeyVerifyJOSE :: "('p, 's, 'r) secp \<Rightarrow> BRKey \<Rightarrow> bytes \<Rightarrow> bytes \<Rightarrow> BRKey \<times> bool" where
  "BRKeyVerifyJOSE lib = verify_with lib (signature_parse_compact lib)"

definition BRKeyCompactSign :: "('p, 's, 'r) secp \<Rightarrow> BRKey \<Rightarrow> bytes option \<Rightarrow> bytes \<Rightarrow> bytes option \<times> nat" where
  "BRKeyCompactSign lib key compactSig md =
     (if UInt256IsZero (secret key) then (compactSig, 0)
      else case compactSig of
          None \<Rightarrow> (None, 65)
        | Some m \<Rightarrow>
            if length m < 65 then (Some m, 0)
            else (case do { s \<leftarrow> sign_recoverable lib md (secret key); recoverable_serialize_compact lib s } of
                None \<Rightarrow> (Some m, 0)
              | Some (b, recid) \<Rightarrow>
                  (poke (Some m) 0 (of_nat (27 + recid + (if compressed key then 4 else 0)) # b), 65)))"

definition BRKeyRecoverPubKey :: "('p, 's, 'r) secp \<Rightarrow> BRKey \<Rightarrow> bytes \<Rightarrow> bytes \<Rightarrow> BRKey \<times> bool" where
  "BRKeyRecoverPubKey lib key md compactSig =
     (if length compactSig \<noteq> 65 then (key, False)
      else let v = int (unat (compactSig ! 0)) - 27; cflag = (v \<ge> 4);
               recid = (if v \<ge> 0 then v mod 4 else - ((- v) mod 4))
           in case (if recid < 0 then None
                    else do { s \<leftarrow> recoverable_parse_compact lib (drop 1 compactSig) (nat recid); ecdsa_recover lib s md }) of
                None \<Rightarrow> (key, False)
              | Some pk \<Rightarrow> BRKeySetPubKey lib (pubkey_serialize lib pk cflag))"

definition BRKeyCompactSignEthereum :: "('p, 's, 'r) secp \<Rightarrow> BRKey \<Rightarrow> bytes option \<Rightarrow> bytes \<Rightarrow> bytes option \<times> nat" where
  "BRKeyCompactSignEthereum lib key compactSig md =
     (if UInt256IsZero (secret key) then (compactSig, 0)
      else case compactSig of
          None \<Rightarrow> (None, 65)
        | Some m \<Rightarrow>
            if length m < 65 then (Some m, 0)
            else (case do { s \<leftarrow> sign_recoverable lib md (secret key); recoverable_serialize_compact lib s } of
                None \<Rightarrow> (Some m, 0)
              | Some (b, recid) \<Rightarrow> (poke (Some m) 0 (b @ [of_nat recid]), 65)))"

definition BRKeyRecoverPubKeyEthereum :: "('p, 's, 'r) secp \<Rightarrow> BRKey \<Rightarrow> bytes \<Rightarrow> bytes \<Rightarrow> BRKey \<times> bool" where
  "BRKeyRecoverPubKeyEthereum lib key md compactSig =
     (if length compactSig \<noteq> 65 then (key, False)
      else case do { s \<leftarrow> recoverable_parse_compact lib (take 64 compactSig) (unat (compactSig ! 64)); ecdsa_recover lib s md } of
          None \<Rightarrow> (key, False)
        | Some pk \<Rightarrow> BRKeySetPubKey lib (pubkey_serialize lib pk False))"

definition BRKeySetCompressed :: "BRKey \<Rightarrow> bool \<Rightarrow> BRKey \<times> bool" where
  "BRKeySetCompressed key cflag =
     (if UInt256Eq (secret key) UINT256_ZERO then (key, False)
      else if cflag \<noteq> compressed key then (key\<lparr>pubKey := replicate 65 0, compressed := cflag\<rparr>, True)
      else (key, False))"

section \<open>Properties\<close>

text \<open>
  What the documentation of secp256k1 promises of public keys and of recoverable signatures: a public key
  survives its serializations of 33 and 65 bytes, and a recoverable signature of a key survives its
  serialization of 64 bytes with a recovery id below 4 and recovers the public key.
\<close>

definition secp_recover_laws :: "('p, 's, 'r) secp \<Rightarrow> bool" where
  "secp_recover_laws lib \<longleftrightarrow>
     (\<forall>k pk c. length k = 32 \<longrightarrow> pubkey_create lib k = Some pk \<longrightarrow>
        length (pubkey_serialize lib pk c) = (if c then 33 else 65) \<and>
        pubkey_serialize lib pk c ! 0 \<noteq> 0 \<and> pubkey_parse lib (pubkey_serialize lib pk c) = Some pk) \<and>
     (\<forall>k pk md r. length k = 32 \<longrightarrow> pubkey_create lib k = Some pk \<longrightarrow> sign_recoverable lib md k = Some r \<longrightarrow>
        (\<exists>b recid. recoverable_serialize_compact lib r = Some (b, recid) \<and> length b = 64 \<and> recid < 4 \<and>
           recoverable_parse_compact lib b recid = Some r) \<and>
        ecdsa_recover lib r md = Some pk)"

text \<open>
  A library with the laws: its group is that of the byte vectors of length 32, and a public key is its
  own secret.
\<close>

definition vector_secp :: "(bytes, bytes, bytes) secp" where
  "vector_secp =
     \<lparr>seckey_verify = (\<lambda>k. True), privkey_tweak_add = (\<lambda>k t. (True, map2 (+) k t)), privkey_tweak_mul = (\<lambda>k t. (False, k)),
      pubkey_create = Some, pubkey_serialize = (\<lambda>pk c. if c then 2 # pk else 4 # pk @ pk),
      pubkey_parse = (\<lambda>b. if length b = 33 \<or> length b = 65 then Some (take 32 (drop 1 b)) else None),
      pubkey_tweak_add = (\<lambda>pk t. Some (map2 (+) pk t)), pubkey_tweak_mul = (\<lambda>pk t. None),
      ecdsa_sign = (\<lambda>md k. Some (k @ k)), ecdsa_verify = (\<lambda>s md pk. take 32 s = pk),
      signature_serialize_der = Some, signature_parse_der = Some,
      signature_serialize_compact = Some, signature_parse_compact = Some,
      sign_recoverable = (\<lambda>md k. Some (k @ k)), recoverable_serialize_compact = (\<lambda>s. Some (s, 1)),
      recoverable_parse_compact = (\<lambda>b recid. if recid = 1 then Some b else None), ecdsa_recover = (\<lambda>s md. Some (take 32 s))\<rparr>"

lemma vector_secp_fields [simp]:
  "pubkey_create vector_secp k = Some k" "privkey_tweak_add vector_secp k t = (True, map2 (+) k t)"
  by (simp_all add: vector_secp_def)

lemma vector_secp_recover_laws: "secp_recover_laws vector_secp"
  by (simp add: secp_recover_laws_def vector_secp_def)

text \<open>What signing and recovering give together.\<close>

lemma compact_signature_recovers:
  assumes laws: "secp_recover_laws lib" and k: "length (secret key) = 32" "\<not> UInt256IsZero (secret key)"
    "pubkey_create lib (secret key) = Some pk" "sign_recoverable lib md (secret key) = Some r"
  shows "(\<exists>sig. BRKeyCompactSign lib key (Some (replicate 65 x)) md = (Some sig, 65) \<and>
      BRKeyRecoverPubKey lib other md sig = BRKeySetPubKey lib (pubkey_serialize lib pk (compressed key)) \<and>
      snd (BRKeyRecoverPubKey lib other md sig) \<and>
      snd (BRKeyPubKey lib (fst (BRKeyRecoverPubKey lib other md sig)) (Some (replicate (if compressed key then 33 else 65) x)))
        = (Some (pubkey_serialize lib pk (compressed key)), if compressed key then 33 else 65)) \<and>
    (\<exists>sig. BRKeyCompactSignEthereum lib key (Some (replicate 65 x)) md = (Some sig, 65) \<and>
      BRKeyRecoverPubKeyEthereum lib other md sig = BRKeySetPubKey lib (pubkey_serialize lib pk False))"
proof -
  from laws k obtain b recid where b: "recoverable_serialize_compact lib r = Some (b, recid)" "length b = 64" "recid < 4"
      "recoverable_parse_compact lib b recid = Some r" "ecdsa_recover lib r md = Some pk"
    unfolding secp_recover_laws_def by blast
  let ?c = "compressed key"
  let ?ser = "pubkey_serialize lib pk ?c"
  have ser: "length ?ser = (if ?c then 33 else 65)" "?ser ! 0 \<noteq> 0" "pubkey_parse lib ?ser = Some pk"
    using laws k(1,3) unfolding secp_recover_laws_def by blast+
  define h where "h = (of_nat (27 + recid + (if ?c then 4 else 0)) :: u8)"
  have h: "unat h = 27 + recid + (if ?c then 4 else 0)" unfolding h_def using b(3) by (intro unat_of_nat_small) simp
  have sig: "BRKeyCompactSign lib key (Some (replicate 65 x)) md = (Some (h # b), 65)"
    using k(2,4) b(1,2) by (simp add: BRKeyCompactSign_def h_def del: replicate.simps of_nat_add)
  have v: "int (unat h) - 27 = int recid + (if ?c then 4 else 0)" unfolding h by simp
  have m: "nat ((int recid + (if ?c then 4 else 0)) mod 4) = recid" "0 \<le> int recid + (if ?c then 4 else 0)"
      "4 \<le> int recid + (if ?c then 4 else 0) \<longleftrightarrow> ?c"
    using b(3) by auto
  have rec: "BRKeyRecoverPubKey lib other md (h # b) = BRKeySetPubKey lib ?ser"
    unfolding BRKeyRecoverPubKey_def nth_Cons_0 v Let_def if_P [OF m(2)] m(1,3) drop_Suc list.sel One_nat_def drop_0
    using b(2-5) by (simp add: m(2))
  have pub: "BRKeySetPubKey lib ?ser = (BRKeyClean\<lparr>pubKey := ?ser @ replicate (65 - length ?ser) 0, compressed := ?c\<rparr>, True)"
    using ser by (simp add: BRKeySetPubKey_def split: if_splits)
  have "take (if ?c then 33 else 65) (?ser @ replicate (65 - length ?ser) 0) = ?ser" using ser(1) by simp
  moreover have "?ser \<noteq> replicate n 0" for n using ser(1,2) by (metis nth_replicate length_replicate zero_less_numeral)
  ultimately have "snd (BRKeyPubKey lib (fst (BRKeySetPubKey lib ?ser)) (Some (replicate (if ?c then 33 else 65) x)))
      = (Some ?ser, if ?c then 33 else 65)"
    unfolding pub using ser(1) by (simp add: BRKeyPubKey_def fill_pubKey_def split: if_splits)
  then have "\<exists>sig. BRKeyCompactSign lib key (Some (replicate 65 x)) md = (Some sig, 65) \<and>
      BRKeyRecoverPubKey lib other md sig = BRKeySetPubKey lib ?ser \<and>
      snd (BRKeyRecoverPubKey lib other md sig) \<and>
      snd (BRKeyPubKey lib (fst (BRKeyRecoverPubKey lib other md sig)) (Some (replicate (if ?c then 33 else 65) x)))
        = (Some ?ser, if ?c then 33 else 65)"
    using sig rec pub by (intro exI [of _ "h # b"]) simp
  moreover have "unat (of_nat recid :: u8) = recid" using b(3) by (intro unat_of_nat_small) simp
  then have "\<exists>sig. BRKeyCompactSignEthereum lib key (Some (replicate 65 x)) md = (Some sig, 65) \<and>
      BRKeyRecoverPubKeyEthereum lib other md sig = BRKeySetPubKey lib (pubkey_serialize lib pk False)"
    using k(2,4) b by (intro exI [of _ "b @ [of_nat recid]"])
      (simp add: BRKeyCompactSignEthereum_def BRKeyRecoverPubKeyEthereum_def nth_append del: replicate.simps)
  ultimately show ?thesis by (rule conjI)
qed

text \<open>
  C30: Compact signatures. A key whose secret the library accepts signs a digest into 65 bytes, and for
  that digest and signature \<open>BRKeyRecoverPubKey\<close> sets the public key of the signer, in the form
  (compressed or not) of the signing key; the Ethereum variant recovers the uncompressed one.
\<close>

theorem compact_sign_recover:
  assumes laws: "secp_recover_laws lib" and k: "length (secret key) = 32" "\<not> UInt256IsZero (secret key)"
    "pubkey_create lib (secret key) = Some pk" "sign_recoverable lib md (secret key) = Some r"
  shows "(\<exists>sig. BRKeyCompactSign lib key (Some (replicate 65 x)) md = (Some sig, 65) \<and>
      BRKeyRecoverPubKey lib other md sig = BRKeySetPubKey lib (pubkey_serialize lib pk (compressed key)) \<and>
      snd (BRKeyRecoverPubKey lib other md sig) \<and>
      snd (BRKeyPubKey lib (fst (BRKeyRecoverPubKey lib other md sig)) (Some (replicate (if compressed key then 33 else 65) x)))
        = (Some (pubkey_serialize lib pk (compressed key)), if compressed key then 33 else 65)) \<and>
    (\<exists>sig. BRKeyCompactSignEthereum lib key (Some (replicate 65 x)) md = (Some sig, 65) \<and>
      BRKeyRecoverPubKeyEthereum lib other md sig = BRKeySetPubKey lib (pubkey_serialize lib pk False))"
  by (rule compact_signature_recovers [OF assms])

theorem compact_sign_recover_witness:
  "\<exists>sig. BRKeyCompactSign vector_secp \<lparr>secret = replicate 32 1, pubKey = replicate 65 0, compressed = True\<rparr> (Some (replicate 65 0)) [7]
      = (Some sig, 65) \<and> snd (BRKeyRecoverPubKey vector_secp BRKeyClean [7] sig)"
proof -
  let ?key = "\<lparr>secret = replicate 32 1, pubKey = replicate 65 0, compressed = True\<rparr>"
  have z: "\<not> UInt256IsZero (replicate 32 1)" by code_simp
  have "length (secret ?key) = 32" "\<not> UInt256IsZero (secret ?key)" "pubkey_create vector_secp (secret ?key) = Some (replicate 32 1)"
      "sign_recoverable vector_secp [7] (secret ?key) = Some (replicate 32 1 @ replicate 32 1)"
    using z by (simp_all add: vector_secp_def del: replicate.simps)
  from compact_sign_recover [OF vector_secp_recover_laws this, of 0 BRKeyClean] show ?thesis by auto
qed

text \<open>
  The wallet import format. The text that \<open>BRKeyPrivKey\<close> writes for a key with an accepted secret is
  a private key by \<open>BRPrivKeyIsValid\<close> with the same parameters, and its payload is the prefix, the secret
  and, for a compressed key, one byte 1.
\<close>

theorem wif_valid:
  assumes "seckey_verify lib (secret key)" "length (secret key) = 32"
  shows "\<exists>text. BRKeyPrivKey lib key (Some (replicate (length text + 1) x)) params = (Some (text @ [0]), length text + 1) \<and>
    BRKeyPrivKey lib key None params = (None, length text + 1) \<and> BRPrivKeyIsValid params text \<and>
    check_decoded 34 text = (privKeyPrefix params # secret key @ (if compressed key then [1] else []), if compressed key then 34 else 33)"
proof -
  let ?d = "privKeyPrefix params # secret key @ (if compressed key then [1] else [])"
  let ?t = "base58_text (base58check_bytes ?d)"
  have dec: "check_decoded 34 ?t = (?d, if compressed key then 34 else 33)"
    using assms(2) unfolding check_decoded_eq base58check_payload_text Let_def by simp
  moreover have "BRPrivKeyIsValid params ?t" unfolding BRPrivKeyIsValid_def dec by simp
  moreover have "BRKeyPrivKey lib key str params = BRBase58CheckEncode str ?d" for str
    using assms(1) by (simp add: BRKeyPrivKey_def)
  ultimately show ?thesis
    using base58check.query [of ?d] base58check.two_pass [of "replicate (length ?t + 1) x" ?d]
    by (intro exI [of _ ?t]) simp
qed

theorem wif_valid_witness:
  "\<exists>text. BRKeyPrivKey vector_secp BRKeyClean None BITCOIN_ADDRESS_PARAMS = (None, length text + 1) \<and>
    BRPrivKeyIsValid BITCOIN_ADDRESS_PARAMS text"
proof -
  have "seckey_verify vector_secp (secret BRKeyClean)" "length (secret BRKeyClean) = 32"
    by (simp_all add: vector_secp_def BRKeyClean_def UINT256_ZERO_def)
  from wif_valid [OF this, of 0 BITCOIN_ADDRESS_PARAMS] show ?thesis by blast
qed

end
