(* ===== verification/BIP32.thy ===== *)
theory BIP32
  imports Keys
begin

text \<open>
  Hierarchical derivation of keys, \<open>support/BRBIP32Sequence.c\<close>. A private derivation is an option:
  \<open>None\<close> where the code goes on with a stack buffer that the failed \<open>BRSecp256k1PointGen\<close> has not
  written.
\<close>

definition BIP32_HARD :: u32 where "BIP32_HARD = 0x80000000"

text \<open>\<open>BIP32_SEED_KEY\<close>, \<open>BIP32_XPRV\<close> and \<open>BIP32_XPUB\<close>\<close>

definition BIP32_SEED_KEY :: bytes where
  "BIP32_SEED_KEY = [0x42, 0x69, 0x74, 0x63, 0x6f, 0x69, 0x6e, 0x20, 0x73, 0x65, 0x65, 0x64]"
definition BIP32_XPRV :: bytes where "BIP32_XPRV = [0x04, 0x88, 0xad, 0xe4]"
definition BIP32_XPUB :: bytes where "BIP32_XPUB = [0x04, 0x88, 0xb2, 0x1e]"

definition SEQUENCE_GAP_LIMIT_EXTERNAL :: nat where "SEQUENCE_GAP_LIMIT_EXTERNAL = 10"
definition SEQUENCE_GAP_LIMIT_INTERNAL :: nat where "SEQUENCE_GAP_LIMIT_INTERNAL = 5"
definition SEQUENCE_EXTERNAL_CHAIN :: u32 where "SEQUENCE_EXTERNAL_CHAIN = 0"
definition SEQUENCE_INTERNAL_CHAIN :: u32 where "SEQUENCE_INTERNAL_CHAIN = 1"

section \<open>Child keys\<close>

definition CKDpriv :: "('p, 's, 'r) secp \<Rightarrow> bytes \<times> bytes \<Rightarrow> u32 \<Rightarrow> (bytes \<times> bytes) option" where
  "CKDpriv lib = (\<lambda>(k, c) i.
     do { ser \<leftarrow> (if i AND BIP32_HARD \<noteq> 0 then Some (0 # k) else BRSecp256k1PointGen lib k);
          let I = BRHMAC BRSHA512 64 c (ser @ UInt32SetBE i);
          Some (snd (BRSecp256k1ModAdd lib k (take 32 I)), drop 32 I) })"

definition CKDpub :: "('p, 's, 'r) secp \<Rightarrow> bytes \<times> bytes \<Rightarrow> u32 \<Rightarrow> bytes \<times> bytes" where
  "CKDpub lib = (\<lambda>(K, c) i.
     if i AND BIP32_HARD \<noteq> BIP32_HARD then
       let I = BRHMAC BRSHA512 64 c (K @ UInt32SetBE i)
       in (snd (BRSecp256k1PointAdd lib K (take 32 I)), drop 32 I)
     else (K, c))"

section \<open>The wallet's keys\<close>

record BRMasterPubKey =
  fingerPrint :: u32
  chainCode :: bytes
  mpk_pubKey :: bytes

definition BR_MASTER_PUBKEY_NONE :: BRMasterPubKey where
  "BR_MASTER_PUBKEY_NONE = \<lparr>fingerPrint = 0, chainCode = UINT256_ZERO, mpk_pubKey = replicate 33 0\<rparr>"

definition seed_key :: "bytes \<Rightarrow> bytes \<times> bytes" where
  "seed_key seed = (let I = BRHMAC BRSHA512 64 BIP32_SEED_KEY seed in (take 32 I, drop 32 I))"

definition BRBIP32MasterPubKey :: "('p, 's, 'r) secp \<Rightarrow> bytes \<Rightarrow> BRMasterPubKey option" where
  "BRBIP32MasterPubKey lib seed =
     do { let (secret, chn) = seed_key seed;
          let key = fst (BRKeySetSecret lib secret True);
          let fp = UInt32GetLE (snd (BRKeyHash160 lib key));
          (secret', chn') \<leftarrow> CKDpriv lib (secret, chn) (0 OR BIP32_HARD);
          let key' = fst (BRKeySetSecret lib secret' True);
          let pub = fst (snd (BRKeyPubKey lib key' (Some (replicate 33 0))));
          Some \<lparr>fingerPrint = fp, chainCode = chn', mpk_pubKey = (case pub of None \<Rightarrow> [] | Some b \<Rightarrow> b)\<rparr> }"

definition BRBIP32PubKey ::
    "('p, 's, 'r) secp \<Rightarrow> bytes option \<Rightarrow> BRMasterPubKey \<Rightarrow> u32 \<Rightarrow> u32 \<Rightarrow> bytes option \<times> nat" where
  "BRBIP32PubKey lib buf mpk chn index =
     (let (K, _) = CKDpub lib (CKDpub lib (mpk_pubKey mpk, chainCode mpk) chn) index
      in (poke buf 0 K, if room buf 33 then 33 else 0))"

fun ckd_path :: "('p, 's, 'r) secp \<Rightarrow> bytes \<times> bytes \<Rightarrow> u32 list \<Rightarrow> (bytes \<times> bytes) option" where
  "ckd_path lib kc [] = Some kc"
| "ckd_path lib kc (i # is) = do { kc' \<leftarrow> CKDpriv lib kc i; ckd_path lib kc' is }"

definition BRBIP32vPrivKeyPath :: "('p, 's, 'r) secp \<Rightarrow> bytes \<Rightarrow> u32 list \<Rightarrow> BRKey option" where
  "BRBIP32vPrivKeyPath lib seed vlist =
     do { (secret, _) \<leftarrow> ckd_path lib (seed_key seed) vlist; Some (fst (BRKeySetSecret lib secret True)) }"

definition BRBIP32PrivKeyPath :: "('p, 's, 'r) secp \<Rightarrow> bytes \<Rightarrow> u32 list \<Rightarrow> BRKey option" where
  "BRBIP32PrivKeyPath lib seed path = BRBIP32vPrivKeyPath lib seed path"

definition BRBIP32PrivKey :: "('p, 's, 'r) secp \<Rightarrow> bytes \<Rightarrow> u32 \<Rightarrow> u32 \<Rightarrow> BRKey option" where
  "BRBIP32PrivKey lib seed chn index = BRBIP32PrivKeyPath lib seed [0 OR BIP32_HARD, chn, index]"

text \<open>The list of keys: the two derivations that all of them share are done once.\<close>

fun privkey_list :: "('p, 's, 'r) secp \<Rightarrow> bytes \<times> bytes \<Rightarrow> u32 list \<Rightarrow> BRKey list option" where
  "privkey_list lib kc [] = Some []"
| "privkey_list lib kc (i # is) =
     do { (s, _) \<leftarrow> CKDpriv lib kc i;
          keys \<leftarrow> privkey_list lib kc is;
          Some (fst (BRKeySetSecret lib s True) # keys) }"

definition BRBIP32PrivKeyList :: "('p, 's, 'r) secp \<Rightarrow> bytes \<Rightarrow> u32 \<Rightarrow> u32 list \<Rightarrow> BRKey list option" where
  "BRBIP32PrivKeyList lib seed chn indexes =
     (if length indexes > 0 then
        do { kc \<leftarrow> CKDpriv lib (seed_key seed) (0 OR BIP32_HARD);
             kc' \<leftarrow> CKDpriv lib kc chn;
             privkey_list lib kc' indexes }
      else Some [])"

definition BRBIP32APIAuthKey :: "('p, 's, 'r) secp \<Rightarrow> bytes \<Rightarrow> BRKey option" where
  "BRBIP32APIAuthKey lib seed = BRBIP32PrivKeyPath lib seed [1 OR BIP32_HARD, 0]"

definition BRBIP32BitIDKey :: "('p, 's, 'r) secp \<Rightarrow> bytes \<Rightarrow> u32 \<Rightarrow> bytes \<Rightarrow> BRKey option" where
  "BRBIP32BitIDKey lib seed index uri =
     (let hash = BRSHA256 (UInt32SetLE index @ uri)
      in BRBIP32PrivKeyPath lib seed
           ((13 OR BIP32_HARD) # map (\<lambda>j. UInt32GetLE (drop (4 * j) hash) OR BIP32_HARD) [0, 1, 2, 3]))"

section \<open>Export\<close>

definition BRBIP32Serialize ::
    "bytes option \<Rightarrow> u8 \<Rightarrow> u32 \<Rightarrow> u32 \<Rightarrow> bytes \<Rightarrow> bytes \<Rightarrow> bytes option \<times> nat" where
  "BRBIP32Serialize str depth fp child chn key =
     BRBase58CheckEncode str
       ((if length key < 33 then BIP32_XPRV else BIP32_XPUB) @ [depth] @ UInt32SetBE fp @ UInt32SetBE child @
        UInt256Get chn @ (if length key < 33 then [0] else []) @ key)"

definition BRBIP32SerializeMasterPrivKey :: "bytes option \<Rightarrow> bytes \<Rightarrow> bytes option \<times> nat" where
  "BRBIP32SerializeMasterPrivKey str seed =
     (let I = BRHMAC BRSHA512 64 BIP32_SEED_KEY seed in BRBIP32Serialize str 0 0 0 (drop 32 I) (take 32 I))"

definition BRBIP32SerializeMasterPubKey :: "bytes option \<Rightarrow> BRMasterPubKey \<Rightarrow> bytes option \<times> nat" where
  "BRBIP32SerializeMasterPubKey str mpk =
     BRBIP32Serialize str 1 (UInt32GetBE (UInt32SetLE (fingerPrint mpk))) (0 OR BIP32_HARD) (chainCode mpk) (mpk_pubKey mpk)"

definition BRBIP32ParseMasterPubKey :: "bytes \<Rightarrow> BRMasterPubKey" where
  "BRBIP32ParseMasterPubKey str =
     (let (data, dataLen) = check_decoded 78 str in
      if dataLen = 78 \<and> take 4 data = BIP32_XPUB then
        \<lparr>fingerPrint = UInt32GetLE (take 4 (drop 5 data)), chainCode = UInt256Get (drop 13 data),
         mpk_pubKey = take 33 (drop 45 data)\<rparr>
      else BR_MASTER_PUBKEY_NONE)"

section \<open>The laws of the curve library\<close>

text \<open>
  What the documentation of secp256k1 promises: a created or tweaked public key survives its compressed
  serialization of 33 bytes, and tweaking a secret key by a summand tweaks its public key alike.
\<close>

definition secp_point_laws :: "('p, 's, 'r) secp \<Rightarrow> bool" where
  "secp_point_laws lib \<longleftrightarrow>
     (\<forall>k pk. length k = 32 \<longrightarrow> pubkey_create lib k = Some pk \<longrightarrow>
        length (pubkey_serialize lib pk True) = 33 \<and> pubkey_parse lib (pubkey_serialize lib pk True) = Some pk) \<and>
     (\<forall>k pk t. length k = 32 \<longrightarrow> length t = 32 \<longrightarrow> pubkey_create lib k = Some pk \<longrightarrow> fst (privkey_tweak_add lib k t) \<longrightarrow>
        length (snd (privkey_tweak_add lib k t)) = 32 \<and> pubkey_tweak_add lib pk t \<noteq> None \<and>
        pubkey_create lib (snd (privkey_tweak_add lib k t)) = pubkey_tweak_add lib pk t)"

text \<open>No step of a path meets a key that the library refuses (\<open>IL >= n\<close> or the key 0).\<close>

fun path_ok :: "('p, 's, 'r) secp \<Rightarrow> bytes \<times> bytes \<Rightarrow> u32 list \<Rightarrow> bool" where
  "path_ok lib (k, c) [] = (pubkey_create lib k \<noteq> None)"
| "path_ok lib (k, c) (i # is) =
     (pubkey_create lib k \<noteq> None \<and>
      (case (if i AND BIP32_HARD \<noteq> 0 then Some (0 # k) else BRSecp256k1PointGen lib k) of
         None \<Rightarrow> False
       | Some ser \<Rightarrow>
           let I = BRHMAC BRSHA512 64 c (ser @ UInt32SetBE i)
           in fst (privkey_tweak_add lib k (take 32 I)) \<and>
              path_ok lib (snd (privkey_tweak_add lib k (take 32 I)), drop 32 I) is))"

lemma length_hmac512 [simp]: "length (BRHMAC BRSHA512 64 key data) = 64"
  by (rule length_BRHMAC) simp

lemma length_seed_key [simp]: "length (fst (seed_key seed)) = 32" "length (snd (seed_key seed)) = 32"
  by (simp_all add: seed_key_def Let_def)

lemma hard_bit: "i AND BIP32_HARD \<noteq> BIP32_HARD \<longleftrightarrow> i AND BIP32_HARD = 0"
proof -
  have "BIP32_HARD = push_bit 31 (1 :: u32)" by (simp add: BIP32_HARD_def)
  have h: "bit BIP32_HARD n \<longleftrightarrow> n = 31" for n
    unfolding \<open>BIP32_HARD = push_bit 31 1\<close> by (auto simp only: bit_push_bit_iff bit_1_iff possible_bit_word len_bit0 len_num1)
  have "i AND BIP32_HARD = (if bit i 31 then BIP32_HARD else 0)"
    by (rule bit_word_eqI) (auto simp: bit_and_iff h)
  moreover have "BIP32_HARD \<noteq> 0" by (simp add: BIP32_HARD_def)
  ultimately show ?thesis by simp
qed

text \<open>A private step with the public step beside it.\<close>

lemma CKDpriv_step:
  assumes laws: "secp_point_laws lib" and k: "length k = 32" "length c = 32" and ok: "path_ok lib (k, c) (i # is)"
  obtains k' c' pk pk' where "CKDpriv lib (k, c) i = Some (k', c')" "length k' = 32" "length c' = 32" "path_ok lib (k', c') is"
    "pubkey_create lib k = Some pk" "pubkey_create lib k' = Some pk'"
    "i AND BIP32_HARD = 0 \<Longrightarrow> CKDpub lib (pubkey_serialize lib pk True, c) i = (pubkey_serialize lib pk' True, c')"
proof -
  obtain pk where pk: "pubkey_create lib k = Some pk" using ok by auto
  let ?ser = "if i AND BIP32_HARD \<noteq> 0 then 0 # k else pubkey_serialize lib pk True"
  let ?I = "BRHMAC BRSHA512 64 c (?ser @ UInt32SetBE i)"
  have ser: "(if i AND BIP32_HARD \<noteq> 0 then Some (0 # k) else BRSecp256k1PointGen lib k) = Some ?ser"
    by (simp add: BRSecp256k1PointGen_def pk)
  have tw: "fst (privkey_tweak_add lib k (take 32 ?I))"
    and ok': "path_ok lib (snd (privkey_tweak_add lib k (take 32 ?I)), drop 32 ?I) is"
    using ok unfolding path_ok.simps ser option.case Let_def by blast+
  have len: "length (take 32 ?I) = 32" by simp
  from laws k(1) len pk tw obtain pk' where pk': "pubkey_tweak_add lib pk (take 32 ?I) = Some pk'"
      "pubkey_create lib (snd (privkey_tweak_add lib k (take 32 ?I))) = Some pk'"
      "length (snd (privkey_tweak_add lib k (take 32 ?I))) = 32"
    unfolding secp_point_laws_def by (metis option.exhaust)
  have par: "pubkey_parse lib (pubkey_serialize lib pk True) = Some pk"
    using laws k(1) pk unfolding secp_point_laws_def by blast
  show thesis
  proof (rule that [OF _ pk'(3) _ ok' pk pk'(2)])
    show "CKDpriv lib (k, c) i = Some (snd (privkey_tweak_add lib k (take 32 ?I)), drop 32 ?I)"
      unfolding CKDpriv_def BRSecp256k1ModAdd_def prod.case ser by (simp add: Let_def)
    show "length (drop 32 ?I) = 32" by simp
    show "CKDpub lib (pubkey_serialize lib pk True, c) i = (pubkey_serialize lib pk' True, drop 32 ?I)" if z: "i AND BIP32_HARD = 0"
    proof -
      have h: "i AND BIP32_HARD \<noteq> BIP32_HARD" using z hard_bit by blast
      have s: "?ser = pubkey_serialize lib pk True" using z by simp
      show ?thesis
        using pk'(1) unfolding s CKDpub_def prod.case Let_def if_P [OF h] BRSecp256k1PointAdd_def par by simp
    qed
  qed
qed

text \<open>The public key of a fresh key.\<close>

lemma fill_pubKey_fresh:
  assumes "secp_point_laws lib" "length k = 32" "pubkey_create lib k = Some pk"
  shows "fill_pubKey lib (fst (BRKeySetSecret lib k True)) =
    ((fst (BRKeySetSecret lib k True))\<lparr>pubKey := pubkey_serialize lib pk True @ replicate 32 0\<rparr>, 33)"
proof -
  have "length (pubkey_serialize lib pk True) = 33" using assms unfolding secp_point_laws_def by blast
  moreover have "UInt256Get k = k" using assms(2) by (simp add: UInt256Get_def)
  ultimately show ?thesis
    using assms(3) by (simp add: fill_pubKey_def BRKeySetSecret_def BRKeyClean_def del: replicate.simps)
qed

lemma BRKeyPubKey_fresh:
  assumes "secp_point_laws lib" "length k = 32" "pubkey_create lib k = Some pk"
  shows "snd (BRKeyPubKey lib (fst (BRKeySetSecret lib k True)) (Some (replicate 33 0))) = (Some (pubkey_serialize lib pk True), 33)"
proof -
  have "length (pubkey_serialize lib pk True) = 33" using assms unfolding secp_point_laws_def by blast
  then show ?thesis by (simp add: BRKeyPubKey_def fill_pubKey_fresh [OF assms])
qed

text \<open>The two derivations that the keys of a chain share.\<close>

lemma privkey_step:
  "BRBIP32PrivKey lib seed chn i = (CKDpriv lib (seed_key seed) (0 OR BIP32_HARD) \<bind> (\<lambda>kc. CKDpriv lib kc chn)) \<bind>
     (\<lambda>kc. CKDpriv lib kc i \<bind> (\<lambda>(s, _). Some (fst (BRKeySetSecret lib s True))))"
  by (simp add: BRBIP32PrivKey_def BRBIP32PrivKeyPath_def BRBIP32vPrivKeyPath_def case_prod_unfold)

lemma privkey_list_step:
  "BRBIP32PrivKeyList lib seed chn (i # is) = (CKDpriv lib (seed_key seed) (0 OR BIP32_HARD) \<bind> (\<lambda>kc. CKDpriv lib kc chn)) \<bind>
     (\<lambda>kc. privkey_list lib kc (i # is))"
  by (simp add: BRBIP32PrivKeyList_def)

section \<open>Properties\<close>

text \<open>
  C29: Public derivation agrees with private derivation. For a library with the laws of secp256k1 and a
  seed whose path m/0H/chain/index meets no refused key, with chain and index not hardened: the public
  key that \<open>BRBIP32PubKey\<close> derives from the master public key alone is the public key of the private
  key that \<open>BRBIP32PrivKey\<close> derives from the seed, so what is received can be spent.
\<close>

theorem public_private_derivation:
  assumes "secp_point_laws lib" "path_ok lib (seed_key seed) [0 OR BIP32_HARD, chn, index]"
    "chn AND BIP32_HARD = 0" "index AND BIP32_HARD = 0"
  shows "\<exists>mpk key pub. BRBIP32MasterPubKey lib seed = Some mpk \<and> BRBIP32PrivKey lib seed chn index = Some key \<and>
    BRBIP32PubKey lib (Some (replicate 33 0)) mpk chn index = (Some pub, 33) \<and>
    snd (BRKeyPubKey lib key (Some (replicate 33 0))) = (Some pub, 33)"
proof -
  obtain k c where kc: "seed_key seed = (k, c)" by fastforce
  then have len: "length k = 32" "length c = 32" using length_seed_key [of seed] by simp_all
  from CKDpriv_step [OF assms(1) len assms(2) [unfolded kc]]
  obtain k1 c1 pk pk1 where s1: "CKDpriv lib (k, c) (0 OR BIP32_HARD) = Some (k1, c1)" "length k1 = 32" "length c1 = 32"
      "path_ok lib (k1, c1) [chn, index]" "pubkey_create lib k1 = Some pk1" by metis
  from CKDpriv_step [OF assms(1) s1(2-4)]
  obtain k2 c2 pk2 where s2: "CKDpriv lib (k1, c1) chn = Some (k2, c2)" "length k2 = 32" "length c2 = 32"
      "path_ok lib (k2, c2) [index]" "pubkey_create lib k2 = Some pk2"
      "CKDpub lib (pubkey_serialize lib pk1 True, c1) chn = (pubkey_serialize lib pk2 True, c2)"
    using s1(5) assms(3) by (metis option.sel)
  from CKDpriv_step [OF assms(1) s2(2-4)]
  obtain k3 c3 pk3 where s3: "CKDpriv lib (k2, c2) index = Some (k3, c3)" "length k3 = 32" "pubkey_create lib k3 = Some pk3"
      "CKDpub lib (pubkey_serialize lib pk2 True, c2) index = (pubkey_serialize lib pk3 True, c3)"
    using s2(5) assms(4) by (metis option.sel)
  obtain fp where mpk: "BRBIP32MasterPubKey lib seed = Some \<lparr>fingerPrint = fp, chainCode = c1, mpk_pubKey = pubkey_serialize lib pk1 True\<rparr>"
    using s1(1) BRKeyPubKey_fresh [OF assms(1) s1(2,5)] by (simp add: BRBIP32MasterPubKey_def kc)
  have key: "BRBIP32PrivKey lib seed chn index = Some (fst (BRKeySetSecret lib k3 True))"
    using s1(1) s2(1) s3(1) by (simp add: BRBIP32PrivKey_def BRBIP32PrivKeyPath_def BRBIP32vPrivKeyPath_def kc)
  have "length (pubkey_serialize lib pk3 True) = 33" using assms(1) s3(2,3) unfolding secp_point_laws_def by blast
  then have "BRBIP32PubKey lib (Some (replicate 33 0)) \<lparr>fingerPrint = fp, chainCode = c1, mpk_pubKey = pubkey_serialize lib pk1 True\<rparr>
      chn index = (Some (pubkey_serialize lib pk3 True), 33)"
    by (simp add: BRBIP32PubKey_def s2(6) s3(4))
  then show ?thesis using mpk key BRKeyPubKey_fresh [OF assms(1) s3(2,3)] by blast
qed

lemma vector_secp_laws: "secp_point_laws vector_secp"
  by (simp add: secp_point_laws_def vector_secp_def)

lemma vector_secp_path_ok: "path_ok vector_secp kc is"
proof (induction "is" arbitrary: kc)
  case Nil
  show ?case by (cases kc) simp
next
  case (Cons i js)
  show ?case by (cases kc) (simp add: Cons BRSecp256k1PointGen_def Let_def)
qed

theorem public_private_derivation_witness:
  "\<exists>mpk key pub. BRBIP32MasterPubKey vector_secp [1, 2] = Some mpk \<and> BRBIP32PrivKey vector_secp [1, 2] 1 7 = Some key \<and>
    BRBIP32PubKey vector_secp (Some (replicate 33 0)) mpk 1 7 = (Some pub, 33) \<and>
    snd (BRKeyPubKey vector_secp key (Some (replicate 33 0))) = (Some pub, 33)"
  by (rule public_private_derivation [OF vector_secp_laws vector_secp_path_ok]) (simp_all add: BIP32_HARD_def)

text \<open>
  \<open>BRBIP32PrivKeyList\<close>, which shares the first two derivations, gives for every seed, chain and list
  of indexes what \<open>BRBIP32PrivKey\<close> gives index by index, failures included.
\<close>

theorem privkey_list_equiv:
  "BRBIP32PrivKeyList lib seed chn indexes = those (map (BRBIP32PrivKey lib seed chn) indexes)"
proof (cases "CKDpriv lib (seed_key seed) (0 OR BIP32_HARD) \<bind> (\<lambda>kc. CKDpriv lib kc chn)")
  case None
  then have "BRBIP32PrivKey lib seed chn i = None" for i
    by (simp add: privkey_step)
  moreover have "BRBIP32PrivKeyList lib seed chn (i # is) = None" for i "is"
    using None by (simp add: privkey_list_step)
  ultimately show ?thesis by (cases indexes) (simp_all add: BRBIP32PrivKeyList_def)
next
  case (Some kc)
  then have one: "BRBIP32PrivKey lib seed chn i = (CKDpriv lib kc i \<bind> (\<lambda>(s, _). Some (fst (BRKeySetSecret lib s True))))" for i
    by (simp add: privkey_step)
  have "privkey_list lib kc is = those (map (BRBIP32PrivKey lib seed chn) is)" for "is"
  proof (induction "is")
    case (Cons i js)
    then show ?case
      by (cases "CKDpriv lib kc i") (simp_all add: one case_prod_unfold bind_map_option map_option_case split: option.split)
  qed simp
  moreover have "BRBIP32PrivKeyList lib seed chn (i # is) = privkey_list lib kc (i # is)" for i "is"
    using Some by (simp add: privkey_list_step del: privkey_list.simps)
  ultimately show ?thesis by (cases indexes) (simp_all add: BRBIP32PrivKeyList_def del: privkey_list.simps(2))
qed

text \<open>
  The exported master public key. \<open>BRBIP32SerializeMasterPubKey\<close> writes a text without a zero byte
  that \<open>BRBIP32ParseMasterPubKey\<close> reads back to the same fingerprint, chain code and public key.
\<close>

theorem xpub_round_trip:
  assumes "length (chainCode mpk) = 32" "length (mpk_pubKey mpk) = 33"
  shows "\<exists>text. BRBIP32SerializeMasterPubKey None mpk = (None, length text + 1) \<and>
    BRBIP32SerializeMasterPubKey (Some (replicate (length text + 1) x)) mpk = (Some (text @ [0]), length text + 1) \<and>
    BRBIP32ParseMasterPubKey text = mpk"
proof -
  let ?fp = "UInt32SetBE (UInt32GetBE (UInt32SetLE (fingerPrint mpk)))"
  let ?d = "BIP32_XPUB @ [1] @ UInt32SetLE (fingerPrint mpk) @ UInt32SetBE (0 OR BIP32_HARD) @ chainCode mpk @ mpk_pubKey mpk"
  have fp: "?fp = UInt32SetLE (fingerPrint mpk)" by (simp add: UInt32SetBE_GetBE)
  have len: "length ?d = 78" using assms by (simp add: BIP32_XPUB_def)
  have ser: "BRBIP32SerializeMasterPubKey str mpk = BRBase58CheckEncode str ?d" for str
    using assms by (simp add: BRBIP32SerializeMasterPubKey_def BRBIP32Serialize_def fp UInt256Get_def)
  have "check_decoded 78 (base58_text (base58check_bytes ?d)) = (?d, 78)"
    unfolding check_decoded_eq base58check_payload_text Let_def len by simp
  moreover have "UInt32GetLE (UInt32SetLE (fingerPrint mpk)) = fingerPrint mpk"
    using UInt32GetLE_SetLE [of "fingerPrint mpk" "[]"] by simp
  moreover have "take 4 ?d = BIP32_XPUB" "take 4 (drop 5 ?d) = UInt32SetLE (fingerPrint mpk)"
      "UInt256Get (drop 13 ?d) = chainCode mpk" "take 33 (drop 45 ?d) = mpk_pubKey mpk"
    using assms by (simp_all add: BIP32_XPUB_def UInt256Get_def)
  ultimately have "BRBIP32ParseMasterPubKey (base58_text (base58check_bytes ?d)) = mpk"
    by (simp only: BRBIP32ParseMasterPubKey_def prod.case if_True simp_thms) simp
  then show ?thesis
    using base58check.query [of ?d] base58check.two_pass [of "replicate (length (base58_text (base58check_bytes ?d)) + 1) x" ?d]
    by (intro exI [of _ "base58_text (base58check_bytes ?d)"]) (simp add: ser)
qed

theorem xpub_round_trip_witness:
  "\<exists>text. BRBIP32SerializeMasterPubKey (Some (replicate (length text + 1) 0)) BR_MASTER_PUBKEY_NONE = (Some (text @ [0]), length text + 1) \<and>
    BRBIP32ParseMasterPubKey text = BR_MASTER_PUBKEY_NONE"
proof -
  have "length (chainCode BR_MASTER_PUBKEY_NONE) = 32" "length (mpk_pubKey BR_MASTER_PUBKEY_NONE) = 33"
    by (simp_all add: BR_MASTER_PUBKEY_NONE_def UINT256_ZERO_def)
  from xpub_round_trip [OF this, of 0] show ?thesis by blast
qed

end
