(* ===== verification/Sign.thy ===== *)
theory Sign
  imports Transaction BIP32
begin

text \<open>
  Signing, \<open>BRTransactionSign\<close> of \<open>bitcoin/BRTransaction.c\<close>, and the setters that take an address. The
  result of signing is an option, \<open>None\<close> where the serializer or the parser that runs at the end goes
  wrong.
\<close>

section \<open>The setters that take an address\<close>

text \<open>\<open>BRAddressScriptPubKey\<close> in two passes into an array of the announced length.\<close>

definition address_script :: "BRAddressParams \<Rightarrow> bytes \<Rightarrow> bytes" where
  "address_script params addr = filled (\<lambda>b. BRAddressScriptPubKey b params addr)"

definition BRTxInputSetAddress :: "BRTxInput \<Rightarrow> BRAddressParams \<Rightarrow> bytes option \<Rightarrow> BRTxInput" where
  "BRTxInputSetAddress inp params address =
     (case address of None \<Rightarrow> inp\<lparr>inScript := None\<rparr> | Some a \<Rightarrow> inp\<lparr>inScript := Some (address_script params a)\<rparr>)"

definition BRTxOutputSetAddress :: "BRTxOutput \<Rightarrow> BRAddressParams \<Rightarrow> bytes option \<Rightarrow> BRTxOutput" where
  "BRTxOutputSetAddress outp params address =
     (case address of None \<Rightarrow> outp\<lparr>outScript := None\<rparr> | Some a \<Rightarrow> outp\<lparr>outScript := Some (address_script params a)\<rparr>)"

definition BRTxOutputAddress :: "BRTxOutput \<Rightarrow> bytes option \<Rightarrow> BRAddressParams \<Rightarrow> (bytes option \<times> nat) outcome" where
  "BRTxOutputAddress outp address params = BRAddressFromScriptPubKey address params (arr (outScript outp))"

section \<open>Signing\<close>

text \<open>The first key that the script of an input pays to.\<close>

definition signing_key :: "bytes list \<Rightarrow> bytes option \<Rightarrow> nat option" where
  "signing_key pkhs hash =
     (case hash of None \<Rightarrow> None | Some h \<Rightarrow> find (\<lambda>j. UInt160Eq (pkhs ! j) (UInt160Get h)) [0..<length pkhs])"

text \<open>The DER signature in an array of 73 bytes with the hash type behind it.\<close>

definition input_sig :: "('p, 's, 'r) secp \<Rightarrow> BRKey \<Rightarrow> u32 \<Rightarrow> bytes \<Rightarrow> bytes" where
  "input_sig lib key hashType data =
     (let (sig, sigLen) = BRKeySign lib key (Some (replicate 72 0)) (BRSHA256_2 data)
      in take sigLen (arr sig) @ [ucast hashType])"

text \<open>Two pushes into the array \<open>script\<close> of \<open>1 + sizeof(sig) + 1 + sizeof(pubKey)\<close> bytes.\<close>

definition push_two :: "nat \<Rightarrow> bytes \<Rightarrow> bytes \<Rightarrow> bytes" where
  "push_two n a b =
     (let (s1, l1) = BRScriptPushData (Some (replicate n 0)) a; (s2, l2) = BRScriptPushData (Some (drop l1 (arr s1))) b
      in take (l1 + l2) (take l1 (arr s1) @ arr s2))"

definition push_one :: "nat \<Rightarrow> bytes \<Rightarrow> bytes" where
  "push_one n a = (let (s, l) = BRScriptPushData (Some (replicate n 0)) a in take l (arr s))"

definition sign_input :: "('p, 's, 'r) secp \<Rightarrow> u32 \<Rightarrow> BRKey list \<Rightarrow> bytes list \<Rightarrow> BRTransaction \<Rightarrow> nat \<Rightarrow> BRTransaction option" where
  "sign_input lib forkId keys pkhs tx i =
     (let inp = inputs tx ! i; script = arr (inScript inp); hashType = forkId OR SIGHASH_ALL in
      case signing_key pkhs (BRScriptPKH script) of
        None \<Rightarrow> Some tx
      | Some j \<Rightarrow>
          let (elems, elemsCount) = script_elems script;
              pk = filled (\<lambda>b. snd (BRKeyPubKey lib (keys ! j) b));
              scriptLen = 1 + 73 + 1 + length pk
          in if elemsCount = 2 \<and> elem_op script elems 0 = OP_0 \<and> elem_op script elems 1 = 20 then
               (let sig = input_sig lib (keys ! j) hashType (filled (BRTransactionWitnessData tx (Some i) hashType));
                    inp' = BRTxInputSetWitness (BRTxInputSetSignature inp (Some [])) (Some (push_two scriptLen sig pk))
                in Some (tx\<lparr>inputs := (inputs tx)[i := inp']\<rparr>))
             else
               case BRTransactionData tx (Some i) hashType None of
                 None \<Rightarrow> None
               | Some (_, dataLen) \<Rightarrow>
                   (case BRTransactionData tx (Some i) hashType (Some (replicate dataLen 0)) of
                      None \<Rightarrow> None
                    | Some (buf, len) \<Rightarrow>
                        let sig = input_sig lib (keys ! j) hashType (take len (arr buf));
                            s = (if elemsCount \<ge> 2 \<and> elem_op script elems (elemsCount - 2) = OP_EQUALVERIFY
                                 then push_two scriptLen sig pk else push_one scriptLen sig);
                            inp' = BRTxInputSetWitness (BRTxInputSetSignature inp (Some s)) (Some [])
                        in Some (tx\<lparr>inputs := (inputs tx)[i := inp']\<rparr>)))"

fun sign_inputs :: "('p, 's, 'r) secp \<Rightarrow> u32 \<Rightarrow> BRKey list \<Rightarrow> bytes list \<Rightarrow> nat list \<Rightarrow> BRTransaction \<Rightarrow> BRTransaction option" where
  "sign_inputs lib forkId keys pkhs [] tx = Some tx"
| "sign_inputs lib forkId keys pkhs (i # is) tx =
     do { tx' \<leftarrow> sign_input lib forkId keys pkhs tx i; sign_inputs lib forkId keys pkhs is tx' }"

definition BRTransactionSign ::
    "('p, 's, 'r) secp \<Rightarrow> BRTransaction \<Rightarrow> u32 \<Rightarrow> BRKey list \<Rightarrow> (BRTransaction \<times> BRKey list \<times> bool) option" where
  "BRTransactionSign lib tx forkId keys =
     (let hashed = map (BRKeyHash160 lib) keys; keys' = map fst hashed in
      do { tx' \<leftarrow> sign_inputs lib forkId keys' (map snd hashed) [0..<length (inputs tx)] tx;
           if BRTransactionIsSigned tx' then
             do { (_, dataLen) \<leftarrow> BRTransactionSerialize tx' None;
                  (data, len) \<leftarrow> BRTransactionSerialize tx' (Some (replicate dataLen 0));
                  case BRTransactionParse (take len (arr data)) of
                    Undefined \<Rightarrow> None
                  | Null \<Rightarrow> Some (tx', keys', True)
                  | Returns t \<Rightarrow> Some (tx'\<lparr>txHash := txHash t, wtxHash := wtxHash t\<rparr>, keys', True) }
           else Some (tx', keys', False) })"

end
