(* ===== verification/Wallet.thy ===== *)
theory Wallet
  imports Sign
begin

text \<open>
  The wallet, \<open>bitcoin/BRWallet.c\<close>: its state and its operations. The objects of the transactions live
  in \<open>allTx\<close>, a map from their hash, and the array \<open>transactions\<close> holds references, the hashes; the
  other sets hold hashes, outpoints and public key hashes. The sets stand for the tables of
  \<open>support/BRSet.c\<close>, which refine them. Hashes are lists of 32 bytes, on which \<open>UInt256Eq\<close> is equality.

  An operation is an option, \<open>None\<close> where a loop or recursion of the code does not end; it returns the
  new state, its result and the callbacks in the order of their calls. The lock of the wallet is held while the state
  changes, but registering, removing and creating release it between their parts; here each of them is one function of the
  state, the case that no other thread has the lock in between. The steps of \<open>WalletRun\<close> have the parts too.
\<close>

section \<open>State\<close>

record BRUTXO =
  utxoHash :: bytes
  utxoN :: u32

record BRWallet =
  balance :: u64
  totalSent :: u64
  totalReceived :: u64
  feePerKb :: u64
  balanceHist :: "u64 list"
  wBlockHeight :: u32
  utxos :: "BRUTXO list"
  transactions :: "bytes list"
  masterPubKey :: BRMasterPubKey
  addrParams :: BRAddressParams
  internalChain :: "bytes list"
  externalChain :: "bytes list"
  allTx :: "bytes \<Rightarrow> BRTransaction option"
  invalidTx :: "bytes set"
  pendingTx :: "bytes set"
  spentOutputs :: "BRUTXO set"
  usedPKH :: "bytes set"
  allPKH :: "bytes set"

datatype wallet_event =
    BalanceChanged u64
  | TxAdded BRTransaction
  | TxUpdated "bytes list" u32 u32
  | TxDeleted bytes bool bool

definition DEFAULT_FEE_PER_KB :: u64 where "DEFAULT_FEE_PER_KB = TX_FEE_PER_KB * 10"
definition MIN_FEE_PER_KB :: u64 where "MIN_FEE_PER_KB = TX_FEE_PER_KB"
definition TX_MAX_SIZE :: u64 where "TX_MAX_SIZE = 100000"
definition TX_MAX_LOCK_HEIGHT :: u32 where "TX_MAX_LOCK_HEIGHT = 500000000"

text \<open>The hash and equality of the tables.\<close>

definition BRUTXOHash :: "BRUTXO \<Rightarrow> u64" where
  "BRUTXOHash utxo = ucast ((UInt32GetLE (utxoHash utxo) XOR utxoN utxo) * 0x01000193)"

definition BRUTXOEq :: "BRUTXO \<Rightarrow> BRUTXO \<Rightarrow> bool" where
  "BRUTXOEq utxo otherUtxo \<longleftrightarrow>
     utxo = otherUtxo \<or> (UInt256Eq (utxoHash utxo) (utxoHash otherUtxo) \<and> utxoN utxo = utxoN otherUtxo)"

definition pkhHash :: "bytes \<Rightarrow> u64" where
  "pkhHash pkh = ucast (UInt32GetLE pkh)"

definition pkhEq :: "bytes \<Rightarrow> bytes \<Rightarrow> bool" where
  "pkhEq pkh otherPkh \<longleftrightarrow> UInt160Eq (UInt160Get pkh) (UInt160Get otherPkh)"

text \<open>The outpoint at the head of an input, and the hash that an output pays to.\<close>

definition input_utxo :: "BRTxInput \<Rightarrow> BRUTXO" where
  "input_utxo inp = \<lparr>utxoHash = inTxHash inp, utxoN = inIndex inp\<rparr>"

definition output_pkh :: "BRTxOutput \<Rightarrow> bytes option" where
  "output_pkh outp = map_option UInt160Get (BRScriptPKH (arr (outScript outp)))"

definition own_output :: "BRWallet \<Rightarrow> BRTxOutput \<Rightarrow> bool" where
  "own_output w outp \<longleftrightarrow> (case output_pkh outp of None \<Rightarrow> False | Some pkh \<Rightarrow> pkh \<in> allPKH w)"

definition txFee :: "u64 \<Rightarrow> u64 \<Rightarrow> u64" where
  "txFee fpk len =
     (let standardFee = len * TX_FEE_PER_KB div 1000; fee = ((len * fpk div 1000 + 99) div 100) * 100
      in if fee > standardFee then fee else standardFee)"

text \<open>\<open>None\<close> is -1.\<close>

definition txChainIndex :: "BRTransaction \<Rightarrow> bytes list \<Rightarrow> nat option" where
  "txChainIndex tx chn =
     find (\<lambda>i. \<exists>outp \<in> set (outputs tx). output_pkh outp = Some (chn ! i)) (rev [0..<length chn])"

section \<open>The order of transactions\<close>

text \<open>A loop over the inputs that stops at the first true answer, of a test that may not return.\<close>

fun any_opt :: "('a \<Rightarrow> bool option) \<Rightarrow> 'a list \<Rightarrow> bool option" where
  "any_opt f [] = Some False"
| "any_opt f (x # xs) = f x \<bind> (\<lambda>b. if b then Some True else any_opt f xs)"

lemma any_opt_cong [fundef_cong]:
  "xs = ys \<Longrightarrow> (\<And>x. x \<in> set ys \<Longrightarrow> f x = g x) \<Longrightarrow> any_opt f xs = any_opt g ys"
  by (induction ys arbitrary: xs) (auto cong: if_cong)

lemma mono_any_opt [partial_function_mono]:
  assumes "\<And>x. mono_option (\<lambda>f. F f x)"
  shows "mono_option (\<lambda>f. any_opt (F f) xs)"
proof (induction xs)
  case Nil
  show ?case by (simp add: option.const_mono)
next
  case (Cons x xs)
  have "mono_option (\<lambda>f. F f x \<bind> (\<lambda>b. if b then Some True else any_opt (F f) xs))"
    using assms [of x] Cons by (intro partial_function_mono) (auto intro: partial_function_mono option.const_mono)
  then show ?case by simp
qed

partial_function (option) BRWalletTxIsAscending :: "BRWallet \<Rightarrow> BRTransaction option \<Rightarrow> BRTransaction option \<Rightarrow> bool option" where
  "BRWalletTxIsAscending w tx1 tx2 =
     (case tx1 of
        None \<Rightarrow> Some False
      | Some t1 \<Rightarrow>
          (case tx2 of
             None \<Rightarrow> Some False
           | Some t2 \<Rightarrow>
               if blockHeight t1 > blockHeight t2 then Some True
               else if blockHeight t1 < blockHeight t2 then Some False
               else if \<exists>inp \<in> set (inputs t1). inTxHash inp = txHash t2 then Some True
               else if \<exists>inp \<in> set (inputs t2). inTxHash inp = txHash t1 then Some False
               else any_opt (\<lambda>inp. BRWalletTxIsAscending w (allTx w (inTxHash inp)) tx2) (inputs t1)))"

definition chain_order :: "BRWallet \<Rightarrow> BRTransaction \<Rightarrow> BRTransaction \<Rightarrow> int" where
  "chain_order w tx1 tx2 =
     (let i0 = txChainIndex tx1 (internalChain w);
          j0 = (if i0 \<noteq> None then txChainIndex tx2 (internalChain w) else None);
          i1 = (if j0 = None then txChainIndex tx1 (externalChain w) else i0);
          j1 = (if j0 = None \<and> i1 \<noteq> None then txChainIndex tx2 (externalChain w) else j0)
      in case (i1, j1) of (Some i, Some j) \<Rightarrow> (if i \<noteq> j then (if i > j then 1 else -1) else 0) | _ \<Rightarrow> 0)"

definition BRWalletTxCompare :: "BRWallet \<Rightarrow> BRTransaction \<Rightarrow> BRTransaction \<Rightarrow> int option" where
  "BRWalletTxCompare w tx1 tx2 =
     do { a \<leftarrow> BRWalletTxIsAscending w (Some tx1) (Some tx2);
          if a then Some 1
          else do { b \<leftarrow> BRWalletTxIsAscending w (Some tx2) (Some tx1);
                    Some (if b then - 1 else chain_order w tx1 tx2) } }"

text \<open>The transaction an entry of \<open>transactions\<close> refers to.\<close>

definition deref :: "BRWallet \<Rightarrow> bytes \<Rightarrow> BRTransaction" where
  "deref w h = the (allTx w h)"

text \<open>The insertion moves the entries from the end up by one as long as they compare greater.\<close>

fun insert_from_end :: "BRWallet \<Rightarrow> BRTransaction \<Rightarrow> bytes list \<Rightarrow> bytes list option" where
  "insert_from_end w tx [] = Some [txHash tx]"
| "insert_from_end w tx (h # hs) =
     do { c \<leftarrow> BRWalletTxCompare w (deref w h) tx;
          if c > 0 then map_option (Cons h) (insert_from_end w tx hs) else Some (txHash tx # h # hs) }"

definition BRWalletInsertTx :: "BRWallet \<Rightarrow> BRTransaction \<Rightarrow> BRWallet option" where
  "BRWalletInsertTx w tx =
     map_option (\<lambda>hs. w\<lparr>transactions := rev hs\<rparr>) (insert_from_end w tx (rev (transactions w)))"

definition own_input :: "BRWallet \<Rightarrow> BRTxInput \<Rightarrow> bool" where
  "own_input w inp \<longleftrightarrow>
     (case allTx w (inTxHash inp) of
        None \<Rightarrow> False
      | Some t \<Rightarrow> unat (inIndex inp) < length (outputs t) \<and> own_output w (outputs t ! unat (inIndex inp)))"

definition BRWalletContainsTx :: "BRWallet \<Rightarrow> BRTransaction \<Rightarrow> bool" where
  "BRWalletContainsTx w tx \<longleftrightarrow> (\<exists>outp \<in> set (outputs tx). own_output w outp) \<or> (\<exists>inp \<in> set (inputs tx). own_input w inp)"

section \<open>The balance\<close>

text \<open>\<open>now\<close> is the result of \<open>time(NULL)\<close>.\<close>

definition tx_conflicts :: "BRWallet \<Rightarrow> BRTransaction \<Rightarrow> bool" where
  "tx_conflicts w tx \<longleftrightarrow> (\<exists>inp \<in> set (inputs tx). input_utxo inp \<in> spentOutputs w \<or> inTxHash inp \<in> invalidTx w)"

definition input_pending :: "int \<Rightarrow> u32 \<Rightarrow> BRTransaction \<Rightarrow> BRTxInput \<Rightarrow> bool" where
  "input_pending now height tx inp \<longleftrightarrow>
     inSequence inp < 0xfffffffe \<or>
     (inSequence inp < 0xffffffff \<and> lockTime tx < TX_MAX_LOCK_HEIGHT \<and> lockTime tx > height + 1) \<or>
     (inSequence inp < 0xffffffff \<and> uint (lockTime tx) > now)"

definition tx_pending :: "int \<Rightarrow> BRWallet \<Rightarrow> BRTransaction \<Rightarrow> bool" where
  "tx_pending now w tx \<longleftrightarrow>
     BRTransactionVSize tx > TX_MAX_SIZE \<or>
     (\<exists>outp \<in> set (outputs tx). outAmount outp < TX_MIN_OUTPUT_AMOUNT) \<or>
     (\<exists>inp \<in> set (inputs tx). input_pending now (wBlockHeight w) tx inp \<or> inTxHash inp \<in> pendingTx w)"

fun add_utxos :: "bytes \<Rightarrow> BRTxOutput list \<Rightarrow> nat \<Rightarrow> BRWallet \<times> u64 \<Rightarrow> BRWallet \<times> u64" where
  "add_utxos h [] j (w, bal) = (w, bal)"
| "add_utxos h (outp # outs) j (w, bal) =
     add_utxos h outs (j + 1)
       (if own_output w outp
        then (w\<lparr>usedPKH := insert (the (output_pkh outp)) (usedPKH w),
               utxos := utxos w @ [\<lparr>utxoHash = h, utxoN = of_nat j\<rparr>]\<rparr>, bal + outAmount outp)
        else (w, bal))"

definition utxo_amount :: "BRWallet \<Rightarrow> BRUTXO \<Rightarrow> u64" where
  "utxo_amount w u = outAmount (outputs (deref w (utxoHash u)) ! unat (utxoN u))"

text \<open>The sweep over the whole set, from its end.\<close>

fun sweep_spent :: "BRWallet \<Rightarrow> BRUTXO list \<Rightarrow> u64 \<Rightarrow> BRUTXO list \<times> u64" where
  "sweep_spent w [] bal = ([], bal)"
| "sweep_spent w (u # us) bal =
     (let (us', bal') = sweep_spent w us bal
      in if u \<in> spentOutputs w then (us', bal' - utxo_amount w u) else (u # us', bal'))"

text \<open>One transaction: the state, \<open>balance\<close> and \<open>prevBalance\<close>.\<close>

fun balance_step :: "int \<Rightarrow> BRWallet \<times> u64 \<times> u64 \<Rightarrow> bytes \<Rightarrow> BRWallet \<times> u64 \<times> u64" where
  "balance_step now (w, bal, prev) h =
     (let tx = deref w h in
      if blockHeight tx = TX_UNCONFIRMED \<and> tx_conflicts w tx then
        (w\<lparr>invalidTx := insert (txHash tx) (invalidTx w), balanceHist := balanceHist w @ [bal]\<rparr>, bal, prev)
      else
        let w1 = w\<lparr>spentOutputs := spentOutputs w \<union> set (map input_utxo (inputs tx))\<rparr> in
        if blockHeight tx = TX_UNCONFIRMED \<and> tx_pending now w1 tx then
          (w1\<lparr>pendingTx := insert (txHash tx) (pendingTx w1), balanceHist := balanceHist w1 @ [bal]\<rparr>, bal, prev)
        else
          let (w2, bal2) = add_utxos (txHash tx) (outputs tx) 0 (w1, bal);
              (us, bal3) = sweep_spent w2 (utxos w2) bal2;
              w3 = w2\<lparr>utxos := us,
                     totalReceived := (if prev < bal3 then totalReceived w2 + (bal3 - prev) else totalReceived w2),
                     totalSent := (if bal3 < prev then totalSent w2 + (prev - bal3) else totalSent w2),
                     balanceHist := balanceHist w2 @ [bal3]\<rparr>
          in (w3, bal3, bal3))"

definition BRWalletUpdateBalance :: "int \<Rightarrow> BRWallet \<Rightarrow> BRWallet" where
  "BRWalletUpdateBalance now w =
     (let w0 = w\<lparr>utxos := [], balanceHist := [], spentOutputs := {}, invalidTx := {}, pendingTx := {}, usedPKH := {},
                totalSent := 0, totalReceived := 0\<rparr>;
          (w', bal, prev) = foldl (balance_step now) (w0, 0, 0) (transactions w)
      in w'\<lparr>balance := bal\<rparr>)"

section \<open>Addresses\<close>

text \<open>The next key of a chain, \<open>None\<close> if it is no public key.\<close>

definition chain_pkh :: "('p, 's, 'r) secp \<Rightarrow> BRMasterPubKey \<Rightarrow> u32 \<Rightarrow> nat \<Rightarrow> bytes option" where
  "chain_pkh lib mpk internal n =
     (let (buf, len) = BRBIP32PubKey lib (Some (replicate 33 0)) mpk internal (of_nat n);
          (key, ok) = BRKeySetPubKey lib (take len (arr buf))
      in if ok then Some (snd (BRKeyHash160 lib key)) else None)"

text \<open>\<open>while (i > 0 && ! BRSetContains(usedPKH, &chain[i - 1])) i--;\<close>\<close>

fun trailing_unused :: "bytes set \<Rightarrow> bytes list \<Rightarrow> nat \<Rightarrow> nat" where
  "trailing_unused used chn 0 = 0"
| "trailing_unused used chn (Suc i) = (if chn ! i \<in> used then Suc i else trailing_unused used chn i)"

text \<open>The chain and \<open>i\<close>; \<open>count\<close> is the length of the chain.\<close>

partial_function (option) extend_chain ::
    "(nat \<Rightarrow> bytes option) \<Rightarrow> bytes set \<Rightarrow> nat \<Rightarrow> bytes list \<Rightarrow> nat \<Rightarrow> (bytes list \<times> nat) option" where
  "extend_chain derive used gapLimit chn i =
     (if i + gapLimit > length chn then
        (case derive (length chn) of
           None \<Rightarrow> Some (chn, i)
         | Some pkh \<Rightarrow> extend_chain derive used gapLimit (chn @ [pkh]) (if pkh \<in> used then length chn + 1 else i))
      else Some (chn, i))"

text \<open>An address in an array of 75 characters; \<open>None\<close> if \<open>BRAddressFromHash160\<close> writes behind a buffer.\<close>

definition address_of_pkh :: "BRAddressParams \<Rightarrow> bytes \<Rightarrow> bytes \<Rightarrow> bytes option" where
  "address_of_pkh params old pkh =
     (case BRAddressFromHash160 (Some old) params pkh of Returns (Some s, _) \<Rightarrow> Some s | _ \<Rightarrow> None)"

fun addresses_of :: "BRAddressParams \<Rightarrow> bytes list \<Rightarrow> bytes list \<Rightarrow> bytes list option" where
  "addresses_of params (old # olds) (pkh # pkhs) =
     do { s \<leftarrow> address_of_pkh params old pkh; ss \<leftarrow> addresses_of params olds pkhs; Some (s # ss) }"
| "addresses_of params olds pkhs = Some olds"

text \<open>
  \<open>moved\<close> says whether the array of the chain was moved to a new memory location. The new contents of
  \<open>addrs\<close> (\<open>None\<close> for \<open>NULL\<close>) and the number written are returned.
\<close>

definition BRWalletUnusedAddrs ::
    "('p, 's, 'r) secp \<Rightarrow> bool \<Rightarrow> BRWallet \<Rightarrow> bytes list option \<Rightarrow> nat \<Rightarrow> u32 \<Rightarrow> (BRWallet \<times> bytes list option \<times> nat) option" where
  "BRWalletUnusedAddrs lib moved w addrs gapLimit internal =
     (let chn = (if internal = SEQUENCE_INTERNAL_CHAIN then internalChain w else externalChain w);
          startCount = length chn;
          i0 = trailing_unused (usedPKH w) chn startCount
      in do {
        (chn', i) \<leftarrow> extend_chain (chain_pkh lib (masterPubKey w) internal) (usedPKH w) gapLimit chn i0;
        let w1 = (if internal = SEQUENCE_INTERNAL_CHAIN then w\<lparr>internalChain := chn'\<rparr> else w\<lparr>externalChain := chn'\<rparr>);
        let fits = (i + gapLimit \<le> length chn');
        addrs' \<leftarrow> (case addrs of
                    None \<Rightarrow> Some None
                  | Some a \<Rightarrow> if fits then map_option Some (addresses_of (addrParams w) a (take gapLimit (drop i chn'))) else Some (Some a));
        let w2 = (if moved then w1\<lparr>allPKH := set (internalChain w1) \<union> set (externalChain w1)\<rparr>
                  else w1\<lparr>allPKH := allPKH w1 \<union> set (drop startCount chn')\<rparr>);
        Some (w2, addrs', if addrs \<noteq> None \<and> fits then gapLimit else 0) })"

text \<open>\<open>BRWalletReceiveAddress\<close>, and the same address in its old form.\<close>

definition BRWalletReceiveAddress :: "('p, 's, 'r) secp \<Rightarrow> bool \<Rightarrow> BRWallet \<Rightarrow> (BRWallet \<times> bytes) option" where
  "BRWalletReceiveAddress lib moved w =
     do { (w', addrs, _) \<leftarrow> BRWalletUnusedAddrs lib moved w (Some [BR_ADDRESS_NONE]) 1 0;
          Some (w', case addrs of Some (a # _) \<Rightarrow> a | _ \<Rightarrow> BR_ADDRESS_NONE) }"

definition BRWalletAddressToLegacy :: "BRWallet \<Rightarrow> bytes \<Rightarrow> bytes" where
  "BRWalletAddressToLegacy w addr =
     (case BRAddressHash160 (addrParams w) (c_string addr) of
        None \<Rightarrow> addr
      | Some h \<Rightarrow>
          (case BRAddressFromScriptPubKey (Some addr) (addrParams w) ([OP_DUP, OP_HASH160, 20] @ h @ [OP_EQUALVERIFY, OP_CHECKSIG]) of
             Returns (Some s, _) \<Rightarrow> s | _ \<Rightarrow> addr))"

definition BRWalletLegacyAddress :: "('p, 's, 'r) secp \<Rightarrow> bool \<Rightarrow> BRWallet \<Rightarrow> (BRWallet \<times> bytes) option" where
  "BRWalletLegacyAddress lib moved w =
     do { (w', addr) \<leftarrow> BRWalletReceiveAddress lib moved w; Some (w', BRWalletAddressToLegacy w' addr) }"

definition BRWalletAllAddrs :: "BRWallet \<Rightarrow> bytes list option \<Rightarrow> (bytes list option \<times> nat) option" where
  "BRWalletAllAddrs w addrs =
     (case addrs of
        None \<Rightarrow> Some (None, length (internalChain w) + length (externalChain w))
      | Some a \<Rightarrow>
          let internalCount = min (length (internalChain w)) (length a);
              externalCount = min (length (externalChain w)) (length a - internalCount)
          in map_option (\<lambda>a'. (Some a', internalCount + externalCount))
               (addresses_of (addrParams w) a (take internalCount (internalChain w) @ take externalCount (externalChain w))))"

definition address_pkh :: "BRWallet \<Rightarrow> bytes \<Rightarrow> bytes" where
  "address_pkh w addr = (case BRAddressHash160 (addrParams w) addr of None \<Rightarrow> UINT160_ZERO | Some h \<Rightarrow> h)"

definition BRWalletContainsAddress :: "BRWallet \<Rightarrow> bytes \<Rightarrow> bool" where
  "BRWalletContainsAddress w addr \<longleftrightarrow> address_pkh w addr \<in> allPKH w"

definition BRWalletAddressIsUsed :: "BRWallet \<Rightarrow> bytes \<Rightarrow> bool" where
  "BRWalletAddressIsUsed w addr \<longleftrightarrow> address_pkh w addr \<in> usedPKH w"

section \<open>Queries\<close>

text \<open>The arrays that the queries fill: \<open>None\<close> asks for the number available, \<open>Some n\<close> has room for \<open>n\<close>.\<close>

definition fill_array :: "'a list \<Rightarrow> nat option \<Rightarrow> 'a list \<times> nat" where
  "fill_array xs cap = (case cap of None \<Rightarrow> ([], length xs) | Some n \<Rightarrow> (take n xs, if length xs < n then length xs else n))"

definition BRWalletUTXOs :: "BRWallet \<Rightarrow> nat option \<Rightarrow> BRUTXO list \<times> nat" where
  "BRWalletUTXOs w utxosCount = fill_array (utxos w) utxosCount"

definition BRWalletTransactions :: "BRWallet \<Rightarrow> nat option \<Rightarrow> bytes list \<times> nat" where
  "BRWalletTransactions w txCount = fill_array (transactions w) txCount"

definition BRWalletTxUnconfirmedBefore :: "BRWallet \<Rightarrow> nat option \<Rightarrow> u32 \<Rightarrow> bytes list \<times> nat" where
  "BRWalletTxUnconfirmedBefore w txCount height =
     (let n = length (takeWhile (\<lambda>h. blockHeight (deref w h) \<ge> height) (rev (transactions w)))
      in fill_array (drop (length (transactions w) - n) (transactions w)) txCount)"

definition BRWalletBalance :: "BRWallet \<Rightarrow> u64" where "BRWalletBalance w = balance w"
definition BRWalletTotalSent :: "BRWallet \<Rightarrow> u64" where "BRWalletTotalSent w = totalSent w"
definition BRWalletTotalReceived :: "BRWallet \<Rightarrow> u64" where "BRWalletTotalReceived w = totalReceived w"
definition BRWalletFeePerKb :: "BRWallet \<Rightarrow> u64" where "BRWalletFeePerKb w = feePerKb w"

definition BRWalletSetFeePerKb :: "BRWallet \<Rightarrow> u64 \<Rightarrow> BRWallet" where
  "BRWalletSetFeePerKb w fpk = w\<lparr>feePerKb := fpk\<rparr>"

definition BRWalletTransactionForHash :: "BRWallet \<Rightarrow> bytes \<Rightarrow> BRTransaction option" where
  "BRWalletTransactionForHash w h = allTx w h"

definition BRWalletTransactionCopyForHash :: "BRWallet \<Rightarrow> bytes \<Rightarrow> BRTransaction option" where
  "BRWalletTransactionCopyForHash w h = map_option BRTransactionCopy (allTx w h)"

definition BRWalletContainsTransaction :: "BRWallet \<Rightarrow> BRTransaction \<Rightarrow> bool" where
  "BRWalletContainsTransaction w tx = BRWalletContainsTx w tx"

partial_function (option) BRWalletTransactionIsValid :: "BRWallet \<Rightarrow> BRTransaction \<Rightarrow> bool option" where
  "BRWalletTransactionIsValid w tx =
     (if blockHeight tx = TX_UNCONFIRMED then
        (if (if allTx w (txHash tx) = None then \<exists>inp \<in> set (inputs tx). input_utxo inp \<in> spentOutputs w
             else txHash tx \<in> invalidTx w)
         then Some False
         else any_opt (\<lambda>inp. case BRWalletTransactionForHash w (inTxHash inp) of
                None \<Rightarrow> Some False
              | Some t \<Rightarrow> BRWalletTransactionIsValid w t \<bind> (\<lambda>v. Some (\<not> v))) (inputs tx) \<bind> (\<lambda>b. Some (\<not> b)))
      else Some True)"

partial_function (option) BRWalletTransactionIsPending :: "int \<Rightarrow> BRWallet \<Rightarrow> BRTransaction \<Rightarrow> bool option" where
  "BRWalletTransactionIsPending now w tx =
     (if blockHeight tx = TX_UNCONFIRMED then
        (if BRTransactionVSize tx > TX_MAX_SIZE \<or> (\<exists>inp \<in> set (inputs tx). input_pending now (wBlockHeight w) tx inp) \<or>
            (\<exists>outp \<in> set (outputs tx). outAmount outp < TX_MIN_OUTPUT_AMOUNT)
         then Some True
         else any_opt (\<lambda>inp. case BRWalletTransactionForHash w (inTxHash inp) of
                None \<Rightarrow> Some False
              | Some t \<Rightarrow> BRWalletTransactionIsPending now w t) (inputs tx))
      else Some False)"

partial_function (option) BRWalletTransactionIsVerified :: "int \<Rightarrow> BRWallet \<Rightarrow> BRTransaction \<Rightarrow> bool option" where
  "BRWalletTransactionIsVerified now w tx =
     (if blockHeight tx = TX_UNCONFIRMED then
        (if timestamp tx = 0 then Some False
         else BRWalletTransactionIsValid w tx \<bind> (\<lambda>v. if \<not> v then Some False
              else BRWalletTransactionIsPending now w tx \<bind> (\<lambda>p. if p then Some False
              else any_opt (\<lambda>inp. case BRWalletTransactionForHash w (inTxHash inp) of
                     None \<Rightarrow> Some False
                   | Some t \<Rightarrow> BRWalletTransactionIsVerified now w t \<bind> (\<lambda>v. Some (\<not> v))) (inputs tx) \<bind> (\<lambda>b. Some (\<not> b)))))
      else Some True)"

definition BRWalletAmountReceivedFromTx :: "BRWallet \<Rightarrow> BRTransaction \<Rightarrow> u64" where
  "BRWalletAmountReceivedFromTx w tx = foldl (\<lambda>a outp. if own_output w outp then a + outAmount outp else a) 0 (outputs tx)"

definition BRWalletAmountSentByTx :: "BRWallet \<Rightarrow> BRTransaction \<Rightarrow> u64" where
  "BRWalletAmountSentByTx w tx =
     foldl (\<lambda>a inp. if own_input w inp then a + utxo_amount w (input_utxo inp) else a) 0 (inputs tx)"

text \<open>The amount of an output that a known transaction has.\<close>

definition known_amount :: "BRWallet \<Rightarrow> BRTxInput \<Rightarrow> u64 option" where
  "known_amount w inp =
     (case allTx w (inTxHash inp) of
        None \<Rightarrow> None
      | Some t \<Rightarrow> if unat (inIndex inp) < length (outputs t) then Some (outAmount (outputs t ! unat (inIndex inp))) else None)"

definition UINT64_MAX :: u64 where "UINT64_MAX = 0xffffffffffffffff"

definition BRWalletFeeForTx :: "BRWallet \<Rightarrow> BRTransaction \<Rightarrow> u64" where
  "BRWalletFeeForTx w tx =
     foldl (\<lambda>a outp. if a \<noteq> UINT64_MAX then a - outAmount outp else a)
       (foldl (\<lambda>a inp. if a \<noteq> UINT64_MAX then (case known_amount w inp of Some v \<Rightarrow> a + v | None \<Rightarrow> UINT64_MAX) else a) 0 (inputs tx))
       (outputs tx)"

text \<open>The last entry for the transaction.\<close>

definition BRWalletBalanceAfterTx :: "BRWallet \<Rightarrow> BRTransaction \<Rightarrow> u64" where
  "BRWalletBalanceAfterTx w tx =
     (case find (\<lambda>i. transactions w ! i = txHash tx) (rev [0..<length (transactions w)]) of
        None \<Rightarrow> balance w | Some i \<Rightarrow> balanceHist w ! i)"

definition BRWalletFeeForTxSize :: "BRWallet \<Rightarrow> u64 \<Rightarrow> u64" where
  "BRWalletFeeForTxSize w len = txFee (feePerKb w) len"

definition BRWalletMinOutputAmount :: "BRWallet \<Rightarrow> u64" where
  "BRWalletMinOutputAmount w =
     (let amount = (TX_MIN_OUTPUT_AMOUNT * feePerKb w + MIN_FEE_PER_KB - 1) div MIN_FEE_PER_KB
      in if amount > TX_MIN_OUTPUT_AMOUNT then amount else TX_MIN_OUTPUT_AMOUNT)"

definition BRWalletMaxOutputAmount :: "BRWallet \<Rightarrow> u64" where
  "BRWalletMaxOutputAmount w =
     (let known = filter (\<lambda>u. \<exists>t. allTx w (utxoHash u) = Some t \<and> unat (utxoN u) < length (outputs t)) (utxos w);
          amount = foldr (\<lambda>u a. a + utxo_amount w u) known 0; inCount = of_nat (length known);
          txSize = 8 + of_nat (BRVarIntSize inCount) + TX_INPUT_SIZE * inCount + of_nat (BRVarIntSize 2) + TX_OUTPUT_SIZE * 2;
          fee = txFee (feePerKb w) (txSize + 0)
      in if amount > fee then amount - fee else 0)"

section \<open>Creating and signing transactions\<close>

text \<open>
  The loop over the unspent outputs: the transaction, \<open>balance\<close> and \<open>feeAmount\<close>, and whether the loop
  was left because the transaction became too large.
\<close>

fun select_utxos ::
    "BRWallet \<Rightarrow> u64 \<Rightarrow> u64 \<Rightarrow> BRUTXO list \<Rightarrow> BRTransaction \<Rightarrow> u64 \<Rightarrow> u64 \<Rightarrow> BRTransaction \<times> u64 \<times> u64 \<times> bool" where
  "select_utxos w amount minAmount [] tx bal fee = (tx, bal, fee, False)"
| "select_utxos w amount minAmount (u # us) tx bal fee =
     (case allTx w (utxoHash u) of
        None \<Rightarrow> select_utxos w amount minAmount us tx bal fee
      | Some t \<Rightarrow>
          if unat (utxoN u) \<ge> length (outputs t) then select_utxos w amount minAmount us tx bal fee
          else
            let outp = outputs t ! unat (utxoN u);
                tx' = BRTransactionAddInput tx (txHash t) (utxoN u) (outAmount outp) (outScript outp) None None TXIN_SEQUENCE
            in if BRTransactionVSize tx' + TX_OUTPUT_SIZE > TX_MAX_SIZE then (tx', bal, fee, True)
               else
                 let bal' = bal + outAmount outp;
                     fee1 = txFee (feePerKb w) (BRTransactionVSize tx' + TX_OUTPUT_SIZE + 0);
                     fee' = (if balance w > amount + fee1 then fee1 + (balance w - (amount + fee1)) mod 100 else fee1)
                 in if bal' = amount + fee' \<or> bal' \<ge> amount + fee' + minAmount then (tx', bal', fee', False)
                    else select_utxos w amount minAmount us tx' bal' fee')"

definition outputs_amount :: "BRTxOutput list \<Rightarrow> u64" where
  "outputs_amount outs = foldl (\<lambda>a outp. a + outAmount outp) 0 outs"

definition new_tx_for :: "BRTxOutput list \<Rightarrow> BRTransaction" where
  "new_tx_for outs = foldl (\<lambda>tx outp. BRTransactionAddOutput tx (outAmount outp) (outScript outp)) BRTransactionNew outs"

text \<open>The change output, to the first unused address of the internal chain.\<close>

definition add_change ::
    "('p, 's, 'r) secp \<Rightarrow> bool \<Rightarrow> (nat \<Rightarrow> nat \<Rightarrow> nat) \<Rightarrow> BRWallet \<Rightarrow> BRTransaction \<Rightarrow> u64 \<Rightarrow> (BRWallet \<times> BRTransaction) option" where
  "add_change lib moved rand w tx change =
     do { (w', addrs, _) \<leftarrow> BRWalletUnusedAddrs lib moved w (Some [BR_ADDRESS_NONE]) 1 1;
          let addr = (case addrs of Some (a # _) \<Rightarrow> c_string a | _ \<Rightarrow> []);
          Some (w', BRTransactionShuffleOutputs rand (BRTransactionAddOutput tx change (Some (address_script (addrParams w) addr)))) }"

partial_function (option) BRWalletCreateTxForOutputs ::
    "('p, 's, 'r) secp \<Rightarrow> bool \<Rightarrow> (nat \<Rightarrow> nat \<Rightarrow> nat) \<Rightarrow> BRWallet \<Rightarrow> BRTxOutput list \<Rightarrow> (BRWallet \<times> BRTransaction option) option" where
  "BRWalletCreateTxForOutputs lib moved rand w outs =
     (let amount = outputs_amount outs; minAmount = BRWalletMinOutputAmount w; tx0 = new_tx_for outs;
          fee0 = txFee (feePerKb w) (BRTransactionVSize tx0 + TX_OUTPUT_SIZE);
          (tx, bal, fee, large) = select_utxos w amount minAmount (utxos w) tx0 0 fee0
      in if large then
           (if balance w < amount + txFee (feePerKb w) (10 + of_nat (length (utxos w)) * TX_INPUT_SIZE +
                                                        (of_nat (length outs) + 1) * TX_OUTPUT_SIZE + 0)
            then Some (w, None)
            else if outAmount (last outs) > amount + fee + minAmount - bal
            then BRWalletCreateTxForOutputs lib moved rand w
                   (butlast outs @ [(last outs)\<lparr>outAmount := outAmount (last outs) - (amount + fee - bal)\<rparr>])
            else BRWalletCreateTxForOutputs lib moved rand w (butlast outs))
         else if outs = [] \<or> bal < amount + fee then Some (w, None)
         else if bal - (amount + fee) > minAmount then
           add_change lib moved rand w tx (bal - (amount + fee)) \<bind> (\<lambda>r. Some (fst r, Some (snd r)))
         else Some (w, Some tx))"

definition BRWalletCreateTransaction ::
    "('p, 's, 'r) secp \<Rightarrow> bool \<Rightarrow> (nat \<Rightarrow> nat \<Rightarrow> nat) \<Rightarrow> BRWallet \<Rightarrow> u64 \<Rightarrow> bytes \<Rightarrow> (BRWallet \<times> BRTransaction option) option" where
  "BRWalletCreateTransaction lib moved rand w amount addr =
     BRWalletCreateTxForOutputs lib moved rand w
       [BRTxOutputSetAddress \<lparr>outAmount = amount, outScript = None\<rparr> (addrParams w) (Some addr)]"

definition BRWalletFeeForTxAmount ::
    "('p, 's, 'r) secp \<Rightarrow> bool \<Rightarrow> (nat \<Rightarrow> nat \<Rightarrow> nat) \<Rightarrow> BRWallet \<Rightarrow> u64 \<Rightarrow> (BRWallet \<times> u64) option" where
  "BRWalletFeeForTxAmount lib moved rand w amount =
     (let dummyScript = [OP_DUP, OP_HASH160, 20] @ replicate 20 0 @ [OP_EQUALVERIFY, OP_CHECKSIG];
          maxAmount = BRWalletMaxOutputAmount w;
          outp = \<lparr>outAmount = (if amount < maxAmount then amount else maxAmount), outScript = Some dummyScript\<rparr>
      in do { (w', tx) \<leftarrow> BRWalletCreateTxForOutputs lib moved rand w [outp];
              Some (w', case tx of None \<Rightarrow> 0 | Some t \<Rightarrow> BRWalletFeeForTx w' t) })"

text \<open>The positions in a chain, from its end, of the hashes that the inputs pay to.\<close>

definition chain_indexes :: "bytes list \<Rightarrow> BRTransaction \<Rightarrow> u32 list" where
  "chain_indexes chn tx =
     concat (map (\<lambda>inp. case BRScriptPKH (arr (inScript inp)) of
          None \<Rightarrow> []
        | Some pkh \<Rightarrow> map of_nat (filter (\<lambda>j. UInt160Eq (UInt160Get pkh) (chn ! j)) (rev [0..<length chn]))) (inputs tx))"

text \<open>\<open>None\<close> for the seed is the authentication that the user canceled, result -1.\<close>

definition BRWalletSignTransaction ::
    "('p, 's, 'r) secp \<Rightarrow> BRWallet \<Rightarrow> BRTransaction \<Rightarrow> u32 \<Rightarrow> bytes option \<Rightarrow> (BRTransaction \<times> int) option" where
  "BRWalletSignTransaction lib w tx forkId seed =
     (case seed of
        None \<Rightarrow> Some (tx, - 1)
      | Some sd \<Rightarrow>
          do { keys1 \<leftarrow> BRBIP32PrivKeyList lib sd SEQUENCE_INTERNAL_CHAIN (chain_indexes (internalChain w) tx);
               keys2 \<leftarrow> BRBIP32PrivKeyList lib sd SEQUENCE_EXTERNAL_CHAIN (chain_indexes (externalChain w) tx);
               (tx', _, r) \<leftarrow> BRTransactionSign lib tx forkId (keys1 @ keys2);
               Some (tx', if r then 1 else 0) })"

section \<open>Registering, updating and removing transactions\<close>

definition BRWalletRegisterTransaction ::
    "('p, 's, 'r) secp \<Rightarrow> (u32 \<Rightarrow> bool) \<Rightarrow> int \<Rightarrow> BRWallet \<Rightarrow> BRTransaction \<Rightarrow> (BRWallet \<times> wallet_event list \<times> bool) option" where
  "BRWalletRegisterTransaction lib moved now w tx =
     (if \<not> BRTransactionIsSigned tx then Some (w, [], False)
      else if allTx w (txHash tx) \<noteq> None then Some (w, [], True)
      else if BRWalletContainsTx w tx then
        do { w1 \<leftarrow> BRWalletInsertTx (w\<lparr>allTx := (allTx w)(txHash tx \<mapsto> tx)\<rparr>) tx;
             let w2 = BRWalletUpdateBalance now w1;
             (w3, _) \<leftarrow> BRWalletUnusedAddrs lib (moved 0) w2 None SEQUENCE_GAP_LIMIT_EXTERNAL 0;
             (w4, _) \<leftarrow> BRWalletUnusedAddrs lib (moved 1) w3 None SEQUENCE_GAP_LIMIT_INTERNAL 1;
             Some (w4, [BalanceChanged (balance w4), TxAdded tx], True) }
      else Some (if blockHeight tx = TX_UNCONFIRMED then w\<lparr>allTx := (allTx w)(txHash tx \<mapsto> tx)\<rparr> else w, [], False))"

text \<open>\<open>BRWalletNew\<close>: \<open>Some None\<close> is \<open>NULL\<close>, a list that does not match the master public key.\<close>

fun load_txs :: "BRTransaction list \<Rightarrow> BRWallet \<Rightarrow> BRWallet option" where
  "load_txs [] w = Some w"
| "load_txs (tx # txs) w =
     (if \<not> BRTransactionIsSigned tx \<or> allTx w (txHash tx) \<noteq> None then load_txs txs w
      else do { w1 \<leftarrow> BRWalletInsertTx (w\<lparr>allTx := (allTx w)(txHash tx \<mapsto> tx)\<rparr>) tx;
                load_txs txs (w1\<lparr>usedPKH := usedPKH w1 \<union> set (concat (map (\<lambda>outp. case output_pkh outp of None \<Rightarrow> [] | Some pkh \<Rightarrow> [pkh]) (outputs tx)))\<rparr>) })"

definition empty_wallet :: "BRAddressParams \<Rightarrow> BRMasterPubKey \<Rightarrow> BRWallet" where
  "empty_wallet params mpk =
     \<lparr>balance = 0, totalSent = 0, totalReceived = 0, feePerKb = DEFAULT_FEE_PER_KB, balanceHist = [], wBlockHeight = 0,
      utxos = [], transactions = [], masterPubKey = mpk, addrParams = params, internalChain = [], externalChain = [],
      allTx = (\<lambda>h. None), invalidTx = {}, pendingTx = {}, spentOutputs = {}, usedPKH = {}, allPKH = {}\<rparr>"

definition BRWalletNew ::
    "('p, 's, 'r) secp \<Rightarrow> (u32 \<Rightarrow> bool) \<Rightarrow> int \<Rightarrow> BRAddressParams \<Rightarrow> BRTransaction list \<Rightarrow> BRMasterPubKey \<Rightarrow> BRWallet option option" where
  "BRWalletNew lib moved now params txs mpk =
     do { w1 \<leftarrow> load_txs txs (empty_wallet params mpk);
          (w2, _) \<leftarrow> BRWalletUnusedAddrs lib (moved 0) w1 None SEQUENCE_GAP_LIMIT_EXTERNAL SEQUENCE_EXTERNAL_CHAIN;
          (w3, _) \<leftarrow> BRWalletUnusedAddrs lib (moved 1) w2 None SEQUENCE_GAP_LIMIT_INTERNAL SEQUENCE_INTERNAL_CHAIN;
          let w4 = BRWalletUpdateBalance now w3;
          Some (if txs \<noteq> [] \<and> \<not> BRWalletContainsTx w4 (hd txs) then None else Some w4) }"

text \<open>Removal: \<open>array_rm\<close> of the last entry, and the transactions that depend on the removed one.\<close>

definition remove_last :: "'a \<Rightarrow> 'a list \<Rightarrow> 'a list" where
  "remove_last x xs = rev (remove1 x (rev xs))"

definition dependents :: "BRWallet \<Rightarrow> BRTransaction \<Rightarrow> bytes \<Rightarrow> bytes list" where
  "dependents w tx h =
     filter (\<lambda>h'. h' \<noteq> txHash tx \<and> (\<exists>inp \<in> set (inputs (deref w h')). inTxHash inp = h))
       (takeWhile (\<lambda>h'. blockHeight (deref w h') \<ge> blockHeight tx) (rev (transactions w)))"

fun each_opt :: "('x \<Rightarrow> 's \<Rightarrow> 's option) \<Rightarrow> 'x list \<Rightarrow> 's \<Rightarrow> 's option" where
  "each_opt f [] s = Some s"
| "each_opt f (x # xs) s = f x s \<bind> (\<lambda>s'. each_opt f xs s')"

lemma mono_each_opt [partial_function_mono]:
  assumes "\<And>x s. mono_option (\<lambda>f. F f x s)"
  shows "mono_option (\<lambda>f. each_opt (F f) xs s)"
proof (induction xs arbitrary: s)
  case Nil
  show ?case by (simp add: option.const_mono)
next
  case (Cons x xs)
  have "mono_option (\<lambda>f. F f x s \<bind> (\<lambda>s'. each_opt (F f) xs s'))"
    using assms [of x s] Cons by (intro partial_function_mono) auto
  then show ?case by simp
qed

partial_function (option) BRWalletRemoveTransaction ::
    "int \<Rightarrow> bytes \<Rightarrow> BRWallet \<times> wallet_event list \<Rightarrow> (BRWallet \<times> wallet_event list) option" where
  "BRWalletRemoveTransaction now h st =
     (let w = fst st in
      case allTx w h of
        None \<Rightarrow> Some st
      | Some tx \<Rightarrow>
          if dependents w tx h \<noteq> [] then
            each_opt (BRWalletRemoveTransaction now) (rev (dependents w tx h)) st \<bind> (\<lambda>st'. BRWalletRemoveTransaction now h st')
          else
            let w' = BRWalletUpdateBalance now (w\<lparr>transactions := remove_last (txHash tx) (transactions w)\<rparr>) in
            (if BRWalletAmountSentByTx w' tx > 0 then BRWalletTransactionIsValid w' tx else Some False) \<bind> (\<lambda>notify.
            let recommend = notify \<and> (\<forall>inp \<in> set (inputs tx). \<exists>t. allTx w' (inTxHash inp) = Some t \<and> blockHeight t \<noteq> TX_UNCONFIRMED)
            in Some (w', snd st @ [BalanceChanged (balance w'), TxDeleted h notify recommend])))"

text \<open>One hash of \<open>BRWalletUpdateTransactions\<close>: the state, the hashes that were updated and \<open>needsUpdate\<close>.\<close>

definition update_tx ::
    "u32 \<Rightarrow> u32 \<Rightarrow> bytes \<Rightarrow> BRWallet \<times> bytes list \<times> bool \<Rightarrow> (BRWallet \<times> bytes list \<times> bool) option" where
  "update_tx height ts h = (\<lambda>(w, hashes, needsUpdate).
     case allTx w h of
       None \<Rightarrow> Some (w, hashes, needsUpdate)
     | Some tx \<Rightarrow>
         if blockHeight tx = height \<and> timestamp tx = ts then Some (w, hashes, needsUpdate)
         else
           let tx' = tx\<lparr>timestamp := ts, blockHeight := height\<rparr>; w1 = w\<lparr>allTx := (allTx w)(h \<mapsto> tx')\<rparr> in
           if BRWalletContainsTx w1 tx' then
             do { w2 \<leftarrow> (if txHash tx' \<in> set (transactions w1)
                        then BRWalletInsertTx (w1\<lparr>transactions := remove_last (txHash tx') (transactions w1)\<rparr>) tx'
                        else Some w1);
                  Some (w2, hashes @ [h], needsUpdate \<or> txHash tx' \<in> pendingTx w2 \<or> txHash tx' \<in> invalidTx w2) }
           else if height \<noteq> TX_UNCONFIRMED then Some (w1\<lparr>allTx := (allTx w1)(h := None)\<rparr>, hashes, needsUpdate)
           else Some (w1, hashes, needsUpdate))"

definition BRWalletUpdateTransactions ::
    "int \<Rightarrow> BRWallet \<Rightarrow> bytes list \<Rightarrow> u32 \<Rightarrow> u32 \<Rightarrow> (BRWallet \<times> wallet_event list) option" where
  "BRWalletUpdateTransactions now w txHashes height ts =
     do { let w0 = (if height > wBlockHeight w then w\<lparr>wBlockHeight := height\<rparr> else w);
          (w1, hashes, needsUpdate) \<leftarrow> each_opt (update_tx height ts) txHashes (w0, [], False);
          Some (if needsUpdate then BRWalletUpdateBalance now w1 else w1,
                if hashes \<noteq> [] then [TxUpdated hashes height ts] else []) }"

definition BRWalletSetTxUnconfirmedAfter :: "int \<Rightarrow> BRWallet \<Rightarrow> u32 \<Rightarrow> BRWallet \<times> wallet_event list" where
  "BRWalletSetTxUnconfirmedAfter now w height =
     (let w0 = w\<lparr>wBlockHeight := height\<rparr>;
          n = length (takeWhile (\<lambda>h. blockHeight (deref w h) > height) (rev (transactions w)));
          hashes = drop (length (transactions w) - n) (transactions w);
          w1 = foldl (\<lambda>w h. w\<lparr>allTx := (allTx w)(h \<mapsto> (deref w h)\<lparr>blockHeight := TX_UNCONFIRMED\<rparr>)\<rparr>) w0 hashes
      in if hashes \<noteq> [] then (BRWalletUpdateBalance now w1, [TxUpdated hashes TX_UNCONFIRMED 0]) else (w1, []))"

end
