(* ===== verification/WalletInv.thy ===== *)
theory WalletInv
  imports Wallet
begin

text \<open>
  The state of the wallet stays consistent: the invariant \<open>wallet_inv\<close>, that every operation keeps it, and
  that it holds in every state the wallet can reach.
\<close>

section \<open>The invariant\<close>

text \<open>The number of outputs fits the 32 bit index of an outpoint.\<close>

definition tx_ok :: "BRTransaction \<Rightarrow> bool" where
  "tx_ok tx \<longleftrightarrow> length (outputs tx) < 2 ^ 32"

definition store_ok :: "BRWallet \<Rightarrow> bool" where
  "store_ok w \<longleftrightarrow> (\<forall>h t. allTx w h = Some t \<longrightarrow> txHash t = h \<and> tx_ok t)"

definition utxo_ok :: "BRWallet \<Rightarrow> BRUTXO \<Rightarrow> bool" where
  "utxo_ok w u \<longleftrightarrow>
     (\<exists>t. allTx w (utxoHash u) = Some t \<and> unat (utxoN u) < length (outputs t) \<and> own_output w (outputs t ! unat (utxoN u)))"

text \<open>The balance is the sum of the unspent outputs, and what was received less what was sent.\<close>

definition balance_ok :: "BRWallet \<Rightarrow> bool" where
  "balance_ok w \<longleftrightarrow>
     distinct (utxos w) \<and> (\<forall>u \<in> set (utxos w). utxo_ok w u) \<and>
     balance w = sum_list (map (utxo_amount w) (utxos w)) \<and>
     balance w = totalReceived w - totalSent w \<and>
     length (balanceHist w) = length (transactions w)"

definition wallet_inv :: "BRWallet \<Rightarrow> bool" where
  "wallet_inv w \<longleftrightarrow>
     store_ok w \<and> distinct (transactions w) \<and>
     (\<forall>h \<in> set (transactions w). \<exists>t. allTx w h = Some t \<and> BRWalletContainsTx w t) \<and>
     allPKH w = set (internalChain w) \<union> set (externalChain w) \<and>
     balance_ok w"

section \<open>Recomputing the balance\<close>

lemma own_output_cong: "allPKH w = allPKH w' \<Longrightarrow> own_output w = own_output w'"
  by (simp add: own_output_def fun_eq_iff split: option.split)

definition new_utxos :: "BRWallet \<Rightarrow> bytes \<Rightarrow> BRTxOutput list \<Rightarrow> nat \<Rightarrow> BRUTXO list" where
  "new_utxos w h outs j =
     map (\<lambda>k. \<lparr>utxoHash = h, utxoN = of_nat (j + k)\<rparr>) (filter (\<lambda>k. own_output w (outs ! k)) [0..<length outs])"

lemma new_utxos_Cons:
  "new_utxos w h (outp # outs) j =
     (if own_output w outp then [\<lparr>utxoHash = h, utxoN = of_nat j\<rparr>] else []) @ new_utxos w h outs (Suc j)"
proof -
  have "[0..<Suc n] = 0 # map Suc [0..<n]" for n by (simp add: map_Suc_upt upt_conv_Cons del: upt_Suc)
  then show ?thesis by (simp add: new_utxos_def filter_map comp_def del: upt_Suc)
qed

lemma add_utxos_eq:
  "\<exists>used. add_utxos h outs j (w, bal) =
     (w\<lparr>usedPKH := used, utxos := utxos w @ new_utxos w h outs j\<rparr>,
      bal + sum_list (map outAmount (filter (own_output w) outs)))"
proof (induction outs arbitrary: j w bal)
  case Nil
  show ?case by (intro exI [of _ "usedPKH w"]) (simp add: new_utxos_def)
next
  case (Cons outp outs)
  let ?w = "if own_output w outp
      then w\<lparr>usedPKH := insert (the (output_pkh outp)) (usedPKH w), utxos := utxos w @ [\<lparr>utxoHash = h, utxoN = of_nat j\<rparr>]\<rparr> else w"
  have own: "own_output ?w = own_output w" by (rule own_output_cong) simp
  then have new: "new_utxos ?w h outs (Suc j) = new_utxos w h outs (Suc j)" by (simp add: new_utxos_def)
  from Cons [of "Suc j" ?w "if own_output w outp then bal + outAmount outp else bal"] show ?case
    unfolding new own by (auto simp: new_utxos_Cons add.assoc split: if_splits)
qed

lemma sum_new_utxos:
  assumes "allTx w h = Some t" "tx_ok t"
  shows "sum_list (map (utxo_amount w) (new_utxos w h (outputs t) 0)) = sum_list (map outAmount (filter (own_output w) (outputs t)))"
proof -
  let ?outs = "outputs t"
  have "map (utxo_amount w) (new_utxos w h ?outs 0) = map (\<lambda>k. outAmount (?outs ! k)) (filter (\<lambda>k. own_output w (?outs ! k)) [0..<length ?outs])"
    using assms by (simp add: new_utxos_def utxo_amount_def deref_def tx_ok_def unat_of_nat_small)
  also have "\<dots> = map outAmount (map ((!) ?outs) (filter (\<lambda>k. own_output w (?outs ! k)) [0..<length ?outs]))" by simp
  also have "map ((!) ?outs) (filter (\<lambda>k. own_output w (?outs ! k)) [0..<length ?outs]) = filter (own_output w) (map ((!) ?outs) [0..<length ?outs])"
    by (simp add: filter_map comp_def)
  finally show ?thesis by (simp add: map_nth)
qed

lemma new_utxos_props:
  assumes "allTx w h = Some t" "tx_ok t"
  shows "distinct (new_utxos w h (outputs t) 0)" "u \<in> set (new_utxos w h (outputs t) 0) \<Longrightarrow> utxoHash u = h \<and> utxo_ok w u"
proof -
  show "distinct (new_utxos w h (outputs t) 0)"
    unfolding new_utxos_def distinct_map
  proof
    show "inj_on (\<lambda>k. \<lparr>utxoHash = h, utxoN = of_nat (0 + k)\<rparr>) (set (filter (\<lambda>k. own_output w (outputs t ! k)) [0..<length (outputs t)]))"
      using assms(2) by (intro inj_on_inverseI [of _ "\<lambda>u. unat (utxoN u)"]) (simp add: tx_ok_def unat_of_nat_small)
  qed simp
  show "utxoHash u = h \<and> utxo_ok w u" if "u \<in> set (new_utxos w h (outputs t) 0)"
    using that assms by (auto simp: new_utxos_def utxo_ok_def tx_ok_def unat_of_nat_small)
qed

lemma sweep_spent_eq:
  "sweep_spent w us bal = (filter (\<lambda>u. u \<notin> spentOutputs w) us, bal - sum_list (map (utxo_amount w) (filter (\<lambda>u. u \<in> spentOutputs w) us)))"
  by (induction us) (auto simp: Let_def algebra_simps)

lemma sum_split: "sum_list (map f us) - sum_list (map f (filter P us)) = sum_list (map f (filter (\<lambda>u. \<not> P u) us))"
  for f :: "'a \<Rightarrow> 'b::ab_group_add"
  by (induction us) (auto simp: algebra_simps)

text \<open>What the recomputation keeps after every transaction; \<open>w0\<close> is the state it started from.\<close>

fun step_inv :: "BRWallet \<Rightarrow> bytes list \<Rightarrow> BRWallet \<times> u64 \<times> u64 \<Rightarrow> bool" where
  "step_inv w0 ids (w, bal, prev) \<longleftrightarrow>
     (\<exists>sp iv pe used us hist ts tr.
        w = w0\<lparr>spentOutputs := sp, invalidTx := iv, pendingTx := pe, usedPKH := used, utxos := us, balanceHist := hist,
               totalSent := ts, totalReceived := tr\<rparr> \<and>
        prev = bal \<and> bal = sum_list (map (utxo_amount w0) us) \<and> bal = tr - ts \<and> length hist = length ids \<and>
        distinct us \<and> (\<forall>u \<in> set us. utxoHash u \<in> set ids \<and> utxo_ok w0 u))"

lemma same_store: "allTx w = allTx w' \<Longrightarrow> deref w = deref w'" "allTx w = allTx w' \<Longrightarrow> utxo_amount w = utxo_amount w'"
  by (simp_all add: deref_def utxo_amount_def fun_eq_iff)

lemma utxo_ok_cong: "allTx w = allTx w' \<Longrightarrow> allPKH w = allPKH w' \<Longrightarrow> utxo_ok w = utxo_ok w'"
  using own_output_cong [of w w'] by (simp add: utxo_ok_def fun_eq_iff)

lemma new_utxos_cong: "allPKH w = allPKH w' \<Longrightarrow> new_utxos w = new_utxos w'"
  using own_output_cong [of w w'] by (simp add: new_utxos_def fun_eq_iff)

lemma step_inv_skip:
  "step_inv w0 ids (w, bal, prev) \<Longrightarrow>
     step_inv w0 (ids @ [h]) (w\<lparr>spentOutputs := sp, invalidTx := iv, pendingTx := pe, balanceHist := balanceHist w @ [bal]\<rparr>, bal, prev)"
  unfolding step_inv.simps
proof (elim exE conjE, goal_cases)
  case (1 _ _ _ used us hist ts tr)
  then show ?case
    by (intro exI [of _ sp] exI [of _ iv] exI [of _ pe] exI [of _ used] exI [of _ us] exI [of _ "hist @ [bal]"] exI [of _ ts] exI [of _ tr]) simp
qed

lemma step_inv_accept:
  assumes inv: "step_inv w0 ids (w, bal, prev)" and h: "store_ok w0" "allTx w0 h = Some t" "h \<notin> set ids"
    and add: "add_utxos h (outputs t) 0 (w\<lparr>spentOutputs := sp\<rparr>, bal) = (w2, bal2)"
    and sweep: "sweep_spent w2 (utxos w2) bal2 = (us, bal3)"
  shows "step_inv w0 (ids @ [h])
    (w2\<lparr>utxos := us, totalReceived := (if prev < bal3 then totalReceived w2 + (bal3 - prev) else totalReceived w2),
        totalSent := (if bal3 < prev then totalSent w2 + (prev - bal3) else totalSent w2),
        balanceHist := balanceHist w2 @ [bal3]\<rparr>, bal3, bal3)"
proof -
  obtain sp0 iv pe used vs hist ts tr where w: "w = w0\<lparr>spentOutputs := sp0, invalidTx := iv, pendingTx := pe, usedPKH := used, utxos := vs,
        balanceHist := hist, totalSent := ts, totalReceived := tr\<rparr>"
      and prev: "prev = bal" and bal: "bal = sum_list (map (utxo_amount w0) vs)" "bal = tr - ts" and hist: "length hist = length ids"
      and vs: "distinct vs" "\<forall>u \<in> set vs. utxoHash u \<in> set ids \<and> utxo_ok w0 u"
    using inv by auto
  have t: "tx_ok t" using h(1,2) by (simp add: store_ok_def)
  let ?new = "new_utxos w0 h (outputs t) 0"
  have new: "distinct ?new" "\<And>u. u \<in> set ?new \<Longrightarrow> utxoHash u = h \<and> utxo_ok w0 u"
    using new_utxos_props [OF h(2) t] by blast+
  obtain used' where "(w2, bal2) = (w\<lparr>spentOutputs := sp, usedPKH := used', utxos := vs @ ?new\<rparr>,
      bal + sum_list (map outAmount (filter (own_output w0) (outputs t))))"
    using add_utxos_eq [of h "outputs t" 0 "w\<lparr>spentOutputs := sp\<rparr>" bal] add
      own_output_cong [of "w\<lparr>spentOutputs := sp\<rparr>" w0] new_utxos_cong [of "w\<lparr>spentOutputs := sp\<rparr>" w0] by (auto simp: w)
  then have w2: "w2 = w\<lparr>spentOutputs := sp, usedPKH := used', utxos := vs @ ?new\<rparr>"
    and bal2: "bal2 = sum_list (map (utxo_amount w0) (vs @ ?new))"
    using sum_new_utxos [OF h(2) t] bal(1) by simp_all
  have amount: "utxo_amount w2 = utxo_amount w0" by (rule same_store(2)) (simp add: w2 w)
  have us: "us = filter (\<lambda>u. u \<notin> sp) (vs @ ?new)" and bal3: "bal3 = sum_list (map (utxo_amount w0) us)"
    using sweep bal2 unfolding sweep_spent_eq amount
    by (auto simp: w2 simp del: filter_append sum_list_append map_append simp flip: sum_split [of _ _ "\<lambda>u. u \<in> sp"])
  have "distinct us" "\<forall>u \<in> set us. utxoHash u \<in> set (ids @ [h]) \<and> utxo_ok w0 u"
    unfolding us using vs new h(3) by auto
  moreover have "bal3 = (if prev < bal3 then tr + (bal3 - prev) else tr) - (if bal3 < prev then ts + (prev - bal3) else ts)"
    unfolding prev bal(2) by (cases "tr - ts" bal3 rule: linorder_cases) (auto simp: algebra_simps dest: less_asym)
  ultimately show ?thesis
    unfolding step_inv.simps w2 w
    using hist bal3 by (intro exI [of _ sp] exI [of _ iv] exI [of _ pe] exI [of _ used'] exI [of _ us] exI [of _ "hist @ [bal3]"]
        exI [of _ "if bal3 < prev then ts + (prev - bal3) else ts"] exI [of _ "if prev < bal3 then tr + (bal3 - prev) else tr"]) simp
qed

lemma balance_step_inv:
  assumes inv: "step_inv w0 ids st" and h: "store_ok w0" "allTx w0 h = Some t" "h \<notin> set ids"
  shows "step_inv w0 (ids @ [h]) (balance_step now st h)"
proof -
  obtain w bal prev where st: "st = (w, bal, prev)" by (cases st)
  then have store: "allTx w = allTx w0" using inv by auto
  then have tx: "deref w h = t" "txHash t = h" using h by (auto simp: deref_def store_ok_def)
  let ?w1 = "w\<lparr>spentOutputs := spentOutputs w \<union> set (map input_utxo (inputs t))\<rparr>"
  show ?thesis
  proof (cases "blockHeight t = TX_UNCONFIRMED \<and> (tx_conflicts w t \<or> tx_pending now ?w1 t)")
    case True
    then show ?thesis
      using step_inv_skip [where h = h and sp = "spentOutputs w" and iv = "insert h (invalidTx w)" and pe = "pendingTx w", OF inv [unfolded st]]
        step_inv_skip [where h = h and sp = "spentOutputs ?w1" and iv = "invalidTx w" and pe = "insert h (pendingTx w)", OF inv [unfolded st]]
      unfolding st balance_step.simps tx Let_def by (auto simp del: step_inv.simps)
  next
    case False
    obtain w2 bal2 where add: "add_utxos h (outputs t) 0 (?w1, bal) = (w2, bal2)" by fastforce
    obtain us bal3 where sweep: "sweep_spent w2 (utxos w2) bal2 = (us, bal3)" by fastforce
    have "\<not> (blockHeight t = TX_UNCONFIRMED \<and> tx_conflicts w t)" "\<not> (blockHeight t = TX_UNCONFIRMED \<and> tx_pending now ?w1 t)"
      using False by blast+
    then have "balance_step now st h = (w2\<lparr>utxos := us, totalReceived := (if prev < bal3 then totalReceived w2 + (bal3 - prev) else totalReceived w2),
        totalSent := (if bal3 < prev then totalSent w2 + (prev - bal3) else totalSent w2),
        balanceHist := balanceHist w2 @ [bal3]\<rparr>, bal3, bal3)"
      unfolding st balance_step.simps tx Let_def by (simp only: if_False add sweep prod.case)
    then show ?thesis using step_inv_accept [OF inv [unfolded st] h add sweep] by (simp del: step_inv.simps)
  qed
qed

text \<open>The fields that the recomputation does not write.\<close>

lemma UpdateBalance_inv:
  assumes "store_ok w" "distinct (transactions w)" "\<forall>h \<in> set (transactions w). allTx w h \<noteq> None"
  shows "\<exists>sp iv pe used us hist ts tr b. BRWalletUpdateBalance now w =
      w\<lparr>spentOutputs := sp, invalidTx := iv, pendingTx := pe, usedPKH := used, utxos := us, balanceHist := hist,
        totalSent := ts, totalReceived := tr, balance := b\<rparr>"
    "balance_ok (BRWalletUpdateBalance now w)"
proof -
  let ?w0 = "w\<lparr>utxos := [], balanceHist := [], spentOutputs := {}, invalidTx := {}, pendingTx := {}, usedPKH := {},
                totalSent := 0, totalReceived := 0\<rparr>"
  have fold: "step_inv w ids (foldl (balance_step now) (?w0, 0, 0) ids)" if "distinct ids" "\<forall>h \<in> set ids. allTx w h \<noteq> None" for ids
    using that
  proof (induction ids rule: rev_induct)
    case Nil
    show ?case
      by (simp, intro exI [of _ "{}"] exI [of _ "[]"] exI [of _ 0] conjI) (simp_all add: BRWallet.equality)
  next
    case (snoc h ids)
    then obtain t where "allTx w h = Some t" by auto
    then show ?case using snoc assms(1) by (simp add: balance_step_inv del: step_inv.simps)
  qed
  obtain w' bal prev where f: "foldl (balance_step now) (?w0, 0, 0) (transactions w) = (w', bal, prev)" by (metis prod_cases3)
  from fold [OF assms(2,3)] obtain sp iv pe used us hist ts tr where
      w': "w' = w\<lparr>spentOutputs := sp, invalidTx := iv, pendingTx := pe, usedPKH := used, utxos := us, balanceHist := hist,
        totalSent := ts, totalReceived := tr\<rparr>"
      and bal: "bal = sum_list (map (utxo_amount w) us)" "bal = tr - ts" and hist: "length hist = length (transactions w)"
      and us: "distinct us" "\<forall>u \<in> set us. utxo_ok w u"
    unfolding f step_inv.simps by blast
  have eq: "BRWalletUpdateBalance now w = w'\<lparr>balance := bal\<rparr>" by (simp add: BRWalletUpdateBalance_def f Let_def)
  show "\<exists>sp iv pe used us hist ts tr b. BRWalletUpdateBalance now w =
      w\<lparr>spentOutputs := sp, invalidTx := iv, pendingTx := pe, usedPKH := used, utxos := us, balanceHist := hist,
        totalSent := ts, totalReceived := tr, balance := b\<rparr>"
    unfolding eq w' by (intro exI [of _ sp] exI [of _ iv] exI [of _ pe] exI [of _ used] exI [of _ us] exI [of _ hist] exI [of _ ts]
        exI [of _ tr] exI [of _ bal]) simp
  have "utxo_amount (BRWalletUpdateBalance now w) = utxo_amount w" "utxo_ok (BRWalletUpdateBalance now w) = utxo_ok w"
    unfolding eq w' by (auto intro: same_store utxo_ok_cong)
  then show "balance_ok (BRWalletUpdateBalance now w)"
    using bal hist us by (simp add: balance_ok_def) (simp add: eq w')
qed

section \<open>Steps that keep the outputs that are ours\<close>

text \<open>
  \<open>w'\<close> knows every key that \<open>w\<close> knows, and every transaction with an output to one of them, with the
  same outputs.
\<close>

definition extends :: "BRWallet \<Rightarrow> BRWallet \<Rightarrow> bool" where
  "extends w w' \<longleftrightarrow>
     allPKH w \<subseteq> allPKH w' \<and>
     (\<forall>h t. allTx w h = Some t \<longrightarrow> (\<exists>outp \<in> set (outputs t). own_output w outp) \<longrightarrow>
        (\<exists>t'. allTx w' h = Some t' \<and> outputs t' = outputs t))"

lemma extends_refl [simp]: "extends w w" by (simp add: extends_def)

lemma own_output_mono: "allPKH w \<subseteq> allPKH w' \<Longrightarrow> own_output w outp \<Longrightarrow> own_output w' outp"
  by (auto simp: own_output_def split: option.splits)

lemma extends_output: "extends w w' \<Longrightarrow> own_output w outp \<Longrightarrow> own_output w' outp"
  using own_output_mono by (auto simp: extends_def)

lemma extends_trans: "extends w w' \<Longrightarrow> extends w' w'' \<Longrightarrow> extends w w''"
  unfolding extends_def using own_output_mono by (smt (verit) order_trans)

lemma extends_nth:
  assumes "extends w w'" "allTx w h = Some t" "n < length (outputs t)" "own_output w (outputs t ! n)"
  obtains t' where "allTx w' h = Some t'" "outputs t' = outputs t" "own_output w' (outputs t ! n)"
proof -
  have "\<exists>outp \<in> set (outputs t). own_output w outp" using assms(3,4) nth_mem by blast
  then obtain t' where "allTx w' h = Some t'" "outputs t' = outputs t" using assms(1,2) unfolding extends_def by blast
  then show thesis using that extends_output [OF assms(1,4)] by blast
qed

lemma extends_input: "extends w w' \<Longrightarrow> own_input w inp \<Longrightarrow> own_input w' inp"
  by (auto simp: own_input_def split: option.splits elim!: extends_nth)

lemma extends_contains:
  assumes "extends w w'" "BRWalletContainsTx w t" "set (inputs t) = set (inputs t')" "set (outputs t) = set (outputs t')"
  shows "BRWalletContainsTx w' t'"
  using assms extends_output extends_input by (fastforce simp: BRWalletContainsTx_def)

lemma extends_utxo: "extends w w' \<Longrightarrow> utxo_ok w u \<Longrightarrow> utxo_ok w' u \<and> utxo_amount w' u = utxo_amount w u"
  by (auto simp: utxo_ok_def utxo_amount_def deref_def elim!: extends_nth)

text \<open>The fields that the balance is about.\<close>

definition balance_view :: "BRWallet \<Rightarrow> BRUTXO list \<times> u64 \<times> u64 \<times> u64 \<times> nat \<times> nat" where
  "balance_view w = (utxos w, balance w, totalReceived w, totalSent w, length (balanceHist w), length (transactions w))"

lemma extends_balance: "extends w w' \<Longrightarrow> balance_view w' = balance_view w \<Longrightarrow> balance_ok w \<Longrightarrow> balance_ok w'"
  using extends_utxo [of w w'] by (auto simp: balance_ok_def balance_view_def cong: map_cong)

text \<open>The part of the invariant that does not need a balance.\<close>

definition base_inv :: "BRWallet \<Rightarrow> bool" where
  "base_inv w \<longleftrightarrow>
     store_ok w \<and> distinct (transactions w) \<and>
     (\<forall>h \<in> set (transactions w). \<exists>t. allTx w h = Some t \<and> BRWalletContainsTx w t) \<and>
     allPKH w = set (internalChain w) \<union> set (externalChain w)"

lemma wallet_inv_iff: "wallet_inv w \<longleftrightarrow> base_inv w \<and> balance_ok w"
  by (auto simp: wallet_inv_def base_inv_def)

lemma UpdateBalance_fields:
  assumes "base_inv w"
  shows "allTx (BRWalletUpdateBalance now w) = allTx w" "transactions (BRWalletUpdateBalance now w) = transactions w"
    "allPKH (BRWalletUpdateBalance now w) = allPKH w" "internalChain (BRWalletUpdateBalance now w) = internalChain w"
    "externalChain (BRWalletUpdateBalance now w) = externalChain w"
  using UpdateBalance_inv(1) [of w now] assms by (fastforce simp: base_inv_def)+

lemma contains_cong:
  assumes "allTx w = allTx w'" "allPKH w = allPKH w'"
  shows "BRWalletContainsTx w = BRWalletContainsTx w'" "store_ok w = store_ok w'"
  using own_output_cong [OF assms(2)] assms by (simp_all add: BRWalletContainsTx_def own_input_def store_ok_def fun_eq_iff cong: option.case_cong)

lemma UpdateBalance_wallet_inv:
  assumes "base_inv w"
  shows "wallet_inv (BRWalletUpdateBalance now w)"
proof -
  have "balance_ok (BRWalletUpdateBalance now w)"
    by (rule UpdateBalance_inv(2)) (use assms in \<open>auto simp: base_inv_def\<close>)
  then show ?thesis
    using assms UpdateBalance_fields [of w now] contains_cong [of "BRWalletUpdateBalance now w" w]
    by (simp add: wallet_inv_iff base_inv_def)
qed

text \<open>A step that leaves the array of transactions and the chains as they are, and one that extends a chain.\<close>

lemma extends_inv:
  assumes "wallet_inv w" "extends w w'" "balance_view w' = balance_view w" "store_ok w'" "mset (transactions w') = mset (transactions w)"
    "\<And>h t. h \<in> set (transactions w) \<Longrightarrow> allTx w h = Some t \<Longrightarrow>
       \<exists>t'. allTx w' h = Some t' \<and> set (inputs t') = set (inputs t) \<and> set (outputs t') = set (outputs t)"
    "allPKH w' = set (internalChain w') \<union> set (externalChain w')"
  shows "wallet_inv w'"
proof -
  have "set (transactions w') = set (transactions w)" "distinct (transactions w') = distinct (transactions w)"
    using assms(5) mset_eq_setD mset_eq_imp_distinct_iff by blast+
  moreover have "\<exists>t'. allTx w' h = Some t' \<and> BRWalletContainsTx w' t'" if h: "h \<in> set (transactions w)" for h
  proof -
    obtain t where t: "allTx w h = Some t" "BRWalletContainsTx w t" using h assms(1) by (auto simp: wallet_inv_def)
    with assms(6) [OF h t(1)] show ?thesis using extends_contains [OF assms(2) t(2)] by metis
  qed
  ultimately show ?thesis
    using assms extends_balance [OF assms(2,3)] by (auto simp: wallet_inv_def)
qed

lemma InsertTx_mset:
  assumes "BRWalletInsertTx w tx = Some w'"
  obtains hs where "w' = w\<lparr>transactions := hs\<rparr>" "mset hs = add_mset (txHash tx) (mset (transactions w))"
proof -
  have "insert_from_end w tx xs = Some hs \<Longrightarrow> mset hs = add_mset (txHash tx) (mset xs)" for xs hs
    by (induction xs arbitrary: hs) (auto split: bind_splits if_splits)
  with assms that show thesis by (fastforce simp: BRWalletInsertTx_def)
qed

end
