(* ===== verification/WalletOps.thy ===== *)
theory WalletOps
  imports WalletInv
begin

text \<open>
  The operations of the wallet keep the invariant \<open>wallet_inv\<close>, operation by operation and for every run.
\<close>

section \<open>Addresses\<close>

lemma extend_chain_prefix:
  assumes "extend_chain derive used gap chn i = Some r"
  shows "\<exists>new. fst r = chn @ new"
proof (rule extend_chain.raw_induct [of "\<lambda>derive used gap chn i r. \<exists>new. fst r = chn @ new", OF _ assms])
  fix rec derive used gap chn i r
  assume IH: "\<And>derive used gap chn i r. rec derive used gap chn i = Some r \<Longrightarrow> \<exists>new. fst r = chn @ new"
    and step: "(if length chn < i + gap
      then case derive (length chn) of None \<Rightarrow> Some (chn, i)
        | Some pkh \<Rightarrow> rec derive used gap (chn @ [pkh]) (if pkh \<in> used then length chn + 1 else i)
      else Some (chn, i)) = Some (r :: bytes list \<times> nat)"
  then show "\<exists>new. fst r = chn @ new" by (fastforce split: if_splits option.splits dest: IH)
qed

text \<open>
  A call of \<open>BRWalletUnusedAddrs\<close> only extends one chain, and \<open>allPKH\<close> with it, whether the array of the
  chain was moved or not.
\<close>

lemma UnusedAddrs_effect:
  assumes "BRWalletUnusedAddrs lib moved w addrs gap internal = Some (w', r)"
    "allPKH w = set (internalChain w) \<union> set (externalChain w)"
  obtains new where
    "w' = (if internal = SEQUENCE_INTERNAL_CHAIN
           then w\<lparr>internalChain := internalChain w @ new, allPKH := allPKH w \<union> set new\<rparr>
           else w\<lparr>externalChain := externalChain w @ new, allPKH := allPKH w \<union> set new\<rparr>)"
proof -
  let ?chn = "if internal = SEQUENCE_INTERNAL_CHAIN then internalChain w else externalChain w"
  obtain chn' i where ext: "extend_chain (chain_pkh lib (masterPubKey w) internal) (usedPKH w) gap ?chn
        (trailing_unused (usedPKH w) ?chn (length ?chn)) = Some (chn', i)"
    using assms(1) by (auto simp: BRWalletUnusedAddrs_def Let_def split: bind_splits)
  obtain new where new: "chn' = ?chn @ new" using extend_chain_prefix [OF ext] by auto
  have "w' = (if internal = SEQUENCE_INTERNAL_CHAIN
           then w\<lparr>internalChain := internalChain w @ new, allPKH := allPKH w \<union> set new\<rparr>
           else w\<lparr>externalChain := externalChain w @ new, allPKH := allPKH w \<union> set new\<rparr>)"
    using assms ext new by (auto simp: BRWalletUnusedAddrs_def Let_def Un_ac split: bind_splits if_splits)
  then show thesis by (rule that)
qed

lemma inv_chains: "wallet_inv w \<Longrightarrow> allPKH w = set (internalChain w) \<union> set (externalChain w)"
  by (simp add: wallet_inv_def)

lemma inv_store: "wallet_inv w \<Longrightarrow> store_ok w"
  by (simp add: wallet_inv_def)

lemma UnusedAddrs_inv:
  assumes "BRWalletUnusedAddrs lib moved w addrs gap internal = Some (w', r)" "wallet_inv w"
  shows "wallet_inv w' \<and> extends w w'"
proof -
  obtain new where w': "w' = (if internal = SEQUENCE_INTERNAL_CHAIN
           then w\<lparr>internalChain := internalChain w @ new, allPKH := allPKH w \<union> set new\<rparr>
           else w\<lparr>externalChain := externalChain w @ new, allPKH := allPKH w \<union> set new\<rparr>)"
    using UnusedAddrs_effect [OF assms(1) inv_chains [OF assms(2)]] .
  have ext: "extends w w'" by (auto simp: w' extends_def)
  have "wallet_inv w'"
    by (rule extends_inv [OF assms(2) ext])
      (use assms(2) in \<open>auto simp: w' balance_view_def wallet_inv_def store_ok_def\<close>)
  then show ?thesis using ext by simp
qed

section \<open>Registering\<close>

text \<open>An unknown transaction enters the store.\<close>

lemma extends_new: "allTx w (txHash tx) = None \<Longrightarrow> extends w (w\<lparr>allTx := (allTx w)(txHash tx \<mapsto> tx)\<rparr>)"
  using own_output_cong [of "w\<lparr>allTx := (allTx w)(txHash tx \<mapsto> tx)\<rparr>" w] by (auto simp: extends_def)

lemma new_tx_inv:
  assumes "wallet_inv w" "allTx w (txHash tx) = None" "tx_ok tx"
  shows "wallet_inv (w\<lparr>allTx := (allTx w)(txHash tx \<mapsto> tx)\<rparr>)"
  by (rule extends_inv [OF assms(1) extends_new [OF assms(2)]])
    (use assms in \<open>auto simp: balance_view_def wallet_inv_def store_ok_def\<close>)

text \<open>A step that adds an entry to the array of transactions, and one that takes one away.\<close>

lemma insert_base_inv:
  assumes ins: "BRWalletInsertTx w tx = Some w'" and base: "base_inv w" and tx: "allTx w (txHash tx) = Some t" "BRWalletContainsTx w t"
    "txHash tx \<notin> set (transactions w)"
  shows "base_inv w'"
proof -
  obtain hs where w': "w' = w\<lparr>transactions := hs\<rparr>" and hs: "mset hs = add_mset (txHash tx) (mset (transactions w))"
    using InsertTx_mset [OF ins] .
  have "mset hs = mset (txHash tx # transactions w)" using hs by simp
  from mset_eq_setD [OF this] mset_eq_imp_distinct_iff [OF this]
  have "set hs = insert (txHash tx) (set (transactions w))" "distinct hs \<longleftrightarrow> distinct (txHash tx # transactions w)"
    by simp_all
  then show ?thesis
    using base tx contains_cong [of w' w] by (auto simp: base_inv_def w' store_ok_def)
qed

lemma remove_base_inv: "base_inv w \<Longrightarrow> base_inv (w\<lparr>transactions := remove_last h (transactions w)\<rparr>)"
  using contains_cong [of "w\<lparr>transactions := remove_last h (transactions w)\<rparr>" w] set_remove1_subset
  by (fastforce simp: base_inv_def remove_last_def store_ok_def)

lemma inv_base: "wallet_inv w \<Longrightarrow> base_inv w"
  by (simp add: wallet_inv_iff)

lemma RegisterTransaction_inv:
  assumes "BRWalletRegisterTransaction lib moved now w tx = Some (w', events, r)" "wallet_inv w" "tx_ok tx"
  shows "wallet_inv w'"
proof (cases "BRTransactionIsSigned tx \<and> allTx w (txHash tx) = None")
  case False
  then show ?thesis using assms(1,2) by (auto simp: BRWalletRegisterTransaction_def split: if_splits)
next
  case True
  let ?w = "w\<lparr>allTx := (allTx w)(txHash tx \<mapsto> tx)\<rparr>"
  have new: "wallet_inv ?w" by (rule new_tx_inv [OF assms(2) True [THEN conjunct2] assms(3)])
  show ?thesis
  proof (cases "BRWalletContainsTx w tx")
    case False
    then show ?thesis using assms(1,2) new True by (auto simp: BRWalletRegisterTransaction_def split: if_splits)
  next
    case own: True
    then obtain w1 w3 r3 r4 where w1: "BRWalletInsertTx ?w tx = Some w1"
      and w3: "BRWalletUnusedAddrs lib (moved 0) (BRWalletUpdateBalance now w1) None SEQUENCE_GAP_LIMIT_EXTERNAL 0 = Some (w3, r3)"
      and w4: "BRWalletUnusedAddrs lib (moved 1) w3 None SEQUENCE_GAP_LIMIT_INTERNAL 1 = Some (w', r4)"
      using assms(1) True by (auto simp: BRWalletRegisterTransaction_def Let_def split: if_splits bind_splits)
    have "BRWalletContainsTx ?w tx" using extends_contains [OF extends_new own refl refl] True by blast
    moreover have "txHash tx \<notin> set (transactions w)" using assms(2) True by (auto simp: wallet_inv_def)
    ultimately have "base_inv w1" using insert_base_inv [OF w1 inv_base [OF new], of tx] by simp
    then show ?thesis using UpdateBalance_wallet_inv UnusedAddrs_inv [OF w3] UnusedAddrs_inv [OF w4] by blast
  qed
qed

section \<open>Removing\<close>

lemma each_opt_inv:
  assumes "each_opt f xs s = Some s'" "P s" "\<And>x s s'. f x s = Some s' \<Longrightarrow> P s \<Longrightarrow> P s'"
  shows "P s'"
  using assms(1,2) by (induction xs arbitrary: s) (auto split: bind_splits intro: assms(3))

lemma RemoveTransaction_keeps:
  assumes "BRWalletRemoveTransaction now h st = Some st'" "P (fst st)"
    and leaf: "\<And>now w h. P w \<Longrightarrow> P (BRWalletUpdateBalance now (w\<lparr>transactions := remove_last h (transactions w)\<rparr>))"
  shows "P (fst st')"
proof (rule BRWalletRemoveTransaction.raw_induct
    [of "\<lambda>now h st st'. P (fst st) \<longrightarrow> P (fst st')", OF _ assms(1), THEN mp, OF _ assms(2)], rule impI)
  fix rec now h st st'
  assume rec': "\<And>now h st st'. rec now h st = Some st' \<Longrightarrow> P (fst st) \<longrightarrow> P (fst st')"
    and step: "(let w = fst st in case allTx w h of None \<Rightarrow> Some st
      | Some tx \<Rightarrow>
          if dependents w tx h \<noteq> [] then each_opt (rec now) (rev (dependents w tx h)) st \<bind> (\<lambda>st'. rec now h st')
          else
            let w' = BRWalletUpdateBalance now (w\<lparr>transactions := remove_last (txHash tx) (transactions w)\<rparr>) in
            (if BRWalletAmountSentByTx w' tx > 0 then BRWalletTransactionIsValid w' tx else Some False) \<bind> (\<lambda>notify.
            let recommend = notify \<and> (\<forall>inp \<in> set (inputs tx). \<exists>t. allTx w' (inTxHash inp) = Some t \<and> blockHeight t \<noteq> TX_UNCONFIRMED)
            in Some (w', snd st @ [BalanceChanged (balance w'), TxDeleted h notify recommend]))) = Some (st' :: BRWallet \<times> wallet_event list)"
    and inv: "P (fst st)"
  note rec = rec' [THEN mp]
  show "P (fst st')"
  proof (cases "allTx (fst st) h")
    case None
    then show ?thesis using step inv by simp
  next
    case (Some tx)
    show ?thesis
    proof (cases "dependents (fst st) tx h = []")
      case True
      let ?w = "BRWalletUpdateBalance now ((fst st)\<lparr>transactions := remove_last (txHash tx) (transactions (fst st))\<rparr>)"
      have "fst st' = ?w" using step Some True by (auto simp: Let_def split: bind_splits if_splits)
      then show ?thesis using leaf [OF inv] by simp
    next
      case False
      then obtain st1 where st1: "each_opt (rec now) (rev (dependents (fst st) tx h)) st = Some st1" "rec now h st1 = Some st'"
        using step Some by (auto split: bind_splits)
      have "P (fst st1)" by (rule each_opt_inv [OF st1(1)]) (use rec inv in auto)
      then show ?thesis using rec [OF st1(2)] by simp
    qed
  qed
qed

lemma RemoveTransaction_inv:
  assumes "BRWalletRemoveTransaction now h st = Some st'" "wallet_inv (fst st)"
  shows "wallet_inv (fst st')"
  by (rule RemoveTransaction_keeps [of _ _ _ _ wallet_inv, OF assms]) (rule UpdateBalance_wallet_inv [OF remove_base_inv [OF inv_base]])

section \<open>Updating\<close>

text \<open>The fields that the invariant is not about.\<close>

lemma inv_other_fields:
  assumes "wallet_inv w"
  shows "wallet_inv (w\<lparr>wBlockHeight := n\<rparr>)" "wallet_inv (w\<lparr>feePerKb := f\<rparr>)"
  by (rule extends_inv [OF assms]; use assms own_output_cong [of "w\<lparr>wBlockHeight := n\<rparr>" w] own_output_cong [of "w\<lparr>feePerKb := f\<rparr>" w]
      in \<open>auto simp: extends_def balance_view_def wallet_inv_def store_ok_def\<close>)+

text \<open>A known transaction changes, but not its inputs and outputs.\<close>

lemma modify_tx_inv:
  assumes "wallet_inv w" "allTx w h = Some t" "txHash t' = h" "inputs t' = inputs t" "outputs t' = outputs t"
  shows "wallet_inv (w\<lparr>allTx := (allTx w)(h \<mapsto> t')\<rparr>)"
proof (rule extends_inv [OF assms(1)])
  let ?w = "w\<lparr>allTx := (allTx w)(h \<mapsto> t')\<rparr>"
  show "extends w ?w" using assms(2,5) by (auto simp: extends_def)
  show "store_ok ?w" using inv_store [OF assms(1)] assms(2,3,5) by (auto simp: store_ok_def tx_ok_def)
qed (use assms in \<open>auto simp: balance_view_def wallet_inv_def\<close>)

lemma reorder_inv:
  assumes "wallet_inv w" "mset hs = mset (transactions w)"
  shows "wallet_inv (w\<lparr>transactions := hs\<rparr>)"
proof (rule extends_inv [OF assms(1)])
  show "extends w (w\<lparr>transactions := hs\<rparr>)"
    using own_output_cong [of "w\<lparr>transactions := hs\<rparr>" w] by (simp add: extends_def)
  show "balance_view (w\<lparr>transactions := hs\<rparr>) = balance_view w"
    using mset_eq_length [OF assms(2)] by (simp add: balance_view_def)
qed (use assms in \<open>auto simp: wallet_inv_def store_ok_def\<close>)

lemma forget_tx_inv:
  assumes inv: "wallet_inv w" and t: "allTx w h = Some t" "\<not> BRWalletContainsTx w t"
  shows "wallet_inv (w\<lparr>allTx := (allTx w)(h := None)\<rparr>)"
proof (rule extends_inv [OF inv])
  let ?w = "w\<lparr>allTx := (allTx w)(h := None)\<rparr>"
  show "extends w ?w" using t by (auto simp: extends_def BRWalletContainsTx_def)
  show "store_ok ?w" using inv_store [OF inv] by (simp add: store_ok_def)
  show "\<exists>t'. allTx ?w h' = Some t' \<and> set (inputs t') = set (inputs t'') \<and> set (outputs t') = set (outputs t'')"
    if "h' \<in> set (transactions w)" "allTx w h' = Some t''" for h' t''
    using that inv t by (auto simp: wallet_inv_def)
qed (use inv in \<open>auto simp: balance_view_def wallet_inv_def\<close>)

lemma mset_remove_last: "x \<in> set xs \<Longrightarrow> add_mset x (mset (remove_last x xs)) = mset xs"
  by (simp add: remove_last_def)

lemma update_tx_inv:
  assumes "update_tx height ts h (w, hashes, needsUpdate) = Some (w', r)" "wallet_inv w"
  shows "wallet_inv w'"
proof (cases "allTx w h")
  case None
  then show ?thesis using assms by (simp add: update_tx_def)
next
  case (Some tx)
  let ?tx = "tx\<lparr>timestamp := ts, blockHeight := height\<rparr>"
  let ?w = "w\<lparr>allTx := (allTx w)(h \<mapsto> ?tx)\<rparr>"
  have hash: "txHash tx = h" using inv_store [OF assms(2)] Some by (simp add: store_ok_def)
  have inv: "wallet_inv ?w" by (rule modify_tx_inv [OF assms(2) Some]) (simp_all add: hash)
  show ?thesis
  proof (cases "blockHeight tx = height \<and> timestamp tx = ts")
    case True
    then show ?thesis using assms Some by (simp add: update_tx_def)
  next
    case changed: False
    show ?thesis
    proof (cases "BRWalletContainsTx ?w ?tx")
      case True
      show ?thesis
      proof (cases "h \<in> set (transactions w)")
        case in_wallet: True
        then have ins: "BRWalletInsertTx (?w\<lparr>transactions := remove_last h (transactions w)\<rparr>) ?tx = Some w'"
          using assms(1) Some changed True by (simp add: update_tx_def hash Let_def split: bind_splits)
        obtain hs where w': "w' = ?w\<lparr>transactions := hs\<rparr>"
          and hs: "mset hs = add_mset h (mset (remove_last h (transactions w)))"
          by (rule InsertTx_mset [OF ins]) (simp add: hash)
        show ?thesis
          unfolding w' by (rule reorder_inv [OF inv]) (simp add: hs mset_remove_last [OF in_wallet])
      next
        case False
        then show ?thesis using assms(1) Some changed True inv by (simp add: update_tx_def hash Let_def)
      qed
    next
      case False
      show ?thesis
      proof (cases "height = TX_UNCONFIRMED")
        case True
        have "w' = ?w"
          using assms(1) True unfolding update_tx_def prod.case Some option.case if_not_P [OF changed] Let_def if_not_P [OF False] by simp
        then show ?thesis using inv by simp
      next
        case confirmed: False
        then have "w' = ?w\<lparr>allTx := (allTx ?w)(h := None)\<rparr>"
          using assms(1) Some changed False by (simp add: update_tx_def Let_def)
        then show ?thesis using forget_tx_inv [OF inv _ False, of h] by simp
      qed
    qed
  qed
qed

lemma UpdateTransactions_inv:
  assumes "BRWalletUpdateTransactions now w txHashes height ts = Some (w', events)" "wallet_inv w"
  shows "wallet_inv w'"
proof -
  let ?w = "if height > wBlockHeight w then w\<lparr>wBlockHeight := height\<rparr> else w"
  obtain w1 hashes needsUpdate where w1: "each_opt (update_tx height ts) txHashes (?w, [], False) = Some (w1, hashes, needsUpdate)"
    and w': "w' = (if needsUpdate then BRWalletUpdateBalance now w1 else w1)"
    using assms(1) by (auto simp: BRWalletUpdateTransactions_def Let_def split: bind_splits)
  have "(\<lambda>(v, _). wallet_inv v) (w1, hashes, needsUpdate)"
    by (rule each_opt_inv [OF w1]) (use assms(2) inv_other_fields update_tx_inv in auto)
  then show ?thesis using UpdateBalance_wallet_inv [OF inv_base] by (simp add: w')
qed

lemma mark_unconfirmed_inv:
  assumes "wallet_inv v" "set hs \<subseteq> set (transactions v)"
  shows "wallet_inv (foldl (\<lambda>w h. w\<lparr>allTx := (allTx w)(h \<mapsto> (deref w h)\<lparr>blockHeight := TX_UNCONFIRMED\<rparr>)\<rparr>) v hs)"
proof -
  define f where "f = (\<lambda>w h. w\<lparr>allTx := (allTx w)(h \<mapsto> (deref w h)\<lparr>blockHeight := TX_UNCONFIRMED\<rparr>)\<rparr>)"
  have "wallet_inv (foldl f v hs)"
    using assms
  proof (induction hs arbitrary: v)
    case (Cons h hs)
    obtain t where t: "allTx v h = Some t" using Cons.prems by (auto simp: wallet_inv_def)
    then have "txHash t = h" using inv_store [OF Cons.prems(1)] by (simp add: store_ok_def)
    then have "wallet_inv (f v h)"
      using modify_tx_inv [OF Cons.prems(1) t] t by (simp add: deref_def f_def)
    moreover have "transactions (f v h) = transactions v" by (simp add: f_def)
    ultimately show ?case using Cons by simp
  qed simp
  then show ?thesis unfolding f_def .
qed

lemma SetTxUnconfirmedAfter_inv:
  assumes "wallet_inv w"
  shows "wallet_inv (fst (BRWalletSetTxUnconfirmedAfter now w height))"
proof -
  let ?n = "length (takeWhile (\<lambda>h. blockHeight (deref w h) > height) (rev (transactions w)))"
  have "set (drop (length (transactions w) - ?n) (transactions w)) \<subseteq> set (transactions (w\<lparr>wBlockHeight := height\<rparr>))"
    by (simp add: set_drop_subset)
  note mark = mark_unconfirmed_inv [OF inv_other_fields(1) [OF assms] this]
  show ?thesis
    unfolding BRWalletSetTxUnconfirmedAfter_def Let_def using mark UpdateBalance_wallet_inv [OF inv_base [OF mark]] by auto
qed

section \<open>Creating transactions\<close>

lemma add_change_inv:
  "add_change lib moved rand w tx change = Some (w', tx') \<Longrightarrow> wallet_inv w \<Longrightarrow> wallet_inv w'"
  by (auto simp: add_change_def Let_def split: bind_splits dest: UnusedAddrs_inv)

text \<open>Only the change output changes the state.\<close>

lemma CreateTxForOutputs_keeps:
  assumes "BRWalletCreateTxForOutputs lib moved rand w outs = Some r" "P lib w"
    and change: "\<And>(lib :: ('p, 's, 'r) secp) moved rand w w' tx tx' c. add_change lib moved rand w tx c = Some (w', tx') \<Longrightarrow> P lib w \<Longrightarrow> P lib w'"
  shows "P lib (fst r)"
proof (rule BRWalletCreateTxForOutputs.raw_induct
    [of "\<lambda>lib moved rand w outs r. P lib w \<longrightarrow> P lib (fst r)", OF _ assms(1), THEN mp, OF _ assms(2)], rule impI)
  fix rec :: "('p, 's, 'r) secp \<Rightarrow> bool \<Rightarrow> (nat \<Rightarrow> nat \<Rightarrow> nat) \<Rightarrow> BRWallet \<Rightarrow> BRTxOutput list \<Rightarrow> (BRWallet \<times> BRTransaction option) option"
  fix lib moved rand w outs and r :: "BRWallet \<times> BRTransaction option"
  assume IH: "\<And>lib moved rand w outs r. rec lib moved rand w outs = Some r \<Longrightarrow> P lib w \<longrightarrow> P lib (fst r)"
    and step: "(let amount = outputs_amount outs; minAmount = BRWalletMinOutputAmount w; tx0 = new_tx_for outs;
          fee0 = txFee (feePerKb w) (BRTransactionVSize tx0 + TX_OUTPUT_SIZE);
          (tx, bal, fee, large) = select_utxos w amount minAmount (utxos w) tx0 0 fee0
      in if large then
           (if balance w < amount + txFee (feePerKb w) (10 + of_nat (length (utxos w)) * TX_INPUT_SIZE +
                                                        (of_nat (length outs) + 1) * TX_OUTPUT_SIZE + 0)
            then Some (w, None)
            else if outAmount (last outs) > amount + fee + minAmount - bal
            then rec lib moved rand w
                   (butlast outs @ [(last outs)\<lparr>outAmount := outAmount (last outs) - (amount + fee - bal)\<rparr>])
            else rec lib moved rand w (butlast outs))
         else if outs = [] \<or> bal < amount + fee then Some (w, None)
         else if bal - (amount + fee) > minAmount then
           add_change lib moved rand w tx (bal - (amount + fee)) \<bind> (\<lambda>r. Some (fst r, Some (snd r)))
         else Some (w, Some tx)) = Some r"
    and inv: "P lib w"
  from step inv show "P lib (fst r)"
    by (auto simp: Let_def split: prod.splits if_splits bind_splits dest: change IH [THEN mp])
qed

lemma CreateTxForOutputs_inv:
  assumes "BRWalletCreateTxForOutputs lib moved rand w outs = Some r" "wallet_inv w"
  shows "wallet_inv (fst r)"
  by (rule CreateTxForOutputs_keeps [of lib moved rand w outs r "\<lambda>_. wallet_inv", OF assms add_change_inv])

lemma CreateTransaction_inv:
  "BRWalletCreateTransaction lib moved rand w amount addr = Some (w', tx) \<Longrightarrow> wallet_inv w \<Longrightarrow> wallet_inv w'"
  unfolding BRWalletCreateTransaction_def by (drule CreateTxForOutputs_inv) simp_all

lemma FeeForTxAmount_inv:
  "BRWalletFeeForTxAmount lib moved rand w amount = Some (w', fee) \<Longrightarrow> wallet_inv w \<Longrightarrow> wallet_inv w'"
  by (auto simp: BRWalletFeeForTxAmount_def Let_def split: bind_splits dest: CreateTxForOutputs_inv)

section \<open>A new wallet\<close>

definition loaded :: "BRTransaction set \<Rightarrow> BRWallet \<Rightarrow> bool" where
  "loaded txs w \<longleftrightarrow>
     (\<forall>h t. allTx w h = Some t \<longrightarrow> txHash t = h \<and> t \<in> txs) \<and> distinct (transactions w) \<and>
     (\<forall>h \<in> set (transactions w). allTx w h \<noteq> None) \<and> allPKH w = {} \<and> internalChain w = [] \<and> externalChain w = []"

lemma load_txs_loaded:
  "load_txs txs w = Some w' \<Longrightarrow> set txs \<subseteq> T \<Longrightarrow> loaded T w \<Longrightarrow> loaded T w'"
proof (induction txs arbitrary: w)
  case (Cons tx txs)
  show ?case
  proof (cases "\<not> BRTransactionIsSigned tx \<or> allTx w (txHash tx) \<noteq> None")
    case True
    then show ?thesis using Cons by (simp split: if_splits)
  next
    case False
    let ?w = "w\<lparr>allTx := (allTx w)(txHash tx \<mapsto> tx)\<rparr>"
    let ?used = "\<lambda>w1. usedPKH w1 \<union> set (concat (map (\<lambda>outp. case output_pkh outp of None \<Rightarrow> [] | Some pkh \<Rightarrow> [pkh]) (outputs tx)))"
    from False Cons.prems(1) obtain w1 where w1: "BRWalletInsertTx ?w tx = Some w1"
      and rest: "load_txs txs (w1\<lparr>usedPKH := ?used w1\<rparr>) = Some w'"
      by (auto split: bind_splits)
    obtain hs where hs: "w1 = ?w\<lparr>transactions := hs\<rparr>" "mset hs = mset (txHash tx # transactions w)"
      by (rule InsertTx_mset [OF w1]) simp
    have "txHash tx \<notin> set (transactions w)" using Cons.prems(3) False by (auto simp: loaded_def)
    then have "loaded T (w1\<lparr>usedPKH := ?used w1\<rparr>)"
      using Cons.prems(2,3) mset_eq_setD [OF hs(2)] mset_eq_imp_distinct_iff [OF hs(2)] by (auto simp: hs(1) loaded_def)
    then show ?thesis using Cons.IH [OF rest] Cons.prems(2) by simp
  qed
qed simp

text \<open>
  A new wallet is consistent if its transactions have outputs that fit their index and all of them belong
  to the wallet; the code only tests the first one.
\<close>

lemma New_base:
  assumes new: "BRWalletNew lib moved now params txs mpk = Some (Some w)"
    and txs: "\<forall>tx \<in> set txs. tx_ok tx \<and> BRWalletContainsTx w tx"
  obtains v where "base_inv v" "w = BRWalletUpdateBalance now v"
proof -
  obtain w1 w2 w3 r2 r3 where w1: "load_txs txs (empty_wallet params mpk) = Some w1"
    and w2: "BRWalletUnusedAddrs lib (moved 0) w1 None SEQUENCE_GAP_LIMIT_EXTERNAL SEQUENCE_EXTERNAL_CHAIN = Some (w2, r2)"
    and w3: "BRWalletUnusedAddrs lib (moved 1) w2 None SEQUENCE_GAP_LIMIT_INTERNAL SEQUENCE_INTERNAL_CHAIN = Some (w3, r3)"
    and w: "w = BRWalletUpdateBalance now w3"
    using new by (auto simp: BRWalletNew_def Let_def split: bind_splits if_splits)
  have l1: "loaded (set txs) w1"
    using load_txs_loaded [OF w1, of "set txs"] by (simp add: loaded_def empty_wallet_def)
  then have c1: "allPKH w1 = set (internalChain w1) \<union> set (externalChain w1)" by (simp add: loaded_def)
  obtain n2 where e2: "w2 = (if SEQUENCE_EXTERNAL_CHAIN = SEQUENCE_INTERNAL_CHAIN
           then w1\<lparr>internalChain := internalChain w1 @ n2, allPKH := allPKH w1 \<union> set n2\<rparr>
           else w1\<lparr>externalChain := externalChain w1 @ n2, allPKH := allPKH w1 \<union> set n2\<rparr>)"
    by (rule UnusedAddrs_effect [OF w2 c1])
  then have c2: "allPKH w2 = set (internalChain w2) \<union> set (externalChain w2)" using c1 by auto
  obtain n3 where e3: "w3 = (if SEQUENCE_INTERNAL_CHAIN = SEQUENCE_INTERNAL_CHAIN
           then w2\<lparr>internalChain := internalChain w2 @ n3, allPKH := allPKH w2 \<union> set n3\<rparr>
           else w2\<lparr>externalChain := externalChain w2 @ n3, allPKH := allPKH w2 \<union> set n3\<rparr>)"
    by (rule UnusedAddrs_effect [OF w3 c2])
  have c3: "allPKH w3 = set (internalChain w3) \<union> set (externalChain w3)" using e3 c2 by auto
  have same: "allTx w3 = allTx w1" "transactions w3 = transactions w1" using e2 e3 by simp_all
  have store: "store_ok w3" "distinct (transactions w3)" "\<forall>h \<in> set (transactions w3). allTx w3 h \<noteq> None"
    using l1 txs by (auto simp: same loaded_def store_ok_def)
  have "BRWalletContainsTx w = BRWalletContainsTx w3"
    using UpdateBalance_inv(1) [OF store, of now] by (intro contains_cong(1)) (auto simp: w)
  then have "base_inv w3"
    using store c3 l1 txs by (fastforce simp: base_inv_def same loaded_def)
  then show thesis using w by (rule that)
qed

lemma New_inv:
  assumes "BRWalletNew lib moved now params txs mpk = Some (Some w)" "\<forall>tx \<in> set txs. tx_ok tx \<and> BRWalletContainsTx w tx"
  shows "wallet_inv w"
  by (rule New_base [OF assms]) (simp add: UpdateBalance_wallet_inv)

end
