(* ===== verification/WalletReturns.thy ===== *)
theory WalletReturns
  imports WalletOps
begin

text \<open>
  The loops and recursions of the wallet return: the search for unused addresses, and, in a store of
  transactions without a cycle, the comparison of transactions and the tests of validity.
\<close>

section \<open>The search for unused addresses\<close>

text \<open>
  Only a used key moves \<open>i\<close>, and then by at most the gap limit; \<open>N\<close> bounds the indexes that are visited.
\<close>

lemma extend_chain_returns:
  assumes "i + gap * (card {k. length chn \<le> k \<and> k < N \<and> (\<exists>p \<in> used. derive k = Some p)} + 1) \<le> N"
  shows "\<exists>chn' i'. extend_chain derive used gap chn i = Some (chn', i')"
  using assms
proof (induction "N - length chn" arbitrary: chn i rule: less_induct)
  case less
  let ?used_from = "\<lambda>n. {k. n \<le> k \<and> k < N \<and> (\<exists>p \<in> used. derive k = Some p)}"
  let ?n = "length chn"
  show ?case
  proof (cases "i + gap > ?n")
    case False
    then show ?thesis by (subst extend_chain.simps) simp
  next
    case True
    have "i + gap \<le> N" using less.prems by (simp add: algebra_simps)
    then have n: "?n < N" using True by linarith
    show ?thesis
    proof (cases "derive ?n")
      case None
      then show ?thesis using True by (subst extend_chain.simps) simp
    next
      case (Some pkh)
      let ?i = "if pkh \<in> used then ?n + 1 else i"
      have "?used_from ?n = (if pkh \<in> used then insert ?n (?used_from (Suc ?n)) else ?used_from (Suc ?n))"
        using Some n by (auto simp: Suc_le_eq le_less)
      then have "card (?used_from ?n) = (if pkh \<in> used then 1 else 0) + card (?used_from (Suc ?n))" by simp
      moreover have "pkh \<in> used \<Longrightarrow> ?n + 1 \<le> i + gap" using True by simp
      ultimately have "?i + gap * (card (?used_from (length (chn @ [pkh]))) + 1) \<le> N"
        using less.prems by (cases "pkh \<in> used") (simp_all add: algebra_simps)
      then have "\<exists>chn' i'. extend_chain derive used gap (chn @ [pkh]) ?i = Some (chn', i')"
        using n by (intro less.hyps) simp_all
      then show ?thesis using True Some by (subst extend_chain.simps) simp
    qed
  qed
qed

lemma extend_chain_gap:
  assumes "extend_chain derive used gap chn i = Some r"
    "\<forall>j. i \<le> j \<longrightarrow> j < length chn \<longrightarrow> chn ! j \<notin> used"
  shows "(\<forall>j. snd r \<le> j \<longrightarrow> j < length (fst r) \<longrightarrow> fst r ! j \<notin> used) \<and>
    (snd r + gap \<le> length (fst r) \<or> derive (length (fst r)) = None)"
proof (rule extend_chain.raw_induct [of "\<lambda>derive used gap chn i r. (\<forall>j. i \<le> j \<longrightarrow> j < length chn \<longrightarrow> chn ! j \<notin> used) \<longrightarrow>
      (\<forall>j. snd r \<le> j \<longrightarrow> j < length (fst r) \<longrightarrow> fst r ! j \<notin> used) \<and>
      (snd r + gap \<le> length (fst r) \<or> derive (length (fst r)) = None)", OF _ assms(1), THEN mp, OF _ assms(2)], rule impI)
  fix rec derive used gap chn i and r :: "bytes list \<times> nat"
  assume IH: "\<And>derive used gap chn i r. rec derive used gap chn i = Some r \<Longrightarrow>
      (\<forall>j. i \<le> j \<longrightarrow> j < length chn \<longrightarrow> chn ! j \<notin> used) \<longrightarrow>
      (\<forall>j. snd r \<le> j \<longrightarrow> j < length (fst r) \<longrightarrow> fst r ! j \<notin> used) \<and>
      (snd r + gap \<le> length (fst r) \<or> derive (length (fst r)) = None)"
    and step: "(if length chn < i + gap
      then case derive (length chn) of None \<Rightarrow> Some (chn, i)
        | Some pkh \<Rightarrow> rec derive used gap (chn @ [pkh]) (if pkh \<in> used then length chn + 1 else i)
      else Some (chn, i)) = Some r"
    and pre: "\<forall>j. i \<le> j \<longrightarrow> j < length chn \<longrightarrow> chn ! j \<notin> used"
  show "(\<forall>j. snd r \<le> j \<longrightarrow> j < length (fst r) \<longrightarrow> fst r ! j \<notin> used) \<and>
      (snd r + gap \<le> length (fst r) \<or> derive (length (fst r)) = None)"
  proof (cases "length chn < i + gap \<and> derive (length chn) \<noteq> None")
    case False
    then have "r = (chn, i)" using step by (auto split: if_splits option.splits)
    then show ?thesis using False pre by auto
  next
    case True
    then obtain pkh where pkh: "rec derive used gap (chn @ [pkh]) (if pkh \<in> used then length chn + 1 else i) = Some r"
      using step by (auto split: option.splits)
    have "\<forall>j. (if pkh \<in> used then length chn + 1 else i) \<le> j \<longrightarrow> j < length (chn @ [pkh]) \<longrightarrow> (chn @ [pkh]) ! j \<notin> used"
    proof (intro allI impI)
      fix j assume j: "(if pkh \<in> used then length chn + 1 else i) \<le> j" "j < length (chn @ [pkh])"
      then have "i \<le> j" using True by (auto split: if_splits)
      show "(chn @ [pkh]) ! j \<notin> used"
      proof (cases "j < length chn")
        case True
        then show ?thesis using pre \<open>i \<le> j\<close> by (simp add: nth_append)
      next
        case False
        then show ?thesis using j by (auto simp: nth_append split: if_splits)
      qed
    qed
    then show ?thesis by (rule IH [OF pkh, THEN mp])
  qed
qed

lemma trailing_unused_gap: "n \<le> length chn \<Longrightarrow> trailing_unused used chn n \<le> n \<and>
    (\<forall>j. trailing_unused used chn n \<le> j \<longrightarrow> j < n \<longrightarrow> chn ! j \<notin> used)"
  by (induction n) (auto simp: less_Suc_eq le_Suc_eq)

definition chain_of :: "u32 \<Rightarrow> BRWallet \<Rightarrow> bytes list" where
  "chain_of internal w = (if internal = SEQUENCE_INTERNAL_CHAIN then internalChain w else externalChain w)"

text \<open>
  C21: The search for unused addresses returns. If fewer than \<open>N\<close> indexes of the chain hold a used key
  more than once, where \<open>N\<close> has room for one gap after every used key, \<open>BRWalletUnusedAddrs\<close> returns;
  then the chain ends with \<open>gapLimit\<close> addresses that are not used in any transaction, unless the next
  key of the chain is invalid, and every address of it is known to the wallet.
\<close>

theorem unused_addrs_return:
  assumes fin: "finite (usedPKH w)" and inv: "wallet_inv w"
    and once: "inj_on (chain_pkh lib (masterPubKey w) internal) {k. k < N \<and> (\<exists>p \<in> usedPKH w. chain_pkh lib (masterPubKey w) internal k = Some p)}"
    and N: "length (chain_of internal w) + gapLimit * (card (usedPKH w) + 1) \<le> N"
  shows "\<exists>w' i. BRWalletUnusedAddrs lib moved w None gapLimit internal = Some (w', None, 0) \<and> wallet_inv w' \<and>
    (\<exists>new. chain_of internal w' = chain_of internal w @ new) \<and> set (chain_of internal w') \<subseteq> allPKH w' \<and>
    (\<forall>j. i \<le> j \<longrightarrow> j < length (chain_of internal w') \<longrightarrow> chain_of internal w' ! j \<notin> usedPKH w) \<and>
    (i + gapLimit \<le> length (chain_of internal w') \<or> chain_pkh lib (masterPubKey w) internal (length (chain_of internal w')) = None)"
proof -
  let ?derive = "chain_pkh lib (masterPubKey w) internal" and ?n = "length (chain_of internal w)"
  let ?i = "trailing_unused (usedPKH w) (chain_of internal w) ?n"
  let ?U = "{k. ?n \<le> k \<and> k < N \<and> (\<exists>p \<in> usedPKH w. ?derive k = Some p)}"
  have sub: "?derive ` ?U \<subseteq> Some ` usedPKH w" by auto
  have "inj_on ?derive ?U" by (rule inj_on_subset [OF once]) auto
  then have "card ?U = card (?derive ` ?U)" by (simp add: card_image)
  also have "\<dots> \<le> card (Some ` usedPKH w)" by (rule card_mono [OF _ sub]) (use fin in simp)
  also have "\<dots> = card (usedPKH w)" by (simp add: card_image)
  finally have "gapLimit * (card ?U + 1) \<le> gapLimit * (card (usedPKH w) + 1)" by simp
  moreover have "?i \<le> ?n" by (rule trailing_unused_gap [THEN conjunct1]) simp
  ultimately obtain chn' i where ext: "extend_chain ?derive (usedPKH w) gapLimit (chain_of internal w) ?i = Some (chn', i)"
    using extend_chain_returns [of ?i gapLimit "chain_of internal w" N "usedPKH w" ?derive] N by (meson add_mono order_trans)
  obtain w' where w': "BRWalletUnusedAddrs lib moved w None gapLimit internal = Some (w', None, 0)" "chain_of internal w' = chn'"
      "usedPKH w' = usedPKH w"
    using ext by (auto simp: BRWalletUnusedAddrs_def Let_def chain_of_def)
  have inv': "wallet_inv w'" using UnusedAddrs_inv [OF w'(1) inv] by blast
  have "set (chain_of internal w') \<subseteq> allPKH w'" using inv_chains [OF inv'] by (auto simp: chain_of_def)
  moreover have "\<exists>new. chain_of internal w' = chain_of internal w @ new" using extend_chain_prefix [OF ext] by (simp add: w'(2))
  moreover note extend_chain_gap [OF ext, simplified] trailing_unused_gap [of ?n "chain_of internal w" "usedPKH w"]
  ultimately show ?thesis using w' inv' by blast
qed

lemma empty_wallet_inv: "wallet_inv (empty_wallet params mpk)"
  by (simp add: wallet_inv_def empty_wallet_def store_ok_def balance_ok_def)

theorem unused_addrs_return_witness:
  "\<exists>w'. BRWalletUnusedAddrs vector_secp False (empty_wallet BITCOIN_ADDRESS_PARAMS BR_MASTER_PUBKEY_NONE) None 10 0 = Some (w', None, 0)"
proof -
  let ?w = "empty_wallet BITCOIN_ADDRESS_PARAMS BR_MASTER_PUBKEY_NONE"
  have "finite (usedPKH ?w)" "usedPKH ?w = {}" "chain_of 0 ?w = []"
    by (simp_all add: empty_wallet_def chain_of_def)
  then show ?thesis
    using unused_addrs_return [of ?w vector_secp 0 10 10 False] empty_wallet_inv by auto
qed

section \<open>Histories without a cycle\<close>

text \<open>
  No transaction of the store spends its own outputs, directly or through others: every input that leads
  back into the store leads to a lower age.
\<close>

definition acyclic_store :: "BRWallet \<Rightarrow> (bytes \<Rightarrow> nat) \<Rightarrow> bool" where
  "acyclic_store w age \<longleftrightarrow>
     (\<forall>h t. allTx w h = Some t \<longrightarrow>
        (\<forall>inp \<in> set (inputs t). allTx w (inTxHash inp) \<noteq> None \<longrightarrow> age (inTxHash inp) < age h))"

lemma acyclic_induct:
  assumes "acyclic_store w age"
    and step: "\<And>tx. (\<And>inp t. inp \<in> set (inputs tx) \<Longrightarrow> allTx w (inTxHash inp) = Some t \<Longrightarrow> R t) \<Longrightarrow> R tx"
  shows "R tx"
proof -
  have stored: "allTx w h = Some t \<Longrightarrow> R t" for h t
  proof (induction "age h" arbitrary: h t rule: less_induct)
    case less
    show ?case
    proof (rule step)
      fix inp t' assume "inp \<in> set (inputs t)" "allTx w (inTxHash inp) = Some t'"
      moreover from this have "age (inTxHash inp) < age h" using less.prems assms(1) by (simp add: acyclic_store_def)
      ultimately show "R t'" using less.hyps by blast
    qed
  qed
  show ?thesis by (rule step) (rule stored)
qed

lemma any_opt_returns: "(\<And>x. x \<in> set xs \<Longrightarrow> \<exists>b. f x = Some b) \<Longrightarrow> \<exists>b. any_opt f xs = Some b"
  by (induction xs) fastforce+

lemma inputs_return:
  assumes "\<And>inp t. inp \<in> set (inputs tx) \<Longrightarrow> allTx w (inTxHash inp) = Some t \<Longrightarrow> \<exists>b. g t = Some b"
  shows "\<exists>b. any_opt (\<lambda>inp. case BRWalletTransactionForHash w (inTxHash inp) of None \<Rightarrow> Some False | Some t \<Rightarrow> g t) (inputs tx) = Some b"
proof (rule any_opt_returns)
  fix inp assume "inp \<in> set (inputs tx)"
  then show "\<exists>b. (case BRWalletTransactionForHash w (inTxHash inp) of None \<Rightarrow> Some False | Some t \<Rightarrow> g t) = Some b"
    using assms by (cases "allTx w (inTxHash inp)") (auto simp: BRWalletTransactionForHash_def)
qed

lemma TxIsAscending_returns:
  assumes "acyclic_store w age"
  shows "\<exists>b. BRWalletTxIsAscending w tx1 tx2 = Some b"
proof -
  have some: "\<exists>b. BRWalletTxIsAscending w (Some t1) tx2 = Some b" for t1
  proof (induction t1 rule: acyclic_induct [OF assms])
    case (1 t1)
    have "\<exists>b. any_opt (\<lambda>inp. BRWalletTxIsAscending w (allTx w (inTxHash inp)) tx2) (inputs t1) = Some b"
    proof (rule any_opt_returns)
      fix inp assume "inp \<in> set (inputs t1)"
      then show "\<exists>b. BRWalletTxIsAscending w (allTx w (inTxHash inp)) tx2 = Some b"
        using 1 by (cases "allTx w (inTxHash inp)") (auto simp: BRWalletTxIsAscending.simps [of w None])
    qed
    then show ?case by (subst BRWalletTxIsAscending.simps) (auto split: option.split)
  qed
  then show ?thesis by (cases tx1) (auto simp: BRWalletTxIsAscending.simps [of w None])
qed

lemma TxCompare_returns: "acyclic_store w age \<Longrightarrow> \<exists>c. BRWalletTxCompare w tx1 tx2 = Some c"
  using TxIsAscending_returns [of w age "Some tx1" "Some tx2"] TxIsAscending_returns [of w age "Some tx2" "Some tx1"]
  by (auto simp: BRWalletTxCompare_def)

lemma InsertTx_returns:
  assumes "acyclic_store w age"
  shows "\<exists>w'. BRWalletInsertTx w tx = Some w'"
proof -
  have "\<exists>hs. insert_from_end w tx xs = Some hs" for xs
  proof (induction xs)
    case (Cons h xs)
    obtain c where "BRWalletTxCompare w (deref w h) tx = Some c" using TxCompare_returns [OF assms] by blast
    with Cons show ?case by auto
  qed simp
  then show ?thesis by (auto simp: BRWalletInsertTx_def)
qed

text \<open>
  C20: In a store without a cycle the insertion into the ordered array and the tests of the wallet return
  for every transaction, whether it is registered or not.
\<close>

theorem wallet_tests_return:
  assumes "acyclic_store w age"
  shows "BRWalletInsertTx w tx \<noteq> None \<and> BRWalletTxCompare w tx other \<noteq> None \<and> BRWalletTransactionIsValid w tx \<noteq> None \<and>
    BRWalletTransactionIsPending now w tx \<noteq> None \<and> BRWalletTransactionIsVerified now w tx \<noteq> None"
proof -
  have valid: "\<exists>b. BRWalletTransactionIsValid w tx = Some b" for tx
  proof (induction tx rule: acyclic_induct [OF assms])
    case (1 tx)
    have "\<exists>b. any_opt (\<lambda>inp. case BRWalletTransactionForHash w (inTxHash inp) of None \<Rightarrow> Some False
        | Some t \<Rightarrow> BRWalletTransactionIsValid w t \<bind> (\<lambda>v. Some (\<not> v))) (inputs tx) = Some b"
      by (rule inputs_return) (use 1 in fastforce)
    then show ?case by (subst BRWalletTransactionIsValid.simps) auto
  qed
  have pending: "\<exists>b. BRWalletTransactionIsPending now w tx = Some b" for tx
  proof (induction tx rule: acyclic_induct [OF assms])
    case (1 tx)
    have "\<exists>b. any_opt (\<lambda>inp. case BRWalletTransactionForHash w (inTxHash inp) of None \<Rightarrow> Some False
        | Some t \<Rightarrow> BRWalletTransactionIsPending now w t) (inputs tx) = Some b"
      by (rule inputs_return) (use 1 in fastforce)
    then show ?case by (subst BRWalletTransactionIsPending.simps) auto
  qed
  have verified: "\<exists>b. BRWalletTransactionIsVerified now w tx = Some b" for tx
  proof (induction tx rule: acyclic_induct [OF assms])
    case (1 tx)
    have "\<exists>b. any_opt (\<lambda>inp. case BRWalletTransactionForHash w (inTxHash inp) of None \<Rightarrow> Some False
        | Some t \<Rightarrow> BRWalletTransactionIsVerified now w t \<bind> (\<lambda>v. Some (\<not> v))) (inputs tx) = Some b"
      by (rule inputs_return) (use 1 in fastforce)
    moreover obtain v p where "BRWalletTransactionIsValid w tx = Some v" "BRWalletTransactionIsPending now w tx = Some p"
      using valid pending by blast
    ultimately show ?case by (subst BRWalletTransactionIsVerified.simps) auto
  qed
  show ?thesis using InsertTx_returns [OF assms] TxCompare_returns [OF assms] valid pending verified by fastforce
qed

text \<open>A parent and an unconfirmed child in the store.\<close>

definition parent_tx :: BRTransaction where
  "parent_tx = BRTransactionNew\<lparr>txHash := replicate 32 1, blockHeight := 5,
     outputs := [\<lparr>outAmount = 10000, outScript = Some (p2pkh_script (replicate 20 7))\<rparr>]\<rparr>"

definition child_tx :: BRTransaction where
  "child_tx = BRTransactionNew\<lparr>txHash := replicate 32 2,
     inputs := [\<lparr>inTxHash = replicate 32 1, inIndex = 0, inAmount = 0, inScript = None, inSignature = Some [], inWitness = Some [],
                inSequence = TXIN_SEQUENCE\<rparr>]\<rparr>"

definition family_wallet :: BRWallet where
  "family_wallet = (empty_wallet BITCOIN_ADDRESS_PARAMS BR_MASTER_PUBKEY_NONE)
     \<lparr>allTx := [replicate 32 1 \<mapsto> parent_tx, replicate 32 2 \<mapsto> child_tx]\<rparr>"

theorem wallet_tests_return_witness:
  "BRWalletInsertTx family_wallet child_tx \<noteq> None \<and> BRWalletTransactionIsVerified 0 family_wallet child_tx \<noteq> None"
proof -
  have "acyclic_store family_wallet (\<lambda>h. if h = replicate 32 2 then 1 else 0)"
    by (simp add: acyclic_store_def family_wallet_def empty_wallet_def parent_tx_def child_tx_def BRTransactionNew_def)
  from wallet_tests_return [OF this, of child_tx child_tx 0] show ?thesis by blast
qed

end
