(* ===== verification/WalletRun.thy ===== *)
theory WalletRun
  imports WalletReturns
begin

text \<open>
  Runs of the wallet: the steps of the state machine, the states it can reach, and what holds in all of
  them; the order of the transactions; the set of unspent outputs; and the transactions the wallet
  creates.
\<close>

section \<open>Steps and reachable states\<close>

text \<open>
  One call of an operation that changes the state, by any client and with any result of \<open>realloc\<close>,
  \<open>time\<close> and the random numbers. Three operations release the lock of the wallet between their parts:
  registering takes it again to extend each chain, removing takes it again for every transaction it removes, and creating
  a transaction takes it again for the change address. Their parts under the lock are steps as well, so that a run covers the
  operations of other threads in between.
\<close>

inductive wallet_step :: "('p, 's, 'r) secp \<Rightarrow> BRWallet \<Rightarrow> BRWallet \<Rightarrow> bool" for lib where
  register: "BRWalletRegisterTransaction lib moved now w tx = Some (w', events, r) \<Longrightarrow> tx_ok tx \<Longrightarrow> wallet_step lib w w'"
| register_part: "BRTransactionIsSigned tx \<Longrightarrow> allTx w (txHash tx) = None \<Longrightarrow> BRWalletContainsTx w tx \<Longrightarrow> tx_ok tx \<Longrightarrow>
    BRWalletInsertTx (w\<lparr>allTx := (allTx w)(txHash tx \<mapsto> tx)\<rparr>) tx = Some w1 \<Longrightarrow> wallet_step lib w (BRWalletUpdateBalance now w1)"
| remove: "BRWalletRemoveTransaction now h (w, events) = Some (w', events') \<Longrightarrow> wallet_step lib w w'"
| remove_part: "allTx w h = Some tx \<Longrightarrow> dependents w tx h = [] \<Longrightarrow>
    wallet_step lib w (BRWalletUpdateBalance now (w\<lparr>transactions := remove_last (txHash tx) (transactions w)\<rparr>))"
| update: "BRWalletUpdateTransactions now w hashes height ts = Some (w', events) \<Longrightarrow> wallet_step lib w w'"
| unconfirm: "BRWalletSetTxUnconfirmedAfter now w height = (w', events) \<Longrightarrow> height \<le> TX_UNCONFIRMED \<Longrightarrow> wallet_step lib w w'"
| addresses: "BRWalletUnusedAddrs lib moved1 w addrs gap internal = Some (w', r1) \<Longrightarrow> wallet_step lib w w'"
| set_fee: "wallet_step lib w (BRWalletSetFeePerKb w fpk)"
| create: "BRWalletCreateTxForOutputs lib moved1 rand w outs = Some (w', tx1) \<Longrightarrow> wallet_step lib w w'"
| create_to: "BRWalletCreateTransaction lib moved1 rand w amount addr = Some (w', tx1) \<Longrightarrow> wallet_step lib w w'"
| fee_for: "BRWalletFeeForTxAmount lib moved1 rand w amount = Some (w', fee) \<Longrightarrow> wallet_step lib w w'"

text \<open>A run is a sequence of steps.\<close>

abbreviation wallet_run :: "('p, 's, 'r) secp \<Rightarrow> BRWallet \<Rightarrow> BRWallet \<Rightarrow> bool" where
  "wallet_run lib \<equiv> (wallet_step lib)\<^sup>*\<^sup>*"

section \<open>The order of the transactions\<close>

text \<open>The array is sorted by block height, oldest first.\<close>

definition by_height :: "BRWallet \<Rightarrow> bytes list \<Rightarrow> bool" where
  "by_height w hs \<longleftrightarrow> sorted (map (\<lambda>h. blockHeight (deref w h)) hs)"

lemma TxCompare_height:
  assumes "BRWalletTxCompare w tx1 tx2 = Some c"
  shows "c > 0 \<Longrightarrow> blockHeight tx2 \<le> blockHeight tx1" "\<not> c > 0 \<Longrightarrow> blockHeight tx1 \<le> blockHeight tx2"
  using assms by (auto simp: BRWalletTxCompare_def BRWalletTxIsAscending.simps [of w "Some tx1" "Some tx2"]
      BRWalletTxIsAscending.simps [of w "Some tx2" "Some tx1"] split: bind_splits if_splits)

lemma insert_by_height:
  assumes "insert_from_end w tx hs = Some hs'" "by_height w (rev hs)" "deref w (txHash tx) = tx"
  shows "by_height w (rev hs')"
proof -
  have "insert_from_end w tx hs = Some hs' \<Longrightarrow> sorted (map (\<lambda>h. blockHeight (deref w h)) (rev hs)) \<Longrightarrow>
      sorted (map (\<lambda>h. blockHeight (deref w h)) (rev hs')) \<and> set hs' \<subseteq> insert (txHash tx) (set hs)" for hs'
  proof (induction hs arbitrary: hs')
    case (Cons h hs)
    obtain c where c: "BRWalletTxCompare w (deref w h) tx = Some c" using Cons.prems(1) by (auto split: bind_splits)
    show ?case
    proof (cases "c > 0")
      case True
      then obtain hs1 where "insert_from_end w tx hs = Some hs1" "hs' = h # hs1" using Cons.prems(1) c by auto
      moreover have "blockHeight tx \<le> blockHeight (deref w h)" by (rule TxCompare_height(1) [OF c True])
      ultimately show ?thesis
        using Cons.IH [of hs1] Cons.prems(2) assms(3) by (auto simp: sorted_append)
    next
      case False
      then have "hs' = txHash tx # h # hs" using Cons.prems(1) c by simp
      moreover have "blockHeight (deref w h) \<le> blockHeight tx" by (rule TxCompare_height(2) [OF c False])
      ultimately show ?thesis
        using Cons.prems(2) assms(3) by (auto simp: sorted_append)
    qed
  qed simp
  then show ?thesis using assms(1,2) by (simp add: by_height_def)
qed

lemma by_height_cong: "(\<And>h. h \<in> set hs \<Longrightarrow> allTx w h = allTx w' h) \<Longrightarrow> by_height w hs = by_height w' hs"
  by (simp add: by_height_def deref_def cong: map_cong)

lemma remove_last_filter: "distinct xs \<Longrightarrow> remove_last x xs = filter (\<lambda>y. y \<noteq> x) xs"
  by (simp add: remove_last_def distinct_remove1_removeAll removeAll_filter_not_eq rev_filter eq_commute)

lemma by_height_remove: "by_height w hs \<Longrightarrow> distinct hs \<Longrightarrow> by_height w (remove_last x hs)"
  by (simp add: by_height_def remove_last_filter sorted_filter)

lemma InsertTx_by_height:
  assumes "BRWalletInsertTx w tx = Some w'" "by_height w (transactions w)" "deref w (txHash tx) = tx"
  shows "by_height w' (transactions w')"
proof -
  obtain hs where hs: "insert_from_end w tx (rev (transactions w)) = Some hs" "w' = w\<lparr>transactions := rev hs\<rparr>"
    using assms(1) by (auto simp: BRWalletInsertTx_def)
  have "by_height w (rev hs)" using insert_by_height [OF hs(1)] assms(2,3) by simp
  then show ?thesis using by_height_cong [of "rev hs" w "w\<lparr>transactions := rev hs\<rparr>"] by (simp add: hs(2))
qed

definition sorted_inv :: "BRWallet \<Rightarrow> bool" where
  "sorted_inv w \<longleftrightarrow> wallet_inv w \<and> by_height w (transactions w)"

lemma same_by_height: "allTx w' = allTx w \<Longrightarrow> transactions w' = transactions w \<Longrightarrow> by_height w' (transactions w') = by_height w (transactions w)"
  using by_height_cong [of "transactions w" w' w] by simp

lemma UpdateBalance_sorted: "base_inv w \<Longrightarrow> by_height w (transactions w) \<Longrightarrow> sorted_inv (BRWalletUpdateBalance now w)"
  using UpdateBalance_wallet_inv [of w now] UpdateBalance_fields [of w now] same_by_height [of "BRWalletUpdateBalance now w" w]
  by (simp add: sorted_inv_def)

lemma UnusedAddrs_sorted:
  assumes "BRWalletUnusedAddrs lib moved w addrs gap internal = Some (w', r)" "sorted_inv w"
  shows "sorted_inv w'"
proof -
  have inv: "wallet_inv w" using assms(2) by (simp add: sorted_inv_def)
  have "allTx w' = allTx w \<and> transactions w' = transactions w"
    by (rule UnusedAddrs_effect [OF assms(1) inv_chains [OF inv]]) simp
  then show ?thesis
    using UnusedAddrs_inv [OF assms(1) inv] same_by_height [of w' w] assms(2) by (simp add: sorted_inv_def)
qed

lemma add_change_sorted: "add_change lib moved rand w tx change = Some (w', tx') \<Longrightarrow> sorted_inv w \<Longrightarrow> sorted_inv w'"
  by (auto simp: add_change_def Let_def split: bind_splits dest: UnusedAddrs_sorted)

lemma CreateTxForOutputs_sorted:
  "BRWalletCreateTxForOutputs lib moved rand w outs = Some r \<Longrightarrow> sorted_inv w \<Longrightarrow> sorted_inv (fst r)"
  by (rule CreateTxForOutputs_keeps [of lib moved rand w outs r "\<lambda>_. sorted_inv", OF _ _ add_change_sorted])

lemma registered_base:
  assumes "wallet_inv w" "tx_ok tx" "allTx w (txHash tx) = None" "BRWalletContainsTx w tx"
    "BRWalletInsertTx (w\<lparr>allTx := (allTx w)(txHash tx \<mapsto> tx)\<rparr>) tx = Some w1"
  shows "base_inv w1"
proof -
  have "txHash tx \<notin> set (transactions w)" using assms(1,3) by (auto simp: wallet_inv_def)
  then show ?thesis
    using insert_base_inv [OF assms(5) inv_base [OF new_tx_inv [OF assms(1,3,2)]], of tx]
      extends_contains [OF extends_new [OF assms(3)] assms(4) refl refl] by simp
qed

lemma registered_sorted:
  assumes "sorted_inv w" "tx_ok tx" "allTx w (txHash tx) = None" "BRWalletContainsTx w tx"
    "BRWalletInsertTx (w\<lparr>allTx := (allTx w)(txHash tx \<mapsto> tx)\<rparr>) tx = Some w1"
  shows "sorted_inv (BRWalletUpdateBalance now w1)"
proof (rule UpdateBalance_sorted)
  let ?w = "w\<lparr>allTx := (allTx w)(txHash tx \<mapsto> tx)\<rparr>"
  have "txHash tx \<notin> set (transactions w)" using assms(1,3) by (auto simp: sorted_inv_def wallet_inv_def)
  then have "by_height ?w (transactions ?w) = by_height w (transactions w)"
    by (simp, intro by_height_cong) auto
  then show "by_height w1 (transactions w1)"
    using InsertTx_by_height [OF assms(5)] assms(1) by (simp add: sorted_inv_def deref_def)
  show "base_inv w1" by (rule registered_base [OF _ assms(2-5)]) (use assms(1) in \<open>simp add: sorted_inv_def\<close>)
qed

lemma RegisterTransaction_own_sorted:
  assumes reg: "BRWalletRegisterTransaction lib moved now w tx = Some (w', events, r)" and inv: "sorted_inv w" and tx: "tx_ok tx"
    and new: "allTx w (txHash tx) = None" and own: "BRWalletContainsTx w tx" and signed: "BRTransactionIsSigned tx"
  shows "sorted_inv w'"
proof -
  obtain w1 w3 r3 r4 where w1: "BRWalletInsertTx (w\<lparr>allTx := (allTx w)(txHash tx \<mapsto> tx)\<rparr>) tx = Some w1"
    and w3: "BRWalletUnusedAddrs lib (moved 0) (BRWalletUpdateBalance now w1) None SEQUENCE_GAP_LIMIT_EXTERNAL 0 = Some (w3, r3)"
    and w4: "BRWalletUnusedAddrs lib (moved 1) w3 None SEQUENCE_GAP_LIMIT_INTERNAL 1 = Some (w', r4)"
    using reg new own signed by (auto simp: BRWalletRegisterTransaction_def Let_def split: bind_splits)
  show ?thesis using registered_sorted [OF inv tx new own w1] UnusedAddrs_sorted [OF w3] UnusedAddrs_sorted [OF w4] by blast
qed

lemma RegisterTransaction_sorted:
  assumes reg: "BRWalletRegisterTransaction lib moved now w tx = Some (w', events, r)" and inv: "sorted_inv w" and tx: "tx_ok tx"
  shows "sorted_inv w'"
proof -
  have inv': "wallet_inv w'" using RegisterTransaction_inv [OF reg _ tx] inv by (simp add: sorted_inv_def)
  let ?w = "w\<lparr>allTx := (allTx w)(txHash tx \<mapsto> tx)\<rparr>"
  show ?thesis
  proof (cases "BRTransactionIsSigned tx \<and> allTx w (txHash tx) = None")
    case False
    then show ?thesis using reg inv by (auto simp: BRWalletRegisterTransaction_def split: if_splits)
  next
    case unknown: True
    show ?thesis
    proof (cases "BRWalletContainsTx w tx")
      case False
      then have "w' = w \<or> w' = ?w"
        using reg unknown by (simp add: BRWalletRegisterTransaction_def split: if_splits)
      moreover have "by_height ?w (transactions w) = by_height w (transactions w)"
        using inv unknown by (intro by_height_cong) (auto simp: sorted_inv_def wallet_inv_def)
      ultimately show ?thesis using inv inv' by (auto simp: sorted_inv_def)
    next
      case True
      then show ?thesis using RegisterTransaction_own_sorted [OF reg inv tx] unknown by simp
    qed
  qed
qed

lemma removed_sorted:
  assumes "sorted_inv w"
  shows "sorted_inv (BRWalletUpdateBalance now (w\<lparr>transactions := remove_last h (transactions w)\<rparr>))"
proof (rule UpdateBalance_sorted)
  have "by_height w (remove_last h (transactions w))"
    using assms by (intro by_height_remove) (auto simp: sorted_inv_def wallet_inv_def)
  then show "by_height (w\<lparr>transactions := remove_last h (transactions w)\<rparr>) (transactions (w\<lparr>transactions := remove_last h (transactions w)\<rparr>))"
    using by_height_cong [of _ "w\<lparr>transactions := remove_last h (transactions w)\<rparr>" w] by simp
qed (use assms in \<open>simp add: sorted_inv_def remove_base_inv inv_base\<close>)

lemma RemoveTransaction_sorted:
  assumes "BRWalletRemoveTransaction now h st = Some st'" "sorted_inv (fst st)"
  shows "sorted_inv (fst st')"
  by (rule RemoveTransaction_keeps [of _ _ _ _ sorted_inv, OF assms removed_sorted])

text \<open>The effect of one update on the array.\<close>

lemma update_tx_effect:
  assumes upd: "update_tx height ts h (w, hashes, needsUpdate) = Some (w', r)" and inv: "wallet_inv w"
    and tx: "allTx w h = Some tx" "\<not> (blockHeight tx = height \<and> timestamp tx = ts)"
  defines "tx' \<equiv> tx\<lparr>timestamp := ts, blockHeight := height\<rparr>"
  shows "h \<notin> set (transactions w) \<Longrightarrow> transactions w' = transactions w \<and> (\<forall>h'. h' \<noteq> h \<longrightarrow> allTx w' h' = allTx w h')"
    "h \<in> set (transactions w) \<Longrightarrow>
      BRWalletInsertTx (w\<lparr>allTx := (allTx w)(h \<mapsto> tx'), transactions := remove_last h (transactions w)\<rparr>) tx' = Some w'"
proof -
  let ?w = "w\<lparr>allTx := (allTx w)(h \<mapsto> tx')\<rparr>"
  have hash: "txHash tx = h" using inv_store [OF inv] tx(1) by (simp add: store_ok_def)
  note step = upd [unfolded update_tx_def prod.case tx(1) option.case if_not_P [OF tx(2)] Let_def, folded tx'_def]
  have hash': "txHash tx' = h" by (simp add: tx'_def hash)
  show "transactions w' = transactions w \<and> (\<forall>h'. h' \<noteq> h \<longrightarrow> allTx w' h' = allTx w h')" if "h \<notin> set (transactions w)"
    using step that by (auto simp: hash' split: if_splits)
  show "BRWalletInsertTx (w\<lparr>allTx := (allTx w)(h \<mapsto> tx'), transactions := remove_last h (transactions w)\<rparr>) tx' = Some w'"
    if h: "h \<in> set (transactions w)"
  proof -
    have own: "BRWalletContainsTx w tx" using inv h tx(1) by (auto simp: wallet_inv_def)
    have "extends w ?w" using tx(1) by (auto simp: extends_def tx'_def)
    from extends_contains [OF this own] have "BRWalletContainsTx ?w tx'" by (simp add: tx'_def)
    then show ?thesis using step h by (simp add: hash' split: bind_splits)
  qed
qed

lemma update_tx_sorted:
  assumes upd: "update_tx height ts h (w, hashes, needsUpdate) = Some (w', r)" and inv: "sorted_inv w"
  shows "sorted_inv w'"
proof (cases "\<exists>tx. allTx w h = Some tx \<and> \<not> (blockHeight tx = height \<and> timestamp tx = ts)")
  case False
  then show ?thesis using upd inv by (auto simp: update_tx_def split: option.splits)
next
  case True
  then obtain tx where tx: "allTx w h = Some tx" "\<not> (blockHeight tx = height \<and> timestamp tx = ts)" by blast
  have wi: "wallet_inv w" using inv by (simp add: sorted_inv_def)
  have wi': "wallet_inv w'" by (rule update_tx_inv [OF upd wi])
  let ?tx = "tx\<lparr>timestamp := ts, blockHeight := height\<rparr>"
  have "by_height w' (transactions w')"
  proof (cases "h \<in> set (transactions w)")
    case False
    note eff = update_tx_effect(1) [OF upd wi tx False]
    have "by_height w' (transactions w) = by_height w (transactions w)"
      using eff False by (intro by_height_cong) auto
    then show ?thesis using eff inv by (simp add: sorted_inv_def)
  next
    case True
    let ?w = "w\<lparr>allTx := (allTx w)(h \<mapsto> ?tx), transactions := remove_last h (transactions w)\<rparr>"
    have d: "distinct (transactions w)" using wi by (simp add: wallet_inv_def)
    have "by_height ?w (remove_last h (transactions w)) = by_height w (remove_last h (transactions w))"
      by (rule by_height_cong) (simp add: remove_last_filter [OF d])
    then have "by_height ?w (transactions ?w)"
      using by_height_remove [OF _ d] inv by (simp add: sorted_inv_def)
    moreover have "txHash tx = h" using inv_store [OF wi] tx(1) by (simp add: store_ok_def)
    ultimately show ?thesis
      using InsertTx_by_height [OF update_tx_effect(2) [OF upd wi tx True]] by (simp add: deref_def)
  qed
  then show ?thesis using wi' by (simp add: sorted_inv_def)
qed

lemma UpdateTransactions_sorted:
  assumes "BRWalletUpdateTransactions now w txHashes height ts = Some (w', events)" "sorted_inv w"
  shows "sorted_inv w'"
proof -
  let ?w = "if height > wBlockHeight w then w\<lparr>wBlockHeight := height\<rparr> else w"
  obtain w1 hashes needsUpdate where w1: "each_opt (update_tx height ts) txHashes (?w, [], False) = Some (w1, hashes, needsUpdate)"
    and w': "w' = (if needsUpdate then BRWalletUpdateBalance now w1 else w1)"
    using assms(1) by (auto simp: BRWalletUpdateTransactions_def Let_def split: bind_splits)
  have "sorted_inv ?w"
    using assms(2) inv_other_fields same_by_height [of "w\<lparr>wBlockHeight := height\<rparr>" w] by (auto simp: sorted_inv_def)
  then have "(\<lambda>s. sorted_inv (fst s)) (w1, hashes, needsUpdate)"
    by (intro each_opt_inv [OF w1, of "\<lambda>s. sorted_inv (fst s)"]) (simp, metis prod.collapse update_tx_sorted)
  then have "sorted_inv w1" by simp
  moreover from this have "sorted_inv (BRWalletUpdateBalance now w1)"
    by (intro UpdateBalance_sorted) (simp_all add: sorted_inv_def inv_base)
  ultimately show ?thesis by (simp add: w')
qed

lemma sorted_constant: "sorted (map (\<lambda>x. c) xs)"
  by (induction xs) simp_all

lemma takeWhile_suffix:
  assumes "sorted (map f xs)" "n = length (takeWhile (\<lambda>x. f x > b) (rev xs))"
  shows "\<forall>x \<in> set (take (length xs - n) xs). f x \<le> b" "\<forall>x \<in> set (drop (length xs - n) xs). f x > (b :: 'b::linorder)"
proof -
  let ?m = "length xs - n"
  have "drop n (rev xs) = dropWhile (\<lambda>x. f x > b) (rev xs)" by (simp add: assms(2) dropWhile_eq_drop)
  moreover have "drop n (rev xs) = rev (take ?m xs)" by (simp add: drop_rev)
  ultimately have pre: "rev (take ?m xs) = dropWhile (\<lambda>x. f x > b) (rev xs)" by simp
  show "\<forall>x \<in> set (take ?m xs). f x \<le> b"
  proof (cases "take ?m xs" rule: rev_cases)
    case (snoc ys y)
    then have "dropWhile (\<lambda>x. f x > b) (rev xs) = y # rev ys" using pre by simp
    then have "f y \<le> b" by (metis dropWhile_eq_Cons_conv not_le)
    moreover have "sorted (map f (ys @ [y]))" using assms(1) snoc by (metis append_take_drop_id map_append sorted_append)
    ultimately have "\<forall>x \<in> set (ys @ [y]). f x \<le> b" by (fastforce simp: sorted_append)
    then show ?thesis by (simp only: snoc)
  next
    case Nil
    then show ?thesis by (simp only: list.set(1) ball_empty)
  qed
  have "take n (rev xs) = takeWhile (\<lambda>x. f x > b) (rev xs)" by (simp only: assms(2) takeWhile_eq_take [symmetric])
  moreover have "take n (rev xs) = rev (drop ?m xs)" by (simp add: take_rev)
  ultimately have "set (drop ?m xs) = set (takeWhile (\<lambda>x. f x > b) (rev xs))" by (metis set_rev)
  then show "\<forall>x \<in> set (drop ?m xs). f x > b" by (metis set_takeWhileD)
qed

text \<open>Marking transactions as unconfirmed changes their heights only.\<close>

lemma mark_unconfirmed:
  assumes "\<forall>h \<in> set hs. allTx w h \<noteq> None"
  defines "w' \<equiv> foldl (\<lambda>w h. w\<lparr>allTx := (allTx w)(h \<mapsto> (deref w h)\<lparr>blockHeight := TX_UNCONFIRMED\<rparr>)\<rparr>) w hs"
  shows "transactions w' = transactions w \<and> (\<forall>h. h \<notin> set hs \<longrightarrow> allTx w' h = allTx w h) \<and>
    (\<forall>h \<in> set hs. blockHeight (deref w' h) = TX_UNCONFIRMED)"
proof -
  define f where "f = (\<lambda>w h. w\<lparr>allTx := (allTx w)(h \<mapsto> (deref w h)\<lparr>blockHeight := TX_UNCONFIRMED\<rparr>)\<rparr>)"
  have "transactions (foldl f w hs) = transactions w \<and> (\<forall>h. h \<notin> set hs \<longrightarrow> allTx (foldl f w hs) h = allTx w h) \<and>
      (\<forall>h \<in> set hs. blockHeight (deref (foldl f w hs) h) = TX_UNCONFIRMED)"
    by (induction hs rule: rev_induct) (auto simp: f_def deref_def)
  then show ?thesis unfolding w'_def f_def .
qed

lemma SetTxUnconfirmedAfter_sorted:
  assumes "sorted_inv w" "height \<le> TX_UNCONFIRMED"
  shows "sorted_inv (fst (BRWalletSetTxUnconfirmedAfter now w height))"
proof -
  let ?f = "\<lambda>h. blockHeight (deref w h)"
  let ?xs = "transactions w"
  let ?n = "length (takeWhile (\<lambda>h. ?f h > height) (rev ?xs))"
  let ?pre = "take (length ?xs - ?n) ?xs" and ?suf = "drop (length ?xs - ?n) ?xs"
  let ?w1 = "foldl (\<lambda>w h. w\<lparr>allTx := (allTx w)(h \<mapsto> (deref w h)\<lparr>blockHeight := TX_UNCONFIRMED\<rparr>)\<rparr>) (w\<lparr>wBlockHeight := height\<rparr>) ?suf"
  have inv: "wallet_inv w" and sorted: "sorted (map ?f ?xs)" using assms(1) by (simp_all add: sorted_inv_def by_height_def)
  have dist: "distinct (?pre @ ?suf)" using inv by (simp add: wallet_inv_def)
  have known: "\<forall>h \<in> set ?suf. allTx (w\<lparr>wBlockHeight := height\<rparr>) h \<noteq> None"
    using inv set_drop_subset [of "length ?xs - ?n" ?xs] by (fastforce simp: wallet_inv_def)
  note mark = mark_unconfirmed [OF known]
  have "\<forall>h \<in> set ?pre. blockHeight (deref ?w1 h) = ?f h \<and> ?f h \<le> height"
    using mark takeWhile_suffix(1) [OF sorted refl] dist unfolding distinct_append by (fastforce simp: deref_def)
  moreover have "sorted (map ?f ?pre)" using sorted by (metis append_take_drop_id map_append sorted_append)
  ultimately have "sorted (map (\<lambda>h. blockHeight (deref ?w1 h)) (?pre @ ?suf))"
    using mark assms(2) by (auto simp: sorted_append sorted_constant simp del: append_take_drop_id cong: map_cong)
  then have "by_height ?w1 (transactions ?w1)" using mark by (simp add: by_height_def)
  moreover have "wallet_inv ?w1"
    by (rule mark_unconfirmed_inv [OF inv_other_fields(1) [OF inv]]) (simp add: set_drop_subset)
  ultimately have "sorted_inv ?w1 \<and> sorted_inv (BRWalletUpdateBalance now ?w1)"
    using UpdateBalance_sorted [OF inv_base] by (simp add: sorted_inv_def)
  then show ?thesis unfolding BRWalletSetTxUnconfirmedAfter_def Let_def by auto
qed

lemma load_txs_sorted:
  "load_txs txs w = Some w' \<Longrightarrow> \<forall>h \<in> set (transactions w). allTx w h \<noteq> None \<Longrightarrow> by_height w (transactions w) \<Longrightarrow>
    by_height w' (transactions w')"
proof (induction txs arbitrary: w)
  case (Cons tx txs)
  show ?case
  proof (cases "\<not> BRTransactionIsSigned tx \<or> allTx w (txHash tx) \<noteq> None")
    case True
    then show ?thesis using Cons by (simp split: if_splits)
  next
    case False
    let ?w = "w\<lparr>allTx := (allTx w)(txHash tx \<mapsto> tx)\<rparr>"
    let ?used = "\<lambda>w1. usedPKH w1 \<union> set (concat (map (\<lambda>outp. case output_pkh outp of None \<Rightarrow> [] | Some pkh \<Rightarrow> [pkh]) (outputs tx)))"
    from False Cons.prems(1) obtain w1 where w1: "BRWalletInsertTx ?w tx = Some w1"
      and rest: "load_txs txs (w1\<lparr>usedPKH := ?used w1\<rparr>) = Some w'"
      by (auto split: bind_splits)
    obtain hs where hs: "w1 = ?w\<lparr>transactions := hs\<rparr>" "mset hs = mset (txHash tx # transactions w)"
      by (rule InsertTx_mset [OF w1]) simp
    have "by_height ?w (transactions w) = by_height w (transactions w)"
      using Cons.prems(2) False by (intro by_height_cong) auto
    then have "by_height w1 (transactions w1)"
      using InsertTx_by_height [OF w1] Cons.prems(3) by (simp add: deref_def)
    moreover have "\<forall>h \<in> set (transactions w1). allTx w1 h \<noteq> None"
      using Cons.prems(2) mset_eq_setD [OF hs(2)] by (auto simp: hs(1))
    ultimately show ?thesis
      using Cons.IH [OF rest] same_by_height [of "w1\<lparr>usedPKH := ?used w1\<rparr>" w1] by simp
  qed
qed simp

lemma New_sorted:
  assumes new: "BRWalletNew lib moved now params txs mpk = Some (Some w)"
    and txs: "\<forall>tx \<in> set txs. tx_ok tx \<and> BRWalletContainsTx w tx"
  shows "sorted_inv w"
proof -
  obtain w1 w2 w3 r2 r3 where w1: "load_txs txs (empty_wallet params mpk) = Some w1"
    and w2: "BRWalletUnusedAddrs lib (moved 0) w1 None SEQUENCE_GAP_LIMIT_EXTERNAL SEQUENCE_EXTERNAL_CHAIN = Some (w2, r2)"
    and w3: "BRWalletUnusedAddrs lib (moved 1) w2 None SEQUENCE_GAP_LIMIT_INTERNAL SEQUENCE_INTERNAL_CHAIN = Some (w3, r3)"
    and w: "w = BRWalletUpdateBalance now w3"
    using new by (auto simp: BRWalletNew_def Let_def split: bind_splits if_splits)
  have l1: "loaded (set txs) w1"
    using load_txs_loaded [OF w1, of "set txs"] by (simp add: loaded_def empty_wallet_def)
  have h1: "by_height w1 (transactions w1)"
    using load_txs_sorted [OF w1] by (simp add: empty_wallet_def by_height_def)
  have c1: "allPKH w1 = set (internalChain w1) \<union> set (externalChain w1)" using l1 by (simp add: loaded_def)
  have s2: "allTx w2 = allTx w1 \<and> transactions w2 = transactions w1 \<and> allPKH w2 = set (internalChain w2) \<union> set (externalChain w2)"
    by (rule UnusedAddrs_effect [OF w2 c1]) (use c1 in auto)
  then have c2: "allPKH w2 = set (internalChain w2) \<union> set (externalChain w2)" by blast
  have s3: "allTx w3 = allTx w2 \<and> transactions w3 = transactions w2"
    by (rule UnusedAddrs_effect [OF w3 c2]) simp
  have "store_ok w3" "distinct (transactions w3)" "\<forall>h \<in> set (transactions w3). allTx w3 h \<noteq> None"
    using l1 txs s2 s3 by (auto simp: loaded_def store_ok_def)
  then have "allTx w = allTx w3 \<and> transactions w = transactions w3"
    using UpdateBalance_inv(1) [of w3 now] by (auto simp: w)
  then have "by_height w (transactions w) = by_height w1 (transactions w1)" using s2 s3 by (intro same_by_height) simp_all
  then show ?thesis using New_inv [OF new txs] h1 by (simp add: sorted_inv_def)
qed

lemma wallet_step_sorted: "wallet_step lib w w' \<Longrightarrow> sorted_inv w \<Longrightarrow> sorted_inv w'"
proof (induction rule: wallet_step.induct)
  case (remove now h w events w' events')
  then show ?case using RemoveTransaction_sorted [OF remove(1)] by simp
next
  case (unconfirm now w height w' events)
  then show ?case using SetTxUnconfirmedAfter_sorted [of w height now] by simp
next
  case (create moved1 rand w outs w' tx1)
  then show ?case using CreateTxForOutputs_sorted [OF create(1)] by simp
next
  case (create_to moved1 rand w amount addr w' tx1)
  then show ?case unfolding BRWalletCreateTransaction_def using CreateTxForOutputs_sorted by fastforce
next
  case (fee_for moved1 rand w amount w' fee)
  then show ?case
    unfolding BRWalletFeeForTxAmount_def Let_def using CreateTxForOutputs_sorted by (fastforce split: bind_splits)
next
  case (set_fee w fpk)
  then show ?case
    using inv_other_fields(2) [of w fpk] same_by_height [of "w\<lparr>feePerKb := fpk\<rparr>" w] by (simp add: sorted_inv_def BRWalletSetFeePerKb_def)
qed (auto dest: RegisterTransaction_sorted UpdateTransactions_sorted UnusedAddrs_sorted intro: registered_sorted removed_sorted)

lemma run_sorted: "wallet_run lib w w' \<Longrightarrow> sorted_inv w \<Longrightarrow> sorted_inv w'"
  by (induction rule: rtranclp_induct) (auto intro: wallet_step_sorted)

section \<open>The set of unspent outputs\<close>

text \<open>The outputs of a list of transactions that the wallet owns, and the outputs they spend.\<close>

definition owned :: "BRWallet \<Rightarrow> bytes set \<Rightarrow> BRUTXO set" where
  "owned w hs = {u. utxoHash u \<in> hs \<and> utxo_ok w u}"

definition spent :: "BRWallet \<Rightarrow> bytes set \<Rightarrow> BRUTXO set" where
  "spent w hs = (\<Union>h \<in> hs. input_utxo ` set (inputs (deref w h)))"

lemma set_new_utxos:
  assumes "allTx w h = Some t" "tx_ok t"
  shows "set (new_utxos w h (outputs t) 0) = owned w {h}"
proof -
  have "u \<in> set (new_utxos w h (outputs t) 0)" if u: "u \<in> owned w {h}" for u
  proof -
    obtain h' n where un: "u = \<lparr>utxoHash = h', utxoN = n\<rparr>" by (cases u)
    have "h' = h" "unat n < length (outputs t)" "own_output w (outputs t ! unat n)"
      using u assms(1) by (auto simp: owned_def utxo_ok_def un)
    then have "\<lparr>utxoHash = h, utxoN = of_nat (0 + unat n)\<rparr> = u"
      and "unat n \<in> set (filter (\<lambda>k. own_output w (outputs t ! k)) [0..<length (outputs t)])" by (simp_all add: un)
    then show ?thesis unfolding new_utxos_def set_map by (metis imageI)
  qed
  moreover have "u \<in> owned w {h}" if "u \<in> set (new_utxos w h (outputs t) 0)" for u
    using new_utxos_props(2) [OF assms that] by (simp add: owned_def)
  ultimately show ?thesis by (intro equalityI subsetI)
qed

lemma owned_insert: "owned w (insert h hs) = owned w hs \<union> owned w {h}"
  by (auto simp: owned_def)

text \<open>A confirmed transaction is always accepted.\<close>

lemma balance_step_confirmed:
  assumes h: "store_ok w0" "allTx w0 h = Some t" "blockHeight t \<noteq> TX_UNCONFIRMED"
    and w: "allTx w = allTx w0" "allPKH w = allPKH w0" "set (utxos w) = owned w0 hs - spent w0 hs" "spentOutputs w = spent w0 hs"
    and step: "balance_step now (w, bal, prev) h = (w', r)"
  shows "allTx w' = allTx w0 \<and> allPKH w' = allPKH w0 \<and> set (utxos w') = owned w0 (insert h hs) - spent w0 (insert h hs) \<and>
    spentOutputs w' = spent w0 (insert h hs)"
proof -
  have t: "tx_ok t" "txHash t = h" "deref w h = t" "deref w0 h = t" using h w(1) by (simp_all add: store_ok_def deref_def)
  let ?w1 = "w\<lparr>spentOutputs := spentOutputs w \<union> set (map input_utxo (inputs t))\<rparr>"
  obtain used where add: "add_utxos h (outputs t) 0 (?w1, bal) =
     (?w1\<lparr>usedPKH := used, utxos := utxos ?w1 @ new_utxos w0 h (outputs t) 0\<rparr>,
      bal + sum_list (map outAmount (filter (own_output ?w1) (outputs t))))"
    using add_utxos_eq [of h "outputs t" 0 ?w1 bal] new_utxos_cong [of ?w1 w0] w(2) by auto
  have sp: "spent w0 (insert h hs) = spent w0 hs \<union> set (map input_utxo (inputs t))" by (simp add: spent_def t Un_commute)
  have "fst (balance_step now (w, bal, prev) h) =
     ?w1\<lparr>usedPKH := used, utxos := filter (\<lambda>u. u \<notin> spentOutputs ?w1) (utxos w @ new_utxos w0 h (outputs t) 0),
        totalReceived := totalReceived (fst (balance_step now (w, bal, prev) h)),
        totalSent := totalSent (fst (balance_step now (w, bal, prev) h)),
        balanceHist := balanceHist (fst (balance_step now (w, bal, prev) h))\<rparr>"
    unfolding balance_step.simps t Let_def add prod.case sweep_spent_eq by (simp add: h(3))
  then obtain tr ts bh where w': "w' = ?w1\<lparr>usedPKH := used,
        utxos := filter (\<lambda>u. u \<notin> spentOutputs ?w1) (utxos w @ new_utxos w0 h (outputs t) 0),
        totalReceived := tr, totalSent := ts, balanceHist := bh\<rparr>"
    unfolding step fst_conv by blast
  have "allTx w' = allTx w \<and> allPKH w' = allPKH w \<and> spentOutputs w' = spentOutputs ?w1 \<and>
      set (utxos w') = (set (utxos w) \<union> owned w0 {h}) - spentOutputs ?w1"
    unfolding w' using set_new_utxos [OF h(2) t(1)] by auto
  then show ?thesis using w sp owned_insert [of w0 h hs] by auto
qed

lemma UpdateBalance_confirmed:
  assumes "base_inv w" "\<forall>h \<in> set (transactions w). blockHeight (deref w h) \<noteq> TX_UNCONFIRMED"
  shows "set (utxos (BRWalletUpdateBalance now w)) = owned w (set (transactions w)) - spent w (set (transactions w))"
proof -
  let ?w0 = "w\<lparr>utxos := [], balanceHist := [], spentOutputs := {}, invalidTx := {}, pendingTx := {}, usedPKH := {},
                totalSent := 0, totalReceived := 0\<rparr>"
  have store: "store_ok w" using assms(1) by (simp add: base_inv_def)
  have fold: "\<exists>w' bal prev. foldl (balance_step now) (?w0, 0, 0) hs = (w', bal, prev) \<and> allTx w' = allTx w \<and> allPKH w' = allPKH w \<and>
      set (utxos w') = owned w (set hs) - spent w (set hs) \<and> spentOutputs w' = spent w (set hs)"
    if "\<forall>h \<in> set hs. allTx w h \<noteq> None \<and> blockHeight (deref w h) \<noteq> TX_UNCONFIRMED" for hs
    using that
  proof (induction hs rule: rev_induct)
    case Nil
    show ?case by (simp add: owned_def spent_def)
  next
    case (snoc h hs)
    then obtain w' bal prev where w': "foldl (balance_step now) (?w0, 0, 0) hs = (w', bal, prev)" "allTx w' = allTx w" "allPKH w' = allPKH w"
        "set (utxos w') = owned w (set hs) - spent w (set hs)" "spentOutputs w' = spent w (set hs)" by auto
    obtain t where t: "allTx w h = Some t" "blockHeight t \<noteq> TX_UNCONFIRMED" using snoc.prems by (auto simp: deref_def)
    obtain v b p where v: "balance_step now (w', bal, prev) h = (v, b, p)" by (metis prod_cases3)
    show ?case
      using balance_step_confirmed [OF store t w'(2-5) v] w'(1) v by simp
  qed
  have "\<forall>h \<in> set (transactions w). allTx w h \<noteq> None \<and> blockHeight (deref w h) \<noteq> TX_UNCONFIRMED"
    using assms by (auto simp: base_inv_def)
  from fold [OF this] show ?thesis by (auto simp: BRWalletUpdateBalance_def Let_def)
qed

section \<open>No output of the set is spent\<close>









section \<open>Every operation keeps a wallet sound\<close>













section \<open>The properties of every run\<close>


text \<open>
  In every state that a new wallet reaches the transactions are sorted by block height, the oldest first
  and the unconfirmed ones last.
\<close>

theorem reachable_ordered:
  assumes "BRWalletNew lib moved now params txs mpk = Some (Some w0)" "\<forall>tx \<in> set txs. tx_ok tx \<and> BRWalletContainsTx w0 tx"
    and "wallet_run lib w0 w"
  shows "sorted (map (\<lambda>h. blockHeight (deref w h)) (transactions w))"
  using run_sorted [OF assms(3) New_sorted [OF assms(1,2)]] by (simp add: sorted_inv_def by_height_def)

text \<open>
  C3: The balance refines the set of unspent outputs. Once every transaction of a consistent wallet is
  confirmed, \<open>BRWalletUpdateBalance\<close>, which walks through the transactions in their order, leaves exactly
  the outputs to keys of the wallet that no transaction of it spends, and its balance is their sum.
\<close>

theorem confirmed_balance:
  assumes "base_inv w" "\<forall>h \<in> set (transactions w). blockHeight (deref w h) \<noteq> TX_UNCONFIRMED"
  shows "set (utxos (BRWalletUpdateBalance now w)) = owned w (set (transactions w)) - spent w (set (transactions w)) \<and>
    balance (BRWalletUpdateBalance now w) = (\<Sum>u \<in> owned w (set (transactions w)) - spent w (set (transactions w)). utxo_amount w u)"
proof -
  let ?w = "BRWalletUpdateBalance now w"
  have "wallet_inv ?w" by (rule UpdateBalance_wallet_inv [OF assms(1)])
  then have bal: "balance ?w = sum_list (map (utxo_amount ?w) (utxos ?w))" "distinct (utxos ?w)"
    by (simp_all add: wallet_inv_def balance_ok_def)
  have "utxo_amount ?w = utxo_amount w" by (rule same_store(2) [OF UpdateBalance_fields(1) [OF assms(1)]])
  then have "balance ?w = (\<Sum>u \<in> set (utxos ?w). utxo_amount w u)" using bal by (simp add: sum_list_distinct_conv_sum_set)
  then show ?thesis using UpdateBalance_confirmed [OF assms, of now] by simp
qed

text \<open>A wallet with the key that the parent pays to, whose only transaction is the confirmed parent.\<close>

definition parent_wallet :: BRWallet where
  "parent_wallet = (empty_wallet BITCOIN_ADDRESS_PARAMS BR_MASTER_PUBKEY_NONE)
     \<lparr>allTx := [replicate 32 1 \<mapsto> parent_tx], transactions := [replicate 32 1],
      externalChain := [replicate 20 7], allPKH := {replicate 20 7}\<rparr>"

lemma parent_output: "own_output parent_wallet (outputs parent_tx ! 0)"
proof -
  have "map_option UInt160Get (BRScriptPKH (p2pkh_script (replicate 20 7))) = Some (replicate 20 7)"
    unfolding BRScriptPKH_standard standard_pkh_def by (simp del: replicate.simps)
  then show ?thesis
    by (auto simp: own_output_def output_pkh_def parent_tx_def parent_wallet_def simp del: replicate.simps)
qed

lemma parent_wallet_base: "base_inv parent_wallet"
proof -
  have fields: "allTx parent_wallet = [replicate 32 1 \<mapsto> parent_tx]" "transactions parent_wallet = [replicate 32 1]"
      "internalChain parent_wallet = []" "externalChain parent_wallet = [replicate 20 7]" "allPKH parent_wallet = {replicate 20 7}"
    by (simp_all add: parent_wallet_def empty_wallet_def)
  have "outputs parent_tx ! 0 \<in> set (outputs parent_tx)" by (simp add: parent_tx_def)
  then have "BRWalletContainsTx parent_wallet parent_tx" using parent_output unfolding BRWalletContainsTx_def by blast
  moreover have "store_ok parent_wallet" by (simp add: store_ok_def fields) (simp add: parent_tx_def tx_ok_def)
  ultimately show ?thesis by (simp add: base_inv_def fields)
qed

theorem confirmed_balance_witness:
  "utxos (BRWalletUpdateBalance 0 parent_wallet) = [\<lparr>utxoHash = replicate 32 1, utxoN = 0\<rparr>] \<and>
    balance (BRWalletUpdateBalance 0 parent_wallet) = 10000"
proof -
  let ?u = "\<lparr>utxoHash = replicate 32 1, utxoN = 0\<rparr> :: BRUTXO"
  have fields: "allTx parent_wallet = [replicate 32 1 \<mapsto> parent_tx]" "transactions parent_wallet = [replicate 32 1]"
    by (simp_all add: parent_wallet_def)
  have tx: "deref parent_wallet (replicate 32 1) = parent_tx" by (simp add: deref_def fields)
  have confirmed: "\<forall>h \<in> set (transactions parent_wallet). blockHeight (deref parent_wallet h) \<noteq> TX_UNCONFIRMED"
    by (simp add: fields tx del: replicate.simps) (simp add: parent_tx_def TX_UNCONFIRMED_def)
  have outs: "length (outputs parent_tx) = 1" "outputs parent_tx \<noteq> []" "inputs parent_tx = []" by (simp_all add: parent_tx_def BRTransactionNew_def)
  have "owned parent_wallet (set (transactions parent_wallet)) = {?u}"
  proof (intro equalityI subsetI)
    fix u assume "u \<in> owned parent_wallet (set (transactions parent_wallet))"
    then have "utxoHash u = replicate 32 1 \<and> unat (utxoN u) < 1"
      by (auto simp: owned_def utxo_ok_def fields outs simp del: replicate.simps split: if_splits)
    then show "u \<in> {?u}" by (cases u) (simp add: unat_eq_0 del: replicate.simps)
  next
    fix u assume "u \<in> {?u}"
    then show "u \<in> owned parent_wallet (set (transactions parent_wallet))"
      using parent_output by (simp add: owned_def utxo_ok_def fields outs del: replicate.simps)
  qed
  moreover have "spent parent_wallet (set (transactions parent_wallet)) = {}"
    by (simp add: spent_def fields tx outs del: replicate.simps)
  ultimately have "set (utxos (BRWalletUpdateBalance 0 parent_wallet)) = {?u} \<and>
      balance (BRWalletUpdateBalance 0 parent_wallet) = utxo_amount parent_wallet ?u"
    using confirmed_balance [OF parent_wallet_base confirmed, of 0] by simp
  moreover have "distinct (utxos (BRWalletUpdateBalance 0 parent_wallet))"
    using UpdateBalance_wallet_inv [OF parent_wallet_base] by (simp add: wallet_inv_def balance_ok_def)
  moreover have "utxo_amount parent_wallet ?u = 10000"
    by (simp add: utxo_amount_def tx del: replicate.simps) (simp add: parent_tx_def)
  moreover have "xs = [u]" if "distinct xs" "set xs = {u}" for xs and u :: BRUTXO
    using that by (cases xs) (auto simp: subset_singleton_iff)
  ultimately show ?thesis by metis
qed










end
