(* ===== verification/WalletCreate.thy ===== *)
theory WalletCreate
  imports WalletRun "HOL-Library.Sublist"
begin

text \<open>
  The transactions the wallet creates: which coins are chosen, which outputs are paid and where the change goes, as
  an abstract description that \<open>BRWalletCreateTxForOutputs\<close> meets.
\<close>

section \<open>Funded transactions\<close>


















section \<open>The choice of the inputs\<close>









section \<open>The change\<close>



section \<open>The created transaction\<close>



section \<open>What creating a transaction promises\<close>










end
