(* ===== verification/SignProps.thy ===== *)
theory SignProps
  imports Sign
begin

text \<open>
  What \<open>BRTransactionSign\<close> promises: it writes only signatures and witnesses, every signature is made for
  the transaction it returns, whatever inputs were signed before it, and it verifies.
\<close>

section \<open>What a signature depends on\<close>

definition bare :: "BRTxInput \<Rightarrow> BRTxInput" where
  "bare inp = inp\<lparr>inSignature := None, inWitness := None\<rparr>"

lemma bare_fields [simp]:
  "inTxHash (bare inp) = inTxHash inp" "inIndex (bare inp) = inIndex inp" "inAmount (bare inp) = inAmount inp"
  "inScript (bare inp) = inScript inp" "inSequence (bare inp) = inSequence inp"
  by (simp_all add: bare_def)

definition same_unsigned :: "BRTransaction \<Rightarrow> BRTransaction \<Rightarrow> bool" where
  "same_unsigned tx tx' \<longleftrightarrow>
     txVersion tx' = txVersion tx \<and> lockTime tx' = lockTime tx \<and> blockHeight tx' = blockHeight tx \<and>
     timestamp tx' = timestamp tx \<and> outputs tx' = outputs tx \<and> map bare (inputs tx') = map bare (inputs tx)"

lemma same_unsigned_trans: "same_unsigned a b \<Longrightarrow> same_unsigned b c \<Longrightarrow> same_unsigned a c"
  by (simp add: same_unsigned_def)

lemma same_unsigned_length: "same_unsigned tx tx' \<Longrightarrow> length (inputs tx') = length (inputs tx)"
  unfolding same_unsigned_def by (metis length_map)

lemma same_unsigned_nth: "same_unsigned tx tx' \<Longrightarrow> i < length (inputs tx) \<Longrightarrow> bare (inputs tx' ! i) = bare (inputs tx ! i)"
  using same_unsigned_length [of tx tx'] unfolding same_unsigned_def by (metis nth_map)

lemma same_unsigned_map:
  assumes "same_unsigned tx tx'" "\<And>inp. f (bare inp) = f inp"
  shows "map f (inputs tx') = map f (inputs tx)"
proof -
  have "map f xs = map f (map bare xs)" for xs by (simp add: assms(2))
  then show ?thesis using assms(1) unfolding same_unsigned_def by metis
qed

lemma same_unsigned_foldl:
  assumes "same_unsigned tx tx'" "\<And>s i inp. f s (i, bare inp) = f s (i, inp)"
  shows "foldl f s (enumerate 0 (inputs tx')) = foldl f s (enumerate 0 (inputs tx))"
proof -
  have "foldl f s (enumerate n xs) = foldl f s (enumerate n (map bare xs))" for s n xs
    by (induction xs arbitrary: s n) (simp_all add: assms(2))
  then show ?thesis using assms(1) unfolding same_unsigned_def by metis
qed

lemma BRTxInputData_unsigned:
  "BRTxInputData ((bare inp)\<lparr>inSignature := s\<rparr>) = BRTxInputData (inp\<lparr>inSignature := s\<rparr>)"
  "BRTxInputData ((bare inp)\<lparr>inSignature := s, inAmount := a\<rparr>) = BRTxInputData (inp\<lparr>inSignature := s, inAmount := a\<rparr>)"
  "BRTxInputData (data_input (Some k) h i (bare inp)) = BRTxInputData (data_input (Some k) h i inp)"
  by (simp_all add: BRTxInputData_def [abs_def] bare_def data_input_def Let_def cong: if_cong)

lemma signing_script_unsigned [simp]: "signing_script (bare inp) = signing_script inp"
  by (simp add: signing_script_def Let_def)

lemma OutputData_unsigned: "same_unsigned tx tx' \<Longrightarrow> BRTransactionOutputData tx' = BRTransactionOutputData tx"
  by (intro ext) (simp add: BRTransactionOutputData_def same_unsigned_def split: option.split)

lemma WitnessData_unsigned:
  assumes "same_unsigned tx tx'"
  shows "BRTransactionWitnessData tx' (Some i) = BRTransactionWitnessData tx (Some i)"
proof (cases "i < length (inputs tx)")
  case False
  then show ?thesis using same_unsigned_length [OF assms] by (simp add: BRTransactionWitnessData_def [abs_def] Let_def)
next
  case True
  note out = OutputData_unsigned [OF assms]
  have hashes: "map (\<lambda>inp. inTxHash inp @ UInt32SetLE (inIndex inp)) (inputs tx') = map (\<lambda>inp. inTxHash inp @ UInt32SetLE (inIndex inp)) (inputs tx)"
      "map (\<lambda>inp. UInt32SetLE (inSequence inp)) (inputs tx') = map (\<lambda>inp. UInt32SetLE (inSequence inp)) (inputs tx)"
    by (simp_all add: same_unsigned_map [OF assms])
  note un = same_unsigned_nth [OF assms True]
  have script: "signing_script (inputs tx' ! i) = signing_script (inputs tx ! i)" by (metis signing_script_unsigned un)
  have one: "BRTxInputData ((inputs tx' ! i)\<lparr>inSignature := signing_script (inputs tx' ! i)\<rparr>) =
      BRTxInputData ((inputs tx ! i)\<lparr>inSignature := signing_script (inputs tx ! i)\<rparr>)"
    using BRTxInputData_unsigned(1) [where inp = "inputs tx' ! i" and s = "signing_script (bare (inputs tx' ! i))"]
      BRTxInputData_unsigned(1) [where inp = "inputs tx ! i" and s = "signing_script (bare (inputs tx ! i))"] by (simp add: un script)
  have fields: "txVersion tx' = txVersion tx" "lockTime tx' = lockTime tx" "outputs tx' = outputs tx" "length (inputs tx') = length (inputs tx)"
    using assms same_unsigned_length [OF assms] by (simp_all add: same_unsigned_def)
  show ?thesis by (intro ext) (simp only: BRTransactionWitnessData_def Let_def out hashes one fields option.case)
qed

lemma TransactionData_unsigned:
  assumes "same_unsigned tx tx'" "i < length (inputs tx)"
  shows "BRTransactionData tx' (Some i) hashType = BRTransactionData tx (Some i) hashType"
proof -
  note out = OutputData_unsigned [OF assms(1)]
  have all: "foldl (\<lambda>s (k, inp). put_with (BRTxInputData (data_input (Some i) h k inp)) s) s (enumerate 0 (inputs tx')) =
      foldl (\<lambda>s (k, inp). put_with (BRTxInputData (data_input (Some i) h k inp)) s) s (enumerate 0 (inputs tx))" for h s
    by (rule same_unsigned_foldl [OF assms(1)]) (simp add: BRTxInputData_unsigned)
  note un = same_unsigned_nth [OF assms]
  then have script: "inScript (inputs tx' ! i) = inScript (inputs tx ! i)" by (metis bare_fields(4))
  have one: "BRTxInputData ((inputs tx' ! i)\<lparr>inSignature := inScript (inputs tx' ! i), inAmount := 0\<rparr>) =
      BRTxInputData ((inputs tx ! i)\<lparr>inSignature := inScript (inputs tx ! i), inAmount := 0\<rparr>)"
    using BRTxInputData_unsigned(2) [where inp = "inputs tx' ! i" and s = "inScript (inputs tx ! i)" and a = 0]
      BRTxInputData_unsigned(2) [where inp = "inputs tx ! i" and s = "inScript (inputs tx ! i)" and a = 0] by (simp add: un script)
  have fields: "txVersion tx' = txVersion tx" "lockTime tx' = lockTime tx" "outputs tx' = outputs tx" "length (inputs tx') = length (inputs tx)"
    using assms same_unsigned_length [OF assms(1)] by (simp_all add: same_unsigned_def)
  show ?thesis
    by (intro ext) (simp add: BRTransactionData_def Let_def out all one fields WitnessData_unsigned [OF assms(1)] cong: if_cong)
qed

section \<open>Signing the inputs one after the other\<close>

lemma bare_signed:
  "BRTxInputSetWitness (BRTxInputSetSignature inp a) b = (bare inp)\<lparr>inSignature := a, inWitness := b\<rparr>"
  "bare (BRTxInputSetWitness (BRTxInputSetSignature inp a) b) = bare inp"
  by (simp_all add: BRTxInputSetWitness_def BRTxInputSetSignature_def bare_def)

text \<open>The new input does not depend on the signatures of the transaction.\<close>

lemma sign_input_form:
  assumes sign: "sign_input lib forkId keys pkhs tx i = Some tx1" and i: "i < length (inputs tx)"
  shows "\<exists>inp. tx1 = tx\<lparr>inputs := (inputs tx)[i := inp]\<rparr> \<and> bare inp = bare (inputs tx ! i) \<and>
    (\<forall>tx2. same_unsigned tx tx2 \<longrightarrow> inputs tx2 ! i = inp \<longrightarrow> sign_input lib forkId keys pkhs tx2 i = Some tx2)"
proof (cases "signing_key pkhs (BRScriptPKH (arr (inScript (inputs tx ! i))))")
  case None
  have "sign_input lib forkId keys pkhs tx2 i = Some tx2" if "inputs tx2 ! i = inputs tx ! i" for tx2
    using None by (simp add: sign_input_def Let_def that)
  then show ?thesis using sign None by (intro exI [of _ "inputs tx ! i"]) (simp add: sign_input_def Let_def)
next
  case (Some j)
  obtain inp where tx1: "tx1 = tx\<lparr>inputs := (inputs tx)[i := inp]\<rparr>" and inp: "\<exists>a b. inp = BRTxInputSetWitness (BRTxInputSetSignature (inputs tx ! i) a) b"
    using sign Some by (auto simp: sign_input_def Let_def split: prod.splits if_splits option.splits)
  have "sign_input lib forkId keys pkhs tx2 i = Some tx2" if same: "same_unsigned tx tx2" and i2: "inputs tx2 ! i = inp" for tx2
  proof -
    have script: "inScript (inputs tx2 ! i) = inScript (inputs tx ! i)" using same_unsigned_nth [OF same i] by (metis bare_fields(4))
    have set: "BRTxInputSetWitness (BRTxInputSetSignature (inputs tx2 ! i) a) b = BRTxInputSetWitness (BRTxInputSetSignature (inputs tx ! i) a) b" for a b
      by (simp add: bare_signed(1) same_unsigned_nth [OF same i])
    have "sign_input lib forkId keys pkhs tx2 i = map_option (\<lambda>t. tx2\<lparr>inputs := (inputs tx2)[i := inputs t ! i]\<rparr>) (sign_input lib forkId keys pkhs tx i)"
      using i Some unfolding sign_input_def Let_def script WitnessData_unsigned [OF same] TransactionData_unsigned [OF same i] set
      by (auto split: prod.splits option.splits)
    also have "\<dots> = Some (tx2\<lparr>inputs := (inputs tx2)[i := inp]\<rparr>)" unfolding sign using i by (simp add: tx1)
    also have "(inputs tx2)[i := inp] = inputs tx2" by (metis i2 list_update_id)
    finally show ?thesis by simp
  qed
  then show ?thesis using tx1 inp by (intro exI [of _ inp]) (auto simp: bare_signed(2))
qed

lemma sign_inputs_result:
  assumes "sign_inputs lib forkId keys pkhs is tx = Some tx'" "distinct is" "\<forall>i \<in> set is. i < length (inputs tx)"
  shows "same_unsigned tx tx' \<and> (\<forall>i. i \<notin> set is \<longrightarrow> inputs tx' ! i = inputs tx ! i) \<and>
    (\<forall>i \<in> set is. \<forall>tx2. same_unsigned tx tx2 \<longrightarrow> inputs tx2 ! i = inputs tx' ! i \<longrightarrow> sign_input lib forkId keys pkhs tx2 i = Some tx2)"
  using assms
proof (induction "is" arbitrary: tx)
  case Nil
  then show ?case by (simp add: same_unsigned_def)
next
  case (Cons i "is")
  obtain tx1 where tx1: "sign_input lib forkId keys pkhs tx i = Some tx1" and rest: "sign_inputs lib forkId keys pkhs is tx1 = Some tx'"
    using Cons.prems(1) by (auto split: bind_splits)
  have i: "i < length (inputs tx)" using Cons.prems(3) by simp
  obtain inp where inp: "tx1 = tx\<lparr>inputs := (inputs tx)[i := inp]\<rparr>" "bare inp = bare (inputs tx ! i)"
      "\<And>tx2. same_unsigned tx tx2 \<Longrightarrow> inputs tx2 ! i = inp \<Longrightarrow> sign_input lib forkId keys pkhs tx2 i = Some tx2"
    using sign_input_form [OF tx1 i] by blast
  have same: "same_unsigned tx tx1" "same_unsigned tx1 tx"
    using inp(2) i by (simp_all add: same_unsigned_def inp(1) map_update) (metis list_update_id map_update)+
  have "same_unsigned tx1 tx' \<and> (\<forall>i. i \<notin> set is \<longrightarrow> inputs tx' ! i = inputs tx1 ! i) \<and>
    (\<forall>i \<in> set is. \<forall>tx2. same_unsigned tx1 tx2 \<longrightarrow> inputs tx2 ! i = inputs tx' ! i \<longrightarrow> sign_input lib forkId keys pkhs tx2 i = Some tx2)"
    using Cons.prems same_unsigned_length [OF same(1)] by (intro Cons.IH [OF rest]) auto
  moreover have "inputs tx1 ! k = (if k = i then inp else inputs tx ! k)" for k using i by (simp add: inp(1))
  ultimately show ?case
    using same_unsigned_trans [OF same(1)] same_unsigned_trans [OF same(2)] inp(3) Cons.prems(2) by auto
qed

lemma sign_fixed:
  assumes "BRTransactionSign lib tx forkId keys = Some (tx', keys', r)"
  shows "same_unsigned tx tx' \<and> r = BRTransactionIsSigned tx' \<and> keys' = map (\<lambda>k. fst (BRKeyHash160 lib k)) keys \<and>
    (\<forall>i < length (inputs tx). sign_input lib forkId keys' (map (\<lambda>k. snd (BRKeyHash160 lib k)) keys) tx' i = Some tx')"
proof -
  let ?keys = "map (\<lambda>k. fst (BRKeyHash160 lib k)) keys" and ?pkhs = "map (\<lambda>k. snd (BRKeyHash160 lib k)) keys"
  have "\<exists>t. sign_inputs lib forkId ?keys ?pkhs [0..<length (inputs tx)] tx = Some t \<and> r = BRTransactionIsSigned t \<and> keys' = ?keys \<and>
      txVersion tx' = txVersion t \<and> lockTime tx' = lockTime t \<and> blockHeight tx' = blockHeight t \<and> timestamp tx' = timestamp t \<and>
      outputs tx' = outputs t \<and> inputs tx' = inputs t"
    using assms by (auto simp: BRTransactionSign_def Let_def comp_def split: bind_splits if_splits outcome.splits)
  then obtain t where t: "sign_inputs lib forkId ?keys ?pkhs [0..<length (inputs tx)] tx = Some t"
    and r: "r = BRTransactionIsSigned t" "keys' = ?keys"
    and tx': "txVersion tx' = txVersion t" "lockTime tx' = lockTime t" "blockHeight tx' = blockHeight t" "timestamp tx' = timestamp t"
      "outputs tx' = outputs t" "inputs tx' = inputs t" by blast
  have res: "same_unsigned tx t" "\<And>i tx2. i < length (inputs tx) \<Longrightarrow> same_unsigned tx tx2 \<Longrightarrow> inputs tx2 ! i = inputs t ! i \<Longrightarrow>
      sign_input lib forkId ?keys ?pkhs tx2 i = Some tx2"
    using sign_inputs_result [OF t] by auto
  have "same_unsigned tx tx'" using tx' res(1) by (simp add: same_unsigned_def)
  then show ?thesis using res(2) r tx'(6) by (simp add: BRTransactionIsSigned_def)
qed

section \<open>The signature of an input that pays to a key\<close>

text \<open>
  What the documentation of secp256k1 promises of signatures: a signature made with a key verifies with its
  public key, and it survives its DER form of at most 72 bytes; a public key survives its serializations.
\<close>

definition secp_sign_laws :: "('p, 's, 'r) secp \<Rightarrow> bool" where
  "secp_sign_laws lib \<longleftrightarrow>
     (\<forall>k pk. length k = 32 \<longrightarrow> pubkey_create lib k = Some pk \<longrightarrow>
        (\<forall>c. length (pubkey_serialize lib pk c) = (if c then 33 else 65) \<and> pubkey_parse lib (pubkey_serialize lib pk c) = Some pk) \<and>
        (\<forall>md s. ecdsa_sign lib md k = Some s \<longrightarrow> ecdsa_verify lib s md pk \<and>
           (\<forall>der. signature_serialize_der lib s = Some der \<longrightarrow> length der \<le> 72 \<and> signature_parse_der lib der = Some s)))"

definition can_sign :: "('p, 's, 'r) secp \<Rightarrow> bytes \<Rightarrow> bool" where
  "can_sign lib k \<longleftrightarrow> (\<forall>md. \<exists>s. ecdsa_sign lib md k = Some s \<and> signature_serialize_der lib s \<noteq> None)"

text \<open>The bytes a signature is made of, the two passes of \<open>BRTransactionData\<close>.\<close>

definition pre_image :: "BRTransaction \<Rightarrow> nat \<Rightarrow> u32 \<Rightarrow> bytes option" where
  "pre_image tx i hashType =
     do { (_, n) \<leftarrow> BRTransactionData tx (Some i) hashType None;
          (buf, len) \<leftarrow> BRTransactionData tx (Some i) hashType (Some (replicate n 0));
          Some (take len (arr buf)) }"

lemma push_two_eq:
  assumes "length a < 76" "length b < 76" "length a + length b + 2 \<le> n"
  shows "push_two n a b = of_nat (length a) # a @ of_nat (length b) # b"
  using assms by (simp add: push_two_def BRScriptPushData_def push_header_def OP_PUSHDATA1_def)

text \<open>A fresh key: its public key was not computed before.\<close>

lemma fresh_key:
  assumes "secp_sign_laws lib" "length (secret key) = 32" "pubkey_create lib (secret key) = Some pk" "pubKey key = replicate 65 0"
  shows "fill_pubKey lib key =
      (key\<lparr>pubKey := pubkey_serialize lib pk (compressed key) @ drop (length (pubkey_serialize lib pk (compressed key))) (replicate 65 0)\<rparr>,
       length (pubkey_serialize lib pk (compressed key)))"
proof -
  have "take (if compressed key then 33 else 65) (pubKey key) = replicate (if compressed key then 33 else 65) 0"
    by (simp add: assms(4) del: replicate.simps)
  then show ?thesis using assms by (simp add: fill_pubKey_def Let_def del: replicate.simps)
qed

lemma filled_key:
  assumes "secp_sign_laws lib" "length (secret key) = 32" "pubkey_create lib (secret key) = Some pk" "pubKey key = pubkey_serialize lib pk (compressed key) @ rest"
  shows "fill_pubKey lib key = (key, length (pubkey_serialize lib pk (compressed key)))"
    "filled (\<lambda>b. snd (BRKeyPubKey lib key b)) = pubkey_serialize lib pk (compressed key)"
proof -
  let ?ser = "pubkey_serialize lib pk (compressed key)"
  have "length ?ser = (if compressed key then 33 else 65)" using assms(1-3) unfolding secp_sign_laws_def by blast
  then have "fill_pubKey lib key = (if take (length ?ser) (pubKey key) = replicate (length ?ser) 0
      then (key\<lparr>pubKey := pubKey key\<rparr>, length ?ser) else (key, length ?ser))"
    using assms(3) by (simp add: fill_pubKey_def Let_def assms(4))
  then show fill: "fill_pubKey lib key = (key, length ?ser)" by simp
  have "(\<lambda>b. snd (BRKeyPubKey lib key b)) = (\<lambda>b. (poke b 0 ?ser, if room b (length ?ser) then length ?ser else 0))"
    by (simp add: BRKeyPubKey_def fill assms(4) fun_eq_iff)
  moreover have "two_pass_writer (\<lambda>b. (poke b 0 ?ser, if room b (length ?ser) then length ?ser else 0)) ?ser"
    using poke_writer buffer_writer.axioms(1) by blast
  ultimately show "filled (\<lambda>b. snd (BRKeyPubKey lib key b)) = ?ser" using filled_writer by metis
qed

lemma input_sig_verifies:
  assumes laws: "secp_sign_laws lib" "can_sign lib (secret key)" and size: "length (secret key) = 32" and create: "pubkey_create lib (secret key) = Some pk"
    and filled: "pubKey key = pubkey_serialize lib pk (compressed key) @ rest"
  obtains der where "input_sig lib key hashType data = der @ [ucast hashType]" "length der \<le> 72" "snd (BRKeyVerify lib key (BRSHA256_2 data) der)"
proof -
  obtain s where s: "ecdsa_sign lib (BRSHA256_2 data) (secret key) = Some s" "signature_serialize_der lib s \<noteq> None"
    using laws(2) unfolding can_sign_def by blast
  then obtain der where der: "signature_serialize_der lib s = Some der" by blast
  have len: "length der \<le> 72" "signature_parse_der lib der = Some s" "ecdsa_verify lib s (BRSHA256_2 data) pk"
    "length (pubkey_serialize lib pk (compressed key)) = (if compressed key then 33 else 65)"
    "pubkey_parse lib (pubkey_serialize lib pk (compressed key)) = Some pk"
    using laws(1) size create s(1) der unfolding secp_sign_laws_def by blast+
  have sig: "input_sig lib key hashType data = der @ [ucast hashType]"
    using s(1) der len(1) by (simp add: input_sig_def BRKeySign_def write_sig_def Let_def del: replicate.simps)
  have "snd (BRKeyVerify lib key (BRSHA256_2 data) der)"
    using len filled_key(1) [OF laws(1) size create filled] by (simp add: BRKeyVerify_def verify_with_def BRKeyPubKey_def filled)
  then show thesis by (rule that [OF sig len(1)])
qed

section \<open>Properties\<close>


lemma length_key_hash: "length (snd (BRKeyHash160 lib key)) = 20"
  by (simp add: BRKeyHash160_def UINT160_ZERO_def split: prod.split)

lemma signing_key_find:
  assumes "\<forall>p \<in> set pkhs. length p = 20" "length (UInt160Get q) = 20" "j < length pkhs" "pkhs ! j = UInt160Get q" "\<forall>k < j. pkhs ! k \<noteq> UInt160Get q"
  shows "signing_key pkhs (Some q) = Some j"
proof -
  have "UInt160Eq (pkhs ! k) (UInt160Get q) \<longleftrightarrow> pkhs ! k = UInt160Get q" if "k < length pkhs" for k
    using that assms(1,2) by (intro UInt160Eq_iff) simp_all
  then show ?thesis
    unfolding signing_key_def option.case find_Some_iff using assms(3-5) by (intro exI [of _ j]) (auto simp: UInt160Eq_def [of "UInt160Get q" "UInt160Get q"])
qed

text \<open>
  C4: The signature script. For a wallet key that has its public key and can sign, and an input whose
  script is \<open>OP_DUP OP_HASH160 <hash of the key> OP_EQUALVERIFY OP_CHECKSIG\<close>, signing the transaction puts
  into the input two pushes: a DER signature with the type of the hash behind it, which \<open>BRKeyVerify\<close>
  accepts for the double SHA-256 of the pre-image of this input in the returned transaction, and the
  serialized public key. This also holds for an input that had a signature before: contrary to the comment
  \<open>adds signatures to any inputs with NULL signatures\<close>, the code does not look at it and overwrites it.
\<close>

theorem p2pkh_signature:
  assumes sign: "BRTransactionSign lib tx forkId keys = Some (tx', keys', r)" and laws: "secp_sign_laws lib"
    and i: "i < length (inputs tx)" "inScript (inputs tx ! i) = Some (p2pkh_script h)" "length h = 20"
    and j: "j < length keys" "snd (BRKeyHash160 lib (keys ! j)) = h" "\<forall>k < j. snd (BRKeyHash160 lib (keys ! k)) \<noteq> h"
    and key: "length (secret (keys ! j)) = 32" "pubKey (keys ! j) = replicate 65 0" "pubkey_create lib (secret (keys ! j)) = Some pk" "can_sign lib (secret (keys ! j))"
  defines "pub \<equiv> pubkey_serialize lib pk (compressed (keys ! j))"
  shows "\<exists>data der. pre_image tx' i (forkId OR SIGHASH_ALL) = Some data \<and> snd (BRKeyVerify lib (keys' ! j) (BRSHA256_2 data) der) \<and>
    inSignature (inputs tx' ! i) = Some (of_nat (length der + 1) # der @ [ucast (forkId OR SIGHASH_ALL)] @ of_nat (length pub) # pub) \<and>
    inWitness (inputs tx' ! i) = Some []"
proof -
  let ?key = "keys' ! j" and ?ht = "forkId OR SIGHASH_ALL" and ?pkhs = "map (\<lambda>k. snd (BRKeyHash160 lib k)) keys"
  have same: "same_unsigned tx tx'" and keys': "keys' = map (\<lambda>k. fst (BRKeyHash160 lib k)) keys"
    and fixed: "sign_input lib forkId keys' ?pkhs tx' i = Some tx'"
    using sign_fixed [OF sign] i(1) by blast+
  have script: "inScript (inputs tx' ! i) = Some (p2pkh_script h)" using same_unsigned_nth [OF same i(1)] i(2) by (metis bare_fields(4))
  note fill = fresh_key [OF laws key(1,3,2)]
  have fields: "secret ?key = secret (keys ! j)" "compressed ?key = compressed (keys ! j)"
      "pubKey ?key = pub @ drop (length pub) (replicate 65 0)"
    using j(1) by (simp_all add: keys' BRKeyHash160_def BRKeyPubKey_def fill pub_def split: prod.split)
  have lens: "length pub \<le> 65"
    using laws key(1,3) unfolding secp_sign_laws_def pub_def by (metis le_numeral_extra(4) numeral_le_iff semiring_norm(68,69,71,72,73))
  have "map_option UInt160Get (BRScriptPKH (p2pkh_script h)) = Some h"
    unfolding BRScriptPKH_standard standard_pkh_def using i(3) by simp
  then obtain q where q: "BRScriptPKH (p2pkh_script h) = Some q" "UInt160Get q = h" by auto
  have find: "signing_key ?pkhs (Some q) = Some j"
    by (rule signing_key_find) (use j q(2) i(3) length_key_hash in \<open>auto simp: set_conv_nth\<close>)
  have filled: "filled (\<lambda>b. snd (BRKeyPubKey lib ?key b)) = pub" and create: "pubkey_create lib (secret ?key) = Some pk"
    using filled_key(2) [OF laws, of ?key pk] key(1,3) fields by (simp_all add: pub_def)
  have elems: "elem_op (p2pkh_script h) [0, 1, 2, 23, 24] 3 = OP_EQUALVERIFY" using i(3) by (simp add: elem_op_def p2pkh_script_def nth_append)
  have unchanged: "tx' = t \<Longrightarrow> inputs tx' ! i = inputs t ! i" for t by simp
  obtain buf n where d0: "BRTransactionData tx' (Some i) ?ht None = Some (buf, n)"
    using fixed q(1) find script elems_p2pkh [OF i(3)] by (auto simp: sign_input_def Let_def split: option.splits prod.splits)
  obtain buf len where d1: "BRTransactionData tx' (Some i) ?ht (Some (replicate n 0)) = Some (buf, len)"
    using fixed q(1) find script elems_p2pkh [OF i(3)] d0 by (auto simp: sign_input_def Let_def split: option.splits prod.splits)
  let ?data = "take len (arr buf)"
  have data: "pre_image tx' i ?ht = Some ?data" by (simp add: pre_image_def d0 d1)
  obtain der where der: "input_sig lib ?key ?ht ?data = der @ [ucast ?ht]" "length der \<le> 72" "snd (BRKeyVerify lib ?key (BRSHA256_2 ?data) der)"
    by (rule input_sig_verifies [OF laws _ _ create]) (use key(1,4) fields in \<open>auto simp: pub_def\<close>)
  let ?s = "push_two (1 + 73 + 1 + length pub) (der @ [ucast ?ht]) pub"
  have push: "?s = of_nat (length der + 1) # der @ [ucast ?ht] @ of_nat (length pub) # pub"
    using der(2) lens by (subst push_two_eq) simp_all
  have "sign_input lib forkId keys' ?pkhs tx' i =
      Some (tx'\<lparr>inputs := (inputs tx')[i := BRTxInputSetWitness (BRTxInputSetSignature (inputs tx' ! i) (Some ?s)) (Some [])]\<rparr>)"
    unfolding sign_input_def Let_def script arr_simps q(1) find elems_p2pkh [OF i(3)] prod.case option.case d0 d1 filled der(1)
    using elems by simp
  then have "tx' = tx'\<lparr>inputs := (inputs tx')[i := BRTxInputSetWitness (BRTxInputSetSignature (inputs tx' ! i) (Some ?s)) (Some [])]\<rparr>"
    unfolding fixed by (rule option.inject [THEN iffD1])
  from arg_cong [OF this, of "\<lambda>t. inputs t ! i"]
  have "inputs tx' ! i = BRTxInputSetWitness (BRTxInputSetSignature (inputs tx' ! i) (Some ?s)) (Some [])"
    using i(1) same_unsigned_length [OF same] by simp
  from arg_cong [OF this, of inSignature] arg_cong [OF this, of inWitness]
  have "inSignature (inputs tx' ! i) = Some ?s" "inWitness (inputs tx' ! i) = Some []"
    by (simp_all add: BRTxInputSetWitness_def BRTxInputSetSignature_def)
  then show ?thesis using data der(3) unfolding push by blast
qed

text \<open>A transaction with two inputs, of which the first pays to the key with the secret 1, 1, 1, ...\<close>

definition one_key :: BRKey where
  "one_key = \<lparr>secret = replicate 32 1, pubKey = replicate 65 0, compressed = True\<rparr>"

definition two_inputs_tx :: BRTransaction where
  "two_inputs_tx = BRTransactionNew\<lparr>inputs :=
     [empty_input\<lparr>inScript := Some (p2pkh_script (snd (BRKeyHash160 vector_secp one_key)))\<rparr>, empty_input]\<rparr>"

lemma vector_secp_sign_laws: "secp_sign_laws vector_secp"
  by (simp add: secp_sign_laws_def vector_secp_def)

lemma two_inputs_sign:
  obtains tx' where "BRTransactionSign vector_secp two_inputs_tx 0 [one_key] = Some (tx', [fst (BRKeyHash160 vector_secp one_key)], False)"
proof -
  let ?keys = "[fst (BRKeyHash160 vector_secp one_key)]" and ?pkhs = "[snd (BRKeyHash160 vector_secp one_key)]"
  have "\<forall>d. \<exists>x. BRTransactionData two_inputs_tx (Some 0) SIGHASH_ALL d = Some x"
    by (simp add: BRTransactionData_def Let_def)
  from choice [OF this] obtain f where f: "\<And>d. BRTransactionData two_inputs_tx (Some 0) SIGHASH_ALL d = Some (f d)" by auto
  have "\<exists>tx1. sign_input vector_secp 0 ?keys ?pkhs two_inputs_tx 0 = Some tx1"
    unfolding sign_input_def Let_def by (auto simp: f split: option.split prod.split)
  then obtain t where t: "sign_input vector_secp 0 ?keys ?pkhs two_inputs_tx 0 = Some t" by blast
  have two: "inputs two_inputs_tx ! 1 = empty_input" "length (inputs two_inputs_tx) = 2" "[0..<2] = [0, 1 :: nat]"
    by (simp_all add: two_inputs_tx_def upt_rec)
  then obtain inp where inp: "t = two_inputs_tx\<lparr>inputs := (inputs two_inputs_tx)[0 := inp]\<rparr>" using sign_input_form [OF t] by auto
  then have second: "inputs t ! 1 = empty_input" "length (inputs t) = 2" using two by simp_all
  then have "sign_input vector_secp 0 ?keys ?pkhs t 1 = Some t"
    by (simp add: sign_input_def Let_def signing_key_def BRScriptPKH_def empty_input_def script_elems_def BRScriptElements_def)
  then have "sign_inputs vector_secp 0 ?keys ?pkhs [0..<2] two_inputs_tx = Some t" using t two(3) by simp
  moreover have "inputs t ! 1 \<in> set (inputs t)" using second(2) by simp
  then have "\<not> BRTransactionIsSigned t" unfolding BRTransactionIsSigned_def second(1) by (intro notI) (drule (1) bspec, simp add: empty_input_def)
  ultimately show thesis using two(2) by (intro that [of t]) (simp add: BRTransactionSign_def Let_def comp_def)
qed


theorem p2pkh_signature_witness:
  "\<exists>tx' keys' data der. BRTransactionSign vector_secp two_inputs_tx 0 [one_key] = Some (tx', keys', False) \<and>
    pre_image tx' 0 (0 OR SIGHASH_ALL) = Some data \<and> snd (BRKeyVerify vector_secp (keys' ! 0) (BRSHA256_2 data) der) \<and>
    inSignature (inputs tx' ! 0) =
      Some (of_nat (length der + 1) # der @ [ucast (0 OR SIGHASH_ALL)] @ of_nat (length (2 # replicate 32 (1 :: 8 word))) # 2 # replicate 32 1)"
proof -
  let ?h = "snd (BRKeyHash160 vector_secp one_key)"
  obtain tx' keys' where sign: "BRTransactionSign vector_secp two_inputs_tx 0 [one_key] = Some (tx', keys', False)" using two_inputs_sign by metis
  have tx: "0 < length (inputs two_inputs_tx)" "inScript (inputs two_inputs_tx ! 0) = Some (p2pkh_script ?h)"
    by (simp_all add: two_inputs_tx_def)
  have key: "length (secret ([one_key] ! 0)) = 32" "pubKey ([one_key] ! 0) = replicate 65 0"
      "pubkey_create vector_secp (secret ([one_key] ! 0)) = Some (replicate 32 1)"
      "pubkey_serialize vector_secp (replicate 32 1) (compressed ([one_key] ! 0)) = 2 # replicate 32 1"
      "can_sign vector_secp (secret ([one_key] ! 0))"
    by (simp_all add: one_key_def can_sign_def vector_secp_def del: replicate.simps)
  from p2pkh_signature [OF sign vector_secp_sign_laws tx length_key_hash _ _ _ key(1-3,5), unfolded key(4)]
  show ?thesis using sign by (auto simp del: replicate.simps)
qed

end
