(* ===== verification/Numbers.thy ===== *)
theory Numbers
  imports BRInt
begin

text \<open>
  The number that a list of bytes or of 32 bit words stands for, in little-endian order as the code keeps the
  members of its unions, and what the accessors of \<open>BRInt\<close> are on such numbers.
\<close>

section \<open>Bytes\<close>

text \<open>The \<open>k\<close> bytes of a number, and the number of a list of bytes.\<close>

definition le_bytes :: "nat \<Rightarrow> nat \<Rightarrow> bytes" where
  "le_bytes k n = map (\<lambda>i. of_nat (n div 256 ^ i)) [0..<k]"

fun byte_value :: "bytes \<Rightarrow> nat" where
  "byte_value [] = 0"
| "byte_value (b # bs) = unat b + 256 * byte_value bs"

lemma length_le_bytes [simp]: "length (le_bytes k n) = k"
  by (simp add: le_bytes_def)

lemma le_bytes_Suc: "le_bytes (Suc k) n = of_nat n # le_bytes k (n div 256)"
proof -
  have "[0..<Suc k] = 0 # map Suc [0..<k]" by (simp add: upt_conv_Cons map_Suc_upt del: upt_Suc)
  then show ?thesis by (simp add: le_bytes_def div_mult2_eq del: upt_Suc)
qed

lemma byte_value_le_bytes: "byte_value (le_bytes k n) = n mod 256 ^ k"
proof (induction k arbitrary: n)
  case 0
  then show ?case by (simp add: le_bytes_def)
next
  case (Suc k)
  have "unat (of_nat n :: u8) = n mod 256" by (simp add: unsigned_of_nat take_bit_eq_mod)
  then show ?case using Suc by (simp add: le_bytes_Suc mod_mult2_eq add.commute)
qed

lemma byte_value_append: "byte_value (xs @ ys) = byte_value xs + 256 ^ length xs * byte_value ys"
  by (induction xs) (simp_all add: algebra_simps)

lemma byte_value_less: "byte_value bs < 256 ^ length bs"
proof (induction bs)
  case (Cons b bs)
  have "unat b < 2 ^ LENGTH(8)" by (rule unsigned_less)
  then show ?case using Cons by simp
qed simp

lemma byte_value_replicate [simp]: "byte_value (replicate n 0) = 0"
  by (induction n) simp_all

lemma le_bytes_byte_value: "le_bytes (length bs) (byte_value bs) = bs"
proof (induction bs)
  case Nil
  then show ?case by (simp add: le_bytes_def)
next
  case (Cons b bs)
  have "unat b < 2 ^ LENGTH(8)" by (rule unsigned_less)
  then have "(unat b + 256 * byte_value bs) div 256 = byte_value bs" by simp
  moreover have "(of_nat (256 * byte_value bs) :: u8) = 0" by (simp only: word_of_nat_eq_0_iff) simp
  then have "(of_nat (unat b + 256 * byte_value bs) :: u8) = b" by (simp only: of_nat_add of_nat_unat unsigned_ucast_eq) simp
  ultimately show ?case using Cons by (simp add: le_bytes_Suc)
qed

lemma byte_value_inject: "length as = length bs \<Longrightarrow> byte_value as = byte_value bs \<longleftrightarrow> as = bs"
  by (metis le_bytes_byte_value)

lemma UInt64SetLE_le_bytes: "UInt64SetLE (of_nat n) = le_bytes 8 n"
proof (rule nth_equalityI)
  fix i assume i: "i < length (UInt64SetLE (of_nat n))"
  have "n div 256 ^ i = drop_bit (8 * i) n" by (simp add: drop_bit_eq_div power_mult)
  then show "UInt64SetLE (of_nat n) ! i = le_bytes 8 n ! i"
    using i by (auto intro!: bit_word_eqI simp: le_bytes_def bit_UInt64SetLE bit_simps)
qed simp

lemma UInt32SetLE_le_bytes: "UInt32SetLE (of_nat n) = le_bytes 4 n"
proof (rule nth_equalityI)
  fix i assume i: "i < length (UInt32SetLE (of_nat n))"
  have "n div 256 ^ i = drop_bit (8 * i) n" by (simp add: drop_bit_eq_div power_mult)
  then show "UInt32SetLE (of_nat n) ! i = le_bytes 4 n ! i"
    using i by (auto intro!: bit_word_eqI simp: le_bytes_def bit_UInt32SetLE bit_simps)
qed simp

lemma byte_value_UInt64SetLE: "byte_value (UInt64SetLE w) = unat w"
proof -
  have "unat w < 2 ^ LENGTH(64)" by (rule unsigned_less)
  then show ?thesis using byte_value_le_bytes [of 8 "unat w"] UInt64SetLE_le_bytes [of "unat w"] by simp
qed

lemma byte_value_UInt32SetLE: "byte_value (UInt32SetLE w) = unat w"
proof -
  have "unat w < 2 ^ LENGTH(32)" by (rule unsigned_less)
  then show ?thesis using byte_value_le_bytes [of 4 "unat w"] UInt32SetLE_le_bytes [of "unat w"] by simp
qed

lemma unat_UInt64GetLE: "8 \<le> length b \<Longrightarrow> unat (UInt64GetLE b) = byte_value (take 8 b)"
  using byte_value_UInt64SetLE [of "UInt64GetLE b"] UInt64SetLE_GetLE [of "take 8 b"] UInt64GetLE_take [of b] by simp

lemma unat_UInt32GetLE: "4 \<le> length b \<Longrightarrow> unat (UInt32GetLE b) = byte_value (take 4 b)"
  using byte_value_UInt32SetLE [of "UInt32GetLE b"] UInt32SetLE_GetLE [of "take 4 b"] UInt32GetLE_take [of b] by simp

section \<open>Words of 32 bits\<close>

fun word_value :: "u32 list \<Rightarrow> nat" where
  "word_value [] = 0"
| "word_value (w # ws) = unat w + 2 ^ 32 * word_value ws"

definition u32_at :: "bytes \<Rightarrow> nat \<Rightarrow> u32" where
  "u32_at b i = UInt32GetLE (drop (4 * i) b)"

definition u64_at :: "bytes \<Rightarrow> nat \<Rightarrow> u64" where
  "u64_at b i = UInt64GetLE (drop (8 * i) b)"

definition words32 :: "nat \<Rightarrow> bytes \<Rightarrow> u32 list" where
  "words32 n b = map (u32_at b) [0..<n]"

definition of_words32 :: "u32 list \<Rightarrow> bytes" where
  "of_words32 ws = concat (map UInt32SetLE ws)"

lemma words32_Suc: "words32 (Suc n) b = UInt32GetLE b # words32 n (drop 4 b)"
proof -
  have "[0..<Suc n] = 0 # map Suc [0..<n]" by (simp add: upt_conv_Cons map_Suc_upt del: upt_Suc)
  then show ?thesis by (simp add: words32_def u32_at_def add.commute del: upt_Suc)
qed

lemma length_words32 [simp]: "length (words32 n b) = n"
  by (simp add: words32_def)

lemma length_of_words32 [simp]: "length (of_words32 ws) = 4 * length ws"
  by (induction ws) (simp_all add: of_words32_def)

lemma word_value_words32: "length b = 4 * n \<Longrightarrow> word_value (words32 n b) = byte_value b"
proof (induction n arbitrary: b)
  case 0
  then show ?case by (simp add: words32_def)
next
  case (Suc n)
  then have "byte_value b = byte_value (take 4 b) + 256 ^ 4 * byte_value (drop 4 b)"
    using byte_value_append [of "take 4 b" "drop 4 b"] by simp
  moreover have "word_value (words32 n (drop 4 b)) = byte_value (drop 4 b)" using Suc by simp
  ultimately show ?case using Suc.prems by (simp add: words32_Suc unat_UInt32GetLE)
qed

lemma byte_value_of_words32: "byte_value (of_words32 ws) = word_value ws"
  by (induction ws) (simp_all add: of_words32_def byte_value_append byte_value_UInt32SetLE)

lemma word_value_append: "word_value (xs @ ys) = word_value xs + 2 ^ (32 * length xs) * word_value ys"
  by (induction xs) (simp_all add: algebra_simps power_add power_mult)

lemma word_value_less: "word_value ws < 2 ^ (32 * length ws)"
proof (induction ws)
  case (Cons w ws)
  have "unat w < 2 ^ LENGTH(32)" by (rule unsigned_less)
  then show ?case using Cons by (simp add: power_add)
qed simp

lemma word_value_replicate [simp]: "word_value (replicate n 0) = 0"
  by (induction n) simp_all

end
