(* ===== verification/Scrypt.thy ===== *)
theory Scrypt
  imports Mac Numbers
begin

text \<open>
  scrypt as RFC 7914 defines it on bytes, and \<open>BRScrypt\<close> of \<open>support/BRCrypto.c\<close> (modelled in \<open>Mac\<close>), which works on
  words, against it.
\<close>

section \<open>RFC 7914\<close>

text \<open>Salsa20/8, with the quarter, row and column rounds of the specification of Salsa20.\<close>

definition quarterround :: "u32 \<times> u32 \<times> u32 \<times> u32 \<Rightarrow> u32 \<times> u32 \<times> u32 \<times> u32" where
  "quarterround = (\<lambda>(y0, y1, y2, y3).
     let z1 = y1 XOR word_rotl 7 (y0 + y3);
         z2 = y2 XOR word_rotl 9 (z1 + y0);
         z3 = y3 XOR word_rotl 13 (z2 + z1);
         z0 = y0 XOR word_rotl 18 (z3 + z2)
     in (z0, z1, z2, z3))"

definition rowround :: "u32 list \<Rightarrow> u32 list" where
  "rowround y =
     (let (z0, z1, z2, z3) = quarterround (y ! 0, y ! 1, y ! 2, y ! 3);
          (z5, z6, z7, z4) = quarterround (y ! 5, y ! 6, y ! 7, y ! 4);
          (z10, z11, z8, z9) = quarterround (y ! 10, y ! 11, y ! 8, y ! 9);
          (z15, z12, z13, z14) = quarterround (y ! 15, y ! 12, y ! 13, y ! 14)
      in [z0, z1, z2, z3, z4, z5, z6, z7, z8, z9, z10, z11, z12, z13, z14, z15])"

definition transposed :: "'a list \<Rightarrow> 'a list" where
  "transposed x = map (\<lambda>i. x ! (4 * (i mod 4) + i div 4)) [0..<16]"

definition columnround :: "u32 list \<Rightarrow> u32 list" where
  "columnround x = transposed (rowround (transposed x))"









section \<open>Salsa20/8\<close>







lemma length_rowround [simp]: "length (rowround x) = 16"
  by (simp add: rowround_def split: prod.split)

lemma length_columnround [simp]: "length (columnround x) = 16"
  by (simp add: columnround_def transposed_def)



section \<open>Words and bytes\<close>



lemma length_xor_words [simp]: "length (xor_words a b) = min (length a) (length b)"
  by (simp add: xor_words_def)






section \<open>BlockMix\<close>

text \<open>The bytes of a block, which is a list of \<open>2 * r\<close> pieces of 16 words.\<close>

definition block_of :: "scrypt_block \<Rightarrow> bytes" where
  "block_of x = concat (map of_words32 x)"


lemma length_block_of: "\<forall>w \<in> set x. length w = 16 \<Longrightarrow> length (block_of x) = 64 * length x"
  by (induction x) (simp_all add: block_of_def)



text \<open>The chain on words.\<close>

fun word_chain :: "u32 list \<Rightarrow> u32 list list \<Rightarrow> u32 list list" where
  "word_chain X [] = []"
| "word_chain X (B # Bs) = (let Y = salsa20_8 (xor_words X B) in Y # word_chain Y Bs)"

lemma length_word_chain [simp]: "length (word_chain X Bs) = length Bs"
  by (induction X Bs rule: word_chain.induct) (simp_all add: Let_def)











section \<open>The loops\<close>










section \<open>Properties\<close>



end
