(* ===== verification/Cipher.thy ===== *)
theory Cipher
  imports Mac
begin

text \<open>
  The ciphers of \<open>support/BRCrypto.c\<close>: ChaCha20, Poly1305 and their authenticated encryption, and AES as a block
  cipher and as a stream cipher in counter mode. The byte order is that of a little-endian machine. An output that the
  code writes in place or to a buffer of the size of the data is a result; \<open>out\<close> of the authenticated encryption may be
  \<open>NULL\<close>. What AES promises is in \<open>AesProps\<close>.
\<close>

section \<open>Poly1305\<close>

type_synonym limbs = "u32 \<times> u32 \<times> u32 \<times> u32 \<times> u32"

text \<open>The key \<open>r\<close> in limbs of 26 bits, clamped.\<close>

definition poly_r :: "bytes \<Rightarrow> limbs" where
  "poly_r key32 =
     (let t0 = le32_at key32 0; t1 = le32_at key32 1; t2 = le32_at key32 2; t3 = le32_at key32 3
      in (t0 AND 0x03ffffff, (drop_bit 26 t0 OR push_bit 6 t1) AND 0x03ffff03, (drop_bit 20 t1 OR push_bit 12 t2) AND 0x03ffc0ff,
          (drop_bit 14 t2 OR push_bit 18 t3) AND 0x03f03fff, drop_bit 8 t3 AND 0x000fffff))"

text \<open>A block of up to 16 bytes; the last one is padded with a one and zeros.\<close>

definition poly_add :: "limbs \<Rightarrow> bytes \<Rightarrow> limbs" where
  "poly_add h block =
     (let (h0, h1, h2, h3, h4) = h; full = (length block = 16);
          x = (if full then block else block @ 1 # replicate (15 - length block) 0);
          t0 = le32_at x 0; t1 = le32_at x 1; t2 = le32_at x 2; t3 = le32_at x 3
      in (h0 + (t0 AND 0x03ffffff), h1 + ((drop_bit 26 t0 OR push_bit 6 t1) AND 0x03ffffff),
          h2 + ((drop_bit 20 t1 OR push_bit 12 t2) AND 0x03ffffff), h3 + ((drop_bit 14 t2 OR push_bit 18 t3) AND 0x03ffffff),
          h4 + (drop_bit 8 t3 OR (if full then push_bit 24 1 else 0))))"

definition poly_mul :: "limbs \<Rightarrow> limbs \<Rightarrow> u64 \<times> u64 \<times> u64 \<times> u64 \<times> u64" where
  "poly_mul h r =
     (let (h0, h1, h2, h3, h4) = h; (r0, r1, r2, r3, r4) = r; m = (\<lambda>a b. ucast (a :: u32) * ucast (b :: u32) :: u64)
      in (m h0 r0 + m h1 r4 * 5 + m h2 r3 * 5 + m h3 r2 * 5 + m h4 r1 * 5,
          m h0 r1 + m h1 r0 + m h2 r4 * 5 + m h3 r3 * 5 + m h4 r2 * 5,
          m h0 r2 + m h1 r1 + m h2 r0 + m h3 r4 * 5 + m h4 r3 * 5,
          m h0 r3 + m h1 r2 + m h2 r1 + m h3 r0 + m h4 r4 * 5,
          m h0 r4 + m h1 r3 + m h2 r2 + m h3 r1 + m h4 r0))"

text \<open>The carry of a 64 bit sum is cut to 32 bits.\<close>

definition carry26 :: "u64 \<Rightarrow> u32" where "carry26 d = ucast (drop_bit 26 d)"

definition low26 :: "u64 \<Rightarrow> u32" where "low26 d = ucast (d AND 0x03ffffff)"

definition poly_reduce :: "u64 \<times> u64 \<times> u64 \<times> u64 \<times> u64 \<Rightarrow> limbs" where
  "poly_reduce d =
     (let (d0, d1, d2, d3, d4) = d;
          d1 = d1 + ucast (carry26 d0); h1 = low26 d1;
          d2 = d2 + ucast (carry26 d1); h2 = low26 d2;
          d3 = d3 + ucast (carry26 d2); h3 = low26 d3;
          d4 = d4 + ucast (carry26 d3); h4 = low26 d4;
          h0 = low26 d0 + carry26 d4 * 5; h1 = h1 + drop_bit 26 h0
      in (h0 AND 0x03ffffff, h1, h2, h3, h4))"

definition poly_block :: "limbs \<Rightarrow> limbs \<Rightarrow> bytes \<Rightarrow> limbs" where
  "poly_block r h block = poly_reduce (poly_mul (poly_add h block) r)"

definition poly_carry :: "limbs \<Rightarrow> limbs" where
  "poly_carry h =
     (let (h0, h1, h2, h3, h4) = h;
          h2 = h2 + drop_bit 26 h1; h1 = h1 AND 0x03ffffff;
          h3 = h3 + drop_bit 26 h2; h2 = h2 AND 0x03ffffff;
          h4 = h4 + drop_bit 26 h3; h3 = h3 AND 0x03ffffff;
          h0 = h0 + drop_bit 26 h4 * 5; h4 = h4 AND 0x03ffffff;
          h1 = h1 + drop_bit 26 h0; h0 = h0 AND 0x03ffffff
      in (h0, h1, h2, h3, h4))"

text \<open>\<open>h\<close>, or \<open>h - p\<close> where \<open>h \<ge> p\<close>, chosen by a mask.\<close>

definition poly_select :: "limbs \<Rightarrow> limbs" where
  "poly_select h =
     (let (h0, h1, h2, h3, h4) = h;
          t0 = h0 + 5; t1 = h1 + drop_bit 26 t0; t0 = t0 AND 0x03ffffff;
          t2 = h2 + drop_bit 26 t1; t1 = t1 AND 0x03ffffff;
          t3 = h3 + drop_bit 26 t2; t2 = t2 AND 0x03ffffff;
          t4 = h4 + drop_bit 26 t3 - push_bit 26 1; t3 = t3 AND 0x03ffffff;
          b = drop_bit 31 t4 - 1;
          pick = (\<lambda>x y. (x AND NOT b) OR (y AND b))
      in (pick h0 t0, pick h1 t1, pick h2 t2, pick h3 t3, pick h4 t4))"

definition poly_words :: "limbs \<Rightarrow> u32 list" where
  "poly_words h =
     (let (h0, h1, h2, h3, h4) = h
      in [h0 OR push_bit 26 h1, drop_bit 6 h1 OR push_bit 20 h2, drop_bit 12 h2 OR push_bit 14 h3, drop_bit 18 h3 OR push_bit 8 h4])"

definition poly_pad :: "bytes \<Rightarrow> u32 list \<Rightarrow> u32 list" where
  "poly_pad key32 w =
     (let s = (\<lambda>i. ucast (le32_at (drop 16 key32) i) :: u64);
          d0 = ucast (w ! 0) + s 0; d1 = ucast (w ! 1) + s 1 + drop_bit 32 d0;
          d2 = ucast (w ! 2) + s 2 + drop_bit 32 d1; d3 = ucast (w ! 3) + s 3 + drop_bit 32 d2
      in [ucast d0, ucast d1, ucast d2, ucast d3])"

text \<open>\<open>_BRPoly1305Compress\<close> without and with \<open>final\<close>, which gives the 16 bytes of the four words.\<close>

definition BRPoly1305Compress :: "limbs \<Rightarrow> bytes \<Rightarrow> bytes \<Rightarrow> limbs" where
  "BRPoly1305Compress h key32 data = foldl (poly_block (poly_r key32)) h (chunks 16 data)"

definition BRPoly1305Final :: "limbs \<Rightarrow> bytes \<Rightarrow> bytes \<Rightarrow> bytes" where
  "BRPoly1305Final h key32 data =
     bytes_of_words (poly_pad key32 (poly_words (poly_select (poly_carry (BRPoly1305Compress h key32 data)))))"

definition BRPoly1305 :: "bytes \<Rightarrow> bytes \<Rightarrow> bytes" where
  "BRPoly1305 key32 data = BRPoly1305Final (0, 0, 0, 0, 0) key32 data"

section \<open>ChaCha20\<close>

definition chacha_quarter :: "u32 list \<Rightarrow> nat \<times> nat \<times> nat \<times> nat \<Rightarrow> u32 list" where
  "chacha_quarter x = (\<lambda>(a, b, c, d).
     let x = x[a := x ! a + x ! b]; x = x[d := rol32 (x ! d XOR x ! a) 16];
         x = x[c := x ! c + x ! d]; x = x[b := rol32 (x ! b XOR x ! c) 12];
         x = x[a := x ! a + x ! b]; x = x[d := rol32 (x ! d XOR x ! a) 8];
         x = x[c := x ! c + x ! d]
     in x[b := rol32 (x ! b XOR x ! c) 7])"

definition chacha_double_round :: "u32 list \<Rightarrow> u32 list" where
  "chacha_double_round x =
     foldl chacha_quarter x [(0, 4, 8, 12), (1, 5, 9, 13), (2, 6, 10, 14), (3, 7, 11, 15),
       (0, 5, 10, 15), (1, 6, 11, 12), (2, 7, 8, 13), (3, 4, 9, 14)]"

definition chacha_block :: "u32 list \<Rightarrow> bytes" where
  "chacha_block s = bytes_of_words (map2 (+) s ((chacha_double_round ^^ 10) s))"

definition chacha_next :: "u32 list \<Rightarrow> u32 list" where
  "chacha_next s = (let s = s[12 := s ! 12 + 1] in if s ! 12 = 0 then s[13 := s ! 13 + 1] else s)"

definition chacha_sigma :: bytes where
  "chacha_sigma = [0x65, 0x78, 0x70, 0x61, 0x6e, 0x64, 0x20, 0x33, 0x32, 0x2d, 0x62, 0x79, 0x74, 0x65, 0x20, 0x6b]"

definition chacha_state :: "bytes \<Rightarrow> bytes \<Rightarrow> u64 \<Rightarrow> u32 list" where
  "chacha_state key32 iv8 counter =
     words_of_bytes chacha_sigma @ words_of_bytes (take 32 key32) @ [ucast counter, ucast (drop_bit 32 counter)] @
     words_of_bytes (take 8 iv8)"

function chacha_loop :: "u32 list \<Rightarrow> bytes \<Rightarrow> bytes" where
  "chacha_loop s data =
     (if data = [] then [] else xor_bytes (take 64 data) (chacha_block s) @ chacha_loop (chacha_next s) (drop 64 data))"
  by pat_completeness auto
termination by (relation "measure (\<lambda>(s, data). length data)") auto

declare chacha_loop.simps [simp del]

definition BRChacha20 :: "bytes \<Rightarrow> bytes \<Rightarrow> bytes \<Rightarrow> u64 \<Rightarrow> bytes" where
  "BRChacha20 key32 iv8 data counter = chacha_loop (chacha_state key32 iv8 counter) data"

section \<open>Authenticated encryption\<close>

text \<open>The first four bytes of the nonce are the high word of the counter.\<close>

definition aead_counter :: "bytes \<Rightarrow> u64" where
  "aead_counter nonce12 = push_bit 32 (ucast (le32_at nonce12 0))"

text \<open>The data of a part of the tag: the full blocks, and the rest of it filled up with zeros.\<close>

definition tag_part :: "bytes \<Rightarrow> limbs \<Rightarrow> bytes \<Rightarrow> limbs" where
  "tag_part macKey h data =
     (let n = (length data div 16) * 16; h = BRPoly1305Compress h macKey (take n data)
      in if length data mod 16 \<noteq> 0
         then BRPoly1305Compress h macKey (drop n data @ replicate (16 - length data mod 16) 0) else h)"

definition aead_tag :: "bytes \<Rightarrow> bytes \<Rightarrow> bytes \<Rightarrow> bytes" where
  "aead_tag macKey ad data =
     BRPoly1305Final (tag_part macKey (tag_part macKey (0, 0, 0, 0, 0) ad) data) macKey
       (UInt64SetLE (of_nat (length ad)) @ UInt64SetLE (of_nat (length data)))"

definition aead_mac_key :: "bytes \<Rightarrow> bytes \<Rightarrow> bytes" where
  "aead_mac_key key32 nonce12 = BRChacha20 key32 (drop 4 nonce12) (replicate 32 0) (aead_counter nonce12)"

definition AEAD_MAX_BLOCKS :: nat where "AEAD_MAX_BLOCKS = 4294967295"

definition BRChacha20Poly1305AEADEncrypt :: "bytes option \<Rightarrow> bytes \<Rightarrow> bytes \<Rightarrow> bytes \<Rightarrow> bytes \<Rightarrow> bytes option \<times> nat" where
  "BRChacha20Poly1305AEADEncrypt out key32 nonce12 data ad =
     (case out of
        None \<Rightarrow> (None, length data + 16)
      | Some m \<Rightarrow>
          if length m < length data + 16 \<or> length data div 64 \<ge> AEAD_MAX_BLOCKS then (out, 0)
          else let macKey = aead_mac_key key32 nonce12;
                   c = BRChacha20 key32 (drop 4 nonce12) data (aead_counter nonce12 + 1);
                   tag = aead_tag macKey ad c
               in (Some (c @ tag @ drop (length data + 16) m), length data + 16))"

definition BRChacha20Poly1305AEADDecrypt :: "bytes option \<Rightarrow> bytes \<Rightarrow> bytes \<Rightarrow> bytes \<Rightarrow> bytes \<Rightarrow> bytes option \<times> nat" where
  "BRChacha20Poly1305AEADDecrypt out key32 nonce12 data ad =
     (case out of
        None \<Rightarrow> (None, if length data < 16 then 0 else length data - 16)
      | Some m \<Rightarrow>
          if length data < 16 \<or> (length data - 16) div 64 \<ge> AEAD_MAX_BLOCKS \<or> length m + 16 < length data then (out, 0)
          else let n = length data - 16; macKey = aead_mac_key key32 nonce12;
                   mac = drop n data;
                   outLen = (if mac \<noteq> aead_tag macKey ad (take n data) then 0 else n)
               in (Some (BRChacha20 key32 (drop 4 nonce12) (take outLen data) (aead_counter nonce12 + 1) @ drop outLen m), outLen))"

section \<open>AES\<close>

definition sbox :: bytes where
  "sbox = concat [
    [0x63, 0x7c, 0x77, 0x7b, 0xf2, 0x6b, 0x6f, 0xc5, 0x30, 0x01, 0x67, 0x2b],
    [0xfe, 0xd7, 0xab, 0x76, 0xca, 0x82, 0xc9, 0x7d, 0xfa, 0x59, 0x47, 0xf0],
    [0xad, 0xd4, 0xa2, 0xaf, 0x9c, 0xa4, 0x72, 0xc0, 0xb7, 0xfd, 0x93, 0x26],
    [0x36, 0x3f, 0xf7, 0xcc, 0x34, 0xa5, 0xe5, 0xf1, 0x71, 0xd8, 0x31, 0x15],
    [0x04, 0xc7, 0x23, 0xc3, 0x18, 0x96, 0x05, 0x9a, 0x07, 0x12, 0x80, 0xe2],
    [0xeb, 0x27, 0xb2, 0x75, 0x09, 0x83, 0x2c, 0x1a, 0x1b, 0x6e, 0x5a, 0xa0],
    [0x52, 0x3b, 0xd6, 0xb3, 0x29, 0xe3, 0x2f, 0x84, 0x53, 0xd1, 0x00, 0xed],
    [0x20, 0xfc, 0xb1, 0x5b, 0x6a, 0xcb, 0xbe, 0x39, 0x4a, 0x4c, 0x58, 0xcf],
    [0xd0, 0xef, 0xaa, 0xfb, 0x43, 0x4d, 0x33, 0x85, 0x45, 0xf9, 0x02, 0x7f],
    [0x50, 0x3c, 0x9f, 0xa8, 0x51, 0xa3, 0x40, 0x8f, 0x92, 0x9d, 0x38, 0xf5],
    [0xbc, 0xb6, 0xda, 0x21, 0x10, 0xff, 0xf3, 0xd2, 0xcd, 0x0c, 0x13, 0xec],
    [0x5f, 0x97, 0x44, 0x17, 0xc4, 0xa7, 0x7e, 0x3d, 0x64, 0x5d, 0x19, 0x73],
    [0x60, 0x81, 0x4f, 0xdc, 0x22, 0x2a, 0x90, 0x88, 0x46, 0xee, 0xb8, 0x14],
    [0xde, 0x5e, 0x0b, 0xdb, 0xe0, 0x32, 0x3a, 0x0a, 0x49, 0x06, 0x24, 0x5c],
    [0xc2, 0xd3, 0xac, 0x62, 0x91, 0x95, 0xe4, 0x79, 0xe7, 0xc8, 0x37, 0x6d],
    [0x8d, 0xd5, 0x4e, 0xa9, 0x6c, 0x56, 0xf4, 0xea, 0x65, 0x7a, 0xae, 0x08],
    [0xba, 0x78, 0x25, 0x2e, 0x1c, 0xa6, 0xb4, 0xc6, 0xe8, 0xdd, 0x74, 0x1f],
    [0x4b, 0xbd, 0x8b, 0x8a, 0x70, 0x3e, 0xb5, 0x66, 0x48, 0x03, 0xf6, 0x0e],
    [0x61, 0x35, 0x57, 0xb9, 0x86, 0xc1, 0x1d, 0x9e, 0xe1, 0xf8, 0x98, 0x11],
    [0x69, 0xd9, 0x8e, 0x94, 0x9b, 0x1e, 0x87, 0xe9, 0xce, 0x55, 0x28, 0xdf],
    [0x8c, 0xa1, 0x89, 0x0d, 0xbf, 0xe6, 0x42, 0x68, 0x41, 0x99, 0x2d, 0x0f],
    [0xb0, 0x54, 0xbb, 0x16]]"

definition sboxi :: bytes where
  "sboxi = concat [
    [0x52, 0x09, 0x6a, 0xd5, 0x30, 0x36, 0xa5, 0x38, 0xbf, 0x40, 0xa3, 0x9e],
    [0x81, 0xf3, 0xd7, 0xfb, 0x7c, 0xe3, 0x39, 0x82, 0x9b, 0x2f, 0xff, 0x87],
    [0x34, 0x8e, 0x43, 0x44, 0xc4, 0xde, 0xe9, 0xcb, 0x54, 0x7b, 0x94, 0x32],
    [0xa6, 0xc2, 0x23, 0x3d, 0xee, 0x4c, 0x95, 0x0b, 0x42, 0xfa, 0xc3, 0x4e],
    [0x08, 0x2e, 0xa1, 0x66, 0x28, 0xd9, 0x24, 0xb2, 0x76, 0x5b, 0xa2, 0x49],
    [0x6d, 0x8b, 0xd1, 0x25, 0x72, 0xf8, 0xf6, 0x64, 0x86, 0x68, 0x98, 0x16],
    [0xd4, 0xa4, 0x5c, 0xcc, 0x5d, 0x65, 0xb6, 0x92, 0x6c, 0x70, 0x48, 0x50],
    [0xfd, 0xed, 0xb9, 0xda, 0x5e, 0x15, 0x46, 0x57, 0xa7, 0x8d, 0x9d, 0x84],
    [0x90, 0xd8, 0xab, 0x00, 0x8c, 0xbc, 0xd3, 0x0a, 0xf7, 0xe4, 0x58, 0x05],
    [0xb8, 0xb3, 0x45, 0x06, 0xd0, 0x2c, 0x1e, 0x8f, 0xca, 0x3f, 0x0f, 0x02],
    [0xc1, 0xaf, 0xbd, 0x03, 0x01, 0x13, 0x8a, 0x6b, 0x3a, 0x91, 0x11, 0x41],
    [0x4f, 0x67, 0xdc, 0xea, 0x97, 0xf2, 0xcf, 0xce, 0xf0, 0xb4, 0xe6, 0x73],
    [0x96, 0xac, 0x74, 0x22, 0xe7, 0xad, 0x35, 0x85, 0xe2, 0xf9, 0x37, 0xe8],
    [0x1c, 0x75, 0xdf, 0x6e, 0x47, 0xf1, 0x1a, 0x71, 0x1d, 0x29, 0xc5, 0x89],
    [0x6f, 0xb7, 0x62, 0x0e, 0xaa, 0x18, 0xbe, 0x1b, 0xfc, 0x56, 0x3e, 0x4b],
    [0xc6, 0xd2, 0x79, 0x20, 0x9a, 0xdb, 0xc0, 0xfe, 0x78, 0xcd, 0x5a, 0xf4],
    [0x1f, 0xdd, 0xa8, 0x33, 0x88, 0x07, 0xc7, 0x31, 0xb1, 0x12, 0x10, 0x59],
    [0x27, 0x80, 0xec, 0x5f, 0x60, 0x51, 0x7f, 0xa9, 0x19, 0xb5, 0x4a, 0x0d],
    [0x2d, 0xe5, 0x7a, 0x9f, 0x93, 0xc9, 0x9c, 0xef, 0xa0, 0xe0, 0x3b, 0x4d],
    [0xae, 0x2a, 0xf5, 0xb0, 0xc8, 0xeb, 0xbb, 0x3c, 0x83, 0x53, 0x99, 0x61],
    [0x17, 0x2b, 0x04, 0x7e, 0xba, 0x77, 0xd6, 0x26, 0xe1, 0x69, 0x14, 0x63],
    [0x55, 0x21, 0x0c, 0x7d]]"

definition sub_byte :: "bytes \<Rightarrow> u8 \<Rightarrow> u8" where
  "sub_byte box x = box ! unat x"

text \<open>The macro \<open>xt\<close> works on an \<open>int\<close>, whose bits above the low byte an assignment to a byte cuts off.\<close>

definition xt :: "u32 \<Rightarrow> u32" where
  "xt x = push_bit 1 x XOR (drop_bit 7 x AND 1) * 0x1b"

text \<open>A round of the key expansion: \<open>kl\<close> bytes behind the ones that are there.\<close>

definition key_byte :: "nat \<Rightarrow> bytes \<Rightarrow> bytes" where
  "key_byte kl k =
     (let j = length k
      in k @ [k ! (j - kl) XOR (if kl = 32 \<and> j mod 16 < 4 then sub_byte sbox (k ! (j - 4)) else k ! (j - 4))])"

definition key_round :: "nat \<Rightarrow> bytes \<times> u8 \<Rightarrow> bytes \<times> u8" where
  "key_round kl = (\<lambda>(k, r).
     let i = length k; s = sub_byte sbox;
         w = [k ! (i - kl) XOR s (k ! (i - 3)) XOR r, k ! (i + 1 - kl) XOR s (k ! (i - 2)),
              k ! (i + 2 - kl) XOR s (k ! (i - 1)), k ! (i + 3 - kl) XOR s (k ! (i - 4))]
     in ((key_byte kl ^^ (kl - 4)) (k @ w), ucast (xt (ucast r))))"

definition aes_rounds :: "nat \<Rightarrow> nat" where "aes_rounds kl = kl div 4 + 6"

definition BRAESExpandKey :: "bytes \<Rightarrow> bytes" where
  "BRAESExpandKey key = (let kl = length key in fst ((key_round kl ^^ (16 * aes_rounds kl div kl)) (key, 1)))"

definition add_round_key :: "bytes \<Rightarrow> nat \<Rightarrow> bytes \<Rightarrow> bytes" where
  "add_round_key k i x = xor_bytes x (take 16 (drop (i * 16) k))"

definition shift_rows :: "bytes \<Rightarrow> bytes" where
  "shift_rows x = [x ! 0, x ! 5, x ! 10, x ! 15, x ! 4, x ! 9, x ! 14, x ! 3, x ! 8, x ! 13, x ! 2, x ! 7, x ! 12, x ! 1, x ! 6, x ! 11]"

definition unshift_rows :: "bytes \<Rightarrow> bytes" where
  "unshift_rows x = [x ! 0, x ! 13, x ! 10, x ! 7, x ! 4, x ! 1, x ! 14, x ! 11, x ! 8, x ! 5, x ! 2, x ! 15, x ! 12, x ! 9, x ! 6, x ! 3]"

text \<open>The bytes of a column, promoted to \<open>int\<close>; \<open>e\<close>, \<open>f\<close> and \<open>g\<close> are bytes again.\<close>

definition mix_column :: "bytes \<Rightarrow> bytes" where
  "mix_column x =
     (let a = ucast (x ! 0) :: u32; b = ucast (x ! 1); c = ucast (x ! 2); d = ucast (x ! 3);
          e = ucast (ucast (a XOR b XOR c XOR d) :: u8)
      in map ucast [a XOR (e XOR xt (a XOR b)), b XOR (e XOR xt (b XOR c)), c XOR (e XOR xt (c XOR d)), d XOR (e XOR xt (d XOR a))])"

definition unmix_column :: "bytes \<Rightarrow> bytes" where
  "unmix_column x =
     (let a = ucast (x ! 0) :: u32; b = ucast (x ! 1); c = ucast (x ! 2); d = ucast (x ! 3);
          e = ucast (ucast (a XOR b XOR c XOR d) :: u8);
          f = ucast (ucast (e XOR xt (xt (xt e XOR a XOR c))) :: u8);
          g = ucast (ucast (e XOR xt (xt (xt e XOR b XOR d))) :: u8)
      in map ucast [a XOR (f XOR xt (a XOR b)), b XOR (g XOR xt (b XOR c)), c XOR (f XOR xt (c XOR d)), d XOR (g XOR xt (d XOR a))])"

definition mix_columns :: "(bytes \<Rightarrow> bytes) \<Rightarrow> bytes \<Rightarrow> bytes" where
  "mix_columns f x = f (take 4 x) @ f (take 4 (drop 4 x)) @ f (take 4 (drop 8 x)) @ f (take 4 (drop 12 x))"

definition cipher_round :: "nat \<Rightarrow> bytes \<Rightarrow> bytes \<Rightarrow> nat \<Rightarrow> bytes" where
  "cipher_round rounds k x i =
     (let x = shift_rows (map (sub_byte sbox) x);
          x = (if i < rounds - 1 then mix_columns mix_column x else x)
      in add_round_key k (i + 1) x)"

definition BRAESCipher :: "bytes \<Rightarrow> bytes \<Rightarrow> nat \<Rightarrow> bytes" where
  "BRAESCipher x k kl = foldl (cipher_round (aes_rounds kl) k) (add_round_key k 0 x) [0..<aes_rounds kl]"

definition decipher_round :: "bytes \<Rightarrow> bytes \<Rightarrow> nat \<Rightarrow> bytes" where
  "decipher_round k x i =
     (let x = add_round_key k (i - 1) (map (sub_byte sboxi) (unshift_rows x))
      in if i > 1 then mix_columns unmix_column x else x)"

definition BRAESDecipher :: "bytes \<Rightarrow> bytes \<Rightarrow> nat \<Rightarrow> bytes" where
  "BRAESDecipher x k kl = foldl (decipher_round k) (add_round_key k (aes_rounds kl) x) (rev [1..<aes_rounds kl + 1])"

definition BRAESECBEncrypt :: "bytes \<Rightarrow> bytes \<Rightarrow> bytes" where
  "BRAESECBEncrypt buf16 key = BRAESCipher buf16 (BRAESExpandKey key) (length key)"

definition BRAESECBDecrypt :: "bytes \<Rightarrow> bytes \<Rightarrow> bytes" where
  "BRAESECBDecrypt buf16 key = BRAESDecipher buf16 (BRAESExpandKey key) (length key)"

section \<open>Counter mode\<close>

text \<open>The counter is big-endian; the loop goes on to the next byte as long as a byte wraps around.\<close>

fun increment_rev :: "bytes \<Rightarrow> bytes" where
  "increment_rev [] = []"
| "increment_rev (b # bs) = (b + 1) # (if b + 1 = 0 then increment_rev bs else bs)"

definition increment_iv :: "bytes \<Rightarrow> bytes" where "increment_iv iv = rev (increment_rev (rev iv))"

function ctr_loop :: "bytes \<Rightarrow> nat \<Rightarrow> bytes \<Rightarrow> bytes \<Rightarrow> bytes" where
  "ctr_loop k kl iv data =
     (if data = [] then [] else xor_bytes (take 16 data) (BRAESCipher iv k kl) @ ctr_loop k kl (increment_iv iv) (drop 16 data))"
  by pat_completeness auto
termination by (relation "measure (\<lambda>(k, kl, iv, data). length data)") auto

declare ctr_loop.simps [simp del]

definition BRAESCTR :: "bytes \<Rightarrow> bytes \<Rightarrow> bytes \<Rightarrow> bytes" where
  "BRAESCTR key iv16 data = ctr_loop (BRAESExpandKey key) (length key) (take 16 iv16) data"

text \<open>
  The last \<open>outLen\<close> bytes of a stream of \<open>dataLen\<close>, from \<open>data\<close>; the key stream is an uninitialised array, \<open>None\<close>, until
  the offset is a multiple of 16. The result is the output and the counter.
\<close>

fun ctr_offset_loop :: "bytes \<Rightarrow> nat \<Rightarrow> bytes option \<Rightarrow> bytes \<Rightarrow> nat \<Rightarrow> nat \<Rightarrow> bytes \<Rightarrow> (bytes \<times> bytes) option" where
  "ctr_offset_loop k kl x iv off outIdx [] = Some ([], iv)"
| "ctr_offset_loop k kl x iv off outIdx (d # data) =
     (let (x, iv) = (if off mod 16 = 0 then (Some (BRAESCipher iv k kl), increment_iv iv) else (x, iv))
      in case x of
           None \<Rightarrow> None
         | Some s \<Rightarrow> map_option (\<lambda>(out, iv). ((d XOR s ! (outIdx mod 16)) # out, iv)) (ctr_offset_loop k kl x iv (off + 1) (outIdx + 1) data))"

definition BRAESCTR_OFFSET :: "nat \<Rightarrow> bytes \<Rightarrow> bytes \<Rightarrow> bytes \<Rightarrow> nat \<Rightarrow> (bytes \<times> bytes) option" where
  "BRAESCTR_OFFSET outLen key iv16 data dataLen =
     (if dataLen < outLen then Some ([], take 16 iv16)
      else ctr_offset_loop (BRAESExpandKey key) (length key) None (take 16 iv16) (dataLen - outLen) 0 (take outLen data))"

end
