(* ===== verification/AesProps.thy ===== *)
theory AesProps
  imports Cipher Numbers
begin

text \<open>
  What AES promises: the inverse cipher undoes the cipher for every length of the key, and the stream cipher in counter
  mode undoes itself.
\<close>

section \<open>The steps of a round\<close>

lemma boxes: "map (\<lambda>b. sboxi ! unat b) sbox = map of_nat [0..<256]"
  by code_simp

lemma length_sbox: "length sbox = 256"
  using arg_cong [OF boxes, of length] by simp

lemma unsub_sub: "sub_byte sboxi (sub_byte sbox x) = x"
proof -
  have "unat x < 256" by (rule unat_u8_less)
  then show ?thesis using arg_cong [OF boxes, of "\<lambda>l. l ! unat x"] by (simp add: sub_byte_def length_sbox)
qed

text \<open>The doubling on bytes.\<close>

definition xt8 :: "u8 \<Rightarrow> u8" where "xt8 x = push_bit 1 x XOR (if bit x 7 then 0x1b else 0)"

lemma bit_xt8: "n < 8 \<Longrightarrow> bit (xt8 x) n = ((0 < n \<and> bit x (n - 1)) \<noteq> (bit x 7 \<and> n \<in> {0, 1, 3, 4}))"
proof -
  assume n: "n < 8"
  have c: "bit (0x1b :: u8) n = (n \<in> {0, 1, 3, 4})"
  proof -
    have "n \<in> {0, 1, 2, 3, 4, 5, 6, 7}" using n by auto
    then show ?thesis by auto
  qed
  show ?thesis using n c unfolding xt8_def bit_xor_iff bit_push_bit_iff by auto
qed

lemma xt8_xor: "xt8 (x XOR y) = xt8 x XOR xt8 y"
  by (rule bit_word_eqI) (auto simp: bit_xt8 bit_xor_iff)

lemma xt8_0 [simp]: "xt8 0 = 0" by (simp add: xt8_def)

lemma xt_byte: "ucast (xt w) = xt8 (ucast w)"
proof (rule bit_word_eqI)
  fix n assume "n < LENGTH(8)"
  then have n: "n < 8" by simp
  have a: "drop_bit 7 w AND 1 = (if bit w 7 then 1 else 0)"
    by (simp add: and_one_eq mod_2_eq_odd bit_iff_odd_drop_bit)
  have c: "bit (0x1b :: u32) n = bit (0x1b :: u8) n" using n
  proof -
    have "n \<in> {0, 1, 2, 3, 4, 5, 6, 7}" using n by auto
    then show ?thesis by auto
  qed
  have "n - 1 < 8" using n by simp
  then show "bit (ucast (xt w) :: u8) n = bit (xt8 (ucast w)) n"
    using n c unfolding xt_def a xt8_def by (simp add: bit_simps del: push_bit_Suc One_nat_def)
qed

lemma ucast_xor: "ucast (x XOR y :: u32) = (ucast x XOR ucast y :: u8)"
  by (rule bit_word_eqI) (simp add: bit_simps)

lemma ucast_byte: "ucast (ucast x :: u32) = (x :: u8)"
  by (rule bit_word_eqI) (simp add: bit_simps)

lemma mix_column_bytes:
  "mix_column [a, b, c, d] =
     (let e = a XOR b XOR c XOR d
      in [a XOR (e XOR xt8 (a XOR b)), b XOR (e XOR xt8 (b XOR c)), c XOR (e XOR xt8 (c XOR d)), d XOR (e XOR xt8 (d XOR a))])"
  by (simp add: mix_column_def Let_def ucast_xor xt_byte ucast_byte)

lemma unmix_column_bytes:
  "unmix_column [a, b, c, d] =
     (let e = a XOR b XOR c XOR d; f = e XOR xt8 (xt8 (xt8 e XOR a XOR c)); g = e XOR xt8 (xt8 (xt8 e XOR b XOR d))
      in [a XOR (f XOR xt8 (a XOR b)), b XOR (g XOR xt8 (b XOR c)), c XOR (f XOR xt8 (c XOR d)), d XOR (g XOR xt8 (d XOR a))])"
  by (simp add: unmix_column_def Let_def ucast_xor xt_byte ucast_byte)

lemma unmix_mix: "unmix_column (mix_column [a, b, c, d]) = [a, b, c, d]"
  by (simp add: mix_column_bytes unmix_column_bytes Let_def xt8_xor ac_simps)

lemma length_4: "length x = 4 \<Longrightarrow> x = [x ! 0, x ! 1, x ! 2, x ! 3]"
  by (simp add: numeral_eq_Suc length_Suc_conv) auto

lemma length_mix_column [simp]: "length (mix_column x) = 4"
  by (simp add: mix_column_def Let_def)

lemma unmix_mix_column: "length x = 4 \<Longrightarrow> unmix_column (mix_column x) = x"
  using length_4 [of x] unmix_mix [of "x ! 0" "x ! 1" "x ! 2" "x ! 3"] by simp

lemma length_mix_columns [simp]: "length (mix_columns mix_column x) = 16"
  by (simp add: mix_columns_def)

lemma unmix_mix_columns: "length x = 16 \<Longrightarrow> mix_columns unmix_column (mix_columns mix_column x) = x"
proof -
  assume l: "length x = 16"
  have s: "x = take 4 x @ take 4 (drop 4 x) @ take 4 (drop 8 x) @ take 4 (drop 12 x)"
  proof -
    have "drop 12 x = take 4 (drop 12 x)" "drop 8 x = take 4 (drop 8 x) @ drop 12 x" "drop 4 x = take 4 (drop 4 x) @ drop 8 x"
      using append_take_drop_id [of 4 "drop 8 x"] append_take_drop_id [of 4 "drop 4 x"] l by simp_all
    then show ?thesis using append_take_drop_id [of 4 x] by metis
  qed
  have c: "mix_columns unmix_column (a @ b @ c @ d) = unmix_column a @ unmix_column b @ unmix_column c @ unmix_column d"
    if "length a = 4" "length b = 4" "length c = 4" "length d = 4" for a b c d
    using that by (simp add: mix_columns_def)
  show ?thesis
    unfolding mix_columns_def [of mix_column] using l s by (simp add: c unmix_mix_column)
qed

lemma length_shift_rows [simp]: "length (shift_rows x) = 16"
  by (simp add: shift_rows_def)

lemma length_unshift_rows [simp]: "length (unshift_rows x) = 16"
  by (simp add: unshift_rows_def)

lemma unshift_shift: "length x = 16 \<Longrightarrow> unshift_rows (shift_rows x) = x"
  by (auto simp: numeral_eq_Suc length_Suc_conv shift_rows_def unshift_rows_def)

lemma unsub_unshift: "length x = 16 \<Longrightarrow> map (sub_byte sboxi) (unshift_rows (shift_rows (map (sub_byte sbox) x))) = x"
  by (simp add: unshift_shift unsub_sub comp_def)

lemma xor_bytes_cancel: "length b \<ge> length a \<Longrightarrow> xor_bytes (xor_bytes a b) b = a"
  by (rule nth_equalityI) (simp_all add: xor_bytes_def xor.assoc)

lemma round_key_cancel:
  "length x = 16 \<Longrightarrow> (i + 1) * 16 \<le> length k \<Longrightarrow> add_round_key k i (add_round_key k i x) = x"
  by (simp add: add_round_key_def xor_bytes_cancel)

lemma length_add_round_key: "length x = 16 \<Longrightarrow> (i + 1) * 16 \<le> length k \<Longrightarrow> length (add_round_key k i x) = 16"
  by (simp add: add_round_key_def)

section \<open>The cipher\<close>

text \<open>The state in front of round \<open>i\<close>.\<close>

definition cipher_state :: "nat \<Rightarrow> bytes \<Rightarrow> bytes \<Rightarrow> nat \<Rightarrow> bytes" where
  "cipher_state rounds k x i = foldl (cipher_round rounds k) (add_round_key k 0 x) [0..<i]"

lemma cipher_state_Suc: "cipher_state rounds k x (Suc i) = cipher_round rounds k (cipher_state rounds k x i) i"
  by (simp add: cipher_state_def)

lemma length_cipher_round: "(i + 2) * 16 \<le> length k \<Longrightarrow> length (cipher_round rounds k x i) = 16"
  by (auto simp: cipher_round_def Let_def intro!: length_add_round_key)

lemma length_cipher_state: "length x = 16 \<Longrightarrow> (i + 1) * 16 \<le> length k \<Longrightarrow> length (cipher_state rounds k x i) = 16"
  by (cases i) (simp_all add: cipher_state_Suc length_cipher_round, simp add: cipher_state_def length_add_round_key)

text \<open>
  A round of the inverse cipher, on the state of the cipher without the round key that was added last, gives the state of the
  round in front of it without its round key, unmixed.
\<close>

lemma decipher_state:
  assumes "length x = 16" "(rounds + 1) * 16 \<le> length k" "i \<le> rounds"
  shows "foldl (decipher_round k) (add_round_key k rounds (cipher_state rounds k x rounds)) (rev [i + 1..<rounds + 1]) =
    (if i < rounds \<and> 0 < i then mix_columns unmix_column else id) (add_round_key k i (cipher_state rounds k x i))"
  using assms(3)
proof (induction "rounds - i" arbitrary: i)
  case 0
  then show ?case by simp
next
  case (Suc n)
  then have i: "i < rounds" "n = rounds - (i + 1)" by simp_all
  let ?s = "cipher_state rounds k x"
  have li: "length (?s i) = 16" using assms i by (intro length_cipher_state) auto
  define y where "y = shift_rows (map (sub_byte sbox) (?s i))"
  have ly: "length y = 16" by (simp add: y_def)
  define z where "z = (if i < rounds - 1 then mix_columns mix_column y else y)"
  have lz: "length z = 16" using ly by (simp add: z_def)
  have s: "?s (i + 1) = add_round_key k (i + 1) z" by (simp add: cipher_state_Suc cipher_round_def Let_def y_def z_def)
  have kz: "add_round_key k (i + 1) (?s (i + 1)) = z" unfolding s using assms(2) i lz by (intro round_key_cancel) auto
  have uz: "(if i + 1 < rounds \<and> 0 < i + 1 then mix_columns unmix_column else id) z = y"
    using ly i by (cases "i + 1 < rounds") (simp_all add: z_def unmix_mix_columns less_diff_conv)
  have l: "rev [i + 1..<rounds + 1] = rev [i + 1 + 1..<rounds + 1] @ [i + 1]" using i by (simp add: upt_conv_Cons del: upt_Suc)
  have "foldl (decipher_round k) (add_round_key k rounds (?s rounds)) (rev [i + 1..<rounds + 1]) = decipher_round k y (i + 1)"
    unfolding l using Suc.hyps(1) [OF i(2)] i(1) kz uz by simp
  also have "\<dots> = (if i < rounds \<and> 0 < i then mix_columns unmix_column else id) (add_round_key k i (?s i))"
    using i(1) unsub_unshift [OF li] by (simp add: decipher_round_def Let_def y_def)
  finally show ?case .
qed

lemma decipher_cipher:
  assumes "length x = 16" "(aes_rounds kl + 1) * 16 \<le> length k"
  shows "BRAESDecipher (BRAESCipher x k kl) k kl = x"
  using decipher_state [OF assms, of 0] assms round_key_cancel [of x 0 k]
  by (simp add: BRAESDecipher_def BRAESCipher_def flip: cipher_state_def) (simp add: cipher_state_def)

section \<open>The key schedule\<close>

lemma length_key_bytes: "length ((key_byte kl ^^ n) k) = length k + n"
  by (induction n) (simp_all add: key_byte_def Let_def)

lemma length_key_rounds: "4 \<le> kl \<Longrightarrow> length (fst ((key_round kl ^^ n) (k, r))) = length k + n * kl"
proof (induction n)
  case (Suc n)
  obtain k' r' where e: "(key_round kl ^^ n) (k, r) = (k', r')" by (cases "(key_round kl ^^ n) (k, r)")
  then show ?case using Suc by (simp add: key_round_def Let_def length_key_bytes)
qed simp

lemma length_expanded:
  "length key \<in> {16, 24, 32} \<Longrightarrow> (aes_rounds (length key) + 1) * 16 \<le> length (BRAESExpandKey key) \<and> length (BRAESExpandKey key) \<le> 256"
  by (auto simp: BRAESExpandKey_def Let_def length_key_rounds aes_rounds_def)

section \<open>Counter mode\<close>

lemma length_cipher:
  assumes "length key \<in> {16, 24, 32}" "length x = 16"
  shows "length (BRAESCipher x (BRAESExpandKey key) (length key)) = 16"
  using length_cipher_state [of x "aes_rounds (length key)" "BRAESExpandKey key" "aes_rounds (length key)"] length_expanded [OF assms(1)] assms(2)
  by (simp add: BRAESCipher_def cipher_state_def)

lemma length_increment_rev [simp]: "length (increment_rev bs) = length bs"
  by (induction bs) simp_all

lemma length_increment_iv [simp]: "length (increment_iv iv) = length iv"
  by (simp add: increment_iv_def)

text \<open>The counter is a number that is counted up modulo \<open>2 ^ 128\<close>.\<close>

lemma increment_rev_value: "byte_value (increment_rev bs) = (byte_value bs + 1) mod 256 ^ length bs"
proof (induction bs)
  case (Cons b bs)
  have l: "byte_value bs < 256 ^ length bs" by (rule byte_value_less)
  show ?case
  proof (cases "b + 1 = 0")
    case True
    then have "b = - 1" by (simp add: eq_neg_iff_add_eq_0)
    then have "unat b = 255" by (simp add: unsigned_minus_1_eq_mask mask_eq_exp_minus_1)
    then have "byte_value (b # bs) + 1 = 256 * (byte_value bs + 1)" by simp
    then show ?thesis using True Cons.IH by (simp add: mult_mod_right)
  next
    case False
    then have u: "unat (b + 1) = unat b + 1" using unatSuc [of b] by (simp add: add.commute)
    have "unat b + 1 < 256" using False u unat_u8_less [of "b + 1"] by simp
    then have "byte_value (b # bs) + 1 < 256 ^ length (b # bs)"
      using l by simp
    then show ?thesis using False u by simp
  qed
qed simp

lemma ctr_state_value:
  "length iv = 16 \<Longrightarrow> length ((increment_iv ^^ n) iv) = 16 \<and>
    byte_value (rev ((increment_iv ^^ n) iv)) = (byte_value (rev iv) + n) mod 2 ^ 128"
proof (induction n)
  case 0
  then show ?case using byte_value_less [of "rev iv"] by simp
next
  case (Suc n)
  define c where "c = (increment_iv ^^ n) iv"
  have "length c = 16" using Suc by (simp add: c_def)
  then have "byte_value (rev (increment_iv c)) = (byte_value (rev c) + 1) mod 2 ^ 128"
    using increment_rev_value [of "rev c"] by (simp add: increment_iv_def)
  then have "byte_value (rev ((increment_iv ^^ Suc n) iv)) = (byte_value (rev ((increment_iv ^^ n) iv)) + 1) mod 2 ^ 128"
    by (simp add: c_def)
  also have "\<dots> = (byte_value (rev iv) + n + 1) mod 2 ^ 128" using Suc by (simp only: mod_add_left_eq)
  finally show ?case using Suc by simp
qed

lemma ctr_loop_nth:
  assumes "length key \<in> {16, 24, 32}"
  shows "length iv = 16 \<Longrightarrow> length (ctr_loop (BRAESExpandKey key) (length key) iv data) = length data \<and>
    (\<forall>i < length data. ctr_loop (BRAESExpandKey key) (length key) iv data ! i =
      data ! i XOR BRAESCipher ((increment_iv ^^ (i div 16)) iv) (BRAESExpandKey key) (length key) ! (i mod 16))"
proof (induction "length data" arbitrary: data iv rule: less_induct)
  case less
  show ?case
  proof (cases "data = []")
    case True
    then show ?thesis by (simp add: ctr_loop.simps)
  next
    case False
    let ?k = "BRAESExpandKey key" and ?kl = "length key"
    let ?b = "BRAESCipher iv ?k ?kl"
    have lb: "length ?b = 16" by (rule length_cipher [OF assms less.prems])
    have IH: "length (ctr_loop ?k ?kl (increment_iv iv) (drop 16 data)) = length (drop 16 data)"
        "\<And>i. i < length (drop 16 data) \<Longrightarrow> ctr_loop ?k ?kl (increment_iv iv) (drop 16 data) ! i =
          drop 16 data ! i XOR BRAESCipher ((increment_iv ^^ (i div 16)) (increment_iv iv)) ?k ?kl ! (i mod 16)"
      using less.hyps [of "drop 16 data" "increment_iv iv"] False less.prems by auto
    have e: "ctr_loop ?k ?kl iv data = xor_bytes (take 16 data) ?b @ ctr_loop ?k ?kl (increment_iv iv) (drop 16 data)"
      using False by (subst ctr_loop.simps) simp
    have "ctr_loop ?k ?kl iv data ! i = data ! i XOR BRAESCipher ((increment_iv ^^ (i div 16)) iv) ?k ?kl ! (i mod 16)"
      if i: "i < length data" for i
    proof (cases "i < 16")
      case True
      then show ?thesis using i lb unfolding e by (simp add: nth_append xor_bytes_def)
    next
      case False
      then obtain j where j: "i = 16 + j" using le_Suc_ex by (metis not_less)
      then have "min (length data) 16 = 16" "j < length (drop 16 data)" "i div 16 = Suc (j div 16)" "i mod 16 = j mod 16"
        using i by simp_all
      then show ?thesis unfolding e using lb IH(2) [of j] j i by (simp add: nth_append funpow_Suc_right del: funpow.simps)
    qed
    then show ?thesis using IH(1) lb unfolding e by simp
  qed
qed

text \<open>
  C40: The inverse cipher undoes the cipher: for a key of 128, 192 or 256 bits, whose expanded key fits in the 256 bytes
  of the array, \<open>BRAESECBDecrypt\<close> gives back the block that \<open>BRAESECBEncrypt\<close> enciphered.
\<close>
theorem aes_round_trip:
  assumes "length key \<in> {16, 24, 32}" "length x = 16"
  shows "BRAESECBDecrypt (BRAESECBEncrypt x key) key = x \<and> length (BRAESECBEncrypt x key) = 16 \<and>
    (aes_rounds (length key) + 1) * 16 \<le> length (BRAESExpandKey key) \<and> length (BRAESExpandKey key) \<le> 256"
  using decipher_cipher [OF assms(2)] length_expanded [OF assms(1)] length_cipher [OF assms]
  by (simp add: BRAESECBDecrypt_def BRAESECBEncrypt_def)

theorem aes_round_trip_witness:
  "BRAESECBDecrypt (BRAESECBEncrypt (replicate 16 1) (replicate 24 2)) (replicate 24 2) = replicate 16 1"
  using aes_round_trip [of "replicate 24 2" "replicate 16 1"] by (simp del: replicate.simps)

text \<open>
  Counter mode. Byte \<open>i\<close> of the output is byte \<open>i\<close> of the data, exclusive or byte \<open>i mod 16\<close> of the cipher of a
  counter block, which is the initial block counted up \<open>i div 16\<close> times as a big-endian number modulo \<open>2 ^ 128\<close>; so
  the same call with the same key and initial block deciphers.
\<close>
lemma ctr_keystream:
  assumes "length key \<in> {16, 24, 32}" "length iv = 16"
  shows "\<exists>c. (\<forall>n. length (c n) = 16 \<and> byte_value (rev (c n)) = (byte_value (rev iv) + n) mod 2 ^ 128) \<and>
    (\<forall>i. i < length data \<longrightarrow> BRAESCTR key iv data ! i = data ! i XOR BRAESECBEncrypt (c (i div 16)) key ! (i mod 16)) \<and>
    BRAESCTR key iv (BRAESCTR key iv data) = data"
proof -
  let ?c = "\<lambda>n. (increment_iv ^^ n) iv"
  note l = ctr_loop_nth [OF assms]
  have n: "BRAESCTR key iv d ! i = d ! i XOR BRAESECBEncrypt (?c (i div 16)) key ! (i mod 16)" "length (BRAESCTR key iv d) = length d"
    if "i < length d" for d i
    using l [of d] that assms(2) by (simp_all add: BRAESCTR_def BRAESECBEncrypt_def)
  have len: "length (BRAESCTR key iv d) = length d" for d using l [of d] assms(2) by (simp add: BRAESCTR_def)
  have "BRAESCTR key iv (BRAESCTR key iv data) = data"
    by (rule nth_equalityI) (simp_all add: len n xor.assoc)
  then show ?thesis using ctr_state_value [OF assms(2)] n by (intro exI [of _ ?c]) simp
qed

lemma ctr_keystream_witness:
  "BRAESCTR (replicate 16 1) (replicate 16 255) (BRAESCTR (replicate 16 1) (replicate 16 255) [1, 2, 3]) = [1, 2, 3]"
  using ctr_keystream [of "replicate 16 1" "replicate 16 255" "[1, 2, 3]"] by (simp del: replicate.simps) blast

end
