(* ===== verification/MerkleBlock.thy ===== *)
theory MerkleBlock
  imports Transaction
begin

text \<open>
  Merkle blocks, \<open>bitcoin/BRMerkleBlock.c\<close>: the structure, the parser and serializer, the walks over the
  partial Merkle tree and the validity tests. The arrays behind \<open>hashes\<close> and \<open>flags\<close> are byte lists next to
  the counts of the structure, as the parser keeps them; \<open>None\<close> as the result of a walk stands for a read
  behind an array and for a walk that does not return.
\<close>

section \<open>The structure\<close>

record BRMerkleBlock =
  blockHash :: bytes
  blkVersion :: u32
  prevBlock :: bytes
  merkleRoot :: bytes
  blkTimestamp :: u32
  target :: u32
  nonce :: u32
  totalTx :: u32
  hashes :: "bytes option"
  hashesCount :: u64
  flags :: "bytes option"
  flagsLen :: u64
  height :: u32

definition BLOCK_DIFFICULTY_INTERVAL :: u32 where "BLOCK_DIFFICULTY_INTERVAL = 2016"
definition BLOCK_UNKNOWN_HEIGHT :: u32 where "BLOCK_UNKNOWN_HEIGHT = 0x7fffffff"
definition BLOCK_MAX_TIME_DRIFT :: u32 where "BLOCK_MAX_TIME_DRIFT = 2*60*60"
definition MAX_PROOF_OF_WORK :: u32 where "MAX_PROOF_OF_WORK = 0x1d00ffff"
definition TARGET_TIMESPAN :: int where "TARGET_TIMESPAN = 14*24*60*60"

definition BRMerkleBlockNew :: BRMerkleBlock where
  "BRMerkleBlockNew = \<lparr>blockHash = UINT256_ZERO, blkVersion = 0, prevBlock = UINT256_ZERO, merkleRoot = UINT256_ZERO, blkTimestamp = 0,
     target = 0, nonce = 0, totalTx = 0, hashes = None, hashesCount = 0, flags = None, flagsLen = 0, height = BLOCK_UNKNOWN_HEIGHT\<rparr>"

definition BRMerkleBlockSetTxHashes :: "BRMerkleBlock \<Rightarrow> bytes \<Rightarrow> u64 \<Rightarrow> bytes \<Rightarrow> u64 \<Rightarrow> BRMerkleBlock" where
  "BRMerkleBlockSetTxHashes block hs hsCount fs fsLen =
     block\<lparr>hashes := (if hsCount > 0 then Some (take (unat hsCount * 32) hs) else None),
           flags := (if fsLen > 0 then Some (take (unat fsLen) fs) else None)\<rparr>"

definition BRMerkleBlockCopy :: "BRMerkleBlock \<Rightarrow> BRMerkleBlock" where
  "BRMerkleBlockCopy block =
     (let cpy = block\<lparr>hashes := None, flags := None\<rparr>
      in BRMerkleBlockSetTxHashes cpy (arr (hashes block)) (hashesCount block) (arr (flags block)) (flagsLen block))"

section \<open>Parsing and serializing\<close>

text \<open>
  The offsets are \<open>size_t\<close> values that wrap around, and so is the length \<open>hashesCount*sizeof(UInt256)\<close>; an
  allocation is taken to succeed.
\<close>

definition parse_tree :: "bytes \<Rightarrow> BRMerkleBlock \<Rightarrow> u64 \<Rightarrow> (BRMerkleBlock \<times> u64) option" where
  "parse_tree buf block off =
     do {
       total \<leftarrow> guarded buf off 4;
       case total of
         None \<Rightarrow> Some (block, off)
       | Some b \<Rightarrow>
           do {
             let off1 = off + 4;
             let (hsCount, len1) = var_int_at buf off1;
             let off2 = off1 + len1;
             let len2 = hsCount * 32;
             hs \<leftarrow> guarded buf off2 len2;
             let off3 = off2 + len2;
             let (fsLen, len3) = var_int_at buf off3;
             let off4 = off3 + len3;
             fs \<leftarrow> guarded buf off4 fsLen;
             Some (block\<lparr>totalTx := UInt32GetLE b, hashesCount := hsCount, hashes := hs, flagsLen := fsLen, flags := fs\<rparr>, off4 + fsLen)
           }
     }"

definition BRMerkleBlockParse :: "bytes \<Rightarrow> BRMerkleBlock outcome" where
  "BRMerkleBlockParse buf =
     (if length buf < 80 then Null
      else
        let block = BRMerkleBlockNew\<lparr>blkVersion := UInt32GetLE buf, prevBlock := UInt256Get (drop 4 buf), merkleRoot := UInt256Get (drop 36 buf),
              blkTimestamp := UInt32GetLE (drop 68 buf), target := UInt32GetLE (drop 72 buf), nonce := UInt32GetLE (drop 76 buf)\<rparr>
        in case parse_tree buf block 80 of
             None \<Rightarrow> Undefined
           | Some (block', off) \<Rightarrow>
               if off > of_nat (length buf) then Null else Returns (block'\<lparr>blockHash := BRSHA256_2 (take 80 buf)\<rparr>))"

text \<open>\<open>memcpy\<close> of an array that may be \<open>NULL\<close>, whose bytes are skipped then.\<close>

definition put_array :: "nat \<Rightarrow> bytes option \<Rightarrow> u8 outbuf \<Rightarrow> u8 outbuf" where
  "put_array n a s = (case a of None \<Rightarrow> (fst s, snd s + n) | Some b \<Rightarrow> put (take n b) s)"

definition header_bytes :: "BRMerkleBlock \<Rightarrow> bytes" where
  "header_bytes block =
     UInt32SetLE (blkVersion block) @ prevBlock block @ merkleRoot block @ UInt32SetLE (blkTimestamp block) @
     UInt32SetLE (target block) @ UInt32SetLE (nonce block)"

definition BRMerkleBlockSerialize :: "BRMerkleBlock \<Rightarrow> bytes option \<Rightarrow> bytes option \<times> nat" where
  "BRMerkleBlockSerialize block buf =
     (let len = unat ((80 :: u64) + (if totalTx block > 0 then 4 + of_nat (BRVarIntSize (hashesCount block)) + hashesCount block * 32 +
                                       of_nat (BRVarIntSize (flagsLen block)) + flagsLen block else 0));
          s1 = put (header_bytes block) (buf, 0);
          s2 = (if totalTx block > 0 then
                  put_array (unat (flagsLen block)) (flags block)
                    (put_var_int (flagsLen block)
                      (put_array (unat (hashesCount block * 32)) (hashes block)
                        (put_var_int (hashesCount block) (put (UInt32SetLE (totalTx block)) s1))))
                else s1)
      in (if room buf len then fst s2 else buf, if room buf len then len else 0))"

section \<open>Walking the partial Merkle tree\<close>

text \<open>\<open>while ((x >>= 1) != 0) r++;\<close> on a signed \<open>int\<close>, which does not end for a negative value.\<close>

partial_function (option) shift_count :: "u32 \<Rightarrow> nat \<Rightarrow> nat option" where
  "shift_count x r = (let x' = signed_drop_bit 1 x in if x' \<noteq> 0 then shift_count x' (r + 1) else Some r)"

definition ceil_log2 :: "u32 \<Rightarrow> nat option" where
  "ceil_log2 x = shift_count x (if x AND (x - 1) \<noteq> 0 then 1 else 0)"

definition hash_at :: "BRMerkleBlock \<Rightarrow> nat \<Rightarrow> bytes option" where
  "hash_at block j = (let hs = arr (hashes block) in if 32 * j + 32 \<le> length hs then Some (take 32 (drop (32 * j) hs)) else None)"

definition flag_at :: "BRMerkleBlock \<Rightarrow> nat \<Rightarrow> bool option" where
  "flag_at block i =
     (let fs = arr (flags block)
      in if i div 8 < length fs then Some (fs ! (i div 8) AND push_bit (i mod 8) 1 \<noteq> 0) else None)"

definition more_nodes :: "BRMerkleBlock \<Rightarrow> nat \<Rightarrow> nat \<Rightarrow> bool" where
  "more_nodes block hashIdx flagIdx \<longleftrightarrow> flagIdx div 8 < unat (flagsLen block) \<and> hashIdx < unat (hashesCount block)"

text \<open>
  The hashes found so far (\<open>*idx\<close> is their number), \<open>hashIdx\<close> and \<open>flagIdx\<close>; \<open>out\<close> is \<open>txHashes != NULL\<close>,
  without it no hash is read and the list only counts.
\<close>

partial_function (option) BRMerkleBlockTxHashesR ::
    "BRMerkleBlock \<Rightarrow> bool \<Rightarrow> nat \<Rightarrow> bytes list \<times> nat \<times> nat \<Rightarrow> nat \<Rightarrow> (bytes list \<times> nat \<times> nat) option" where
  "BRMerkleBlockTxHashesR block out cap st depth =
     (case st of (found, hashIdx, flagIdx) \<Rightarrow>
        if more_nodes block hashIdx flagIdx then
          flag_at block flagIdx \<bind> (\<lambda>flag.
          (if \<not> flag then Some True else ceil_log2 (totalTx block) \<bind> (\<lambda>l. Some (depth = l))) \<bind> (\<lambda>leaf.
          if leaf then
            (if flag \<and> length found < cap
             then (if out then hash_at block hashIdx else Some []) \<bind> (\<lambda>h. Some (found @ [h], hashIdx + 1, flagIdx + 1))
             else Some (found, hashIdx + 1, flagIdx + 1))
          else BRMerkleBlockTxHashesR block out cap (found, hashIdx, flagIdx + 1) (depth + 1) \<bind> (\<lambda>st'.
               BRMerkleBlockTxHashesR block out cap st' (depth + 1))))
        else Some st)"

text \<open>The hashes and their number; \<open>None\<close> as capacity is \<open>txHashes = NULL\<close>.\<close>

definition BRMerkleBlockTxHashes :: "BRMerkleBlock \<Rightarrow> nat option \<Rightarrow> (bytes list \<times> nat) option" where
  "BRMerkleBlockTxHashes block cap =
     BRMerkleBlockTxHashesR block (cap \<noteq> None) (case cap of None \<Rightarrow> 2 ^ 64 - 1 | Some n \<Rightarrow> n) ([], 0, 0) 0 \<bind>
       (\<lambda>(found, _, _). Some (if cap = None then [] else found, length found))"

text \<open>The hash, \<open>hashIdx\<close> and \<open>flagIdx\<close>.\<close>

definition SIZE_MAX :: nat where "SIZE_MAX = 2 ^ 64 - 1"

partial_function (option) BRMerkleBlockRootR ::
    "BRMerkleBlock \<Rightarrow> nat \<times> nat \<Rightarrow> nat \<Rightarrow> (bytes \<times> nat \<times> nat) option" where
  "BRMerkleBlockRootR block st depth =
     (case st of (hashIdx, flagIdx) \<Rightarrow>
        if more_nodes block hashIdx flagIdx then
          flag_at block flagIdx \<bind> (\<lambda>flag.
          (if \<not> flag then Some False else ceil_log2 (totalTx block) \<bind> (\<lambda>l. Some (depth \<noteq> l))) \<bind> (\<lambda>inner.
          if inner then
            BRMerkleBlockRootR block (hashIdx, flagIdx + 1) (depth + 1) \<bind> (\<lambda>(left, st1).
            BRMerkleBlockRootR block st1 (depth + 1) \<bind> (\<lambda>(right, hashIdx2, flagIdx2).
            Some (if \<not> UInt256IsZero left \<and> \<not> UInt256Eq left right
                  then (BRSHA256_2 (left @ (if UInt256IsZero right then left else right)), hashIdx2, flagIdx2)
                  else (UINT256_ZERO, SIZE_MAX, flagIdx2))))
          else hash_at block hashIdx \<bind> (\<lambda>h. Some (h, hashIdx + 1, flagIdx + 1))))
        else Some (UINT256_ZERO, hashIdx, flagIdx))"

section \<open>Validity\<close>

text \<open>
  The function returns after the test of the timestamp: the test of the proof of work behind the
  \<open>return\<close> is not reached.
\<close>

definition BRMerkleBlockIsValid :: "BRMerkleBlock \<Rightarrow> u32 \<Rightarrow> bool option" where
  "BRMerkleBlockIsValid block currentTime =
     BRMerkleBlockRootR block (0, 0) 0 \<bind> (\<lambda>(root, _, _).
       Some (\<not> (totalTx block > 0 \<and> \<not> UInt256Eq root (merkleRoot block)) \<and>
             \<not> blkTimestamp block > currentTime + BLOCK_MAX_TIME_DRIFT))"

fun find_hash :: "BRMerkleBlock \<Rightarrow> bytes \<Rightarrow> nat list \<Rightarrow> bool option" where
  "find_hash block h [] = Some False"
| "find_hash block h (i # is) = hash_at block i \<bind> (\<lambda>x. if UInt256Eq x h then Some True else find_hash block h is)"

definition BRMerkleBlockContainsTxHash :: "BRMerkleBlock \<Rightarrow> bytes \<Rightarrow> bool option" where
  "BRMerkleBlockContainsTxHash block txh = find_hash block txh [0..<unat (hashesCount block)]"

section \<open>The difficulty\<close>

lemma drop_bit_8_le: "unat (drop_bit 8 (t :: u64)) \<le> unat t" "t > 0x007fffff \<Longrightarrow> unat (drop_bit 8 t) < unat t"
  by (simp_all add: drop_bit_eq_div unat_div word_less_nat_alt div_less_dividend)

text \<open>\<open>while (size < 1 || target > 0x007fffff) target >>= 8, size++;\<close>\<close>

function normalize_target :: "int \<Rightarrow> u64 \<Rightarrow> int \<times> u64" where
  "normalize_target sz t = (if sz < 1 \<or> t > 0x007fffff then normalize_target (sz + 1) (drop_bit 8 t) else (sz, t))"
  by pat_completeness auto

termination
proof (relation "measure (\<lambda>(sz, t). nat (1 - sz) + unat t)", simp, goal_cases)
  case (1 sz t)
  show ?case
  proof (cases "sz < 1")
    case True
    then show ?thesis using drop_bit_8_le(1) [of t] by (simp add: nat_diff_distrib' add_less_le_mono)
  next
    case False
    then show ?thesis using 1 drop_bit_8_le(2) [of t] by simp
  qed
qed

text \<open>The target after a transition, from the block before it.\<close>

definition next_target :: "BRMerkleBlock \<Rightarrow> u32 \<Rightarrow> u64" where
  "next_target previous transitionTime =
     (let sz = int (unat (drop_bit 24 (target previous))); t0 = (ucast (target previous AND 0x007fffff) :: u64);
          span0 = uint (blkTimestamp previous) - uint transitionTime;
          span1 = (if span0 < TARGET_TIMESPAN div 4 then TARGET_TIMESPAN div 4 else span0);
          span = (if span1 > TARGET_TIMESPAN * 4 then TARGET_TIMESPAN * 4 else span1);
          t1 = t0 * word_of_int span div word_of_int (TARGET_TIMESPAN div 256);
          (sz', t2) = normalize_target (sz - 1) t1;
          t3 = t2 OR scast (word_of_int (sz' * 2 ^ 24) :: u32)
      in if t3 > ucast MAX_PROOF_OF_WORK then ucast MAX_PROOF_OF_WORK else t3)"

text \<open>The value of \<open>r\<close>, which the function computes and then ignores: it returns 1.\<close>

definition difficulty_correct :: "BRMerkleBlock \<Rightarrow> BRMerkleBlock \<Rightarrow> u32 \<Rightarrow> bool" where
  "difficulty_correct block previous transitionTime \<longleftrightarrow>
     UInt256Eq (prevBlock block) (blockHash previous) \<and> height block = height previous + 1 \<and>
     (if height block mod BLOCK_DIFFICULTY_INTERVAL = 0
      then transitionTime \<noteq> 0 \<and> ucast (target block) = next_target previous transitionTime
      else target block = target previous)"

definition BRMerkleBlockVerifyDifficulty :: "BRMerkleBlock \<Rightarrow> BRMerkleBlock \<Rightarrow> u32 \<Rightarrow> bool" where
  "BRMerkleBlockVerifyDifficulty block previous transitionTime = (let r = difficulty_correct block previous transitionTime in True)"

section \<open>Merkle blocks as set items\<close>

definition BRMerkleBlockHash :: "BRMerkleBlock \<Rightarrow> u64" where
  "BRMerkleBlockHash block = ucast (UInt32GetLE (blockHash block))"

definition BRMerkleBlockEq :: "BRMerkleBlock \<Rightarrow> BRMerkleBlock \<Rightarrow> bool" where
  "BRMerkleBlockEq block otherBlock \<longleftrightarrow> block = otherBlock \<or> UInt256Eq (blockHash block) (blockHash otherBlock)"

interpretation block_set: item_equality BRMerkleBlockHash BRMerkleBlockEq
  by unfold_locales (auto simp: BRMerkleBlockHash_def BRMerkleBlockEq_def UInt256Eq_def UInt32GetLE_UInt64GetLE)

end
