(* ===== verification/MerkleTree.thy ===== *)
theory MerkleTree
  imports MerkleBlock
begin

text \<open>
  Merkle trees and partial Merkle trees as the comment of \<open>bitcoin/BRMerkleBlock.c\<close> and BIP37 describe them,
  and the two walks over a partial tree against them.
\<close>

section \<open>The number of levels\<close>

lemma signed_shift: "\<not> bit (x :: u32) 31 \<Longrightarrow> signed_drop_bit 1 x = drop_bit 1 x"
  by (rule bit_word_eqI) (auto simp: bit_signed_drop_bit_iff bit_drop_bit_eq dest: bit_imp_le_length)

lemma shift_count_log:
  assumes "unat x < 2 ^ 31"
  shows "\<exists>k. shift_count x r = Some (r + k) \<and> 2 ^ k \<le> max 1 (unat x) \<and> unat x < 2 ^ (k + 1)"
  using assms
proof (induction "unat x" arbitrary: x r rule: less_induct)
  case less
  have "\<not> bit (unat x) 31" using less.prems by (simp add: bit_iff_odd)
  then have "\<not> bit x 31" by (simp add: bit_unsigned_iff)
  note shift = signed_shift [OF this]
  have half: "unat (drop_bit 1 x) = unat x div 2" by (simp add: drop_bit_eq_div unat_div)
  show ?case
  proof (cases "unat x < 2")
    case True
    then have "unat (drop_bit 1 x) = 0" using half by simp
    then have "drop_bit 1 x = 0" by (simp only: unat_eq_zero)
    then show ?thesis using True by (subst shift_count.simps) (simp add: shift [simplified] Let_def)
  next
    case False
    then have "unat (drop_bit 1 x) \<noteq> 0" "unat (drop_bit 1 x) < unat x" "unat (drop_bit 1 x) < 2 ^ 31"
      using half less.prems by auto
    then obtain k where k: "shift_count (drop_bit 1 x) (r + 1) = Some (r + 1 + k)" "2 ^ k \<le> max 1 (unat x div 2)" "unat x div 2 < 2 ^ (k + 1)"
      using less.hyps [of "drop_bit 1 x" "r + 1"] half by auto
    have "drop_bit 1 x \<noteq> 0" using \<open>unat (drop_bit 1 x) \<noteq> 0\<close> by auto
    then have "shift_count x r = Some (r + (k + 1))" using k(1) by (subst shift_count.simps) (simp add: shift [simplified] Let_def)
    then show ?thesis using k(2,3) False by (intro exI [of _ "k + 1"]) auto
  qed
qed

lemma shift_count_negative:
  assumes "shift_count x r = Some k"
  shows "\<not> bit x 31"
proof (rule shift_count.raw_induct [of "\<lambda>x r k. \<not> bit x 31" "(x, r)" k, unfolded prod.case, OF _ assms])
  fix rec :: "u32 \<Rightarrow> nat \<Rightarrow> nat option" and x r k
  assume IH: "\<And>x r k. rec x r = Some k \<Longrightarrow> \<not> bit x 31"
    and step: "(let x' = signed_drop_bit 1 x in if x' \<noteq> 0 then rec x' (r + 1) else Some r) = Some k"
  have "bit (signed_drop_bit 1 x) 31 = bit x 31" by (simp only: bit_signed_drop_bit_iff) simp
  moreover have "\<not> bit (signed_drop_bit 1 x) 31" using step IH by (cases "signed_drop_bit 1 x = 0") (auto simp: Let_def)
  ultimately show "\<not> bit x 31" by simp
qed

lemma power_of_two_bits:
  assumes "2 ^ k \<le> unat (x :: u32)" "unat x < 2 ^ (k + 1)"
  shows "x AND (x - 1) = 0 \<longleftrightarrow> unat x = 2 ^ k"
proof -
  have pos: "x \<noteq> 0" using assms(1) by auto
  then have pred: "unat (x - 1) = unat x - 1" by (simp add: unat_minus_one)
  show ?thesis
  proof
    assume eq: "unat x = 2 ^ k"
    have "unat (x AND (x - 1)) = 2 ^ k AND (2 ^ k - 1)" by (simp add: unsigned_and_eq pred eq)
    also have "\<dots> = take_bit k (2 ^ k)" by (simp only: take_bit_eq_mask mask_eq_exp_minus_1)
    also have "\<dots> = (0 :: nat)" by (simp add: take_bit_eq_mod)
    finally show "x AND (x - 1) = 0" by (simp only: unat_eq_zero)
  next
    assume zero: "x AND (x - 1) = 0"
    show "unat x = 2 ^ k"
    proof (rule ccontr)
      assume "unat x \<noteq> 2 ^ k"
      then have "unat x div 2 ^ k = 1" "(unat x - 1) div 2 ^ k = 1" using assms by (auto intro!: div_nat_eqI)
      then have "bit (unat x) k" "bit (unat (x - 1)) k" by (simp_all add: bit_iff_odd pred)
      then have "bit (x AND (x - 1)) k" by (simp add: bit_unsigned_iff bit_and_iff)
      then show False by (simp add: zero)
    qed
  qed
qed

lemma ceil_log2_eq:
  assumes "1 \<le> unat x" "unat x < 2 ^ 31"
  shows "\<exists>l. ceil_log2 x = Some l \<and> unat x \<le> 2 ^ l \<and> (\<forall>k < l. 2 ^ k < unat x)"
proof -
  let ?r = "if x AND (x - 1) \<noteq> 0 then 1 else 0 :: nat"
  obtain k where k: "shift_count x ?r = Some (?r + k)" "2 ^ k \<le> unat x" "unat x < 2 ^ (k + 1)"
    using shift_count_log [OF assms(2), of ?r] assms(1) by (auto simp: max_def split: if_splits)
  have less: "2 ^ i < (2 :: nat) ^ k" if "i < k" for i using that by simp
  show ?thesis
  proof (cases "unat x = 2 ^ k")
    case True
    then have "?r = 0" using power_of_two_bits [OF k(2,3)] by simp
    then show ?thesis using k True less by (intro exI [of _ k]) (auto simp: ceil_log2_def)
  next
    case False
    then have "?r = 1" using power_of_two_bits [OF k(2,3)] by simp
    moreover have "2 ^ i < unat x" if "i < k + 1" for i
    proof (cases "i = k")
      case False
      then have "(2 :: nat) ^ i < 2 ^ k" using that by (intro less) simp
      then show ?thesis using k(2) by (rule less_le_trans)
    qed (use k(2) \<open>unat x \<noteq> 2 ^ k\<close> in simp)
    ultimately show ?thesis using k by (intro exI [of _ "k + 1"]) (auto simp: ceil_log2_def)
  qed
qed

section \<open>Merkle trees\<close>

definition parent_hash :: "bytes \<Rightarrow> bytes \<Rightarrow> bytes" where
  "parent_hash l r = BRSHA256_2 (l @ r)"

text \<open>The node of level \<open>h\<close> over at most \<open>2 ^ h\<close> transactions; a missing right branch is the left one again.\<close>

fun merkle :: "nat \<Rightarrow> bytes list \<Rightarrow> bytes" where
  "merkle 0 xs = hd xs"
| "merkle (Suc h) xs =
     (if length xs \<le> 2 ^ h then parent_hash (merkle h xs) (merkle h xs)
      else parent_hash (merkle h (take (2 ^ h) xs)) (merkle h (drop (2 ^ h) xs)))"

text \<open>
  BIP37: the bits and hashes of a partial tree, in depth first order, for transactions that are marked where
  they match. The branches without a match are one hash.
\<close>

fun partial_tree :: "nat \<Rightarrow> (bytes \<times> bool) list \<Rightarrow> bool list \<times> bytes list" where
  "partial_tree 0 xs = ([snd (hd xs)], [fst (hd xs)])"
| "partial_tree (Suc h) xs =
     (if \<not> (\<exists>x \<in> set xs. snd x) then ([False], [merkle (Suc h) (map fst xs)])
      else if length xs \<le> 2 ^ h then (case partial_tree h xs of (b, hs) \<Rightarrow> (True # b, hs))
      else (case (partial_tree h (take (2 ^ h) xs), partial_tree h (drop (2 ^ h) xs)) of
              ((b1, hs1), (b2, hs2)) \<Rightarrow> (True # b1 @ b2, hs1 @ hs2)))"

text \<open>No node is zero, and no two branches of a node are equal unless the right one is missing.\<close>

fun clean :: "nat \<Rightarrow> bytes list \<Rightarrow> bool" where
  "clean 0 xs \<longleftrightarrow> \<not> UInt256IsZero (hd xs)"
| "clean (Suc h) xs \<longleftrightarrow>
     \<not> UInt256IsZero (merkle (Suc h) xs) \<and>
     (if length xs \<le> 2 ^ h then clean h xs
      else clean h (take (2 ^ h) xs) \<and> clean h (drop (2 ^ h) xs) \<and>
           \<not> UInt256Eq (merkle h (take (2 ^ h) xs)) (merkle h (drop (2 ^ h) xs)))"

lemma clean_root: "clean h xs \<Longrightarrow> \<not> UInt256IsZero (merkle h xs)"
  by (cases h) simp_all

text \<open>The bits \<open>b\<close> are among the flags from \<open>i\<close> on, and the hashes \<open>hs\<close> from \<open>j\<close> on.\<close>

definition has_flags :: "BRMerkleBlock \<Rightarrow> nat \<Rightarrow> bool list \<Rightarrow> bool" where
  "has_flags block i b \<longleftrightarrow> (\<forall>k < length b. flag_at block (i + k) = Some (b ! k) \<and> (i + k) div 8 < unat (flagsLen block))"

definition has_hashes :: "BRMerkleBlock \<Rightarrow> nat \<Rightarrow> bytes list \<Rightarrow> bool" where
  "has_hashes block j hs \<longleftrightarrow> (\<forall>k < length hs. hash_at block (j + k) = Some (hs ! k) \<and> j + k < unat (hashesCount block))"

lemma has_flags_simps:
  "has_flags block i (x # b) \<longleftrightarrow> flag_at block i = Some x \<and> i div 8 < unat (flagsLen block) \<and> has_flags block (i + 1) b"
  "has_flags block i (a @ b) \<longleftrightarrow> has_flags block i a \<and> has_flags block (i + length a) b"
proof -
  show *: "has_flags block i (x # b) \<longleftrightarrow> flag_at block i = Some x \<and> i div 8 < unat (flagsLen block) \<and> has_flags block (i + 1) b" for i x b
    by (auto simp: has_flags_def less_Suc_eq_0_disj nth_Cons split: nat.splits)
  show "has_flags block i (a @ b) \<longleftrightarrow> has_flags block i a \<and> has_flags block (i + length a) b"
    by (induction a arbitrary: i) (auto simp: *, simp_all add: has_flags_def)
qed

lemma has_hashes_simps:
  "has_hashes block j (x # hs) \<longleftrightarrow> hash_at block j = Some x \<and> j < unat (hashesCount block) \<and> has_hashes block (j + 1) hs"
  "has_hashes block j (a @ hs) \<longleftrightarrow> has_hashes block j a \<and> has_hashes block (j + length a) hs"
proof -
  show *: "has_hashes block j (x # hs) \<longleftrightarrow> hash_at block j = Some x \<and> j < unat (hashesCount block) \<and> has_hashes block (j + 1) hs" for j x hs
    by (auto simp: has_hashes_def less_Suc_eq_0_disj nth_Cons split: nat.splits)
  show "has_hashes block j (a @ hs) \<longleftrightarrow> has_hashes block j a \<and> has_hashes block (j + length a) hs"
    by (induction a arbitrary: j) (auto simp: *, simp_all add: has_hashes_def)
qed

lemma partial_tree_hashes: "snd (partial_tree h xs) \<noteq> []"
proof (induction h arbitrary: xs)
  case (Suc h)
  from Suc.IH [of xs] Suc.IH [of "take (2 ^ h) xs"] show ?case by (auto split: prod.splits)
qed simp

lemma not_zero: "\<not> UInt256IsZero u \<Longrightarrow> \<not> UInt256Eq u UINT256_ZERO" "UInt256IsZero UINT256_ZERO"
proof -
  have "UInt64GetLE UINT256_ZERO = 0" "UInt64GetLE (drop 8 UINT256_ZERO) = 0" "UInt64GetLE (drop 16 UINT256_ZERO) = 0"
      "UInt64GetLE (drop 24 UINT256_ZERO) = 0"
    by (simp_all add: UINT256_ZERO_def UInt64GetLE_def)
  then show "\<not> UInt256IsZero u \<Longrightarrow> \<not> UInt256Eq u UINT256_ZERO" "UInt256IsZero UINT256_ZERO"
    by (auto simp: UInt256IsZero_def UInt256Eq_def)
qed

section \<open>One step of the walks\<close>

lemma RootR_step:
  "\<not> more_nodes block j i \<Longrightarrow> BRMerkleBlockRootR block (j, i) d = Some (UINT256_ZERO, j, i)"
  "more_nodes block j i \<Longrightarrow> flag_at block i = Some f \<Longrightarrow> (f \<Longrightarrow> ceil_log2 (totalTx block) = Some d) \<Longrightarrow> hash_at block j = Some h \<Longrightarrow>
    BRMerkleBlockRootR block (j, i) d = Some (h, j + 1, i + 1)"
  "more_nodes block j i \<Longrightarrow> flag_at block i = Some True \<Longrightarrow> ceil_log2 (totalTx block) = Some l \<Longrightarrow> d \<noteq> l \<Longrightarrow>
    BRMerkleBlockRootR block (j, i + 1) (d + 1) = Some (left, st) \<Longrightarrow> BRMerkleBlockRootR block st (d + 1) = Some (right, j2, i2) \<Longrightarrow>
    BRMerkleBlockRootR block (j, i) d =
      Some (if \<not> UInt256IsZero left \<and> \<not> UInt256Eq left right
            then (parent_hash left (if UInt256IsZero right then left else right), j2, i2) else (UINT256_ZERO, SIZE_MAX, i2))"
  by (subst BRMerkleBlockRootR.simps, simp add: parent_hash_def)+

lemma TxHashesR_step:
  "\<not> more_nodes block j i \<Longrightarrow> BRMerkleBlockTxHashesR block True cap (found, j, i) d = Some (found, j, i)"
  "more_nodes block j i \<Longrightarrow> flag_at block i = Some f \<Longrightarrow> (f \<Longrightarrow> ceil_log2 (totalTx block) = Some d) \<Longrightarrow> hash_at block j = Some h \<Longrightarrow>
    BRMerkleBlockTxHashesR block True cap (found, j, i) d = Some (if f \<and> length found < cap then found @ [h] else found, j + 1, i + 1)"
  "more_nodes block j i \<Longrightarrow> flag_at block i = Some True \<Longrightarrow> ceil_log2 (totalTx block) = Some l \<Longrightarrow> d \<noteq> l \<Longrightarrow>
    BRMerkleBlockTxHashesR block True cap (found, j, i) d =
      BRMerkleBlockTxHashesR block True cap (found, j, i + 1) (d + 1) \<bind> (\<lambda>st. BRMerkleBlockTxHashesR block True cap st (d + 1))"
  by (subst BRMerkleBlockTxHashesR.simps, simp)+

text \<open>Without an output array the walk goes the same way.\<close>

lemma TxHashesR_count:
  assumes "BRMerkleBlockTxHashesR block True cap st d = Some res"
  shows "BRMerkleBlockTxHashesR block False cap (map (\<lambda>_. []) (fst st), snd st) d = Some (map (\<lambda>_. []) (fst res), snd res)"
proof -
  define P where "P = (\<lambda>block out cap (st :: bytes list \<times> nat \<times> nat) d (res :: bytes list \<times> nat \<times> nat).
    out \<longrightarrow> BRMerkleBlockTxHashesR block False cap (map (\<lambda>_. []) (fst st), snd st) d = Some (map (\<lambda>_. []) (fst res), snd res))"
  have "P block True cap st d res"
  proof (rule BRMerkleBlockTxHashesR.raw_induct [of P, OF _ assms])
    fix rec :: "BRMerkleBlock \<Rightarrow> bool \<Rightarrow> nat \<Rightarrow> bytes list \<times> nat \<times> nat \<Rightarrow> nat \<Rightarrow> (bytes list \<times> nat \<times> nat) option"
      and block out cap st d res
    assume IH: "\<And>block out cap st d res. rec block out cap st d = Some res \<Longrightarrow> P block out cap st d res"
      and step: "(case st of (found, hashIdx, flagIdx) \<Rightarrow>
        if more_nodes block hashIdx flagIdx then
          flag_at block flagIdx \<bind> (\<lambda>flag.
          (if \<not> flag then Some True else ceil_log2 (totalTx block) \<bind> (\<lambda>l. Some (d = l))) \<bind> (\<lambda>leaf.
          if leaf then
            (if flag \<and> length found < cap
             then (if out then hash_at block hashIdx else Some []) \<bind> (\<lambda>h. Some (found @ [h], hashIdx + 1, flagIdx + 1))
             else Some (found, hashIdx + 1, flagIdx + 1))
          else rec block out cap (found, hashIdx, flagIdx + 1) (d + 1) \<bind> (\<lambda>st'. rec block out cap st' (d + 1))))
        else Some st) = Some res"
    obtain found j i where st: "st = (found, j, i)" by (cases st)
    show "P block out cap st d res"
    proof (cases out)
      case out: True
      have "BRMerkleBlockTxHashesR block False cap (map (\<lambda>_. []) found, j, i) d = Some (map (\<lambda>_. []) (fst res), snd res)"
      proof (cases "more_nodes block j i")
        case False
        then show ?thesis using step by (subst BRMerkleBlockTxHashesR.simps) (auto simp: st)
      next
        case more: True
        then obtain f where f: "flag_at block i = Some f" using step by (auto simp: st split: bind_splits)
        show ?thesis
        proof (cases "f \<and> ceil_log2 (totalTx block) \<noteq> Some d")
          case False
          then show ?thesis using step more f out
            by (subst BRMerkleBlockTxHashesR.simps) (auto simp: st split: bind_splits if_splits)
        next
          case True
          then obtain l where l: "ceil_log2 (totalTx block) = Some l" "d \<noteq> l" using step more f by (auto simp: st split: bind_splits)
          then obtain st1 where rec: "rec block True cap (found, j, i + 1) (d + 1) = Some st1" "rec block True cap st1 (d + 1) = Some res"
            using step more f True out by (auto simp: st split: bind_splits)
          from IH [OF rec(1)] IH [OF rec(2)]
          have "BRMerkleBlockTxHashesR block False cap (map (\<lambda>_. []) found, j, i + 1) (d + 1) = Some (map (\<lambda>_. []) (fst st1), snd st1)"
            "BRMerkleBlockTxHashesR block False cap (map (\<lambda>_. []) (fst st1), snd st1) (d + 1) = Some (map (\<lambda>_. []) (fst res), snd res)"
            by (simp_all add: P_def)
          then show ?thesis using more f True l by (subst BRMerkleBlockTxHashesR.simps) simp
        qed
      qed
      then show ?thesis by (simp add: P_def st)
    qed (simp add: P_def)
  qed
  then show ?thesis by (simp add: P_def)
qed

section \<open>Both walks read a partial tree\<close>

lemma no_more: "j = unat (hashesCount block) \<Longrightarrow> \<not> more_nodes block j i"
  by (simp add: more_nodes_def)

lemma walks_read:
  assumes "ceil_log2 (totalTx block) = Some l" "xs \<noteq> []" "length xs \<le> 2 ^ h" "d + h = l" "clean h (map fst xs)"
    "partial_tree h xs = (b, hs)" "has_flags block i b" "has_hashes block j hs"
    "length xs = 2 ^ h \<or> j + length hs = unat (hashesCount block)"
  shows "BRMerkleBlockRootR block (j, i) d = Some (merkle h (map fst xs), j + length hs, i + length b) \<and>
    (length found + length (filter snd xs) \<le> cap \<longrightarrow>
      BRMerkleBlockTxHashesR block True cap (found, j, i) d = Some (found @ map fst (filter snd xs), j + length hs, i + length b))"
  using assms(2-)
proof (induction h arbitrary: xs d b hs i j found)
  case 0
  then obtain x where xs: "xs = [x]" by (cases xs) auto
  have node: "more_nodes block j i" "flag_at block i = Some (snd x)" "hash_at block j = Some (fst x)"
    using 0 by (auto simp: xs more_nodes_def has_flags_simps has_hashes_simps)
  have d: "d = l" using 0 by simp
  show ?case
    using RootR_step(2) [OF node(1,2) _ node(3)] TxHashesR_step(2) [OF node(1,2) _ node(3)] assms(1) 0 d by (auto simp: xs)
next
  case (Suc h)
  let ?a = "take (2 ^ h) xs" and ?z = "drop (2 ^ h) xs"
  have dl: "d \<noteq> l" "(d + 1) + h = l" using Suc.prems(3) by auto
  show ?case
  proof (cases "\<exists>x \<in> set xs. snd x")
    case False
    then have b: "b = [False]" "hs = [merkle (Suc h) (map fst xs)]" using Suc.prems(5) by auto
    then have node: "more_nodes block j i" "flag_at block i = Some False" "hash_at block j = Some (merkle (Suc h) (map fst xs))"
      using Suc.prems(6,7) by (auto simp: more_nodes_def has_flags_simps has_hashes_simps)
    have "filter snd xs = []" using False by (auto simp: filter_empty_conv)
    then show ?thesis
      using RootR_step(2) [OF node(1,2) _ node(3)] TxHashesR_step(2) [OF node(1,2) _ node(3)] by (simp add: b del: merkle.simps)
  next
    case match: True
    show ?thesis
    proof (cases "length xs \<le> 2 ^ h")
      case True
      obtain b1 hs1 where sub: "partial_tree h xs = (b1, hs1)" by fastforce
      then have b: "b = True # b1" "hs = hs1" using Suc.prems(5) match True by auto
      have hs1: "hs1 \<noteq> []" using partial_tree_hashes [of h xs] sub by simp
      then have node: "more_nodes block j i" "flag_at block i = Some True" "has_flags block (i + 1) b1"
        using Suc.prems(6,7) by (auto simp: b more_nodes_def has_flags_simps has_hashes_simps neq_Nil_conv)
      have last: "j + length hs1 = unat (hashesCount block)" using Suc.prems(8) True by (auto simp: b)
      have clean: "clean h (map fst xs)" using Suc.prems(4) True by simp
      have hyp: "has_hashes block j hs1" "length xs = 2 ^ h \<or> j + length hs1 = unat (hashesCount block)"
        using Suc.prems(7) last by (simp_all add: b)
      note IH = Suc.IH [OF Suc.prems(1) True dl(2) clean sub node(3) hyp]
      note rest = no_more [OF last]
      have "\<not> UInt256Eq (merkle h (map fst xs)) UINT256_ZERO" "UInt256IsZero UINT256_ZERO"
        using clean_root [OF clean] not_zero by auto
      then show ?thesis
        using RootR_step(3) [OF node(1,2) assms(1) dl(1) IH [THEN conjunct1] RootR_step(1) [OF rest]] clean_root [OF clean]
          TxHashesR_step(3) [OF node(1,2) assms(1) dl(1)] IH [THEN conjunct2] TxHashesR_step(1) [OF rest] True
        by (simp add: b)
    next
      case False
      obtain b1 hs1 b2 hs2 where sub: "partial_tree h ?a = (b1, hs1)" "partial_tree h ?z = (b2, hs2)" by fastforce
      then have b: "b = True # b1 @ b2" "hs = hs1 @ hs2" using Suc.prems(5) match False by auto
      have hs1: "hs1 \<noteq> []" using partial_tree_hashes [of h ?a] sub by simp
      then have node: "more_nodes block j i" "flag_at block i = Some True" "has_flags block (i + 1) b1" "has_flags block (i + 1 + length b1) b2"
          "has_hashes block j hs1" "has_hashes block (j + length hs1) hs2"
        using Suc.prems(6,7) by (auto simp: b more_nodes_def has_flags_simps has_hashes_simps neq_Nil_conv)
      have parts: "?a \<noteq> []" "?z \<noteq> []" "length ?a = 2 ^ h" "length ?z \<le> 2 ^ h" using False Suc.prems(1,2) by auto
      have clean: "clean h (map fst ?a)" "clean h (map fst ?z)" "\<not> UInt256Eq (merkle h (map fst ?a)) (merkle h (map fst ?z))"
        using Suc.prems(4) False by (simp_all add: take_map drop_map)
      have "length ?z = 2 ^ h \<or> j + length hs1 + length hs2 = unat (hashesCount block)"
        using Suc.prems(8) False by (auto simp: b)
      note IH2 = Suc.IH [OF parts(2,4) dl(2) clean(2) sub(2) node(4,6) this]
      note IH1 = Suc.IH [OF parts(1) _ dl(2) clean(1) sub(1) node(3,5)]
      have filter: "filter snd xs = filter snd ?a @ filter snd ?z" by (metis append_take_drop_id filter_append)
      show ?thesis
        using RootR_step(3) [OF node(1,2) assms(1) dl(1) IH1 [THEN conjunct1] IH2 [THEN conjunct1]] clean_root [OF clean(1)] clean_root [OF clean(2)] clean(3)
          TxHashesR_step(3) [OF node(1,2) assms(1) dl(1)] IH1 [THEN conjunct2] IH2 [THEN conjunct2] parts(3) False
        by (auto simp: b filter take_map drop_map)
    qed
  qed
qed

section \<open>Every hash found leads to the root\<close>

text \<open>
  An inclusion proof: the siblings from a leaf up, each with the side of the node on the way.
\<close>

fun climb :: "bytes \<Rightarrow> (bool \<times> bytes) list \<Rightarrow> bytes" where
  "climb x [] = x"
| "climb x ((on_left, sibling) # path) = climb (if on_left then parent_hash x sibling else parent_hash sibling x) path"

lemma climb_append: "climb x (path @ [(on_left, sibling)]) = (if on_left then parent_hash (climb x path) sibling else parent_hash sibling (climb x path))"
  by (induction x path rule: climb.induct) simp_all

text \<open>
  The hash \<open>x\<close> is a leaf, at the level \<open>l\<close>, of a tree with the node \<open>md\<close> at the level \<open>d\<close>, or it is at or below a zero hash
  that is deeper than that.
\<close>

definition included :: "nat \<Rightarrow> nat \<Rightarrow> bytes \<Rightarrow> bytes \<Rightarrow> bool" where
  "included l d md x \<longleftrightarrow>
     length x = 32 \<and>
     (\<exists>path. list_all (\<lambda>(_, sibling). length sibling = 32) path \<and>
        (length path + d = l \<and> climb x path = md \<or> length path + d < l \<and> UInt256IsZero (climb x path)))"

definition sound_hashes :: "BRMerkleBlock \<Rightarrow> nat \<Rightarrow> bytes list \<Rightarrow> bytes \<Rightarrow> bool" where
  "sound_hashes block d new md \<longleftrightarrow> (\<forall>x \<in> set new. \<exists>l. ceil_log2 (totalTx block) = Some l \<and> included l d md x)"

lemma included_up:
  assumes "included l (Suc d) md x" "length sibling = 32" "UInt256IsZero md \<or> md' = (if on_left then parent_hash md sibling else parent_hash sibling md)"
  shows "included l d md' x"
proof -
  obtain path where x: "length x = 32" "list_all (\<lambda>(_, sibling). length sibling = 32) path"
      "length path + Suc d = l \<and> climb x path = md \<or> length path + Suc d < l \<and> UInt256IsZero (climb x path)"
    using assms(1) by (auto simp: included_def)
  show ?thesis
  proof (cases "length path + Suc d = l \<and> climb x path = md \<and> \<not> UInt256IsZero md")
    case True
    then have "climb x (path @ [(on_left, sibling)]) = md'" using assms(3) by (simp add: climb_append)
    then show ?thesis using x(1,2) True assms(2) unfolding included_def by (intro conjI exI [of _ "path @ [(on_left, sibling)]"]) simp_all
  next
    case False
    then have "length path + d < l \<and> UInt256IsZero (climb x path)" using x(3) by auto
    then show ?thesis using x(1,2) unfolding included_def by blast
  qed
qed

lemma hash_at_length: "hash_at block j = Some h \<Longrightarrow> length h = 32"
  by (auto simp: hash_at_def Let_def split: if_splits)

lemma length_parent_hash [simp]: "length (parent_hash l r) = 32"
  by (simp add: parent_hash_def)

definition walk_sound :: "BRMerkleBlock \<Rightarrow> nat \<times> nat \<Rightarrow> nat \<Rightarrow> bytes \<times> nat \<times> nat \<Rightarrow> bool" where
  "walk_sound block st d res \<longleftrightarrow>
     (fst st = SIZE_MAX \<longrightarrow> fst (snd res) = SIZE_MAX) \<and> length (fst res) = 32 \<and>
     (fst (snd res) \<noteq> SIZE_MAX \<longrightarrow>
        (\<forall>found cap. \<exists>new. BRMerkleBlockTxHashesR block True cap (found, fst st, snd st) d = Some (found @ new, snd res) \<and>
           sound_hashes block d new (fst res)))"

lemma SIZE_MAX_end: "\<not> more_nodes block SIZE_MAX i"
proof -
  have "unat (hashesCount block) < 2 ^ LENGTH(64)" by (rule unsigned_less)
  then show ?thesis by (simp add: more_nodes_def SIZE_MAX_def)
qed

lemma sound_inner:
  assumes "sound_hashes block (Suc d) new1 l" "sound_hashes block (Suc d) new2 r" "length l = 32" "length r = 32"
  shows "sound_hashes block d (new1 @ new2) (parent_hash l (if UInt256IsZero r then l else r))"
proof -
  have "included n d (parent_hash l (if UInt256IsZero r then l else r)) x" if "included n (Suc d) l x" for n x
    by (rule included_up [OF that, where on_left = True and sibling = "if UInt256IsZero r then l else r"]) (use assms(3,4) in simp_all)
  moreover have "included n d (parent_hash l (if UInt256IsZero r then l else r)) x" if "included n (Suc d) r x" for n x
    by (rule included_up [OF that, where on_left = False and sibling = l]) (use assms(3,4) in simp_all)
  ultimately show ?thesis using assms(1,2) unfolding sound_hashes_def by auto
qed

lemma RootR_sound:
  assumes "BRMerkleBlockRootR block st d = Some res"
  shows "walk_sound block st d res"
proof (rule BRMerkleBlockRootR.raw_induct [of walk_sound, OF _ assms])
  fix rec :: "BRMerkleBlock \<Rightarrow> nat \<times> nat \<Rightarrow> nat \<Rightarrow> (bytes \<times> nat \<times> nat) option" and block st d res
  assume IH: "\<And>block st d res. rec block st d = Some res \<Longrightarrow> walk_sound block st d res"
    and step: "(case st of (hashIdx, flagIdx) \<Rightarrow>
        if more_nodes block hashIdx flagIdx then
          flag_at block flagIdx \<bind> (\<lambda>flag.
          (if \<not> flag then Some False else ceil_log2 (totalTx block) \<bind> (\<lambda>l. Some (d \<noteq> l))) \<bind> (\<lambda>inner.
          if inner then
            rec block (hashIdx, flagIdx + 1) (d + 1) \<bind> (\<lambda>(left, st1).
            rec block st1 (d + 1) \<bind> (\<lambda>(right, hashIdx2, flagIdx2).
            Some (if \<not> UInt256IsZero left \<and> \<not> UInt256Eq left right
                  then (BRSHA256_2 (left @ (if UInt256IsZero right then left else right)), hashIdx2, flagIdx2)
                  else (UINT256_ZERO, SIZE_MAX, flagIdx2))))
          else hash_at block hashIdx \<bind> (\<lambda>h. Some (h, hashIdx + 1, flagIdx + 1))))
        else Some (UINT256_ZERO, hashIdx, flagIdx)) = Some res"
  obtain j i where st: "st = (j, i)" by (cases st)
  show "walk_sound block st d res"
  proof (cases "more_nodes block j i")
    case False
    then show ?thesis using step TxHashesR_step(1) [OF False] by (auto simp: walk_sound_def st sound_hashes_def UINT256_ZERO_def)
  next
    case more: True
    then have j: "j \<noteq> SIZE_MAX" using SIZE_MAX_end by auto
    obtain f where f: "flag_at block i = Some f" using step more by (auto simp: st split: bind_splits)
    show ?thesis
    proof (cases "f \<and> ceil_log2 (totalTx block) \<noteq> Some d")
      case False
      then obtain h where h: "hash_at block j = Some h" "res = (h, j + 1, i + 1)"
        using step more f by (auto simp: st split: bind_splits if_splits)
      have "BRMerkleBlockTxHashesR block True cap (found, j, i) d = Some (if f \<and> length found < cap then found @ [h] else found, j + 1, i + 1)" for cap found
        by (rule TxHashesR_step(2) [OF more f _ h(1)]) (use False in auto)
      moreover have "f \<Longrightarrow> included d d h h"
        using hash_at_length [OF h(1)] by (auto simp: included_def intro: exI [of _ "[]"])
      moreover have "f \<Longrightarrow> ceil_log2 (totalTx block) = Some d" using False by simp
      ultimately show ?thesis using j hash_at_length [OF h(1)]
        by (cases f) (auto simp: walk_sound_def st h(2) sound_hashes_def)
    next
      case True
      then obtain l where l: "ceil_log2 (totalTx block) = Some l" "d \<noteq> l"
        using step more f by (auto simp: st split: bind_splits)
      then obtain left j1 i1 right j2 i2 where rec: "rec block (j, i + 1) (d + 1) = Some (left, j1, i1)" "rec block (j1, i1) (d + 1) = Some (right, j2, i2)"
          and res: "res = (if \<not> UInt256IsZero left \<and> \<not> UInt256Eq left right
            then (parent_hash left (if UInt256IsZero right then left else right), j2, i2) else (UINT256_ZERO, SIZE_MAX, i2))"
        using step more f True by (auto simp: st parent_hash_def split: bind_splits)
      note IH1 = IH [OF rec(1), unfolded walk_sound_def fst_conv snd_conv] and IH2 = IH [OF rec(2), unfolded walk_sound_def fst_conv snd_conv]
      have "\<exists>new. BRMerkleBlockTxHashesR block True cap (found, j, i) d = Some (found @ new, snd res) \<and> sound_hashes block d new (fst res)"
        if "fst (snd res) \<noteq> SIZE_MAX" for cap found
      proof -
        have res: "res = (parent_hash left (if UInt256IsZero right then left else right), j2, i2)" "j2 \<noteq> SIZE_MAX"
          using that res by (auto split: if_splits)
        then have "j1 \<noteq> SIZE_MAX" using IH2 by blast
        then obtain new1 where new1: "BRMerkleBlockTxHashesR block True cap (found, j, i + 1) (d + 1) = Some (found @ new1, j1, i1)" "sound_hashes block (d + 1) new1 left"
          using IH1 by blast
        obtain new2 where new2: "BRMerkleBlockTxHashesR block True cap (found @ new1, j1, i1) (d + 1) = Some ((found @ new1) @ new2, j2, i2)" "sound_hashes block (d + 1) new2 right"
          using IH2 res(2) by blast
        have "f" using True by simp
        then have "BRMerkleBlockTxHashesR block True cap (found, j, i) d = Some (found @ new1 @ new2, j2, i2)"
          using TxHashesR_step(3) [OF more _ l, of cap found] f new1(1) new2(1) by simp
        then show ?thesis using sound_inner [of block d new1 left new2 right] new1(2) new2(2) IH1 IH2
          by (intro exI [of _ "new1 @ new2"]) (simp add: res)
      qed
      then show ?thesis using j by (simp add: walk_sound_def st res  UINT256_ZERO_def)
    qed
  qed
qed

section \<open>Properties\<close>

text \<open>
  C6: Partial Merkle trees. For a block of fewer than \<open>2 ^ 31\<close> transactions, whose Merkle tree has no zero
  node and no two equal branches, the partial tree that BIP37 prescribes for any set of matching
  transactions is valid against the root of the full tree, and \<open>BRMerkleBlockTxHashes\<close> returns exactly the
  matching transactions in their order; the tree has the least number of levels that is enough.
\<close>

theorem partial_tree_accepted:
  assumes n: "1 \<le> length xs" "length xs < 2 ^ 31" "totalTx block = of_nat (length xs)"
    and level: "ceil_log2 (totalTx block) = Some l" and clean: "clean l (map fst xs)"
    and tree: "partial_tree l xs = (b, hs)" "has_flags block 0 b" "has_hashes block 0 hs" "hashesCount block = of_nat (length hs)" "length hs < 2 ^ 64"
    and header: "merkleRoot block = merkle l (map fst xs)" "\<not> blkTimestamp block > now + BLOCK_MAX_TIME_DRIFT"
    and cap: "length (filter snd xs) \<le> cap"
  shows "BRMerkleBlockIsValid block now = Some True \<and>
    BRMerkleBlockTxHashes block (Some cap) = Some (map fst (filter snd xs), length (filter snd xs)) \<and>
    BRMerkleBlockTxHashes block None = Some ([], length (filter snd xs)) \<and>
    length xs \<le> 2 ^ l \<and> (\<forall>k < l. 2 ^ k < length xs)"
proof -
  have total: "unat (totalTx block) = length xs" using n by (simp add: unat_of_nat_small)
  have l: "length xs \<le> 2 ^ l" "\<forall>k < l. 2 ^ k < length xs"
    using ceil_log2_eq [of "totalTx block"] n level total by auto
  have ne: "xs \<noteq> []" using n(1) by auto
  have walks: "BRMerkleBlockRootR block (0, 0) 0 = Some (merkle l (map fst xs), length hs, length b) \<and>
    (length (filter snd xs) \<le> cap \<longrightarrow> BRMerkleBlockTxHashesR block True cap ([], 0, 0) 0 = Some (map fst (filter snd xs), length hs, length b))" for cap
    using walks_read [OF level ne l(1) _ clean tree(1-3), of 0 "[]" cap] tree(4,5) by (simp add: unat_of_nat_small)
  have "length (filter snd xs) \<le> 2 ^ 64 - 1" using n(2) by (intro order_trans [OF length_filter_le]) simp
  then have count: "BRMerkleBlockTxHashesR block False (2 ^ 64 - 1) ([], 0, 0) 0 = Some (map (\<lambda>_. []) (map fst (filter snd xs)), length hs, length b)"
    using walks [of "2 ^ 64 - 1"] TxHashesR_count [of block "2 ^ 64 - 1" "([], 0, 0)" 0] by fastforce
  show ?thesis
    using walks [of cap] count header cap l
    by (simp add: BRMerkleBlockIsValid_def BRMerkleBlockTxHashes_def UInt256Eq_def)
qed

text \<open>
  C7: Matched transactions. If the walk that computes the root has not met two equal branches (which it
  marks by \<open>SIZE_MAX\<close>), every hash that \<open>BRMerkleBlockTxHashes\<close> returns is a leaf of a Merkle tree with that
  root and with the number of levels that \<open>totalTx\<close> prescribes: one sibling of 32 bytes for each level leads from the hash
  to the root. The one exception is a hash at or below a zero hash, which the walk takes for a missing branch: fewer
  siblings than levels lead from the hash to zero. So the hash is itself zero, or it shows an inverse image of zero
  under the double SHA256.
\<close>

theorem matched_hashes_sound:
  assumes "BRMerkleBlockRootR block (0, 0) 0 = Some (root, hashIdx, flagIdx)" "hashIdx \<noteq> SIZE_MAX"
  shows "\<exists>found. BRMerkleBlockTxHashes block (Some cap) = Some (found, length found) \<and>
    (\<forall>x \<in> set found. length x = 32 \<and> (\<exists>levels path. ceil_log2 (totalTx block) = Some levels \<and>
       list_all (\<lambda>(_, sibling). length sibling = 32) path \<and>
       (length path = levels \<and> climb x path = root \<or> length path < levels \<and> UInt256IsZero (climb x path))))"
proof -
  obtain new where "BRMerkleBlockTxHashesR block True cap ([], 0, 0) 0 = Some (new, hashIdx, flagIdx)" "sound_hashes block 0 new root"
    using RootR_sound [OF assms(1), unfolded walk_sound_def fst_conv snd_conv] assms(2) by (metis append_Nil)
  then show ?thesis by (simp add: BRMerkleBlockTxHashes_def sound_hashes_def included_def) blast
qed

definition forged_block :: "BRMerkleBlock \<Rightarrow> bytes \<Rightarrow> bytes \<Rightarrow> bytes \<Rightarrow> bytes \<Rightarrow> BRMerkleBlock" where
  "forged_block block t1 t2 t3 f =
     block\<lparr>totalTx := 5, hashes := Some (parent_hash t1 t2 @ t3 @ f @ f), hashesCount := 4, flags := Some [0x75], flagsLen := 1\<rparr>"

lemma forged_block_level: "ceil_log2 (totalTx (forged_block block t1 t2 t3 f)) = Some 3"
proof -
  obtain l where l: "ceil_log2 (5 :: u32) = Some l" "5 \<le> (2 :: nat) ^ l" "\<forall>k < l. 2 ^ k < (5 :: nat)"
    using ceil_log2_eq [of 5] by auto
  have "\<not> l \<le> 2" using l(2) power_increasing [of l 2 "2 :: nat"] by auto
  moreover have "\<not> 3 < l" using l(3) by auto
  ultimately show ?thesis using l(1) by (simp add: forged_block_def)
qed

lemma forged_accepted:
  assumes c: "\<not> UInt256IsZero (parent_hash t1 t2)" "\<not> UInt256IsZero t3" "\<not> UInt256IsZero (parent_hash t3 t3)"
      "\<not> UInt256Eq (parent_hash t1 t2) (parent_hash t3 t3)"
    and size: "length t3 = 32" "length f = 32"
    and header: "merkleRoot block = merkle 2 [t1, t2, t3]" "blkTimestamp block \<le> now + BLOCK_MAX_TIME_DRIFT"
  shows "BRMerkleBlockIsValid (forged_block block t1 t2 t3 f) now = Some True \<and>
    BRMerkleBlockTxHashes (forged_block block t1 t2 t3 f) (Some 2) = Some ([f, f], 2)"
proof -
  let ?b = "forged_block block t1 t2 t3 f" and ?a = "parent_hash t1 t2"
  note level = forged_block_level [of block t1 t2 t3 f]
  have nodes: "more_nodes ?b j i" if "j < 4" "i < 7" for j i
    using that by (simp add: more_nodes_def forged_block_def)
  have flags: "flag_at ?b 0 = Some True" "flag_at ?b 1 = Some False" "flag_at ?b 2 = Some True" "flag_at ?b 3 = Some False"
      "flag_at ?b 4 = Some True" "flag_at ?b 5 = Some True" "flag_at ?b 6 = Some True"
    by (simp_all add: flag_at_def forged_block_def)
  have hashes: "hash_at ?b 0 = Some ?a" "hash_at ?b 1 = Some t3" "hash_at ?b 2 = Some f" "hash_at ?b 3 = Some f"
    using size by (simp_all add: hash_at_def forged_block_def)
  have f: "UInt256Eq f f" by (simp add: UInt256Eq_def)
  note leaf = RootR_step(2) [OF nodes] and inner = RootR_step(3) [OF nodes _ level]
  have r1: "BRMerkleBlockRootR ?b (0, 1) 1 = Some (?a, 1, 2)" using leaf [where j = 0 and i = 1 and f = False and h = "?a" and d = 1] flags hashes by simp
  have r2: "BRMerkleBlockRootR ?b (1, 3) 2 = Some (t3, 2, 4)" using leaf [where j = 1 and i = 3 and f = False and h = t3 and d = 2] flags hashes by simp
  have r3: "BRMerkleBlockRootR ?b (2, 5) 3 = Some (f, 3, 6)" using leaf [where j = 2 and i = 5 and f = True and h = f and d = 3] flags hashes level by simp
  have r4: "BRMerkleBlockRootR ?b (3, 6) 3 = Some (f, 4, 7)" using leaf [where j = 3 and i = 6 and f = True and h = f and d = 3] flags hashes level by simp
  have r5: "BRMerkleBlockRootR ?b (2, 4) 2 = Some (UINT256_ZERO, SIZE_MAX, 7)"
    using inner [where j = 2 and i = 4 and d = 2 and left = f and st = "(3, 6)" and right = f and ?j2.0 = 4 and ?i2.0 = 7] flags r3 r4 f by simp
  have r6: "BRMerkleBlockRootR ?b (1, 2) 1 = Some (parent_hash t3 t3, SIZE_MAX, 7)"
    using inner [where j = 1 and i = 2 and d = 1 and left = t3 and st = "(2, 4)" and right = UINT256_ZERO and ?j2.0 = SIZE_MAX and ?i2.0 = 7] flags r2 r5 c not_zero by (simp add: numeral_2_eq_2 numeral_3_eq_3)
  have root: "BRMerkleBlockRootR ?b (0, 0) 0 = Some (merkle 2 [t1, t2, t3], SIZE_MAX, 7)"
    using inner [where j = 0 and i = 0 and d = 0 and left = "?a" and st = "(1, 2)" and right = "parent_hash t3 t3" and ?j2.0 = SIZE_MAX and ?i2.0 = 7] flags r1 r6 c by (simp add: numeral_eq_Suc)
  note leaf = TxHashesR_step(2) [OF nodes] and inner = TxHashesR_step(3) [OF nodes _ level]
  have t1: "BRMerkleBlockTxHashesR ?b True 2 ([], 0, 1) 1 = Some ([], 1, 2)" using leaf [where j = 0 and i = 1 and f = False and h = "?a" and d = 1 and cap = 2 and found = "[]"] flags hashes by simp
  have t2: "BRMerkleBlockTxHashesR ?b True 2 ([], 1, 3) 2 = Some ([], 2, 4)" using leaf [where j = 1 and i = 3 and f = False and h = t3 and d = 2 and cap = 2 and found = "[]"] flags hashes by simp
  have t3: "BRMerkleBlockTxHashesR ?b True 2 ([], 2, 5) 3 = Some ([f], 3, 6)" using leaf [where j = 2 and i = 5 and f = True and h = f and d = 3 and cap = 2 and found = "[]"] flags hashes level by simp
  have t4: "BRMerkleBlockTxHashesR ?b True 2 ([f], 3, 6) 3 = Some ([f, f], 4, 7)" using leaf [where j = 3 and i = 6 and f = True and h = f and d = 3 and cap = 2 and found = "[f]"] flags hashes level by simp
  have t5: "BRMerkleBlockTxHashesR ?b True 2 ([], 2, 4) 2 = Some ([f, f], 4, 7)" using inner [where j = 2 and i = 4 and d = 2 and cap = 2 and found = "[]"] flags t3 t4 by simp
  have t6: "BRMerkleBlockTxHashesR ?b True 2 ([], 1, 2) 1 = Some ([f, f], 4, 7)" using inner [where j = 1 and i = 2 and d = 1 and cap = 2 and found = "[]"] flags t2 t5 by (simp add: numeral_2_eq_2 numeral_3_eq_3)
  have "BRMerkleBlockTxHashesR ?b True 2 ([], 0, 0) 0 = Some ([f, f], 4, 7)" using inner [where j = 0 and i = 0 and d = 0 and cap = 2 and found = "[]"] flags t1 t6 by simp
  then show ?thesis
    using root header by (simp add: BRMerkleBlockIsValid_def BRMerkleBlockTxHashes_def UInt256Eq_def forged_block_def)
qed

text \<open>
  C36: A forged match. For the header of a block of three transactions and for every transaction hash at all,
  there is a merkle block with this header that \<open>BRMerkleBlockIsValid\<close> accepts and for which
  \<open>BRMerkleBlockTxHashes\<close> reports this hash, unless one of the nodes of the tree is zero or two of them
  collide: the missing right branch holds the hash twice, and the zero that marks two equal branches is then
  taken for a missing branch.
\<close>

theorem forged_match:
  assumes size: "length t3 = 32" "length f = 32"
    and header: "merkleRoot block = merkle 2 [t1, t2, t3]" "blkTimestamp block \<le> now + BLOCK_MAX_TIME_DRIFT"
  shows "UInt256IsZero t3 \<or> UInt256IsZero (parent_hash t1 t2) \<or> UInt256Eq (parent_hash t1 t2) (parent_hash t3 t3) \<or>
    UInt256IsZero (parent_hash t3 t3) \<or>
    (BRMerkleBlockIsValid (forged_block block t1 t2 t3 f) now = Some True \<and>
     BRMerkleBlockTxHashes (forged_block block t1 t2 t3 f) (Some 2) = Some ([f, f], 2))"
  using forged_accepted [OF _ _ _ _ size header] by blast

text \<open>Three transactions and a header, and the hash 9, 9, 9, ...\<close>

theorem forged_match_witness:
  "UInt256IsZero (replicate 32 3) \<or> UInt256IsZero (parent_hash (replicate 32 1) (replicate 32 2)) \<or>
   UInt256Eq (parent_hash (replicate 32 1) (replicate 32 2)) (parent_hash (replicate 32 3) (replicate 32 3)) \<or>
   UInt256IsZero (parent_hash (replicate 32 3) (replicate 32 3)) \<or>
   (\<exists>block. BRMerkleBlockIsValid block 0 = Some True \<and>
      BRMerkleBlockTxHashes block (Some 2) = Some ([replicate 32 9, replicate 32 9], 2))"
proof -
  let ?t = "\<lambda>k. replicate 32 k :: bytes"
  have "merkleRoot (BRMerkleBlockNew\<lparr>merkleRoot := merkle 2 [?t 1, ?t 2, ?t 3]\<rparr>) = merkle 2 [?t 1, ?t 2, ?t 3]"
      "blkTimestamp (BRMerkleBlockNew\<lparr>merkleRoot := merkle 2 [?t 1, ?t 2, ?t 3]\<rparr>) \<le> 0 + BLOCK_MAX_TIME_DRIFT"
      "length (?t 3) = 32" "length (?t 9) = 32"
    by (simp_all add: BRMerkleBlockNew_def)
  from forged_match [OF this(3,4,1,2)] show ?thesis by blast
qed

section \<open>A block of one transaction\<close>

definition one_tx_block :: BRMerkleBlock where
  "one_tx_block = BRMerkleBlockNew\<lparr>merkleRoot := replicate 32 7, totalTx := 1, hashes := Some (replicate 32 7), hashesCount := 1,
     flags := Some [1], flagsLen := 1\<rparr>"

lemma one_tx_block_tree:
  "ceil_log2 (totalTx one_tx_block) = Some 0" "has_flags one_tx_block 0 [True]" "has_hashes one_tx_block 0 [replicate 32 7]"
  "\<not> UInt256IsZero (replicate 32 7)"
proof -
  obtain l where l: "ceil_log2 (1 :: u32) = Some l" "\<forall>k < l. 2 ^ k < (1 :: nat)" using ceil_log2_eq [of 1] by auto
  then have "l = 0" by (cases l) auto
  then show "ceil_log2 (totalTx one_tx_block) = Some 0" using l(1) by (simp add: one_tx_block_def)
  show "has_flags one_tx_block 0 [True]" by (simp add: has_flags_def flag_at_def one_tx_block_def)
  show "has_hashes one_tx_block 0 [replicate 32 7]" by (simp add: has_hashes_def hash_at_def one_tx_block_def)
  show "\<not> UInt256IsZero (replicate 32 7)" by (simp add: UInt256IsZero_def UInt64GetLE_def nth_replicate)
qed

theorem partial_tree_accepted_witness:
  "BRMerkleBlockIsValid one_tx_block 0 = Some True \<and> BRMerkleBlockTxHashes one_tx_block (Some 1) = Some ([replicate 32 7], 1)"
proof -
  note tree = one_tx_block_tree
  have fields: "totalTx one_tx_block = 1" "hashesCount one_tx_block = 1" "merkleRoot one_tx_block = replicate 32 7" "blkTimestamp one_tx_block = 0"
    by (simp_all add: one_tx_block_def BRMerkleBlockNew_def)
  from partial_tree_accepted [of "[(replicate 32 7, True)]", OF _ _ _ tree(1) _ _ tree(2,3), of 0 1] tree(4) fields
  show ?thesis by simp
qed

definition two_tx_block :: BRMerkleBlock where
  "two_tx_block = BRMerkleBlockNew\<lparr>totalTx := 2, hashes := Some (replicate 32 7 @ replicate 32 9), hashesCount := 2,
     flags := Some [5], flagsLen := 1\<rparr>"

lemma two_tx_block_walks:
  shows "ceil_log2 (totalTx two_tx_block) = Some 1"
    and "BRMerkleBlockRootR two_tx_block (0, 0) 0 = Some (parent_hash (replicate 32 7) (replicate 32 9), 2, 3)"
    and "BRMerkleBlockTxHashes two_tx_block (Some 5) = Some ([replicate 32 9], 1)"
proof -
  let ?b = two_tx_block and ?l = "replicate 32 7 :: bytes" and ?r = "replicate 32 9 :: bytes"
  obtain l where l: "ceil_log2 (2 :: u32) = Some l" "2 \<le> (2 :: nat) ^ l" "\<forall>k < l. 2 ^ k < (2 :: nat)"
    using ceil_log2_eq [of 2] by auto
  have "l \<noteq> 0" using l(2) by (cases "l = 0") auto
  moreover have "\<not> 1 < l" using l(3) by auto
  ultimately have "l = 1" by simp
  then show level: "ceil_log2 (totalTx ?b) = Some 1" using l(1) by (simp add: two_tx_block_def)
  have nodes: "more_nodes ?b j i" if "j < 2" "i < 3" for j i
    using that by (simp add: more_nodes_def two_tx_block_def)
  have flags: "flag_at ?b 0 = Some True" "flag_at ?b 1 = Some False" "flag_at ?b 2 = Some True"
    by (simp_all add: flag_at_def two_tx_block_def)
  have hashes: "hash_at ?b 0 = Some ?l" "hash_at ?b 1 = Some ?r"
    by (simp_all add: hash_at_def two_tx_block_def)
  have leaves: "BRMerkleBlockRootR ?b (0, 1) 1 = Some (?l, 1, 2)" "BRMerkleBlockRootR ?b (1, 2) 1 = Some (?r, 2, 3)"
    using RootR_step(2) [OF nodes [of 0 1] flags(2) _ hashes(1), of 1] RootR_step(2) [OF nodes [of 1 2] flags(3) _ hashes(2), of 1] level by simp_all
  have differ: "\<not> UInt256IsZero ?l" "\<not> UInt256Eq ?l ?r" "\<not> UInt256IsZero ?r"
    by (simp_all add: UInt256IsZero_def UInt256Eq_def UInt64GetLE_def nth_replicate)
  show "BRMerkleBlockRootR ?b (0, 0) 0 = Some (parent_hash ?l ?r, 2, 3)"
    using RootR_step(3) [OF nodes [of 0 0] flags(1) level, of 0 ?l "(1, 2)" ?r 2 3] leaves differ by simp
  have found: "BRMerkleBlockTxHashesR ?b True 5 ([], 0, 1) 1 = Some ([], 1, 2)" "BRMerkleBlockTxHashesR ?b True 5 ([], 1, 2) 1 = Some ([?r], 2, 3)"
    using TxHashesR_step(2) [OF nodes [of 0 1] flags(2) _ hashes(1), of 1 5 "[]"]
      TxHashesR_step(2) [OF nodes [of 1 2] flags(3) _ hashes(2), of 1 5 "[]"] level by simp_all
  show "BRMerkleBlockTxHashes ?b (Some 5) = Some ([?r], 1)"
    using TxHashesR_step(3) [OF nodes [of 0 0] flags(1) level, of 0 5 "[]"] found by (simp add: BRMerkleBlockTxHashes_def)
qed

text \<open>The second of two transactions matches: one sibling leads to the root.\<close>

theorem matched_hashes_sound_witness:
  "\<exists>on_left sibling. BRMerkleBlockTxHashes two_tx_block (Some 5) = Some ([replicate 32 9], 1) \<and> length sibling = 32 \<and>
     climb (replicate 32 9) [(on_left, sibling)] = parent_hash (replicate 32 7) (replicate 32 9)"
proof -
  have "2 \<noteq> SIZE_MAX" by (simp add: SIZE_MAX_def)
  then obtain levels path where path: "ceil_log2 (totalTx two_tx_block) = Some levels" "list_all (\<lambda>(_, sibling). length sibling = 32) path"
      "length path = levels \<and> climb (replicate 32 9) path = parent_hash (replicate 32 7) (replicate 32 9) \<or>
       length path < levels \<and> UInt256IsZero (climb (replicate 32 9) path)"
    using matched_hashes_sound [OF two_tx_block_walks(2), of 5] two_tx_block_walks(3) by auto
  have "\<not> UInt256IsZero (replicate 32 9)" by (simp add: UInt256IsZero_def UInt64GetLE_def nth_replicate)
  then have "length path = 1" "climb (replicate 32 9) path = parent_hash (replicate 32 7) (replicate 32 9)"
    using path(1,3) two_tx_block_walks(1) by auto
  moreover from this(1) obtain on_left sibling where "path = [(on_left, sibling)]" by (cases path) auto
  ultimately show ?thesis using path(2) two_tx_block_walks(3) by (intro exI [of _ on_left] exI [of _ sibling]) (simp del: replicate.simps climb.simps)
qed

section \<open>Parsing what was serialized\<close>

definition block_bytes :: "BRMerkleBlock \<Rightarrow> bytes" where
  "block_bytes block = header_bytes block @
     (if totalTx block > 0 then UInt32SetLE (totalTx block) @ var_int_bytes (hashesCount block) @ arr (hashes block) @
        var_int_bytes (flagsLen block) @ arr (flags block) else [])"

text \<open>The counts are those of the arrays, and the hash is that of the header; a header alone has no arrays.\<close>

definition wf_block :: "BRMerkleBlock \<Rightarrow> bool" where
  "wf_block block \<longleftrightarrow>
     length (prevBlock block) = 32 \<and> length (merkleRoot block) = 32 \<and> length (block_bytes block) < 2 ^ 64 \<and>
     blockHash block = BRSHA256_2 (header_bytes block) \<and> height block = BLOCK_UNKNOWN_HEIGHT \<and>
     (if totalTx block > 0
      then hashes block \<noteq> None \<and> length (arr (hashes block)) = unat (hashesCount block) * 32 \<and>
           flags block \<noteq> None \<and> length (arr (flags block)) = unat (flagsLen block)
      else hashes block = None \<and> hashesCount block = 0 \<and> flags block = None \<and> flagsLen block = 0)"

lemma wrote_array: "wrote buf bs s \<Longrightarrow> a \<noteq> None \<Longrightarrow> n = length (arr a) \<Longrightarrow> wrote buf (bs @ arr a) (put_array n a s)"
  by (auto simp: put_array_def wrote_put)

lemma block_lengths:
  assumes "wf_block block"
  shows "length (header_bytes block) = 80"
    "unat ((80 :: u64) + (if totalTx block > 0 then 4 + of_nat (BRVarIntSize (hashesCount block)) + hashesCount block * 32 +
       of_nat (BRVarIntSize (flagsLen block)) + flagsLen block else 0)) = length (block_bytes block)"
    "totalTx block > 0 \<Longrightarrow> unat (hashesCount block * 32) = length (arr (hashes block))"
proof -
  show header: "length (header_bytes block) = 80"
    using assms by (simp add: header_bytes_def wf_block_def length_UInt32SetLE)
  have small: "length (block_bytes block) < 2 ^ 64" using assms by (simp add: wf_block_def)
  have "(80 :: u64) + (if totalTx block > 0 then 4 + of_nat (BRVarIntSize (hashesCount block)) + hashesCount block * 32 +
       of_nat (BRVarIntSize (flagsLen block)) + flagsLen block else 0) = of_nat (length (block_bytes block))"
  proof (cases "totalTx block > 0")
    case True
    then have "(of_nat (length (arr (hashes block))) :: u64) = hashesCount block * 32" "(of_nat (length (arr (flags block))) :: u64) = flagsLen block"
      using assms by (simp_all add: wf_block_def)
    then show ?thesis using True header by (simp add: block_bytes_def BRVarIntSize_eq length_UInt32SetLE)
  qed (use header in \<open>simp add: block_bytes_def\<close>)
  then show "unat ((80 :: u64) + (if totalTx block > 0 then 4 + of_nat (BRVarIntSize (hashesCount block)) + hashesCount block * 32 +
       of_nat (BRVarIntSize (flagsLen block)) + flagsLen block else 0)) = length (block_bytes block)"
    using small by (simp add: unat_of_nat_small)
  assume "totalTx block > 0"
  then have len: "length (arr (hashes block)) = unat (hashesCount block) * 32" "length (arr (hashes block)) < 2 ^ 64"
    using assms small by (auto simp: wf_block_def block_bytes_def)
  then have "hashesCount block * 32 = of_nat (length (arr (hashes block)))" by simp
  then show "unat (hashesCount block * 32) = length (arr (hashes block))" using len(2) unat_of_nat_small [of "length (arr (hashes block))", where ?'a = 64] by simp
qed

lemma BRMerkleBlockSerialize_writer:
  assumes wf: "wf_block block"
  shows "two_pass_writer (BRMerkleBlockSerialize block) (block_bytes block)"
proof -
  let ?w = "\<lambda>buf. if totalTx block > 0 then
                  put_array (unat (flagsLen block)) (flags block)
                    (put_var_int (flagsLen block)
                      (put_array (unat (hashesCount block * 32)) (hashes block)
                        (put_var_int (hashesCount block) (put (UInt32SetLE (totalTx block)) (put (header_bytes block) (buf, 0))))))
                else put (header_bytes block) (buf, 0)"
  have w: "wrote buf (block_bytes block) (?w buf)" for buf
  proof (cases "totalTx block > 0")
    case True
    then have "hashes block \<noteq> None" "flags block \<noteq> None" "unat (flagsLen block) = length (arr (flags block))"
      using wf by (auto simp: wf_block_def)
    with True have "wrote buf ((((((([] @ header_bytes block) @ UInt32SetLE (totalTx block)) @ var_int_bytes (hashesCount block)) @ arr (hashes block)) @
        var_int_bytes (flagsLen block)) @ arr (flags block))) (?w buf)"
      using block_lengths(3) [OF wf True] by (simp only: if_True) (intro wrote_array wrote_var_int wrote_put wrote_start refl)
    then show ?thesis using True by (simp add: block_bytes_def)
  qed (use wrote_put [OF wrote_start] in \<open>simp add: block_bytes_def\<close>)
  have eq: "BRMerkleBlockSerialize block buf = (if room buf (length (block_bytes block)) then fst (?w buf) else buf,
      if room buf (length (block_bytes block)) then length (block_bytes block) else 0)" for buf
    unfolding BRMerkleBlockSerialize_def Let_def block_lengths(2) [OF wf] by (rule refl)
  show ?thesis
  proof
    show "BRMerkleBlockSerialize block None = (None, length (block_bytes block))"
      using w [of None] unfolding eq by (simp add: wrote_def)
    show "BRMerkleBlockSerialize block (Some m) = (Some (block_bytes block @ drop (length (block_bytes block)) m), length (block_bytes block))"
      if "length (block_bytes block) \<le> length m" for m
      using w [of "Some m"] that unfolding eq by (simp add: wrote_def)
  qed
qed

lemma header_fields:
  assumes "wf_block block" "buf = header_bytes block @ rest"
  shows "UInt32GetLE buf = blkVersion block" "UInt256Get (drop 4 buf) = prevBlock block" "UInt256Get (drop 36 buf) = merkleRoot block"
    "UInt32GetLE (drop 68 buf) = blkTimestamp block" "UInt32GetLE (drop 72 buf) = target block" "UInt32GetLE (drop 76 buf) = nonce block"
    "take 80 buf = header_bytes block"
  using assms by (simp_all add: header_bytes_def wf_block_def length_UInt32SetLE UInt32GetLE_SetLE UInt256Get_def)

lemma parse_tree_bytes:
  assumes wf: "wf_block block" and tree: "totalTx block > 0" and b0: "hashes b0 = None" "flags b0 = None"
  shows "parse_tree (block_bytes block) b0 80 =
    Some (b0\<lparr>totalTx := totalTx block, hashesCount := hashesCount block, hashes := hashes block, flagsLen := flagsLen block, flags := flags block\<rparr>,
      of_nat (length (block_bytes block)))"
proof -
  let ?buf = "block_bytes block" and ?h = "header_bytes block" and ?t = "UInt32SetLE (totalTx block)"
  let ?c = "var_int_bytes (hashesCount block)" and ?f = "var_int_bytes (flagsLen block)"
  obtain hs fs where arrays: "hashes block = Some hs" "flags block = Some fs" "length hs = unat (hashesCount block) * 32" "length fs = unat (flagsLen block)"
    using wf tree by (auto simp: wf_block_def)
  have buf: "?buf = ?h @ ?t @ ?c @ hs @ ?f @ fs" using tree arrays by (simp add: block_bytes_def)
  have small: "length ?buf < 2 ^ 64" using wf by (simp add: wf_block_def)
  have lens: "length ?h = 80" "length ?t = 4" using block_lengths(1) [OF wf] by (simp_all add: length_UInt32SetLE)
  have sizes: "hashesCount block * 32 = of_nat (length hs)" "flagsLen block = of_nat (length fs)" using arrays by simp_all
  have g1: "guarded ?buf 80 4 = Some (Some ?t)"
    by (rule guardedI [OF _ small, of ?h ?t "?c @ hs @ ?f @ fs"]) (simp_all add: buf lens)
  have v1: "var_int_at ?buf (80 + 4) = (hashesCount block, of_nat (length ?c))"
    by (rule var_int_atI [OF _ small, of "?h @ ?t" _ "hs @ ?f @ fs"]) (simp_all add: buf lens)
  have g2: "guarded ?buf (80 + 4 + of_nat (length ?c)) (hashesCount block * 32) = Some (Some hs)"
    by (rule guardedI [OF _ small, of "?h @ ?t @ ?c" hs "?f @ fs"]) (simp_all add: buf lens sizes)
  have v2: "var_int_at ?buf (80 + 4 + of_nat (length ?c) + hashesCount block * 32) = (flagsLen block, of_nat (length ?f))"
    by (rule var_int_atI [OF _ small, of "?h @ ?t @ ?c @ hs" _ fs]) (simp_all add: buf lens sizes)
  have g3: "guarded ?buf (80 + 4 + of_nat (length ?c) + hashesCount block * 32 + of_nat (length ?f)) (flagsLen block) = Some (Some fs)"
    by (rule guardedI [OF _ small, of "?h @ ?t @ ?c @ hs @ ?f" fs "[]"]) (simp_all add: buf lens sizes)
  have off: "80 + 4 + of_nat (length ?c) + hashesCount block * 32 + of_nat (length ?f) + flagsLen block = of_nat (length ?buf)"
    by (simp add: buf lens sizes)
  have get: "UInt32GetLE ?t = totalTx block" using UInt32GetLE_SetLE [of "totalTx block" "[]"] by simp
  show ?thesis
    unfolding parse_tree_def g1 Let_def Option.bind.simps option.case v1 prod.case g2 v2 g3 get off arrays(1,2) by (rule refl)
qed

text \<open>What the parser makes of the header.\<close>

abbreviation header_block :: "BRMerkleBlock \<Rightarrow> BRMerkleBlock" where
  "header_block block \<equiv> BRMerkleBlockNew\<lparr>blkVersion := blkVersion block, prevBlock := prevBlock block, merkleRoot := merkleRoot block,
     blkTimestamp := blkTimestamp block, target := target block, nonce := nonce block\<rparr>"

lemma parse_tree_header:
  assumes wf: "wf_block block" and header: "totalTx block = 0"
  shows "parse_tree (block_bytes block) b0 80 = Some (b0, 80)"
proof -
  have "length (block_bytes block) = 80" using header block_lengths(1) [OF wf] by (simp add: block_bytes_def)
  then have "guarded (block_bytes block) 80 4 = Some None" by (simp add: guarded_def)
  then show ?thesis by (simp add: parse_tree_def)
qed

lemma block_parse:
  assumes wf: "wf_block block"
  shows "BRMerkleBlockParse (block_bytes block) = Returns block"
proof -
  let ?buf = "block_bytes block"
  have long: "\<not> length ?buf < 80" using block_lengths(1) [OF wf] by (simp add: block_bytes_def)
  have bytes: "?buf = header_bytes block @ drop 80 ?buf" using block_lengths(1) [OF wf] by (simp add: block_bytes_def)
  have tree: "parse_tree ?buf (header_block block) 80 = Some ((header_block block)\<lparr>totalTx := totalTx block, hashesCount := hashesCount block,
      hashes := hashes block, flagsLen := flagsLen block, flags := flags block\<rparr>, of_nat (length ?buf))"
  proof (cases "totalTx block > 0")
    case True
    then show ?thesis by (rule parse_tree_bytes [OF wf]) (simp_all add: BRMerkleBlockNew_def)
  next
    case False
    then have "totalTx block = 0" by (simp add: word_neq_0_conv [symmetric])
    then show ?thesis using wf parse_tree_header [OF wf] block_lengths(1) [OF wf]
      by (simp add: wf_block_def block_bytes_def BRMerkleBlockNew_def)
  qed
  have "blockHash block = BRSHA256_2 (header_bytes block)" "height block = BLOCK_UNKNOWN_HEIGHT" using wf by (simp_all add: wf_block_def)
  then show ?thesis
    unfolding BRMerkleBlockParse_def Let_def header_fields [OF wf bytes] tree
    using long by (simp add: BRMerkleBlockNew_def)
qed

text \<open>
  C18: Merkle blocks, written and read. For a block whose counts are those of its arrays the two calls of
  \<open>BRMerkleBlockSerialize\<close> produce bytes that \<open>BRMerkleBlockParse\<close> reads back as the same block, whose hash
  is the double SHA-256 of the header.
\<close>

theorem block_serialize_parse:
  assumes "wf_block block"
  shows "\<exists>bytes. BRMerkleBlockSerialize block None = (None, length bytes) \<and>
    BRMerkleBlockSerialize block (Some (replicate (length bytes) 0)) = (Some bytes, length bytes) \<and>
    BRMerkleBlockParse bytes = Returns block"
proof -
  note query = two_pass_writer.query [OF BRMerkleBlockSerialize_writer [OF assms]]
  have fill: "BRMerkleBlockSerialize block (Some (replicate (length (block_bytes block)) 0)) = (Some (block_bytes block), length (block_bytes block))"
    by (rule two_pass_writer.two_pass [OF BRMerkleBlockSerialize_writer [OF assms]]) (simp add: query)
  show ?thesis by (intro exI [of _ "block_bytes block"] conjI query fill block_parse [OF assms])
qed

theorem block_serialize_parse_witness:
  "\<exists>bytes. BRMerkleBlockParse bytes = Returns (BRMerkleBlockNew\<lparr>totalTx := 1, hashes := Some (replicate 32 7), hashesCount := 1, flags := Some [1],
     flagsLen := 1, blockHash := BRSHA256_2 (header_bytes BRMerkleBlockNew)\<rparr>) \<and> length bytes = 119"
proof -
  let ?b = "BRMerkleBlockNew\<lparr>totalTx := 1, hashes := Some (replicate 32 7), hashesCount := 1, flags := Some [1], flagsLen := 1,
    blockHash := BRSHA256_2 (header_bytes BRMerkleBlockNew)\<rparr>"
  have header: "header_bytes ?b = header_bytes BRMerkleBlockNew" by (simp add: header_bytes_def)
  have len: "length (block_bytes ?b) = 119"
    by (simp add: block_bytes_def header_bytes_def BRMerkleBlockNew_def UINT256_ZERO_def length_UInt32SetLE var_int_bytes_def)
  have "wf_block ?b"
    using len header by (simp add: wf_block_def) (simp add: BRMerkleBlockNew_def UINT256_ZERO_def)
  from block_serialize_parse [OF this] obtain bytes where b: "BRMerkleBlockSerialize ?b None = (None, length bytes)"
    "BRMerkleBlockParse bytes = Returns ?b" by blast
  have "wf_block ?b" by fact
  from two_pass_writer.query [OF BRMerkleBlockSerialize_writer [OF this]] b(1) len have "length bytes = 119" by simp
  with b(2) show ?thesis by blast
qed

end
