(* ===== verification/Hex.thy ===== *)
theory Hex
  imports BRInt
begin

text \<open>
  Hexadecimal text: \<open>_hexc\<close> and \<open>_hexu\<close> of \<open>support/BRInt.h\<close> and \<open>ethereum/util/BRUtilHex.c\<close>. A C string is the
  list of its bytes in front of the terminator, also where the code writes it.
\<close>

section \<open>The operations\<close>

definition hexc :: "u8 \<Rightarrow> u8" where
  "hexc u = (u AND 0x0f) + (if u AND 0x0f \<le> 9 then 0x30 else 0x61 - 0x0a)"

definition hexu :: "u8 \<Rightarrow> u8" where
  "hexu c =
     (if 0x30 \<le> c \<and> c \<le> 0x39 then c - 0x30
      else if 0x61 \<le> c \<and> c \<le> 0x66 then c - (0x61 - 0x0a)
      else if 0x41 \<le> c \<and> c \<le> 0x46 then c - (0x41 - 0x0a) else - 1)"

fun decodeHex :: "bytes \<Rightarrow> bytes" where
  "decodeHex (a # b # source) = (push_bit 4 (hexu a) OR hexu b) # decodeHex source"
| "decodeHex _ = []"

fun encodeHex :: "bytes \<Rightarrow> bytes" where
  "encodeHex [] = []"
| "encodeHex (u # source) = hexc (drop_bit 4 u) # hexc u # encodeHex source"

definition isxdigit :: "u8 \<Rightarrow> bool" where
  "isxdigit c \<longleftrightarrow> 0x30 \<le> c \<and> c \<le> 0x39 \<or> 0x61 \<le> c \<and> c \<le> 0x66 \<or> 0x41 \<le> c \<and> c \<le> 0x46"

definition encodeHexValidate :: "bytes option \<Rightarrow> bool" where
  "encodeHexValidate number = (case number of None \<Rightarrow> False | Some s \<Rightarrow> s \<noteq> [] \<and> even (length s) \<and> list_all isxdigit s)"

section \<open>Lemmas\<close>

lemma u8_cases: "(u :: u8) \<in> set (map of_nat [0..<256])"
proof -
  have "unat u < 2 ^ LENGTH(8)" by (rule unsigned_less)
  then have "unat u \<in> set [0..<256]" "u = of_nat (unat u)" by simp_all
  then show ?thesis by (metis image_eqI set_map)
qed

lemma nibble: "u AND 0x0f = (u :: u8) mod 16"
  using take_bit_eq_mod [of 4 u] by (simp add: take_bit_eq_mask mask_eq_exp_minus_1)

lemma hexc_nibble: "hexc u = hexc (u AND 0x0f)"
  by (simp add: hexc_def and.assoc)

lemma hex_nibbles: "list_all (\<lambda>n. hexu (hexc n) = n \<and> isxdigit (hexc n) \<and> hexc n \<noteq> 0) (map of_nat [0..<16])"
  by (simp add: upt_rec hexc_def hexu_def isxdigit_def)

lemma nibble_cases: "u AND 0x0f \<in> set (map of_nat [0..<16] :: u8 list)"
proof -
  have "unat (u mod 16) < 16" by (simp add: unat_mod)
  then have "unat (u mod 16) \<in> set [0..<16]" "u mod 16 = of_nat (unat (u mod 16))" by simp_all
  then show ?thesis unfolding nibble by (metis image_eqI set_map)
qed

lemma hexu_hexc [simp]: "hexu (hexc u) = u AND 0x0f" and isxdigit_hexc [simp]: "isxdigit (hexc u)" and hexc_nonzero [simp]: "hexc u \<noteq> 0"
  using hex_nibbles nibble_cases [of u] hexc_nibble [of u] unfolding list_all_iff by auto

lemma nibbles_join: "push_bit 4 (drop_bit 4 u) AND 240 OR u AND 15 = (u :: u8)"
proof (rule bit_word_eqI)
  fix n :: nat assume "n < LENGTH(8)"
  then consider "n = 0" | "n = 1" | "n = 2" | "n = 3" | "n = 4" | "n = 5" | "n = 6" | "n = 7" by fastforce
  then show "bit (push_bit 4 (drop_bit 4 u) AND 240 OR u AND 15) n = bit u n"
    by cases (simp_all add: bit_simps)
qed

lemma decodeHex_encodeHex [simp]: "decodeHex (encodeHex source) = source"
  by (induction source) (simp_all add: nibbles_join)

lemma length_encodeHex [simp]: "length (encodeHex source) = 2 * length source"
  by (induction source) simp_all

lemma length_decodeHex [simp]: "length (decodeHex source) = length source div 2"
  by (induction source rule: decodeHex.induct) simp_all

lemma encodeHex_digits: "list_all isxdigit (encodeHex source)"
  by (induction source) simp_all

lemma encodeHex_valid: "encodeHexValidate (Some (encodeHex source)) \<longleftrightarrow> source \<noteq> []"
  using encodeHex_digits [of source] by (cases source) (auto simp: encodeHexValidate_def)

lemma encodeHex_append: "encodeHex (a @ b) = encodeHex a @ encodeHex b"
  by (induction a) simp_all

lemma encodeHex_hexc: "\<exists>us. encodeHex s = map hexc us"
proof (induction s)
  case (Cons u s)
  then obtain us where "encodeHex s = map hexc us" by blast
  then show ?case by (intro exI [of _ "drop_bit 4 u # u # us"]) simp
qed simp

end
