(* ===== verification/Rlp.thy ===== *)
theory Rlp
  imports Hex "HOL-Library.Monad_Syntax"
begin

text \<open>
  The RLP coder of \<open>ethereum/rlp/BRRlpCoder.c\<close>: items, the encoders and the decoders. An item is the value
  of its fields: its encoding and, for a list, its items; the lists of free and busy items are
  modelled in \<open>RlpPool\<close>. A function that reads outside of a buffer, and one that fails an \<open>assert\<close> on its input, gives
  \<open>None\<close>.
\<close>

section \<open>Items\<close>

datatype BRRlpItem = CODER_ITEM (item_bytes: bytes) | CODER_LIST (item_bytes: bytes) (item_items: "BRRlpItem list")

definition ITEM_DEFAULT_BYTES_COUNT :: nat where "ITEM_DEFAULT_BYTES_COUNT = 1024"

text \<open>
  The memory behind \<open>item->bytes\<close>: the array inside of the item, which is zero behind the encoding, or an
  allocated block.
\<close>

definition item_memory :: "BRRlpItem \<Rightarrow> bytes" where
  "item_memory item = item_bytes item @ replicate (ITEM_DEFAULT_BYTES_COUNT - length (item_bytes item)) 0"

definition bytes_at :: "bytes \<Rightarrow> nat \<Rightarrow> nat \<Rightarrow> bytes option" where
  "bytes_at memory off n = (if off + n \<le> length memory then Some (take n (drop off memory)) else None)"

section \<open>Numbers and lengths\<close>

definition findNonZeroIndex :: "bytes \<Rightarrow> nat" where
  "findNonZeroIndex bs = length (takeWhile (\<lambda>b. b = 0) bs)"

definition swapBytesIfLittleEndian :: "bytes \<Rightarrow> bytes" where
  "swapBytesIfLittleEndian source = rev source"

text \<open>The target, the index of its first byte that is not zero, and the number of bytes from there.\<close>

definition convertToBigEndianAndNormalize :: "bytes \<Rightarrow> bytes \<times> nat \<times> nat" where
  "convertToBigEndianAndNormalize source =
     (let target = swapBytesIfLittleEndian source; i = findNonZeroIndex target; n = length source - i
      in if n = 0 then (target, 0, 1) else (target, i, n))"

definition convertFromBigEndian :: "nat \<Rightarrow> bytes \<Rightarrow> bytes option" where
  "convertFromBigEndian targetCount bs =
     (if length bs \<le> targetCount then Some (swapBytesIfLittleEndian (replicate (targetCount - length bs) 0 @ bs)) else None)"

definition RLP_PREFIX_BYTES :: u8 where "RLP_PREFIX_BYTES = 0x80"
definition RLP_PREFIX_LIST :: u8 where "RLP_PREFIX_LIST = 0xc0"
definition RLP_PREFIX_LENGTH_LIMIT :: nat where "RLP_PREFIX_LENGTH_LIMIT = 55"

definition encodeLengthIntoBytes :: "u64 \<Rightarrow> u8 \<Rightarrow> bytes" where
  "encodeLengthIntoBytes len baseline =
     (if unat len \<le> RLP_PREFIX_LENGTH_LIMIT then [baseline + ucast len]
      else case convertToBigEndianAndNormalize (UInt64SetLE len) of
        (bytes9, i, n) \<Rightarrow> (baseline + of_nat RLP_PREFIX_LENGTH_LIMIT + of_nat n) # take n (drop i bytes9))"

text \<open>The length and the offset of the contents.\<close>

definition decodeLength :: "bytes \<Rightarrow> u8 \<Rightarrow> (u64 \<times> nat) option" where
  "decodeLength memory baseline =
     (case memory of
        [] \<Rightarrow> None
      | prefix # rest \<Rightarrow>
          if prefix < baseline then Some (1, 0)
          else if unat (prefix - baseline) \<le> RLP_PREFIX_LENGTH_LIMIT then Some (ucast (prefix - baseline), 1)
          else
            do {
              let lengthByteCount = unat (prefix - baseline) - RLP_PREFIX_LENGTH_LIMIT;
              bs \<leftarrow> bytes_at rest 0 lengthByteCount;
              len \<leftarrow> convertFromBigEndian 8 bs;
              Some (UInt64GetLE len, 1 + lengthByteCount)
            })"

lemma decodeLength_offset: "decodeLength memory baseline = Some (len, offset) \<Longrightarrow> \<not> hd memory < baseline \<Longrightarrow> 0 < offset"
  by (auto simp: decodeLength_def Let_def split: list.splits if_splits bind_splits)

text \<open>The contents of an encoding: the bytes behind the prefix.\<close>

definition decode_contents :: "BRRlpItem \<Rightarrow> u8 \<Rightarrow> bytes option" where
  "decode_contents item baseline =
     do { (len, offset) \<leftarrow> decodeLength (item_memory item) baseline; bytes_at (item_memory item) offset (unat len) }"

definition coderDecodeNumber :: "nat \<Rightarrow> BRRlpItem \<Rightarrow> bytes option" where
  "coderDecodeNumber targetCount item = decode_contents item RLP_PREFIX_BYTES \<bind> convertFromBigEndian targetCount"

definition rlpDataDecodeUInt256 :: "bytes \<Rightarrow> bytes option" where
  "rlpDataDecodeUInt256 data = convertFromBigEndian 32 data"

definition rlpDataDecodeUInt64 :: "bytes \<Rightarrow> u64 option" where
  "rlpDataDecodeUInt64 data = map_option UInt64GetLE (convertFromBigEndian 8 data)"

section \<open>The encoders\<close>

definition coderEncodeBytes :: "bytes \<Rightarrow> BRRlpItem" where
  "coderEncodeBytes bs =
     CODER_ITEM (if length bs = 1 \<and> hd bs < RLP_PREFIX_BYTES then bs
                 else encodeLengthIntoBytes (of_nat (length bs)) RLP_PREFIX_BYTES @ bs)"

definition coderEncodeNumber :: "bytes \<Rightarrow> BRRlpItem" where
  "coderEncodeNumber source =
     (case convertToBigEndianAndNormalize source of (bs, i, n) \<Rightarrow> coderEncodeBytes (take n (drop i bs)))"

definition coderEncodeUInt64 :: "u64 \<Rightarrow> BRRlpItem" where
  "coderEncodeUInt64 val = coderEncodeNumber (UInt64SetLE val)"

definition coderEncodeUInt256 :: "bytes \<Rightarrow> BRRlpItem" where
  "coderEncodeUInt256 val = coderEncodeNumber val"

definition coderEncodeList :: "BRRlpItem list \<Rightarrow> BRRlpItem" where
  "coderEncodeList items =
     (let bs = concat (map item_bytes items)
      in CODER_LIST (encodeLengthIntoBytes (of_nat (length bs)) RLP_PREFIX_LIST @ bs) items)"

definition rlpEncodeBytes :: "bytes \<Rightarrow> BRRlpItem" where
  "rlpEncodeBytes bs = coderEncodeBytes bs"

definition rlpEncodeBytesPurgeLeadingZeros :: "bytes \<Rightarrow> BRRlpItem" where
  "rlpEncodeBytesPurgeLeadingZeros bs = rlpEncodeBytes (drop (length (takeWhile (\<lambda>b. b = 0) bs)) bs)"

text \<open>\<open>None\<close> is \<open>NULL\<close>.\<close>

definition rlpEncodeString :: "bytes option \<Rightarrow> BRRlpItem" where
  "rlpEncodeString str = rlpEncodeBytes (case str of None \<Rightarrow> [] | Some s \<Rightarrow> s)"

definition rlpEncodeUInt64 :: "u64 \<Rightarrow> bool \<Rightarrow> BRRlpItem" where
  "rlpEncodeUInt64 val zeroAsEmptyString = (if zeroAsEmptyString \<and> val = 0 then rlpEncodeString (Some []) else coderEncodeUInt64 val)"

definition rlpEncodeUInt256 :: "bytes \<Rightarrow> bool \<Rightarrow> BRRlpItem" where
  "rlpEncodeUInt256 val zeroAsEmptyString =
     (if zeroAsEmptyString \<and> val = UINT256_ZERO then rlpEncodeString (Some []) else coderEncodeUInt256 val)"

definition hex_prefix :: bytes where "hex_prefix = [0x30, 0x78]"

definition rlpEncodeHexString :: "bytes option \<Rightarrow> BRRlpItem option" where
  "rlpEncodeHexString str =
     (case str of
        None \<Rightarrow> Some (rlpEncodeString (Some []))
      | Some s \<Rightarrow>
          if s = [] then Some (rlpEncodeString (Some []))
          else
            let s' = (if take 2 s = hex_prefix then drop 2 s else s)
            in if odd (length s') then None
               else if s' = [] then Some (rlpEncodeString (Some s')) else Some (rlpEncodeBytes (decodeHex s')))"

definition rlpEncodeList1 :: "BRRlpItem \<Rightarrow> BRRlpItem" where
  "rlpEncodeList1 item = coderEncodeList [item]"

definition rlpEncodeList2 :: "BRRlpItem \<Rightarrow> BRRlpItem \<Rightarrow> BRRlpItem" where
  "rlpEncodeList2 item1 item2 = coderEncodeList [item1, item2]"

definition rlpEncodeListItems :: "BRRlpItem list \<Rightarrow> BRRlpItem" where
  "rlpEncodeListItems items = coderEncodeList items"

section \<open>The decoders\<close>

definition rlpDecodeBytes :: "BRRlpItem \<Rightarrow> bytes option" where
  "rlpDecodeBytes item = decode_contents item RLP_PREFIX_BYTES"

definition rlpDecodeListSharedDontRelease :: "BRRlpItem \<Rightarrow> bytes option" where
  "rlpDecodeListSharedDontRelease item = decode_contents item RLP_PREFIX_LIST"

definition rlpDecodeString :: "BRRlpItem \<Rightarrow> bytes option" where
  "rlpDecodeString item = map_option (takeWhile (\<lambda>b. b \<noteq> 0)) (decode_contents item RLP_PREFIX_BYTES)"

fun is_coder_item :: "BRRlpItem \<Rightarrow> bool" where
  "is_coder_item (CODER_ITEM _) = True"
| "is_coder_item (CODER_LIST _ _) = False"

definition rlpDecodeStringCheck :: "BRRlpItem \<Rightarrow> bool" where
  "rlpDecodeStringCheck item \<longleftrightarrow>
     is_coder_item item \<and> item_bytes item \<noteq> [] \<and> RLP_PREFIX_BYTES \<le> hd (item_bytes item) \<and> hd (item_bytes item) < RLP_PREFIX_LIST"

definition rlpDecodeStringEmptyCheck :: "BRRlpItem \<Rightarrow> bool" where
  "rlpDecodeStringEmptyCheck item \<longleftrightarrow>
     is_coder_item item \<and> length (item_bytes item) = 1 \<and> RLP_PREFIX_BYTES \<le> hd (item_bytes item)"

definition rlpDecodeUInt64 :: "BRRlpItem \<Rightarrow> bool \<Rightarrow> u64 option" where
  "rlpDecodeUInt64 item zeroAsEmptyString =
     (if zeroAsEmptyString \<and> rlpDecodeStringEmptyCheck item then Some 0 else map_option UInt64GetLE (coderDecodeNumber 8 item))"

definition rlpDecodeUInt256 :: "BRRlpItem \<Rightarrow> bool \<Rightarrow> bytes option" where
  "rlpDecodeUInt256 item zeroAsEmptyString =
     (if zeroAsEmptyString \<and> rlpDecodeStringEmptyCheck item then Some UINT256_ZERO else coderDecodeNumber 32 item)"

definition rlpDecodeHexString :: "BRRlpItem \<Rightarrow> bytes \<Rightarrow> bytes option" where
  "rlpDecodeHexString item prefix = map_option (\<lambda>data. prefix @ encodeHex data) (rlpDecodeBytes item)"

text \<open>\<open>NULL\<close> and no items for an item that is not a list.\<close>

fun rlpDecodeList :: "BRRlpItem \<Rightarrow> BRRlpItem list" where
  "rlpDecodeList (CODER_ITEM _) = []"
| "rlpDecodeList (CODER_LIST _ items) = items"

definition rlpGetData :: "BRRlpItem \<Rightarrow> bytes" where
  "rlpGetData item = item_bytes item"

text \<open>The number of bytes of the encoding that starts in the memory.\<close>

definition rlpGetItem_FillData :: "bytes \<Rightarrow> u64 option" where
  "rlpGetItem_FillData memory =
     (case memory of
        [] \<Rightarrow> None
      | prefix # _ \<Rightarrow>
          if prefix \<ge> RLP_PREFIX_BYTES
          then decodeLength memory (if prefix < RLP_PREFIX_LIST then RLP_PREFIX_BYTES else RLP_PREFIX_LIST) \<bind>
                 (\<lambda>(len, offset). Some (len + of_nat offset))
          else Some 1)"

text \<open>
  \<open>rlpGetItem\<close> on the \<open>n\<close> bytes at \<open>pos\<close> of a buffer, and its loop over the items of a list up to the position
  \<open>limit\<close>. The items of a list are read from the buffer too, so that they may end behind the list.
\<close>

function rlp_get_item :: "bytes \<Rightarrow> nat \<Rightarrow> u64 \<Rightarrow> BRRlpItem option"
  and rlp_get_items :: "bytes \<Rightarrow> nat \<Rightarrow> nat \<Rightarrow> BRRlpItem list option" where
  "rlp_get_item buf pos n =
     (if n = 0 \<or> length buf < pos + unat n then None
      else let bs = take (unat n) (drop pos buf)
           in if buf ! pos < RLP_PREFIX_LIST then Some (CODER_ITEM bs)
              else decodeLength (drop pos buf) RLP_PREFIX_LIST \<bind> (\<lambda>(len, offset).
                     if n \<noteq> len + of_nat offset then None
                     else rlp_get_items buf (pos + offset) (pos + unat n) \<bind> (\<lambda>items. Some (CODER_LIST bs items))))"
| "rlp_get_items buf pos limit =
     (if pos < limit
      then rlpGetItem_FillData (drop pos buf) \<bind> (\<lambda>n.
             rlp_get_item buf pos n \<bind> (\<lambda>item. rlp_get_items buf (pos + unat n) limit \<bind> (\<lambda>items. Some (item # items))))
      else Some [])"
  by pat_completeness auto

termination
proof (relation "measure (\<lambda>x. case x of Inl (buf, pos, n) \<Rightarrow> 2 * (length buf - pos) | Inr (buf, pos, limit) \<Rightarrow> 2 * (length buf - pos) + 1)",
    simp, goal_cases)
  case (1 buf pos n bs r len offset)
  then have "n \<noteq> 0" "pos + unat n \<le> length buf" by auto
  then have "pos < length buf" by (auto simp: unat_gt_0 [symmetric] simp del: unat_gt_0)
  moreover from this 1 have "0 < offset" by (auto simp: hd_drop_conv_nth intro: decodeLength_offset [of "drop pos buf" RLP_PREFIX_LIST len])
  ultimately show ?case by simp
next
  case 2 then show ?case by simp
next
  case (3 buf pos limit n item)
  then have "n \<noteq> 0 \<and> pos + unat n \<le> length buf" by (auto simp: rlp_get_item.psimps split: if_splits)
  then have "0 < unat n" "pos + unat n \<le> length buf" by (auto simp: unat_gt_0)
  then show ?case by simp
qed

definition rlpGetItem :: "bytes \<Rightarrow> BRRlpItem option" where
  "rlpGetItem data = rlp_get_item data 0 (of_nat (length data))"

end
