(* ===== verification/RlpProps.thy ===== *)
theory RlpProps
  imports Rlp Numbers
begin

text \<open>
  What the RLP coder promises: its encodings are those of the specification (appendix B of the Ethereum yellow
  paper), \<open>rlpGetItem\<close> rebuilds the items that were encoded, and numbers and strings come back.
\<close>

section \<open>The specification\<close>

datatype rlp = Bytes bytes | List "rlp list"

fun be :: "nat \<Rightarrow> bytes" where
  "be n = (if n = 0 then [] else be (n div 256) @ [of_nat n])"

declare be.simps [simp del] rlp_get_item.simps [simp del] rlp_get_items.simps [simp del]

definition rlp_frame :: "u8 \<Rightarrow> bytes \<Rightarrow> bytes" where
  "rlp_frame baseline bs =
     (if length bs < 56 then (baseline + of_nat (length bs)) # bs
      else (baseline + 55 + of_nat (length (be (length bs)))) # be (length bs) @ bs)"

fun rlp_spec :: "rlp \<Rightarrow> bytes" where
  "rlp_spec (Bytes b) = (if length b = 1 \<and> hd b < 128 then b else rlp_frame 128 b)"
| "rlp_spec (List vs) = rlp_frame 192 (concat (map rlp_spec vs))"

text \<open>The item that the encoders of the code build for a value, and the value that the decoders read from an item.\<close>

fun rlp_item :: "rlp \<Rightarrow> BRRlpItem" where
  "rlp_item (Bytes b) = rlpEncodeBytes b"
| "rlp_item (List vs) = rlpEncodeListItems (map rlp_item vs)"

fun rlp_value :: "BRRlpItem \<Rightarrow> rlp option" where
  "rlp_value (CODER_ITEM b) = map_option Bytes (rlpDecodeBytes (CODER_ITEM b))"
| "rlp_value (CODER_LIST b items) = map_option List (those (map rlp_value items))"

section \<open>Numbers in big-endian order\<close>

abbreviation (input) zero :: "u8 \<Rightarrow> bool" where "zero \<equiv> (\<lambda>b. b = 0)"

definition normalized :: "bytes \<Rightarrow> bytes" where
  "normalized source = (case convertToBigEndianAndNormalize source of (bs, i, n) \<Rightarrow> take n (drop i bs))"

lemma leading_zeros:
  obtains z d where "t = replicate z 0 @ d" "d = [] \<or> hd d \<noteq> (0 :: u8)" "takeWhile zero t = replicate z 0" "dropWhile zero t = d"
proof -
  have "\<exists>z d. t = replicate z 0 @ d \<and> (d = [] \<or> hd d \<noteq> 0) \<and> takeWhile zero t = replicate z 0 \<and> dropWhile zero t = d"
  proof (induction t)
    case Nil
    then show ?case by (intro exI [of _ 0] exI [of _ "[]"]) simp
  next
    case (Cons b t)
    then obtain z d where zd: "t = replicate z 0 @ d" "d = [] \<or> hd d \<noteq> 0" "takeWhile zero t = replicate z 0" "dropWhile zero t = d" by blast
    show ?case
    proof (cases "b = 0")
      case True
      then show ?thesis using zd by (intro exI [of _ "Suc z"] exI [of _ d]) simp
    next
      case False
      then show ?thesis by (intro exI [of _ 0] exI [of _ "b # t"]) simp
    qed
  qed
  then show thesis using that by blast
qed

lemma normalized_eq:
  assumes "rev source = replicate z 0 @ d" "takeWhile zero (rev source) = replicate z 0" "source \<noteq> []"
  shows "normalized source = (if d = [] then [0] else d)"
proof -
  have "length source = z + length d" using arg_cong [OF assms(1), of length] by simp
  moreover from this have "d = [] \<Longrightarrow> take (Suc 0) (replicate z 0) = [0 :: u8]" using assms(3) by (cases z) auto
  ultimately show ?thesis
    using assms
    by (auto simp add: normalized_def convertToBigEndianAndNormalize_def findNonZeroIndex_def swapBytesIfLittleEndian_def Let_def simp del: take_replicate)
qed

lemma convertFromBigEndian_normalized:
  assumes "source \<noteq> []"
  shows "convertFromBigEndian (length source) (normalized source) = Some source"
proof -
  obtain z d where zd: "rev source = replicate z 0 @ d" "takeWhile zero (rev source) = replicate z 0" by (rule leading_zeros)
  have source: "source = rev d @ replicate z 0" using arg_cong [OF zd(1), of rev] by simp
  then have "length source = z + length d" by simp
  moreover have "d = [] \<Longrightarrow> replicate (z - 1) 0 @ [0] = replicate z (0 :: u8) \<and> 1 \<le> z"
    using assms source by (cases z) (simp_all add: replicate_append_same)
  ultimately show ?thesis
    using normalized_eq [OF zd assms] source by (auto simp: convertFromBigEndian_def swapBytesIfLittleEndian_def replicate_append_same)
qed

lemma length_normalized:
  assumes "source \<noteq> []"
  shows "length (normalized source) \<le> length source" "normalized source \<noteq> []"
proof -
  obtain z d where zd: "rev source = replicate z 0 @ d" "takeWhile zero (rev source) = replicate z 0" by (rule leading_zeros)
  have "length source = z + length d" using arg_cong [OF zd(1), of length] by simp
  then show "length (normalized source) \<le> length source" "normalized source \<noteq> []"
    using normalized_eq [OF zd assms] assms by (auto simp: Suc_le_eq)
qed

section \<open>Lengths\<close>

lemma encodeLengthIntoBytes_eq:
  "encodeLengthIntoBytes len baseline =
     (if unat len \<le> 55 then [baseline + ucast len]
      else (baseline + 55 + of_nat (length (normalized (UInt64SetLE len)))) # normalized (UInt64SetLE len))"
proof -
  obtain bs i n where c: "convertToBigEndianAndNormalize (UInt64SetLE len) = (bs, i, n)" by (cases "convertToBigEndianAndNormalize (UInt64SetLE len)")
  have "i + n \<le> length bs"
    using c by (auto simp: convertToBigEndianAndNormalize_def findNonZeroIndex_def swapBytesIfLittleEndian_def Let_def
      split: if_splits intro: order_trans [OF length_takeWhile_le])
  then show ?thesis by (simp add: encodeLengthIntoBytes_def normalized_def c RLP_PREFIX_LENGTH_LIMIT_def)
qed

lemma baseline_add:
  assumes "baseline \<in> {0x80, 0xc0 :: u8}" "n \<le> 63"
  shows "\<not> baseline + of_nat n < baseline" "unat (baseline + of_nat n) = unat baseline + n" "unat (baseline + of_nat n - baseline) = n"
    "ucast (of_nat n :: u8) = (of_nat n :: u64)"
proof -
  have n: "unat (of_nat n :: u8) = n" using assms(2) by (intro unat_of_nat_small) simp
  then show "unat (baseline + of_nat n) = unat baseline + n" using assms by (auto simp: unat_word_ariths)
  then show "\<not> baseline + of_nat n < baseline" by (simp add: word_less_nat_alt)
  show "unat (baseline + of_nat n - baseline) = n" using n by simp
  show "ucast (of_nat n :: u8) = (of_nat n :: u64)" by (metis n of_nat_unat)
qed

lemma decodeLength_encode:
  assumes "baseline \<in> {0x80, 0xc0}"
  shows "decodeLength (encodeLengthIntoBytes len baseline @ rest) baseline = Some (len, length (encodeLengthIntoBytes len baseline))"
proof (cases "unat len \<le> 55")
  case True
  then have "(ucast len :: u8) = of_nat (unat len)" by simp
  then show ?thesis using baseline_add [OF assms, of "unat len"] True
    by (simp add: encodeLengthIntoBytes_eq decodeLength_def RLP_PREFIX_LENGTH_LIMIT_def)
next
  case False
  let ?b = "normalized (UInt64SetLE len)"
  have ne: "UInt64SetLE len \<noteq> []" by (metis length_UInt64SetLE length_0_conv zero_neq_numeral)
  have b: "length ?b \<le> 8" "0 < length ?b" using length_normalized [OF ne] by simp_all
  have prefix: "baseline + 55 + of_nat (length ?b) = baseline + of_nat (55 + length ?b)" by simp
  have n: "55 + length ?b \<le> 63" using b by simp
  have "convertFromBigEndian 8 ?b = Some (UInt64SetLE len)" using convertFromBigEndian_normalized [OF ne] by simp
  then show ?thesis using baseline_add [OF assms n] b False UInt64GetLE_SetLE [of len "[]"]
    unfolding encodeLengthIntoBytes_eq prefix
    by (simp add: decodeLength_def RLP_PREFIX_LENGTH_LIMIT_def bytes_at_def Let_def del: of_nat_add)
qed

lemma length_encodeLength: "length (encodeLengthIntoBytes len baseline) \<le> 9" "encodeLengthIntoBytes len baseline \<noteq> []"
proof -
  have "UInt64SetLE len \<noteq> []" by (metis length_UInt64SetLE length_0_conv zero_neq_numeral)
  from length_normalized [OF this] show "length (encodeLengthIntoBytes len baseline) \<le> 9" "encodeLengthIntoBytes len baseline \<noteq> []"
    by (simp_all add: encodeLengthIntoBytes_eq)
qed

lemma hd_encodeLength:
  assumes "baseline \<in> {0x80, 0xc0}"
  shows "baseline \<le> hd (encodeLengthIntoBytes len baseline @ rest)"
    "unat (hd (encodeLengthIntoBytes len baseline @ rest)) \<le> unat baseline + 63"
proof -
  have ne: "UInt64SetLE len \<noteq> []" by (metis length_UInt64SetLE length_0_conv zero_neq_numeral)
  let ?n = "if unat len \<le> 55 then unat len else 55 + length (normalized (UInt64SetLE len))"
  have n: "?n \<le> 63" using length_normalized [OF ne] by simp
  have "hd (encodeLengthIntoBytes len baseline @ rest) = baseline + of_nat ?n"
    by (simp add: encodeLengthIntoBytes_eq)
  then show "baseline \<le> hd (encodeLengthIntoBytes len baseline @ rest)"
    "unat (hd (encodeLengthIntoBytes len baseline @ rest)) \<le> unat baseline + 63"
    using baseline_add [OF assms n] n by (simp_all add: not_less [symmetric])
qed

section \<open>Items\<close>

abbreviation enc :: "rlp \<Rightarrow> bytes" where "enc v \<equiv> item_bytes (rlp_item v)"

lemma enc_Bytes: "enc (Bytes b) = (if length b = 1 \<and> hd b < 0x80 then b else encodeLengthIntoBytes (of_nat (length b)) 0x80 @ b)"
  by (simp add: rlpEncodeBytes_def coderEncodeBytes_def RLP_PREFIX_BYTES_def)

lemma enc_List: "enc (List vs) = encodeLengthIntoBytes (of_nat (length (concat (map enc vs)))) 0xc0 @ concat (map enc vs)"
  by (simp add: rlpEncodeListItems_def coderEncodeList_def RLP_PREFIX_LIST_def Let_def comp_def)

lemma rlp_item_List: "rlp_item (List vs) = CODER_LIST (enc (List vs)) (map rlp_item vs)"
  by (simp add: rlpEncodeListItems_def coderEncodeList_def Let_def)

lemma rlp_item_Bytes: "rlp_item (Bytes b) = CODER_ITEM (enc (Bytes b))"
  by (simp add: rlpEncodeBytes_def coderEncodeBytes_def)

lemma enc_nonempty: "enc v \<noteq> []"
  by (cases v) (auto simp: enc_Bytes enc_List length_encodeLength(2) simp del: rlp_item.simps)

lemma unat_length: "length bs < 2 ^ 64 \<Longrightarrow> unat (of_nat (length bs) :: u64) = length bs"
  by (rule unat_of_nat_small) simp

lemma fill_data:
  assumes "length (enc v) < 2 ^ 64"
  shows "rlpGetItem_FillData (enc v @ rest) = Some (of_nat (length (enc v)))"
proof (cases v)
  case (Bytes b)
  show ?thesis
  proof (cases "length b = 1 \<and> hd b < 0x80")
    case True
    then obtain x where "b = [x]" by (auto simp: length_Suc_conv)
    moreover from this True have "\<not> 0x80 \<le> x" by (simp add: not_le)
    ultimately show ?thesis using True
      by (simp add: Bytes enc_Bytes rlpGetItem_FillData_def RLP_PREFIX_BYTES_def del: rlp_item.simps)
  next
    case False
    let ?l = "encodeLengthIntoBytes (of_nat (length b)) 0x80"
    obtain x l where l: "?l = x # l" using length_encodeLength(2) by (cases ?l) auto
    have "0x80 \<le> x" "unat x < 192" using hd_encodeLength [where baseline = "0x80" and len = "of_nat (length b)" and rest = "[]"] l by auto
    then have x: "x \<ge> 0x80" "x < 0xc0" by (simp_all add: word_less_nat_alt)
    have "decodeLength (?l @ b @ rest) 0x80 = Some (of_nat (length b), length ?l)" by (rule decodeLength_encode) simp
    moreover have "enc v = ?l @ b" using False by (simp only: Bytes enc_Bytes if_False)
    ultimately show ?thesis using x
      by (simp add: rlpGetItem_FillData_def RLP_PREFIX_BYTES_def RLP_PREFIX_LIST_def l add.commute)
  qed
next
  case (List vs)
  let ?c = "concat (map enc vs)"
  let ?l = "encodeLengthIntoBytes (of_nat (length ?c)) 0xc0"
  obtain x l where l: "?l = x # l" using length_encodeLength(2) by (cases ?l) auto
  have x: "0xc0 \<le> x" using hd_encodeLength [where baseline = "0xc0" and len = "of_nat (length ?c)" and rest = "[]"] l by auto
  then have "0x80 \<le> x" "\<not> x < 0xc0" by (auto simp: word_le_nat_alt word_less_nat_alt)
  moreover have "decodeLength (?l @ ?c @ rest) 0xc0 = Some (of_nat (length ?c), length ?l)" by (rule decodeLength_encode) simp
  ultimately show ?thesis
    unfolding List enc_List by (simp add: rlpGetItem_FillData_def RLP_PREFIX_BYTES_def RLP_PREFIX_LIST_def l add.commute del: rlp_item.simps)
qed

lemma get_items:
  assumes "\<And>v pre post. v \<in> set vs \<Longrightarrow> length (pre @ enc v @ post) < 2 ^ 64 \<Longrightarrow>
      rlp_get_item (pre @ enc v @ post) (length pre) (of_nat (length (enc v))) = Some (rlp_item v)"
    and "length (pre @ concat (map enc vs) @ post) < 2 ^ 64"
  shows "rlp_get_items (pre @ concat (map enc vs) @ post) (length pre) (length pre + length (concat (map enc vs))) = Some (map rlp_item vs)"
  using assms
proof (induction vs arbitrary: pre)
  case Nil
  then show ?case by (subst rlp_get_items.simps) simp
next
  case (Cons v vs)
  let ?c = "concat (map enc vs)" and ?buf = "pre @ enc v @ concat (map enc vs) @ post"
  have small: "length (enc v) < 2 ^ 64" using Cons.prems(2) by simp
  have fill: "rlpGetItem_FillData (enc v @ ?c @ post) = Some (of_nat (length (enc v)))" by (rule fill_data [OF small])
  have item: "rlp_get_item ?buf (length pre) (of_nat (length (enc v))) = Some (rlp_item v)"
    by (rule Cons.prems(1)) (use Cons.prems(2) in simp_all)
  have "rlp_get_items ((pre @ enc v) @ ?c @ post) (length (pre @ enc v)) (length (pre @ enc v) + length ?c) = Some (map rlp_item vs)"
    by (rule Cons.IH) (use Cons.prems in simp_all)
  then have rest: "rlp_get_items ?buf (length pre + length (enc v)) (length pre + (length (enc v) + length ?c)) = Some (map rlp_item vs)"
    by (simp add: add.assoc)
  have "length pre < length pre + (length (enc v) + length ?c)" using enc_nonempty [of v] by simp
  then show ?case using fill item rest unat_length [OF small]
    by (subst rlp_get_items.simps) simp
qed

lemma get_item_at:
  assumes "e \<noteq> []" "length (pre @ e @ post) < 2 ^ 64"
  shows "rlp_get_item (pre @ e @ post) (length pre) (of_nat (length e)) =
    (if hd e < 0xc0 then Some (CODER_ITEM e)
     else decodeLength (e @ post) 0xc0 \<bind> (\<lambda>(len, offset).
            if of_nat (length e) \<noteq> len + of_nat offset then None
            else rlp_get_items (pre @ e @ post) (length pre + offset) (length pre + length e) \<bind> (\<lambda>items. Some (CODER_LIST e items))))"
proof -
  have n: "unat (of_nat (length e) :: u64) = length e" using assms(2) by (intro unat_length) simp
  then have "(of_nat (length e) :: u64) \<noteq> 0" using assms(1) by (metis length_0_conv unat_0)
  then have guard: "(of_nat (length e) = (0 :: u64) \<or> length (pre @ e @ post) < length pre + length e) = False" by simp
  have first: "(pre @ e @ post) ! length pre = hd e" using assms(1) by (simp add: nth_append hd_conv_nth)
  have parts: "drop (length pre) (pre @ e @ post) = e @ post" "take (length e) (e @ post) = e" by simp_all
  show ?thesis
    by (subst rlp_get_item.simps) (simp only: n guard first parts RLP_PREFIX_LIST_def Let_def if_False)
qed

lemma get_item:
  assumes "length (pre @ enc v @ post) < 2 ^ 64"
  shows "rlp_get_item (pre @ enc v @ post) (length pre) (of_nat (length (enc v))) = Some (rlp_item v)"
  using assms
proof (induction v arbitrary: pre post)
  case (Bytes b)
  have "hd (enc (Bytes b)) < 0xc0"
  proof (cases "length b = 1 \<and> hd b < 0x80")
    case True
    then show ?thesis by (simp add: enc_Bytes word_less_nat_alt del: rlp_item.simps)
  next
    case False
    then have "enc (Bytes b) = encodeLengthIntoBytes (of_nat (length b)) 0x80 @ b" by (simp only: enc_Bytes if_False)
    then show ?thesis
      using hd_encodeLength [where baseline = "0x80" and len = "of_nat (length b)" and rest = b] by (simp add: word_less_nat_alt del: rlp_item.simps)
  qed
  then show ?case unfolding get_item_at [OF enc_nonempty Bytes.prems] by (simp only: rlp_item_Bytes [symmetric] if_True)
next
  case (List vs)
  let ?e = "enc (List vs)" and ?c = "concat (map enc vs)"
  let ?l = "encodeLengthIntoBytes (of_nat (length ?c)) 0xc0"
  have e: "?e = ?l @ ?c" by (rule enc_List)
  have first: "\<not> hd ?e < 0xc0"
    using hd_encodeLength [where baseline = "0xc0" and len = "of_nat (length ?c)" and rest = ?c] by (simp add: e not_less del: rlp_item.simps)
  have len: "decodeLength (?e @ post) 0xc0 = Some (of_nat (length ?c), length ?l)" unfolding e append_assoc by (rule decodeLength_encode) simp
  have "rlp_get_items ((pre @ ?l) @ ?c @ post) (length (pre @ ?l)) (length (pre @ ?l) + length ?c) = Some (map rlp_item vs)"
    by (rule get_items) (use List in \<open>simp_all add: e del: rlp_item.simps\<close>)
  then have items: "rlp_get_items (pre @ ?e @ post) (length pre + length ?l) (length pre + length ?e) = Some (map rlp_item vs)"
    by (simp add: e add.assoc del: rlp_item.simps)
  have sum: "((of_nat (length ?e) :: u64) \<noteq> of_nat (length ?c) + of_nat (length ?l)) = False" by (simp add: e del: rlp_item.simps)
  show ?case
    unfolding get_item_at [OF enc_nonempty List.prems] len
    using first by (simp only: sum items rlp_item_List [symmetric] Option.bind.simps prod.case if_False)
qed

section \<open>Contents\<close>

lemma bytes_at_append: "bytes_at (a @ b @ c) (length a) (length b) = Some b"
  by (simp add: bytes_at_def)

lemma decode_contents_encode:
  assumes "baseline \<in> {0x80, 0xc0}" "length b < 2 ^ 64" "item_bytes item = encodeLengthIntoBytes (of_nat (length b)) baseline @ b"
  shows "decode_contents item baseline = Some b"
  using decodeLength_encode [OF assms(1), of "of_nat (length b)"] unat_length [OF assms(2)]
  by (simp add: decode_contents_def item_memory_def assms(3) bytes_at_append)

lemma coderEncodeBytes_contents:
  assumes "length b < 2 ^ 64"
  shows "decode_contents (coderEncodeBytes b) 0x80 = Some b"
proof (cases "length b = 1 \<and> hd b < 0x80")
  case True
  then obtain x where "b = [x]" by (auto simp: length_Suc_conv)
  then show ?thesis using True
    by (simp add: coderEncodeBytes_def decode_contents_def item_memory_def decodeLength_def bytes_at_def RLP_PREFIX_BYTES_def)
next
  case False
  then show ?thesis
    by (intro decode_contents_encode assms) (simp_all only: coderEncodeBytes_def RLP_PREFIX_BYTES_def if_False BRRlpItem.sel, simp)
qed

lemma rlpDecodeBytes_encode: "length b < 2 ^ 64 \<Longrightarrow> rlpDecodeBytes (rlpEncodeBytes b) = Some b"
  by (simp add: rlpDecodeBytes_def rlpEncodeBytes_def coderEncodeBytes_contents RLP_PREFIX_BYTES_def)

lemma enc_le: "length b \<le> length (enc (Bytes b))" "v \<in> set vs \<Longrightarrow> length (enc v) \<le> length (enc (List vs))"
proof -
  show "length b \<le> length (enc (Bytes b))" unfolding enc_Bytes by simp
  assume "v \<in> set vs"
  then have "length (enc v) \<le> length (concat (map enc vs))"
    by (induction vs) (auto intro: le_trans)
  then show "length (enc v) \<le> length (enc (List vs))" unfolding enc_List by simp
qed

lemma rlp_value_item: "length (enc v) < 2 ^ 64 \<Longrightarrow> rlp_value (rlp_item v) = Some v"
proof (induction v)
  case (Bytes b)
  then have "length b < 2 ^ 64" using enc_le(1) [of b] by linarith
  then show ?case using rlpDecodeBytes_encode [of b] by (simp add: rlpEncodeBytes_def coderEncodeBytes_def)
next
  case (List vs)
  have "those (map rlp_value (map rlp_item us)) = Some us" if "set us \<subseteq> set vs" for us
    using that
  proof (induction us)
    case (Cons v us)
    then have "rlp_value (rlp_item v) = Some v" using List enc_le(2) [of v vs] by (simp add: order_le_less_trans)
    then show ?case using Cons by simp
  qed simp
  then show ?case by (subst rlp_item_List) simp
qed

section \<open>The encodings are those of the specification\<close>

text \<open>The \<open>k\<close> bytes of a number in little-endian order.\<close>

lemma of_nat_u8_zero: "n < 256 \<Longrightarrow> (of_nat n :: u8) = 0 \<longleftrightarrow> n = 0"
  by (auto simp: word_of_nat_eq_0_iff dest: dvd_imp_le)

lemma be_nonempty: "0 < n \<Longrightarrow> be n \<noteq> [] \<and> hd (be n) \<noteq> 0"
proof (induction n rule: be.induct)
  case (1 n)
  show ?case
  proof (cases "n < 256")
    case True
    then have "be (n div 256) = []" by (simp add: be.simps)
    moreover have "(of_nat n :: u8) \<noteq> 0" using of_nat_u8_zero [OF True] 1 by simp
    ultimately show ?thesis using 1 by (subst (1 2) be.simps) simp
  next
    case False
    then have "be (n div 256) \<noteq> []" "hd (be (n div 256)) \<noteq> 0" using 1 by (simp_all add: div_greater_zero_iff)
    then show ?thesis using 1 by (subst (1 2) be.simps) simp
  qed
qed

lemma dropWhile_le_bytes: "n < 256 ^ k \<Longrightarrow> dropWhile zero (rev (le_bytes k n)) = be n"
proof (induction k arbitrary: n)
  case 0
  then show ?case by (simp add: le_bytes_def be.simps)
next
  case (Suc k)
  then have IH: "dropWhile zero (rev (le_bytes k (n div 256))) = be (n div 256)" by (simp add: less_mult_imp_div_less mult.commute)
  show ?case
  proof (cases "n < 256")
    case True
    then have "dropWhile zero (rev (le_bytes k (n div 256))) = []" using IH by (simp add: be.simps)
    then have zeros: "\<forall>x \<in> set (rev (le_bytes k (n div 256))). x = 0" by (simp only: dropWhile_eq_Nil_conv)
    have "be (n div 256) = []" using True by (simp add: be.simps)
    then show ?thesis using zeros of_nat_u8_zero [OF True] by (subst be.simps) (simp add: le_bytes_Suc dropWhile_append)
  next
    case False
    then have "be (n div 256) \<noteq> []" using be_nonempty by (simp add: div_greater_zero_iff)
    then have "dropWhile zero (rev (le_bytes k (n div 256))) \<noteq> []" using IH by simp
    then have "\<not> (\<forall>x \<in> set (rev (le_bytes k (n div 256))). x = 0)" by (simp only: dropWhile_eq_Nil_conv not_False_eq_True)
    then show ?thesis using IH False by (subst be.simps) (auto simp: le_bytes_Suc dropWhile_append)
  qed
qed

lemma normalized_be:
  assumes "0 < n" "n < 2 ^ 64"
  shows "normalized (UInt64SetLE (of_nat n)) = be n"
proof -
  obtain z d where zd: "rev (le_bytes 8 n) = replicate z 0 @ d" "takeWhile zero (rev (le_bytes 8 n)) = replicate z 0"
    "dropWhile zero (rev (le_bytes 8 n)) = d" by (rule leading_zeros)
  moreover have "d = be n" using dropWhile_le_bytes [of n 8] assms(2) zd(3) by simp
  ultimately show ?thesis using normalized_eq [OF zd(1,2)] be_nonempty [OF assms(1)]
    by (simp add: UInt64SetLE_le_bytes le_bytes_def)
qed

lemma frame_spec:
  assumes "length b < 2 ^ 64"
  shows "encodeLengthIntoBytes (of_nat (length b)) baseline @ b = rlp_frame baseline b"
proof (cases "length b < 56")
  case True
  have "ucast (of_nat (length b) :: u64) = (of_nat (length b) :: u8)"
    by (rule bit_word_eqI) (simp add: bit_simps)
  then show ?thesis using True unat_length [OF assms] by (simp add: encodeLengthIntoBytes_eq rlp_frame_def)
next
  case False
  then have "0 < length b" by linarith
  then have "normalized (UInt64SetLE (of_nat (length b))) = be (length b)" using assms by (rule normalized_be)
  then show ?thesis using False unat_length [OF assms] by (simp add: encodeLengthIntoBytes_eq rlp_frame_def)
qed

lemma length_frame: "length b \<le> length (rlp_frame baseline b)"
  by (simp add: rlp_frame_def)

lemma enc_spec: "length (rlp_spec v) < 2 ^ 64 \<Longrightarrow> enc v = rlp_spec v"
proof (induction v)
  case (Bytes b)
  have "length b < 2 ^ 64" using Bytes length_frame [of b 128] by (simp split: if_splits)
  then show ?case unfolding enc_Bytes by (simp add: frame_spec)
next
  case (List vs)
  have len: "length (concat (map rlp_spec vs)) < 2 ^ 64" using List.prems length_frame [of "concat (map rlp_spec vs)" 192] by simp
  have "enc v = rlp_spec v" if "v \<in> set vs" for v
  proof (rule List.IH [OF that])
    have "length (rlp_spec v) \<le> length (concat (map rlp_spec vs))" using that by (induction vs) (auto intro: le_trans)
    then show "length (rlp_spec v) < 2 ^ 64" using len by linarith
  qed
  then have m: "map enc vs = map rlp_spec vs" by simp
  show ?case unfolding enc_List m using frame_spec [OF len] by simp
qed

section \<open>Numbers and text\<close>

lemma coderEncodeNumber_eq: "coderEncodeNumber source = coderEncodeBytes (normalized source)"
  by (simp add: coderEncodeNumber_def normalized_def split: prod.split)

lemma number_round_trip:
  assumes "source \<noteq> []" "length source < 2 ^ 64"
  shows "coderDecodeNumber (length source) (coderEncodeNumber source) = Some source"
proof -
  have "length (normalized source) < 2 ^ 64" using length_normalized(1) [OF assms(1)] assms(2) by linarith
  then show ?thesis using convertFromBigEndian_normalized [OF assms(1)]
    by (simp add: coderEncodeNumber_eq coderDecodeNumber_def coderEncodeBytes_contents RLP_PREFIX_BYTES_def)
qed

lemma empty_string_check: "rlpDecodeStringEmptyCheck (rlpEncodeString (Some []))"
  by (simp add: rlpDecodeStringEmptyCheck_def rlpEncodeString_def rlpEncodeBytes_def coderEncodeBytes_def encodeLengthIntoBytes_eq RLP_PREFIX_BYTES_def)

lemma number_not_empty:
  assumes "source \<noteq> []"
  shows "\<not> rlpDecodeStringEmptyCheck (coderEncodeNumber source)"
proof (cases "length (normalized source) = 1 \<and> hd (normalized source) < 0x80")
  case True
  then show ?thesis
    by (simp add: rlpDecodeStringEmptyCheck_def coderEncodeNumber_eq coderEncodeBytes_def RLP_PREFIX_BYTES_def not_le)
next
  case False
  let ?l = "encodeLengthIntoBytes (of_nat (length (normalized source))) 0x80"
  have "0 < length ?l" using length_encodeLength(2) by blast
  then have "length (?l @ normalized source) \<noteq> 1" using length_normalized(2) [OF assms] by (cases "normalized source") auto
  then show ?thesis using False
    by (simp only: rlpDecodeStringEmptyCheck_def coderEncodeNumber_eq coderEncodeBytes_def RLP_PREFIX_BYTES_def if_False BRRlpItem.sel) simp
qed

lemma rlp_uint64: "rlpDecodeUInt64 (rlpEncodeUInt64 val z) z = Some val"
proof (cases "z \<and> val = 0")
  case True
  then show ?thesis by (simp add: rlpDecodeUInt64_def rlpEncodeUInt64_def empty_string_check)
next
  case False
  have ne: "UInt64SetLE val \<noteq> []" by (metis length_UInt64SetLE length_0_conv zero_neq_numeral)
  have "rlpEncodeUInt64 val z = coderEncodeNumber (UInt64SetLE val)" using False by (simp only: rlpEncodeUInt64_def coderEncodeUInt64_def if_False)
  then show ?thesis using number_not_empty [OF ne] number_round_trip [OF ne] UInt64GetLE_SetLE [of val "[]"]
    by (simp add: rlpDecodeUInt64_def)
qed

lemma rlp_uint256:
  assumes "length val = 32"
  shows "rlpDecodeUInt256 (rlpEncodeUInt256 val z) z = Some val"
proof (cases "z \<and> val = UINT256_ZERO")
  case True
  then show ?thesis by (simp add: rlpDecodeUInt256_def rlpEncodeUInt256_def empty_string_check)
next
  case False
  have ne: "val \<noteq> []" using assms by auto
  have "rlpEncodeUInt256 val z = coderEncodeNumber val" using False by (simp only: rlpEncodeUInt256_def coderEncodeUInt256_def if_False)
  then show ?thesis using number_not_empty [OF ne] number_round_trip [OF ne] assms by (simp add: rlpDecodeUInt256_def)
qed

lemma rlp_hex_string:
  assumes "length b < 2 ^ 64"
  shows "\<exists>item. rlpEncodeHexString (Some (hex_prefix @ encodeHex b)) = Some item \<and> item = rlpEncodeBytes b \<and>
    rlpDecodeHexString item hex_prefix = Some (hex_prefix @ encodeHex b)"
proof -
  have "rlpEncodeHexString (Some (hex_prefix @ encodeHex b)) = Some (rlpEncodeBytes b)"
    by (cases b) (simp_all add: rlpEncodeHexString_def hex_prefix_def rlpEncodeString_def nibbles_join)
  then show ?thesis using rlpDecodeBytes_encode [OF assms] by (simp add: rlpDecodeHexString_def)
qed

section \<open>Properties\<close>

text \<open>
  C8: RLP round trip. For every value whose encoding has a length below \<open>2 ^ 64\<close>, \<open>rlpGetItem\<close> on the bytes
  that the encoders wrote rebuilds the very item with all its sub-items, and the decoders read the value back.
\<close>

theorem rlp_round_trip:
  assumes "length (rlpGetData (rlp_item v)) < 2 ^ 64"
  shows "rlpGetItem (rlpGetData (rlp_item v)) = Some (rlp_item v) \<and> rlp_value (rlp_item v) = Some v"
  using get_item [of "[]" v "[]"] rlp_value_item [of v] assms by (simp add: rlpGetItem_def rlpGetData_def)

theorem rlp_round_trip_witness:
  "rlpGetItem (rlpGetData (rlp_item (List [Bytes [1, 2], List [], Bytes []]))) = Some (rlp_item (List [Bytes [1, 2], List [], Bytes []]))"
  by (rule rlp_round_trip [THEN conjunct1])
     (simp add: rlpGetData_def rlpEncodeListItems_def coderEncodeList_def rlpEncodeBytes_def coderEncodeBytes_def encodeLengthIntoBytes_eq Let_def)

text \<open>
  C9: The RLP encoding is that of the specification: a byte below 128 is its own encoding, a string or list of up to
  55 bytes gets a prefix of one byte, a longer one its length in big-endian order without leading zeros.
\<close>

theorem rlp_encoding_spec:
  assumes "length (rlp_spec v) < 2 ^ 64"
  shows "rlpGetData (rlp_item v) = rlp_spec v"
  using enc_spec [OF assms] by (simp add: rlpGetData_def)

theorem rlp_encoding_spec_witness:
  "rlpGetData (rlp_item (List [Bytes [99, 97, 116], Bytes [100, 111, 103]])) = [0xc8, 0x83, 99, 97, 116, 0x83, 100, 111, 103]"
  using rlp_encoding_spec [of "List [Bytes [99, 97, 116], Bytes [100, 111, 103]]"] by (simp add: rlp_frame_def)

text \<open>
  Numbers and hexadecimal text. A 64 bit number, a 256 bit number and a text of \<open>0x\<close> and hexadecimal digits
  come back from their RLP items, with both ways to write zero.
\<close>

theorem rlp_numbers_round_trip:
  assumes "length val = 32" "length b < 2 ^ 64"
  shows "rlpDecodeUInt64 (rlpEncodeUInt64 n z) z = Some n \<and> rlpDecodeUInt256 (rlpEncodeUInt256 val z) z = Some val \<and>
    (\<exists>item. rlpEncodeHexString (Some (hex_prefix @ encodeHex b)) = Some item \<and> item = rlpEncodeBytes b \<and>
      rlpDecodeHexString item hex_prefix = Some (hex_prefix @ encodeHex b))"
  using rlp_uint64 rlp_uint256 [OF assms(1)] rlp_hex_string [OF assms(2)] by blast

theorem rlp_numbers_round_trip_witness:
  "rlpDecodeUInt256 (rlpEncodeUInt256 (replicate 32 1) False) False = Some (replicate 32 1)"
  using rlp_numbers_round_trip [of "replicate 32 1" "[]"] by simp

text \<open>
  Items behind the end of their list. The loop of \<open>rlpGetItem\<close> does not check that an item ends within its
  list: it takes \<open>c4 c1 82 01 02\<close>, where the inner list has one byte of contents, for a list of three items whose
  first one has the bytes of the other two, and on \<open>c1 82\<close> it reads behind the buffer.
\<close>

theorem rlp_item_overruns_list:
  "rlpGetItem [0xc4, 0xc1, 0x82, 0x01, 0x02] =
     Some (CODER_LIST [0xc4, 0xc1, 0x82, 0x01, 0x02]
       [CODER_LIST [0xc1, 0x82] [CODER_ITEM [0x82, 0x01, 0x02]], CODER_ITEM [0x01], CODER_ITEM [0x02]]) \<and>
   rlpGetItem [0xc1, 0x82] = None"
  by code_simp

end
