(* ===== verification/RlpPool.thy ===== *)
theory RlpPool
  imports Prelude "HOL-Library.Monad_Syntax"
begin

text \<open>
  The pool of items of \<open>ethereum/rlp/BRRlpCoder.c\<close>: the doubly linked list of busy items and the singly linked
  list of free ones, over a heap of nodes. \<open>calloc\<close> is an argument, the address of a new node. A release is a
  recursion over the items of an item that follows pointers: \<open>None\<close> when it reaches an address that is not
  allocated or does not return.
\<close>

section \<open>The operations\<close>

type_synonym addr = nat

record BRRlpNode =
  nextItem :: "addr option"
  prevItem :: "addr option"
  subItems :: "addr list"

type_synonym heap = "addr \<Rightarrow> BRRlpNode option"

record BRRlpCoder =
  failed :: bool
  freeItems :: "addr option"
  busyItems :: "addr option"
  nodes :: heap

definition empty_node :: BRRlpNode where
  "empty_node = \<lparr>nextItem = None, prevItem = None, subItems = []\<rparr>"

definition rlpCoderCreate :: BRRlpCoder where
  "rlpCoderCreate = \<lparr>failed = False, freeItems = None, busyItems = None, nodes = Map.empty\<rparr>"

definition rlpCoderSetFailed :: "BRRlpCoder \<Rightarrow> BRRlpCoder" where
  "rlpCoderSetFailed coder = coder\<lparr>failed := True\<rparr>"

definition rlpCoderClrFailed :: "BRRlpCoder \<Rightarrow> BRRlpCoder" where
  "rlpCoderClrFailed coder = coder\<lparr>failed := False\<rparr>"

definition rlpCoderHasFailed :: "BRRlpCoder \<Rightarrow> bool" where
  "rlpCoderHasFailed coder = failed coder"

text \<open>Writes to a field of a node.\<close>

definition upd_node :: "addr \<Rightarrow> (BRRlpNode \<Rightarrow> BRRlpNode) \<Rightarrow> heap \<Rightarrow> heap" where
  "upd_node a f h = h(a := map_option f (h a))"

definition upd_opt :: "addr option \<Rightarrow> (BRRlpNode \<Rightarrow> BRRlpNode) \<Rightarrow> heap \<Rightarrow> heap" where
  "upd_opt p f h = (case p of None \<Rightarrow> h | Some a \<Rightarrow> upd_node a f h)"

definition rlpCoderAcquireItemInternal :: "BRRlpCoder \<Rightarrow> addr \<Rightarrow> BRRlpCoder \<times> addr" where
  "rlpCoderAcquireItemInternal coder new =
     (let (item, coder1) =
            (case freeItems coder of
               Some a \<Rightarrow> (a, coder\<lparr>freeItems := (case nodes coder a of None \<Rightarrow> None | Some n \<Rightarrow> nextItem n),
                                nodes := upd_node a (\<lambda>n. n\<lparr>nextItem := None\<rparr>) (nodes coder)\<rparr>)
             | None \<Rightarrow> (new, coder\<lparr>nodes := (nodes coder)(new \<mapsto> empty_node)\<rparr>));
          h1 = upd_opt (busyItems coder1) (\<lambda>n. n\<lparr>prevItem := Some item\<rparr>) (nodes coder1);
          h2 = upd_node item (\<lambda>n. n\<lparr>nextItem := busyItems coder1\<rparr>) h1
      in (coder1\<lparr>nodes := h2, busyItems := Some item\<rparr>, item))"

definition rlpCoderReturnItemInternal :: "BRRlpCoder \<Rightarrow> addr option \<Rightarrow> addr \<Rightarrow> addr option \<Rightarrow> BRRlpCoder" where
  "rlpCoderReturnItemInternal coder prv item nxt =
     (let coder1 = (if busyItems coder = Some item then coder\<lparr>busyItems := nxt\<rparr>
                    else coder\<lparr>nodes := upd_opt nxt (\<lambda>n. n\<lparr>prevItem := prv\<rparr>) (upd_opt prv (\<lambda>n. n\<lparr>nextItem := nxt\<rparr>) (nodes coder))\<rparr>)
      in coder1\<lparr>nodes := upd_node item (\<lambda>n. n\<lparr>prevItem := None, nextItem := freeItems coder\<rparr>) (nodes coder1),
                freeItems := Some item\<rparr>)"

text \<open>\<open>_rlpCoderReleaseItemInternal\<close> from the item with index \<open>i\<close> on.\<close>

partial_function (option) release_from :: "BRRlpCoder \<Rightarrow> addr \<Rightarrow> nat \<Rightarrow> BRRlpCoder option" where
  "release_from coder item i =
     (case nodes coder item of
        None \<Rightarrow> None
      | Some n \<Rightarrow>
          if i < length (subItems n)
          then release_from coder (subItems n ! i) 0 \<bind> (\<lambda>coder'. release_from coder' item (i + 1))
          else Some (rlpCoderReturnItemInternal (coder\<lparr>nodes := upd_node item (\<lambda>_. empty_node) (nodes coder)\<rparr>)
                 (prevItem n) item (nextItem n)))"

definition rlpCoderReleaseItemInternal :: "BRRlpCoder \<Rightarrow> addr \<Rightarrow> BRRlpCoder option" where
  "rlpCoderReleaseItemInternal coder item = release_from coder item 0"

definition itemFillList :: "BRRlpCoder \<Rightarrow> addr \<Rightarrow> addr list \<Rightarrow> BRRlpCoder" where
  "itemFillList coder item items = coder\<lparr>nodes := upd_node item (\<lambda>n. n\<lparr>subItems := items\<rparr>) (nodes coder)\<rparr>"

text \<open>The loop of \<open>_rlpCoderReclaimInternal\<close>, which frees the nodes.\<close>

partial_function (option) reclaim_from :: "heap \<Rightarrow> addr option \<Rightarrow> heap option" where
  "reclaim_from h item =
     (case item of
        None \<Rightarrow> Some h
      | Some a \<Rightarrow> (case h a of None \<Rightarrow> None | Some n \<Rightarrow> reclaim_from (h(a := None)) (nextItem n)))"

definition rlpCoderReclaimInternal :: "BRRlpCoder \<Rightarrow> BRRlpCoder option" where
  "rlpCoderReclaimInternal coder = map_option (\<lambda>h. coder\<lparr>nodes := h, freeItems := None\<rparr>) (reclaim_from (nodes coder) (freeItems coder))"

section \<open>The lists\<close>

text \<open>The items of a list, from its first node; and that the node behind another one points back to it.\<close>

fun links :: "heap \<Rightarrow> addr option \<Rightarrow> addr list \<Rightarrow> bool" where
  "links h p [] \<longleftrightarrow> p = None"
| "links h p (a # as) \<longleftrightarrow> p = Some a \<and> (\<exists>n. h a = Some n \<and> links h (nextItem n) as)"

fun backs :: "heap \<Rightarrow> addr list \<Rightarrow> bool" where
  "backs h (a # b # as) \<longleftrightarrow> (\<exists>n. h b = Some n \<and> prevItem n = Some a) \<and> backs h (b # as)"
| "backs h _ \<longleftrightarrow> True"

definition pool :: "BRRlpCoder \<Rightarrow> addr list \<Rightarrow> addr list \<Rightarrow> bool" where
  "pool coder bs fs \<longleftrightarrow>
     links (nodes coder) (busyItems coder) bs \<and> backs (nodes coder) bs \<and> links (nodes coder) (freeItems coder) fs \<and>
     distinct (bs @ fs) \<and> dom (nodes coder) = set (bs @ fs) \<and>
     (\<forall>a \<in> set fs. \<exists>n. nodes coder a = Some n \<and> prevItem n = None \<and> subItems n = [])"

lemma upd_node_simps [simp]:
  "upd_node a f h b = (if b = a then map_option f (h a) else h b)" "dom (upd_node a f h) = dom h"
  by (auto simp: upd_node_def)

lemma dom_upd_opt [simp]: "dom (upd_opt p f h) = dom h"
  by (simp add: upd_opt_def split: option.split)

text \<open>A list depends on the links of its nodes only.\<close>

lemma links_cong:
  assumes "links h p as" "\<And>a. a \<in> set as \<Longrightarrow> map_option nextItem (h' a) = map_option nextItem (h a)"
  shows "links h' p as"
  using assms by (induction as arbitrary: p) (fastforce simp: map_option_eq_Some)+

lemma backs_cong:
  assumes "backs h as" "\<And>a. a \<in> set (tl as) \<Longrightarrow> map_option prevItem (h' a) = map_option prevItem (h a)"
  shows "backs h' as"
  using assms by (induction h as rule: backs.induct) (fastforce simp: map_option_eq_Some)+

lemma set_tl: "set (tl as) \<subseteq> set as"
  by (cases as) auto

lemma links_append: "links h p (as @ b # bs) \<Longrightarrow> links h (Some b) (b # bs)"
  by (induction as arbitrary: p) auto

lemma backs_append: "backs h (as @ bs) \<Longrightarrow> backs h as \<and> backs h bs"
  by (induction h as rule: backs.induct) (cases bs; auto)+

section \<open>Acquiring\<close>

lemma map_upd_opt_other [simp]:
  "map_option subItems (upd_opt p (\<lambda>n. n\<lparr>prevItem := x\<rparr>) h a) = map_option subItems (h a)"
  "map_option subItems (upd_opt p (\<lambda>n. n\<lparr>nextItem := y\<rparr>) h a) = map_option subItems (h a)"
  "map_option nextItem (upd_opt p (\<lambda>n. n\<lparr>prevItem := x\<rparr>) h a) = map_option nextItem (h a)"
  "map_option prevItem (upd_opt p (\<lambda>n. n\<lparr>nextItem := y\<rparr>) h a) = map_option prevItem (h a)"
  by (simp_all add: upd_opt_def option.map_comp comp_def split: option.split)

lemma upd_opt_other: "p \<noteq> Some a \<Longrightarrow> upd_opt p f h a = h a"
  by (auto simp: upd_opt_def split: option.split)

text \<open>Linking an unlinked node in front of the busy items.\<close>

lemma link_busy:
  assumes "links h p bs" "backs h bs" "item \<notin> set bs" "h item = Some n" "distinct bs"
    and h': "h' = upd_node item (\<lambda>n. n\<lparr>nextItem := p\<rparr>) (upd_opt p (\<lambda>n. n\<lparr>prevItem := Some item\<rparr>) h)"
  shows "links h' (Some item) (item # bs)" "backs h' (item # bs)"
proof -
  have same: "map_option nextItem (h' a) = map_option nextItem (h a)" if "a \<noteq> item" for a using that by (simp add: h')
  have "p \<noteq> Some item" using assms(1,3) by (cases bs) auto
  then have "h' item = Some (n\<lparr>nextItem := p\<rparr>)" using assms(4) by (simp add: h' upd_opt_other)
  moreover have "links h' p bs" by (rule links_cong [OF assms(1)], rule same) (use assms(3) in auto)
  ultimately show "links h' (Some item) (item # bs)" by simp
  show "backs h' (item # bs)"
  proof (cases bs)
    case (Cons b bs')
    have p: "p = Some b" using assms(1) Cons by simp
    then obtain m where "h b = Some m" using assms(1) Cons by auto
    then have "h' b = Some (m\<lparr>prevItem := Some item\<rparr>)" using p assms(3) Cons by (auto simp: h' upd_opt_def)
    moreover have "backs h' bs"
      by (rule backs_cong [OF assms(2)]) (use p assms(3,5) Cons in \<open>auto simp: h' upd_opt_def\<close>)
    ultimately show ?thesis using Cons by simp
  qed simp
qed

lemma acquire_pool:
  assumes inv: "pool coder bs fs" and new: "fs = [] \<Longrightarrow> new \<notin> set bs"
  shows "\<exists>coder' item. rlpCoderAcquireItemInternal coder new = (coder', item) \<and> item = (case fs of [] \<Rightarrow> new | f # _ \<Rightarrow> f) \<and>
    pool coder' (item # bs) (tl fs) \<and> map_option subItems (nodes coder' item) = Some [] \<and>
    (\<forall>a. a \<noteq> item \<longrightarrow> map_option subItems (nodes coder' a) = map_option subItems (nodes coder a)) \<and> failed coder' = failed coder"
proof (cases fs)
  case Nil
  let ?h = "(nodes coder)(new \<mapsto> empty_node)"
  let ?h' = "upd_node new (\<lambda>n. n\<lparr>nextItem := busyItems coder\<rparr>) (upd_opt (busyItems coder) (\<lambda>n. n\<lparr>prevItem := Some new\<rparr>) ?h)"
  have fresh: "new \<notin> set bs" using new Nil by simp
  have distinct: "distinct bs" and node: "?h new = Some empty_node" using inv by (simp_all add: pool_def)
  have free: "freeItems coder = None" using inv Nil by (simp add: pool_def)
  have "links ?h (busyItems coder) bs" by (rule links_cong [of "nodes coder"]) (use inv fresh in \<open>auto simp: pool_def\<close>)
  moreover have "backs ?h bs" by (rule backs_cong [of "nodes coder"]) (use inv fresh set_tl [of bs] in \<open>auto simp: pool_def\<close>)
  ultimately have busy: "links ?h' (Some new) (new # bs)" "backs ?h' (new # bs)"
    using fresh distinct node by (blast intro: link_busy [OF _ _ _ _ _ refl])+
  have r: "rlpCoderAcquireItemInternal coder new = (coder\<lparr>nodes := ?h', busyItems := Some new\<rparr>, new)"
    by (simp add: rlpCoderAcquireItemInternal_def free Let_def)
  have "busyItems coder \<noteq> Some new" using inv fresh by (cases bs) (auto simp: pool_def)
  then show ?thesis
    using busy inv Nil fresh free unfolding r by (auto simp: pool_def empty_node_def upd_opt_other)
next
  case (Cons f fs')
  obtain m where m: "nodes coder f = Some m" "links (nodes coder) (nextItem m) fs'" "prevItem m = None" "subItems m = []"
    using inv Cons by (auto simp: pool_def)
  have free: "freeItems coder = Some f" using inv Cons by (simp add: pool_def)
  let ?h = "upd_node f (\<lambda>n. n\<lparr>nextItem := None\<rparr>) (nodes coder)"
  let ?h' = "upd_node f (\<lambda>n. n\<lparr>nextItem := busyItems coder\<rparr>) (upd_opt (busyItems coder) (\<lambda>n. n\<lparr>prevItem := Some f\<rparr>) ?h)"
  have f: "f \<notin> set bs" "f \<notin> set fs'" "distinct bs" using inv Cons by (auto simp: pool_def)
  have "links ?h (busyItems coder) bs" by (rule links_cong [of "nodes coder"]) (use inv f in \<open>auto simp: pool_def\<close>)
  moreover have "backs ?h bs" by (rule backs_cong [of "nodes coder"]) (use inv f set_tl [of bs] in \<open>auto simp: pool_def\<close>)
  moreover have "?h f = Some (m\<lparr>nextItem := None\<rparr>)" using m by simp
  ultimately have busy: "links ?h' (Some f) (f # bs)" "backs ?h' (f # bs)"
    using f by (blast intro: link_busy [OF _ _ _ _ _ refl])+
  have first: "busyItems coder \<noteq> Some f" "\<And>a. a \<in> set fs' \<Longrightarrow> busyItems coder \<noteq> Some a" using inv Cons by (cases bs; auto simp: pool_def)+
  have free': "links ?h' (nextItem m) fs'"
    by (rule links_cong [OF m(2)]) (use first f in \<open>auto simp: upd_opt_other\<close>)
  have r: "rlpCoderAcquireItemInternal coder new = (coder\<lparr>freeItems := nextItem m, nodes := ?h', busyItems := Some f\<rparr>, f)"
    by (simp add: rlpCoderAcquireItemInternal_def free m Let_def)
  have "\<forall>a \<in> set fs'. \<exists>n. ?h' a = Some n \<and> prevItem n = None \<and> subItems n = []"
    using inv Cons first f by (auto simp: pool_def upd_opt_other)
  moreover have "dom ?h' = set ((f # bs) @ fs')" using inv Cons by (auto simp: pool_def)
  ultimately show ?thesis
    using busy free' f inv Cons m first unfolding r pool_def by (auto simp: upd_opt_other)
qed

section \<open>Releasing\<close>

lemma links_remove:
  assumes "links h r (zs @ p # a # ys)" "distinct (zs @ p # a # ys)" "h a = Some n"
    and "\<And>b. b \<in> set (zs @ ys) \<Longrightarrow> map_option nextItem (h' b) = map_option nextItem (h b)"
    and "map_option nextItem (h' p) = Some (nextItem n)"
  shows "links h' r (zs @ p # ys)"
  using assms
proof (induction zs arbitrary: r)
  case Nil
  have "links h (nextItem n) ys" using Nil by auto
  then have "links h' (nextItem n) ys" by (rule links_cong) (use Nil in simp)
  then show ?case using Nil by (auto simp: map_option_eq_Some)
next
  case (Cons z zs)
  obtain m where m: "h z = Some m" "links h (nextItem m) (zs @ p # a # ys)" using Cons.prems by auto
  have "map_option nextItem (h' z) = Some (nextItem m)" using Cons.prems(4) [of z] m by simp
  then obtain m' where "h' z = Some m'" "nextItem m' = nextItem m" by (auto simp: map_option_eq_Some)
  moreover have "links h' (nextItem m) (zs @ p # ys)" by (rule Cons.IH [OF m(2)]) (use Cons.prems in auto)
  moreover have "r = Some z" using Cons.prems(1) by simp
  ultimately show ?case by simp
qed

lemma backs_join: "backs h (as @ [p]) \<Longrightarrow> backs h (p # bs) \<Longrightarrow> backs h (as @ p # bs)"
  by (induction h as rule: backs.induct) auto

lemma backs_remove:
  assumes "backs h (zs @ p # a # ys)" "distinct (zs @ p # a # ys)"
    and "\<And>b. b \<in> set (zs @ p # tl ys) \<Longrightarrow> map_option prevItem (h' b) = map_option prevItem (h b)"
    and "ys \<noteq> [] \<Longrightarrow> map_option prevItem (h' (hd ys)) = Some (Some p)"
  shows "backs h' (zs @ p # ys)"
proof (rule backs_join)
  have "backs h (zs @ [p])" using backs_append [of h "zs @ [p]" "a # ys"] assms(1) by simp
  then show "backs h' (zs @ [p])" by (rule backs_cong) (use assms(3) set_tl [of "zs @ [p]"] in auto)
  have "backs h ys" using backs_append [of h "zs @ [p, a]" ys] assms(1) by simp
  then have "backs h' ys" by (rule backs_cong) (use assms(3) in auto)
  then show "backs h' (p # ys)" using assms(4) by (cases ys) (auto simp: map_option_eq_Some)
qed

text \<open>One node, when its items have been released.\<close>

definition release_node :: "BRRlpCoder \<Rightarrow> addr \<Rightarrow> BRRlpNode \<Rightarrow> BRRlpCoder" where
  "release_node coder item n =
     rlpCoderReturnItemInternal (coder\<lparr>nodes := upd_node item (\<lambda>_. empty_node) (nodes coder)\<rparr>) (prevItem n) item (nextItem n)"

lemma links_prev_node: "links h r (zs @ p # a # ys) \<Longrightarrow> \<exists>m. h p = Some m \<and> nextItem m = Some a"
  by (induction zs arbitrary: r) auto

lemma release_node_pool:
  assumes inv: "pool coder bs fs" and item: "item \<in> set bs" "nodes coder item = Some n"
  shows "pool (release_node coder item n) (filter (\<lambda>a. a \<noteq> item) bs) (item # fs) \<and>
    (\<forall>a. a \<noteq> item \<longrightarrow> map_option subItems (nodes (release_node coder item n) a) = map_option subItems (nodes coder a)) \<and>
    failed (release_node coder item n) = failed coder"
proof -
  let ?h = "nodes coder" and ?c = "release_node coder item n"
  have l: "links ?h (busyItems coder) bs" "backs ?h bs" "links ?h (freeItems coder) fs" "distinct (bs @ fs)" "dom ?h = set (bs @ fs)"
    and free: "\<And>a. a \<in> set fs \<Longrightarrow> \<exists>n. ?h a = Some n \<and> prevItem n = None \<and> subItems n = []"
    using inv by (auto simp: pool_def)
  obtain xs ys where bs: "bs = xs @ item # ys" using item(1) by (meson split_list)
  have outside: "item \<notin> set xs" "item \<notin> set ys" "item \<notin> set fs" using l(4) bs by auto
  have filter: "filter (\<lambda>a. a \<noteq> item) bs = xs @ ys" 
  proof -
    have "filter (\<lambda>a. a \<noteq> item) xs = xs" "filter (\<lambda>a. a \<noteq> item) ys = ys" using outside by (auto intro!: filter_True)
    then show ?thesis by (simp add: bs)
  qed
  have rest: "links ?h (nextItem n) ys" using links_append [of ?h _ xs item ys] l(1) item(2) bs by auto
  have c: "freeItems ?c = Some item" "failed ?c = failed coder"
    "nodes ?c item = Some \<lparr>nextItem = freeItems coder, prevItem = None, subItems = []\<rparr>"
    using item(2) by (auto simp: release_node_def rlpCoderReturnItemInternal_def Let_def empty_node_def upd_opt_def split: option.split)
  have dom: "dom (nodes ?c) = dom ?h" by (simp add: release_node_def rlpCoderReturnItemInternal_def Let_def)
  have released: "pool ?c (xs @ ys) (item # fs)"
    if "links (nodes ?c) (busyItems ?c) (xs @ ys)" "backs (nodes ?c) (xs @ ys)" "\<And>a. a \<in> set fs \<Longrightarrow> nodes ?c a = ?h a"
  proof -
    have "links (nodes ?c) (freeItems coder) fs" by (rule links_cong [OF l(3)]) (simp add: that(3))
    moreover have "dom (nodes ?c) = set ((xs @ ys) @ item # fs)" using dom l(5) bs by auto
    moreover have "distinct ((xs @ ys) @ item # fs)" using l(4) bs by auto
    ultimately show ?thesis using that c free unfolding pool_def by simp
  qed
  show ?thesis
  proof (cases xs rule: rev_cases)
    case Nil
    then have "busyItems coder = Some item" using l(1) bs by simp
    then have r: "busyItems ?c = nextItem n" "\<And>a. a \<noteq> item \<Longrightarrow> nodes ?c a = ?h a"
      by (simp_all add: release_node_def rlpCoderReturnItemInternal_def Let_def)
    have same: "nodes ?c a = ?h a" if "a \<in> set ys \<or> a \<in> set fs" for a using that r(2) outside by metis
    have "links (nodes ?c) (nextItem n) ys" by (rule links_cong [OF rest]) (simp add: same)
    moreover have "backs ?h ys" using l(2) backs_append [of ?h "[item]" ys] bs Nil by simp
    then have "backs (nodes ?c) ys" by (rule backs_cong) (use same set_tl [of ys] in \<open>auto dest: subsetD\<close>)
    ultimately have "pool ?c (xs @ ys) (item # fs)" using r(1) same Nil by (intro released) simp_all
    then show ?thesis using c(2) r(2) filter by simp
  next
    case (snoc zs p)
    have order: "links ?h (busyItems coder) (zs @ p # item # ys)" "backs ?h (zs @ p # item # ys)" "distinct (zs @ p # item # ys)"
      using l(1,2) bs snoc l(4) by (simp_all, auto)
    have first: "busyItems coder \<noteq> Some item" using order(1,3) by (cases zs) auto
    have "backs ?h (p # item # ys)" using backs_append [of ?h zs "p # item # ys"] order(2) by simp
    then have prev: "prevItem n = Some p" using item(2) by simp
    obtain m where m: "?h p = Some m" "nextItem m = Some item" using links_prev_node [OF order(1)] by blast
    have r: "busyItems ?c = busyItems coder"
      "\<And>a. a \<noteq> item \<Longrightarrow> nodes ?c a = upd_opt (nextItem n) (\<lambda>n. n\<lparr>prevItem := Some p\<rparr>) (upd_node p (\<lambda>k. k\<lparr>nextItem := nextItem n\<rparr>) ?h) a"
      using first by (auto simp: release_node_def rlpCoderReturnItemInternal_def Let_def prev upd_opt_def split: option.split)
    have nx: "nextItem n = (case ys of [] \<Rightarrow> None | y # _ \<Rightarrow> Some y)" using rest by (cases ys) auto
    have p: "p \<noteq> item" "p \<notin> set ys" "p \<notin> set zs" "p \<notin> set fs" using l(4) bs snoc by auto
    have hd: "\<And>a. a \<in> set (zs @ p # tl ys @ fs) \<Longrightarrow> nextItem n \<noteq> Some a" using l(4) bs snoc nx by (cases ys) auto
    have "links (nodes ?c) (busyItems coder) (zs @ p # ys)"
    proof (rule links_remove [OF order(1,3) item(2)])
      show "map_option nextItem (nodes ?c b) = map_option nextItem (?h b)" if "b \<in> set (zs @ ys)" for b
      proof -
        have "b \<noteq> item" "b \<noteq> p" using that outside p snoc by auto
        then show ?thesis using r(2) [of b] by simp
      qed
      show "map_option nextItem (nodes ?c p) = Some (nextItem n)" using r(2) [of p] p m hd [of p] by (simp add: upd_opt_other)
    qed
    moreover have "backs (nodes ?c) (zs @ p # ys)"
    proof (rule backs_remove [OF order(2,3)])
      show "map_option prevItem (nodes ?c b) = map_option prevItem (?h b)" if "b \<in> set (zs @ p # tl ys)" for b
      proof -
        have "b \<noteq> item" "nextItem n \<noteq> Some b" using that outside p(1) snoc hd [of b] set_tl [of ys] by auto
        then show ?thesis using r(2) [of b] m by (auto simp: upd_opt_other)
      qed
      assume "ys \<noteq> []"
      then obtain y ys' where ys: "ys = y # ys'" by (cases ys) auto
      then have "y \<noteq> item" "y \<noteq> p" "y \<in> dom ?h" "nextItem n = Some y" using outside p nx l(5) bs by auto
      then show "map_option prevItem (nodes ?c (hd ys)) = Some (Some p)" using r(2) [of y] by (auto simp: upd_opt_def ys)
    qed
    moreover have same: "nodes ?c a = ?h a" if "a \<in> set fs" for a
    proof -
      have "a \<noteq> item" "a \<noteq> p" "nextItem n \<noteq> Some a" using that outside p hd [of a] by auto
      then show ?thesis using r(2) [of a] by (simp add: upd_opt_other)
    qed
    ultimately have "pool ?c (xs @ ys) (item # fs)" using r(1) snoc by (intro released) simp_all
    moreover have "map_option subItems (nodes ?c a) = map_option subItems (?h a)" if "a \<noteq> item" for a
      using r(2) [OF that] by (simp add: option.map_comp comp_def)
    ultimately show ?thesis using c(2) filter by simp
  qed
qed

text \<open>An item with its items, and their order of release.\<close>

datatype item_tree = Item (root: addr) (parts: "item_tree list")

fun shaped :: "heap \<Rightarrow> item_tree \<Rightarrow> bool" where
  "shaped h (Item a ts) \<longleftrightarrow> map_option subItems (h a) = Some (map root ts) \<and> (\<forall>t \<in> set ts. shaped h t)"

fun postorder :: "item_tree \<Rightarrow> addr list" where
  "postorder (Item a ts) = concat (map postorder ts) @ [a]"

lemma shaped_cong: "shaped h t \<Longrightarrow> (\<And>a. a \<in> set (postorder t) \<Longrightarrow> map_option subItems (h' a) = map_option subItems (h a)) \<Longrightarrow> shaped h' t"
  by (induction t) fastforce

definition released :: "BRRlpCoder \<Rightarrow> addr list \<Rightarrow> addr list \<Rightarrow> addr list \<Rightarrow> BRRlpCoder \<Rightarrow> bool" where
  "released coder bs fs as coder' \<longleftrightarrow>
     pool coder' (filter (\<lambda>a. a \<notin> set as) bs) (rev as @ fs) \<and>
     (\<forall>a. a \<notin> set as \<longrightarrow> map_option subItems (nodes coder' a) = map_option subItems (nodes coder a)) \<and> failed coder' = failed coder"

lemma released_trans:
  assumes "released c bs fs xs c'" "released c' (filter (\<lambda>a. a \<notin> set xs) bs) (rev xs @ fs) ys c''"
  shows "released c bs fs (xs @ ys) c''"
  using assms by (auto simp: released_def conj_commute)

text \<open>The loop over the items from index \<open>i\<close> on, when each of them can be released.\<close>

lemma release_loop:
  assumes each: "\<And>t c bs fs. t \<in> set ts \<Longrightarrow> pool c bs fs \<Longrightarrow> shaped (nodes c) t \<Longrightarrow> set (postorder t) \<subseteq> set bs \<Longrightarrow> distinct (postorder t) \<Longrightarrow>
      \<exists>c'. release_from c (root t) 0 = Some c' \<and> released c bs fs (postorder t) c'"
    and "set us \<subseteq> set ts" "pool c bs fs" "map_option subItems (nodes c a) = Some (map root (vs @ us))" "\<forall>t \<in> set us. shaped (nodes c) t"
      "set (concat (map postorder us) @ [a]) \<subseteq> set bs" "distinct (concat (map postorder us) @ [a])"
  shows "\<exists>c'. release_from c a (length vs) = Some c' \<and> released c bs fs (concat (map postorder us) @ [a]) c'"
  using assms(2-)
proof (induction us arbitrary: c bs fs vs)
  case Nil
  obtain n where n: "nodes c a = Some n" "subItems n = map root vs" using Nil.prems(3) by auto
  then have "release_from c a (length vs) = Some (release_node c a n)"
    by (subst release_from.simps) (simp add: release_node_def)
  moreover have "released c bs fs [a] (release_node c a n)"
    using release_node_pool [OF Nil.prems(2) _ n(1)] Nil.prems(5) unfolding released_def by simp
  ultimately show ?case by simp
next
  case (Cons u us)
  let ?p = "postorder u" and ?rest = "concat (map postorder us) @ [a]"
  have sep: "set ?p \<inter> set ?rest = {}" "distinct ?p" "distinct ?rest" "set ?p \<subseteq> set bs" "set ?rest \<subseteq> set bs" using Cons.prems(5,6) by auto
  obtain c1 where c1: "release_from c (root u) 0 = Some c1" "released c bs fs ?p c1"
    using each [OF _ Cons.prems(2) _ sep(4,2)] Cons.prems(1,4) by auto
  have same: "map_option subItems (nodes c1 b) = map_option subItems (nodes c b)" if "b \<in> set ?rest" for b
    using c1(2) that sep(1) unfolding released_def by blast
  have "\<exists>c'. release_from c1 a (length (vs @ [u])) = Some c' \<and> released c1 (filter (\<lambda>b. b \<notin> set ?p) bs) (rev ?p @ fs) ?rest c'"
  proof (rule Cons.IH)
    show "set us \<subseteq> set ts" using Cons.prems(1) by simp
    show "pool c1 (filter (\<lambda>b. b \<notin> set ?p) bs) (rev ?p @ fs)" using c1(2) by (simp add: released_def)
    show "map_option subItems (nodes c1 a) = Some (map root ((vs @ [u]) @ us))" using same [of a] Cons.prems(3) by simp
    show "\<forall>t \<in> set us. shaped (nodes c1) t"
    proof
      fix t assume t: "t \<in> set us"
      show "shaped (nodes c1) t"
        by (rule shaped_cong [of "nodes c"]) (use t Cons.prems(4) same in auto)
    qed
    show "set ?rest \<subseteq> set (filter (\<lambda>b. b \<notin> set ?p) bs)" using sep by auto
  qed (rule sep(3))
  then obtain c2 where c2: "release_from c1 a (Suc (length vs)) = Some c2" "released c1 (filter (\<lambda>b. b \<notin> set ?p) bs) (rev ?p @ fs) ?rest c2"
    by auto
  obtain n where n: "nodes c a = Some n" "subItems n = map root (vs @ u # us)" using Cons.prems(3) by auto
  have "release_from c a (length vs) = Some c2"
    by (subst release_from.simps) (simp add: n c1(1) c2(1) nth_append)
  moreover have "released c bs fs (concat (map postorder (u # us)) @ [a]) c2"
    using released_trans [OF c1(2) c2(2)] by simp
  ultimately show ?case by blast
qed

lemma release_tree:
  assumes "pool coder bs fs" "shaped (nodes coder) t" "set (postorder t) \<subseteq> set bs" "distinct (postorder t)"
  shows "\<exists>coder'. release_from coder (root t) 0 = Some coder' \<and> released coder bs fs (postorder t) coder'"
  using assms
proof (induction t arbitrary: coder bs fs)
  case (Item a ts)
  have "\<exists>c'. release_from coder a (length ([] :: item_tree list)) = Some c' \<and> released coder bs fs (concat (map postorder ts) @ [a]) c'"
  proof (rule release_loop [where ts = ts and us = ts and vs = "[]"])
    show "map_option subItems (nodes coder a) = Some (map root ([] @ ts))" "\<forall>t \<in> set ts. shaped (nodes coder) t"
      using Item.prems(2) by simp_all
    show "set (concat (map postorder ts) @ [a]) \<subseteq> set bs" "distinct (concat (map postorder ts) @ [a])" using Item.prems(3,4) by simp_all
  qed (fact Item.IH Item.prems(1) subset_refl)+
  then show ?case by simp
qed

section \<open>Reclaiming\<close>

lemma reclaim_list:
  assumes "links h p fs" "distinct fs"
  shows "reclaim_from h p = Some (h |` (- set fs))"
  using assms
proof (induction fs arbitrary: h p)
  case Nil
  then show ?case by (subst reclaim_from.simps) (simp add: restrict_map_def)
next
  case (Cons a fs)
  then obtain n where n: "p = Some a" "h a = Some n" "links h (nextItem n) fs" by auto
  have "links (h(a := None)) (nextItem n) fs" by (rule links_cong [OF n(3)]) (use Cons.prems in auto)
  then have "reclaim_from (h(a := None)) (nextItem n) = Some ((h(a := None)) |` (- set fs))"
    by (rule Cons.IH) (use Cons.prems(2) in simp)
  moreover have "(h(a := None)) |` (- set fs) = h |` (- set (a # fs))" by (auto simp: restrict_map_def)
  ultimately show ?case using n by (subst reclaim_from.simps) simp
qed

section \<open>Properties\<close>

text \<open>
  C10: The pool of items. Releasing an item whose items form a tree of busy nodes returns, moves exactly the nodes of
  the tree from the busy list to the free list, innermost first, leaves the other items as they are, and keeps
  both lists well formed: the busy list is doubly linked without its nodes, the free nodes are cleared, no node is
  in both and none is lost. Reclaiming then frees exactly the free nodes.
\<close>

theorem pool_release:
  assumes "pool coder bs fs" "shaped (nodes coder) t" "set (postorder t) \<subseteq> set bs" "distinct (postorder t)"
  shows "\<exists>coder' coder''. rlpCoderReleaseItemInternal coder (root t) = Some coder' \<and>
    pool coder' (filter (\<lambda>a. a \<notin> set (postorder t)) bs) (rev (postorder t) @ fs) \<and>
    (\<forall>a. a \<notin> set (postorder t) \<longrightarrow> map_option subItems (nodes coder' a) = map_option subItems (nodes coder a)) \<and>
    rlpCoderReclaimInternal coder' = Some coder'' \<and> dom (nodes coder'') = set bs - set (postorder t)"
proof -
  obtain c' where c': "release_from coder (root t) 0 = Some c'" "released coder bs fs (postorder t) c'"
    using release_tree [OF assms] by blast
  then have inv: "pool c' (filter (\<lambda>a. a \<notin> set (postorder t)) bs) (rev (postorder t) @ fs)" by (simp add: released_def)
  then have "reclaim_from (nodes c') (freeItems c') = Some (nodes c' |` (- set (rev (postorder t) @ fs)))"
    by (intro reclaim_list) (auto simp: pool_def)
  moreover have "dom (nodes c' |` (- set (rev (postorder t) @ fs))) = set bs - set (postorder t)"
    using inv by (auto simp: pool_def)
  ultimately show ?thesis using c' inv unfolding rlpCoderReleaseItemInternal_def rlpCoderReclaimInternal_def released_def by auto
qed

theorem pool_release_witness:
  "\<exists>coder coder'. rlpCoderReleaseItemInternal coder 1 = Some coder' \<and> pool coder [1, 0] [] \<and> pool coder' [] [1, 0]"
proof -
  let ?c0 = "fst (rlpCoderAcquireItemInternal (fst (rlpCoderAcquireItemInternal rlpCoderCreate 0)) 1)"
  let ?c = "itemFillList ?c0 1 [0]" and ?t = "Item 1 [Item 0 []]"
  have nodes: "nodes ?c = [0 \<mapsto> \<lparr>nextItem = None, prevItem = Some 1, subItems = []\<rparr>, 1 \<mapsto> \<lparr>nextItem = Some 0, prevItem = None, subItems = [0]\<rparr>]"
    "busyItems ?c = Some 1" "freeItems ?c = None"
    by (auto simp: itemFillList_def rlpCoderAcquireItemInternal_def rlpCoderCreate_def Let_def upd_opt_def empty_node_def)
  then have inv: "pool ?c [1, 0] []" by (auto simp: pool_def)
  have "shaped (nodes ?c) ?t" "set (postorder ?t) \<subseteq> set [1, 0]" "distinct (postorder ?t)" using nodes by simp_all
  from pool_release [OF inv this] obtain c' where "rlpCoderReleaseItemInternal ?c 1 = Some c'" "pool c' [] [1, 0]" by auto
  then show ?thesis using inv by blast
qed

end
