(* ===== verification/UInt256Math.thy ===== *)
theory UInt256Math
  imports Numbers
begin

text \<open>
  The 256 bit arithmetic of \<open>ethereum/util/BRUtilMath.c\<close> and \<open>BRUtilMath.h\<close>: schoolbook loops over words of 32
  bits with the carry in 64 bits, and that they compute the sum, difference, product and quotient of the numbers.
  A \<open>UInt256\<close> is the list of its 32 bytes.
\<close>

section \<open>The operations\<close>

definition createUInt256 :: "u64 \<Rightarrow> bytes" where
  "createUInt256 val = UInt64SetLE val @ replicate 24 0"

definition eqUInt256 :: "bytes \<Rightarrow> bytes \<Rightarrow> bool" where
  "eqUInt256 x y = UInt256Eq x y"

definition gtUInt256 :: "bytes \<Rightarrow> bytes \<Rightarrow> bool" where
  "gtUInt256 x y \<longleftrightarrow> u64_at x 3 > u64_at y 3 \<or> (u64_at x 3 = u64_at y 3 \<and>
     (u64_at x 2 > u64_at y 2 \<or> (u64_at x 2 = u64_at y 2 \<and>
     (u64_at x 1 > u64_at y 1 \<or> (u64_at x 1 = u64_at y 1 \<and> u64_at x 0 > u64_at y 0)))))"

definition ltUInt256 :: "bytes \<Rightarrow> bytes \<Rightarrow> bool" where
  "ltUInt256 x y \<longleftrightarrow> u64_at x 3 < u64_at y 3 \<or> (u64_at x 3 = u64_at y 3 \<and>
     (u64_at x 2 < u64_at y 2 \<or> (u64_at x 2 = u64_at y 2 \<and>
     (u64_at x 1 < u64_at y 1 \<or> (u64_at x 1 = u64_at y 1 \<and> u64_at x 0 < u64_at y 0)))))"

definition geUInt256 :: "bytes \<Rightarrow> bytes \<Rightarrow> bool" where
  "geUInt256 x y \<longleftrightarrow> eqUInt256 x y \<or> gtUInt256 x y"

definition leUInt256 :: "bytes \<Rightarrow> bytes \<Rightarrow> bool" where
  "leUInt256 x y \<longleftrightarrow> eqUInt256 x y \<or> ltUInt256 x y"

definition compareUInt256 :: "bytes \<Rightarrow> bytes \<Rightarrow> int" where
  "compareUInt256 x y = (if eqUInt256 x y then 0 else if gtUInt256 x y then 1 else - 1)"

text \<open>The loop of the addition: the words of the sum and the carry.\<close>

fun add_words :: "u32 list \<Rightarrow> u32 list \<Rightarrow> u64 \<Rightarrow> u32 list \<times> u64" where
  "add_words (x # xs) (y # ys) carry =
     (let sum = ucast x + ucast y + carry; (zs, c) = add_words xs ys (drop_bit 32 sum) in (ucast sum # zs, c))"
| "add_words _ _ carry = ([], carry)"

definition addUInt256_Overflow :: "bytes \<Rightarrow> bytes \<Rightarrow> bytes \<times> bool" where
  "addUInt256_Overflow y x =
     (let (z, carry) = add_words (words32 8 x) (words32 8 y) 0 in (if carry \<noteq> 0 then UINT256_ZERO else of_words32 z, carry \<noteq> 0))"

definition addUInt256 :: "bytes \<Rightarrow> bytes \<Rightarrow> bytes" where
  "addUInt256 x y =
     (let (z, carry) = add_words (words32 8 x) (words32 8 y) 0 in of_words32 (z @ ucast carry # replicate 7 0))"

fun sub_words :: "u32 list \<Rightarrow> u32 list \<Rightarrow> u64 \<Rightarrow> u32 list" where
  "sub_words (x # xs) (y # ys) borrow =
     (if ucast x \<ge> ucast y + borrow then ucast (ucast x - (ucast y + borrow)) # sub_words xs ys 0
      else ucast (push_bit 32 1 + ucast x - (ucast y + borrow)) # sub_words xs ys 1)"
| "sub_words _ _ borrow = []"

definition subUInt256_x_gt_y :: "bytes \<Rightarrow> bytes \<Rightarrow> bytes" where
  "subUInt256_x_gt_y x y = of_words32 (sub_words (words32 8 x) (words32 8 y) 0)"

text \<open>The difference and whether it is negative.\<close>

definition subUInt256_Negative :: "bytes \<Rightarrow> bytes \<Rightarrow> bytes \<times> bool" where
  "subUInt256_Negative x y =
     (if eqUInt256 x y then (UINT256_ZERO, False)
      else if gtUInt256 x y then (subUInt256_x_gt_y x y, False) else (subUInt256_x_gt_y y x, True))"

text \<open>The inner loop of the multiplication, over the words of \<open>y\<close> and those of \<open>z\<close> from \<open>xi\<close> on.\<close>

fun mul_words :: "u32 \<Rightarrow> u32 list \<Rightarrow> u32 list \<Rightarrow> u64 \<Rightarrow> u32 list \<times> u64" where
  "mul_words x (y # ys) (z # zs) carry =
     (let total = ucast z + carry + ucast y * ucast x; (rs, c) = mul_words x ys zs (drop_bit 32 total) in (ucast total # rs, c))"
| "mul_words _ _ _ carry = ([], carry)"

definition mul_step :: "u32 list \<Rightarrow> u32 list \<Rightarrow> nat \<Rightarrow> u32 list \<Rightarrow> u32 list" where
  "mul_step xs ys xi z =
     (if xs ! xi = 0 then z
      else let (row, carry) = mul_words (xs ! xi) ys (take 8 (drop xi z)) 0
           in take xi z @ row @ (z ! (xi + 8) + ucast carry) # drop (xi + 9) z)"

definition mulUInt256 :: "bytes \<Rightarrow> bytes \<Rightarrow> bytes" where
  "mulUInt256 x y = of_words32 (fold (mul_step (words32 8 x) (words32 8 y)) [0..<8] (replicate 16 0))"

definition tooBigUInt256 :: "bytes \<Rightarrow> bool" where
  "tooBigUInt256 x \<longleftrightarrow> u64_at x 4 \<noteq> 0 \<or> u64_at x 5 \<noteq> 0 \<or> u64_at x 6 \<noteq> 0 \<or> u64_at x 7 \<noteq> 0"

definition coerceUInt256 :: "bytes \<Rightarrow> bytes \<times> bool" where
  "coerceUInt256 x =
     (if tooBigUInt256 x then (UINT256_ZERO, True) else (concat (map (\<lambda>i. UInt64SetLE (u64_at x i)) [0..<4]), False))"

definition mulUInt256_Overflow :: "bytes \<Rightarrow> bytes \<Rightarrow> bytes \<times> bool" where
  "mulUInt256_Overflow x y = coerceUInt256 (mulUInt256 x y)"

definition mulUInt256_Small :: "bytes \<Rightarrow> u32 \<Rightarrow> bytes \<times> bool" where
  "mulUInt256_Small x y = mulUInt256_Overflow x (createUInt256 (ucast y))"

text \<open>A step of the loop of the division, which goes from the high word to the low one; \<open>None\<close> is a division by zero.\<close>

fun div_step :: "u32 \<Rightarrow> u32 \<Rightarrow> u32 list \<times> u64 \<Rightarrow> u32 list \<times> u64" where
  "div_step y w (zs, r) = (let val = ucast w + r * push_bit 32 1 in (ucast (val div ucast y) # zs, val mod ucast y))"

definition divUInt256_Small :: "bytes \<Rightarrow> u32 \<Rightarrow> (bytes \<times> u32) option" where
  "divUInt256_Small x y =
     (if y = 0 then None
      else case foldr (div_step y) (words32 8 x) ([], 0) of (z, remainder) \<Rightarrow> Some (of_words32 z, ucast remainder))"

definition coerceUInt64 :: "bytes \<Rightarrow> u64 \<times> bool" where
  "coerceUInt64 val =
     (let overflow = (u64_at val 3 \<noteq> 0 \<or> u64_at val 2 \<noteq> 0 \<or> u64_at val 1 \<noteq> 0) in (if overflow then 0 else u64_at val 0, overflow))"

definition createUInt256Power :: "u8 \<Rightarrow> bytes \<times> bool" where
  "createUInt256Power digits =
     (if digits < 20 then (createUInt256 (((\<lambda>v. v * 10) ^^ unat digits) 1), False) else (UINT256_ZERO, True))"

definition createUInt256Power2 :: "u8 \<Rightarrow> bytes" where
  "createUInt256Power2 pw =
     concat (map (\<lambda>i. UInt64SetLE (if i = unat (pw div 64) then push_bit (unat (pw mod 64)) 1 else 0)) [0..<4])"

section \<open>The loops\<close>

abbreviation uval :: "bytes \<Rightarrow> nat" where "uval \<equiv> byte_value"

lemma unat_word: "unat (w :: u32) < 2 ^ 32"
proof -
  have "unat w < 2 ^ LENGTH(32)" by (rule unsigned_less)
  then show ?thesis by simp
qed

lemma unat_ucast_64: "unat (ucast (w :: u32) :: u64) = unat w"
  by (simp add: unsigned_ucast_eq take_bit_nat_eq_self unat_word order_less_trans [OF unat_word])

lemma split_64: "unat (ucast (s :: u64) :: u32) = unat s mod 2 ^ 32" "unat (drop_bit 32 s) = unat s div 2 ^ 32"
proof -
  show "unat (ucast (s :: u64) :: u32) = unat s mod 2 ^ 32" by (simp add: unsigned_ucast_eq take_bit_eq_mod)
  show "unat (drop_bit 32 s) = unat s div 2 ^ 32" by (simp only: drop_bit_eq_div unat_div) simp
qed

lemma add_words_value:
  assumes "length xs = length ys" "unat carry \<le> 1" "add_words xs ys carry = (zs, c)"
  shows "word_value zs + 2 ^ (32 * length xs) * unat c = word_value xs + word_value ys + unat carry \<and> length zs = length xs \<and> unat c \<le> 1"
  using assms
proof (induction xs ys arbitrary: carry zs c rule: list_induct2')
  case (4 x xs y ys)
  define s where "s = ucast x + ucast y + carry"
  obtain zs' c' where rest: "add_words xs ys (drop_bit 32 s) = (zs', c')" by (cases "add_words xs ys (drop_bit 32 s)")
  then have zs: "zs = ucast s # zs'" "c = c'" using 4(4) by (simp_all add: s_def Let_def)
  have bounds: "unat x + unat y + unat carry < 2 ^ 64" using unat_word [of x] unat_word [of y] 4(3) by simp
  then have s: "unat s = unat x + unat y + unat carry"
    by (simp add: s_def unat_word_ariths unat_ucast_64)
  have "unat (drop_bit 32 s) \<le> 1" using unat_word [of x] unat_word [of y] 4(3) s by (simp add: split_64)
  then have IH: "word_value zs' + 2 ^ (32 * length xs) * unat c' = word_value xs + word_value ys + unat s div 2 ^ 32" "length zs' = length xs" "unat c' \<le> 1"
    using 4(1) [OF _ _ rest] 4(2) by (simp_all add: split_64)
  have "2 ^ 32 * word_value zs' + 2 ^ 32 * (2 ^ (32 * length xs) * unat c') = 2 ^ 32 * word_value xs + 2 ^ 32 * word_value ys + 2 ^ 32 * (unat s div 2 ^ 32)"
    using IH(1) by (metis distrib_left)
  moreover obtain m q where mq: "unat s mod 2 ^ 32 = m" "unat s div 2 ^ 32 = q" "unat s = m + 2 ^ 32 * q" "m < 2 ^ 32"
    by (metis mod_mult_div_eq mod_less_divisor zero_less_numeral zero_less_power)
  ultimately show ?case using zs s IH(2,3) mq(4) unfolding mq(1,2) by (simp add: split_64(1) power_add mult.assoc)
qed auto

lemma sub_words_value:
  assumes "length xs = length ys" "unat borrow \<le> 1" "word_value ys + unat borrow \<le> word_value xs"
  shows "word_value (sub_words xs ys borrow) = word_value xs - word_value ys - unat borrow \<and> length (sub_words xs ys borrow) = length xs"
  using assms
proof (induction xs ys arbitrary: borrow rule: list_induct2')
  case (4 x xs y ys)
  have yb: "unat (ucast y + borrow) = unat y + unat borrow"
    using unat_word [of y] 4(3) by (simp add: unat_word_ariths unat_ucast_64)
  show ?case
  proof (cases "(ucast x :: u64) \<ge> ucast y + borrow")
    case True
    then have le: "unat y + unat borrow \<le> unat x" using yb by (simp add: word_le_nat_alt unat_ucast_64)
    have "unat (ucast x - (ucast y + borrow)) = unat x - (unat y + unat borrow)" using True yb by (simp add: unat_sub unat_ucast_64)
    then have d: "unat (ucast (ucast x - (ucast y + borrow) :: u64) :: u32) = unat x - (unat y + unat borrow)"
      using unat_word [of x] by (simp add: split_64)
    have "word_value ys \<le> word_value xs"
    proof (rule ccontr)
      assume "\<not> word_value ys \<le> word_value xs"
      then have "2 ^ 32 * word_value xs + 2 ^ 32 \<le> 2 ^ 32 * word_value ys" by simp
      then show False using 4(4) unat_word [of x] by simp
    qed
    then show ?thesis using 4(1) [of 0] 4(2) True d le by simp
  next
    case False
    then have lt: "unat x < unat y + unat borrow" using yb by (simp add: word_le_nat_alt unat_ucast_64)
    have p: "unat (push_bit 32 1 + ucast x :: u64) = 2 ^ 32 + unat x"
      using unat_word [of x] by (simp add: unat_word_ariths unat_ucast_64)
    have yle: "unat y + unat borrow \<le> 2 ^ 32" using unat_word [of y] 4(3) by simp
    then have "unat (push_bit 32 1 + ucast x - (ucast y + borrow) :: u64) = 2 ^ 32 + unat x - (unat y + unat borrow)"
      using p yb by (subst unat_sub) (simp_all add: word_le_nat_alt)
    then have d: "unat (ucast (push_bit 32 1 + ucast x - (ucast y + borrow) :: u64) :: u32) = 2 ^ 32 + unat x - (unat y + unat borrow)"
      using lt by (simp add: split_64)
    have "word_value ys + 1 \<le> word_value xs"
    proof (rule ccontr)
      assume "\<not> word_value ys + 1 \<le> word_value xs"
      then have "2 ^ 32 * word_value xs \<le> 2 ^ 32 * word_value ys" by simp
      then show False using 4(4) lt by simp
    qed
    then show ?thesis using 4(1) [of 1] 4(2) False d lt yle by simp
  qed
qed auto

text \<open>A step of the multiplication does not overflow its 64 bits.\<close>

lemma mul_total:
  assumes "unat carry < 2 ^ 32"
  shows "unat (ucast (z :: u32) + carry + ucast (y :: u32) * ucast (x :: u32) :: u64) = unat z + unat carry + unat y * unat x"
    "unat z + unat carry + unat y * unat x < 2 ^ 64"
proof -
  have "unat y * unat x \<le> (2 ^ 32 - 1) * (2 ^ 32 - 1)" using unat_word [of x] unat_word [of y] by (intro mult_le_mono) simp_all
  then show lt: "unat z + unat carry + unat y * unat x < 2 ^ 64" using unat_word [of z] assms by simp
  then have "unat (ucast y * ucast x :: u64) = unat y * unat x" by (simp add: unat_word_ariths unat_ucast_64)
  then show "unat (ucast z + carry + ucast y * ucast x :: u64) = unat z + unat carry + unat y * unat x"
    using lt by (simp add: unat_word_ariths unat_ucast_64)
qed

lemma mul_words_value:
  assumes "length ys = length zs" "unat carry < 2 ^ 32" "mul_words x ys zs carry = (rs, c)"
  shows "word_value rs + 2 ^ (32 * length ys) * unat c = word_value zs + unat carry + unat x * word_value ys \<and> length rs = length ys \<and> unat c < 2 ^ 32"
  using assms
proof (induction ys zs arbitrary: carry rs c rule: list_induct2')
  case (4 y ys z zs)
  define t where "t = ucast z + carry + ucast y * ucast x"
  obtain rs' c' where rest: "mul_words x ys zs (drop_bit 32 t) = (rs', c')" by (cases "mul_words x ys zs (drop_bit 32 t)")
  then have rs: "rs = ucast t # rs'" "c = c'" using 4(4) by (simp_all add: t_def Let_def)
  have t: "unat t = unat z + unat carry + unat y * unat x" "unat t < 2 ^ 64" using mul_total [OF 4(3)] by (simp_all add: t_def)
  then have "unat (drop_bit 32 t) < 2 ^ 32" by (simp add: split_64(2) less_mult_imp_div_less)
  then have IH: "word_value rs' + 2 ^ (32 * length ys) * unat c' = word_value zs + unat t div 2 ^ 32 + unat x * word_value ys" "length rs' = length ys" "unat c' < 2 ^ 32"
    using 4(1) [OF _ _ rest] 4(2) by (simp_all add: split_64)
  have "2 ^ 32 * word_value rs' + 2 ^ 32 * (2 ^ (32 * length ys) * unat c') = 2 ^ 32 * word_value zs + 2 ^ 32 * (unat t div 2 ^ 32) + 2 ^ 32 * (unat x * word_value ys)"
    using IH(1) by (metis distrib_left)
  moreover obtain m q where mq: "unat t mod 2 ^ 32 = m" "unat t div 2 ^ 32 = q" "unat t = m + 2 ^ 32 * q" "m < 2 ^ 32"
    by (metis mod_mult_div_eq mod_less_divisor zero_less_numeral zero_less_power)
  ultimately show ?case using rs t(1) IH(2,3) unfolding mq(1,2) by (simp add: split_64(1) power_add mult.assoc algebra_simps)
qed auto

lemma take_Suc_word_value: "k < length xs \<Longrightarrow> word_value (take (Suc k) xs) = word_value (take k xs) + 2 ^ (32 * k) * unat (xs ! k)"
  by (simp add: take_Suc_conv_app_nth word_value_append)

lemma mul_step_value:
  assumes xs: "length xs = 8" "length ys = 8" "k < 8"
    and z: "length z = 16" "drop (k + 8) z = replicate (8 - k) 0" "word_value z = word_value (take k xs) * word_value ys"
  shows "length (mul_step xs ys k z) = 16 \<and> drop (Suc k + 8) (mul_step xs ys k z) = replicate (8 - Suc k) 0 \<and>
    word_value (mul_step xs ys k z) = word_value (take (Suc k) xs) * word_value ys"
proof (cases "xs ! k = 0")
  case True
  have "drop (Suc k + 8) z = drop 1 (drop (k + 8) z)" by simp
  then show ?thesis using True assms by (simp add: mul_step_def take_Suc_word_value)
next
  case False
  let ?mid = "take 8 (drop k z)"
  obtain row c where mw: "mul_words (xs ! k) ys ?mid 0 = (row, c)" by (cases "mul_words (xs ! k) ys ?mid 0")
  then have row: "word_value row + 2 ^ 256 * unat c = word_value ?mid + unat (xs ! k) * word_value ys" "length row = 8" "unat c < 2 ^ 32"
    using mul_words_value [OF _ _ mw] assms by simp_all
  have split: "z = take k z @ ?mid @ 0 # replicate (7 - k) 0"
  proof -
    have "z = take k z @ ?mid @ drop (k + 8) z" by (metis append_take_drop_id drop_drop add.commute)
    also have "drop (k + 8) z = 0 # replicate (7 - k) 0" using z(2) xs(3) by (cases "8 - k") (simp_all add: Suc_diff_le)
    finally show ?thesis .
  qed
  have "drop (k + 8) z ! 0 = z ! (k + 8)" using z(1) xs(3) by (simp add: add.commute)
  then have zk: "z ! (k + 8) = 0" using z(2) xs(3) by simp
  have drop9: "drop (k + 9) z = replicate (7 - k) 0"
  proof -
    have "drop (k + 9) z = drop 1 (drop (k + 8) z)" by (simp add: add.commute)
    then show ?thesis using z(2) by simp
  qed
  have step: "mul_step xs ys k z = take k z @ row @ ucast c # replicate (7 - k) 0"
    using False by (simp add: mul_step_def mw zk drop9)
  have cval: "unat (ucast c :: u32) = unat c" using row(3) by (simp add: split_64(1))
  have len: "length (take k z) = k" using z(1) xs(3) by simp
  have value_z: "word_value z = word_value (take k z) + 2 ^ (32 * k) * word_value ?mid"
    using arg_cong [OF split, of word_value] len by (simp add: word_value_append z(1))
  have "word_value (mul_step xs ys k z) = word_value (take k z) + 2 ^ (32 * k) * (word_value row + 2 ^ 256 * unat c)"
    unfolding step using len row(2) cval by (simp add: word_value_append)
  also have "\<dots> = word_value z + 2 ^ (32 * k) * (unat (xs ! k) * word_value ys)" unfolding row(1) value_z by (simp add: distrib_left)
  also have "\<dots> = word_value (take (Suc k) xs) * word_value ys"
    using z(3) xs by (simp add: take_Suc_word_value algebra_simps)
  finally show ?thesis using len row(2) xs(3) unfolding step by simp
qed

lemma mul_fold:
  assumes "length xs = 8" "length ys = 8" "k \<le> 8"
  shows "length (fold (mul_step xs ys) [0..<k] (replicate 16 0)) = 16 \<and>
    drop (k + 8) (fold (mul_step xs ys) [0..<k] (replicate 16 0)) = replicate (8 - k) 0 \<and>
    word_value (fold (mul_step xs ys) [0..<k] (replicate 16 0)) = word_value (take k xs) * word_value ys"
  using assms(3)
proof (induction k)
  case (Suc k)
  then show ?case using mul_step_value [OF assms(1,2), of k "fold (mul_step xs ys) [0..<k] (replicate 16 0)"] by simp
qed (simp del: replicate.simps)

lemma div_words_value:
  assumes "y \<noteq> 0" "foldr (div_step y) xs ([], 0) = (zs, r)"
  shows "word_value xs = word_value zs * unat y + unat r \<and> unat r < unat y \<and> length zs = length xs"
  using assms(2)
proof (induction xs arbitrary: zs r)
  case Nil
  then show ?case using assms(1) by (auto simp: word_neq_0_conv word_less_nat_alt)
next
  case (Cons x xs)
  obtain zs' r' where rest: "foldr (div_step y) xs ([], 0) = (zs', r')" by (cases "foldr (div_step y) xs ([], 0)")
  define v where "v = ucast x + r' * push_bit 32 1"
  have zs: "zs = ucast (v div ucast y) # zs'" "r = v mod ucast y" using Cons.prems rest by (auto simp: v_def Let_def)
  have IH: "word_value xs = word_value zs' * unat y + unat r'" "unat r' < unat y" "length zs' = length xs" using Cons.IH [OF rest] by simp_all
  have bounds: "unat x + unat r' * 2 ^ 32 < 2 ^ 32 * unat y" "2 ^ 32 * unat y < 2 ^ 64" using IH(2) unat_word [of x] unat_word [of y] by simp_all
  then have v: "unat v = unat x + unat r' * 2 ^ 32"
    using order_less_trans [OF bounds] by (simp add: v_def unat_word_ariths unat_ucast_64)
  have d: "unat (v div ucast y) = unat v div unat y" "unat (v mod ucast y) = unat v mod unat y"
    by (simp_all add: unat_div unat_mod unat_ucast_64)
  have "unat v div unat y < 2 ^ 32" using v bounds(1) by (simp add: less_mult_imp_div_less)
  then have "unat (ucast (v div ucast y) :: u32) = unat v div unat y" using d by (simp add: split_64(1))
  moreover have "unat r = unat v mod unat y" using zs(2) d by simp
  moreover have "0 < unat y" using assms(1) by (simp add: unat_gt_0)
  moreover obtain m q where mq: "unat v mod unat y = m" "unat v div unat y = q" "unat x + unat r' * 2 ^ 32 = q * unat y + m"
    using v by (metis div_mult_mod_eq)
  moreover have "m < unat y" using mq(1) \<open>0 < unat y\<close> by auto
  ultimately show ?case using zs(1) IH by (simp add: algebra_simps)
qed

section \<open>The numbers\<close>

lemma length_createUInt256 [simp]: "length (createUInt256 v) = 32"
  by (simp add: createUInt256_def)

lemma uval_createUInt256 [simp]: "uval (createUInt256 v) = unat v"
  by (simp add: createUInt256_def byte_value_append byte_value_UInt64SetLE)

lemma uval_ZERO [simp]: "uval UINT256_ZERO = 0" "length UINT256_ZERO = 32"
  by (simp_all add: UINT256_ZERO_def)

lemma uval_less: "length x = 32 \<Longrightarrow> uval x < 2 ^ 256"
  using byte_value_less [of x] by simp

lemma word_value_uval [simp]: "length x = 32 \<Longrightarrow> word_value (words32 8 x) = uval x"
  by (rule word_value_words32) simp

text \<open>The numbers of the words of 64 bits, and the comparisons.\<close>

lemma byte_value_u64: "8 \<le> length b \<Longrightarrow> byte_value b = unat (UInt64GetLE b) + 2 ^ 64 * byte_value (drop 8 b)"
  using byte_value_append [of "take 8 b" "drop 8 b"] by (simp add: unat_UInt64GetLE)

lemma uval_u64:
  assumes "length x = 32"
  shows "uval x = unat (u64_at x 0) + 2 ^ 64 * (unat (u64_at x 1) + 2 ^ 64 * (unat (u64_at x 2) + 2 ^ 64 * unat (u64_at x 3)))"
proof -
  have "uval x = unat (UInt64GetLE x) + 2 ^ 64 * (unat (UInt64GetLE (drop 8 x)) + 2 ^ 64 * (unat (UInt64GetLE (drop 8 (drop 8 x))) +
      2 ^ 64 * (unat (UInt64GetLE (drop 8 (drop 8 (drop 8 x)))) + 2 ^ 64 * byte_value (drop 8 (drop 8 (drop 8 (drop 8 x)))))))"
    using assms by (simp only: byte_value_u64 length_drop)
  then show ?thesis using assms by (simp add: u64_at_def)
qed

lemma radix_less:
  fixes a a' b b' n :: nat
  assumes "a < n" "a' < n"
  shows "a + n * b < a' + n * b' \<longleftrightarrow> b < b' \<or> b = b' \<and> a < a'"
proof (cases b b' rule: linorder_cases)
  case less
  then have "n * Suc b \<le> n * b'" by (intro mult_le_mono) simp_all
  then show ?thesis using less assms by simp
next
  case greater
  then have "n * Suc b' \<le> n * b" by (intro mult_le_mono) simp_all
  then show ?thesis using greater assms by simp
next
  case equal
  then show ?thesis by simp
qed

lemma radix_eq:
  fixes a a' b b' n :: nat
  assumes "a < n" "a' < n"
  shows "a + n * b = a' + n * b' \<longleftrightarrow> b = b' \<and> a = a'"
proof (cases "b = b'")
  case False
  then have "a + n * b < a' + n * b' \<or> a' + n * b' < a + n * b"
    unfolding radix_less [OF assms] radix_less [OF assms(2,1)] by auto
  then show ?thesis using False by auto
qed simp

lemma radix_less4:
  fixes n :: nat
  assumes "a0 < n" "a1 < n" "a2 < n" "b0 < n" "b1 < n" "b2 < n"
  shows "a0 + n * (a1 + n * (a2 + n * a3)) < b0 + n * (b1 + n * (b2 + n * b3)) \<longleftrightarrow>
    a3 < b3 \<or> a3 = b3 \<and> (a2 < b2 \<or> a2 = b2 \<and> (a1 < b1 \<or> a1 = b1 \<and> a0 < b0))"
  by (simp only: radix_less [OF assms(1,4)] radix_less [OF assms(2,5)] radix_less [OF assms(3,6)]
    radix_eq [OF assms(2,5)] radix_eq [OF assms(3,6)]) blast

lemma unat_less_64: "unat (w :: u64) < 2 ^ 64"
proof -
  have "unat w < 2 ^ LENGTH(64)" by (rule unsigned_less)
  then show ?thesis by simp
qed

lemma ltUInt256_iff: "length x = 32 \<Longrightarrow> length y = 32 \<Longrightarrow> ltUInt256 x y \<longleftrightarrow> uval x < uval y"
  by (simp only: ltUInt256_def uval_u64 radix_less4 [OF unat_less_64 unat_less_64 unat_less_64 unat_less_64 unat_less_64 unat_less_64]
    word_less_nat_alt word_unat_eq_iff)

lemma gtUInt256_iff: "length x = 32 \<Longrightarrow> length y = 32 \<Longrightarrow> gtUInt256 x y \<longleftrightarrow> uval x > uval y"
  by (simp only: gtUInt256_def ltUInt256_iff [symmetric]) (auto simp: ltUInt256_def)

lemma eqUInt256_iff: "length x = 32 \<Longrightarrow> length y = 32 \<Longrightarrow> eqUInt256 x y \<longleftrightarrow> uval x = uval y"
  by (simp add: eqUInt256_def UInt256Eq_iff byte_value_inject)

lemma compareUInt256_sgn: "length x = 32 \<Longrightarrow> length y = 32 \<Longrightarrow> compareUInt256 x y = sgn (int (uval x) - int (uval y))"
  by (simp add: compareUInt256_def eqUInt256_iff gtUInt256_iff sgn_if)

text \<open>Sum, difference, product and quotient.\<close>

lemma addUInt256_Overflow_value:
  assumes "length x = 32" "length y = 32" "addUInt256_Overflow y x = (z, ovf)"
  shows "length z = 32" "ovf \<longleftrightarrow> 2 ^ 256 \<le> uval x + uval y" "\<not> ovf \<Longrightarrow> uval z = uval x + uval y" "ovf \<Longrightarrow> uval z = 0"
proof -
  obtain zs c where a: "add_words (words32 8 x) (words32 8 y) 0 = (zs, c)" by (cases "add_words (words32 8 x) (words32 8 y) 0")
  from add_words_value [OF _ _ a] assms(1,2)
  have v: "word_value zs + 2 ^ 256 * unat c = uval x + uval y" "length zs = 8" "unat c \<le> 1" by simp_all
  have small: "word_value zs < 2 ^ 256" using word_value_less [of zs] v(2) by simp
  have ovf: "ovf \<longleftrightarrow> c \<noteq> 0" "z = (if c \<noteq> 0 then UINT256_ZERO else of_words32 zs)"
    using assms(3) by (auto simp: addUInt256_Overflow_def a split: if_splits)
  show "length z = 32" using ovf v(2) by simp
  have c: "c \<noteq> 0 \<longleftrightarrow> unat c = 1" using v(3) by (auto simp: word_unat_eq_iff)
  show "ovf \<longleftrightarrow> 2 ^ 256 \<le> uval x + uval y" using v(1,3) small c ovf(1) by (cases "unat c = 1") (simp_all add: le_Suc_eq)
  show "\<not> ovf \<Longrightarrow> uval z = uval x + uval y" using ovf v(1) by (simp add: byte_value_of_words32)
  show "ovf \<Longrightarrow> uval z = 0" using ovf by simp
qed

lemma addUInt256_value:
  assumes "length x = 32" "length y = 32"
  shows "length (addUInt256 x y) = 64 \<and> uval (addUInt256 x y) = uval x + uval y"
proof -
  obtain zs c where a: "add_words (words32 8 x) (words32 8 y) 0 = (zs, c)" by (cases "add_words (words32 8 x) (words32 8 y) 0")
  from add_words_value [OF _ _ a] assms
  have v: "word_value zs + 2 ^ 256 * unat c = uval x + uval y" "length zs = 8" "unat c \<le> 1" by simp_all
  then have "unat (ucast c :: u32) = unat c" by (simp add: split_64(1))
  then show ?thesis using v by (simp add: addUInt256_def a byte_value_of_words32 word_value_append)
qed

lemma subUInt256_Negative_value:
  assumes "length x = 32" "length y = 32" "subUInt256_Negative x y = (z, neg)"
  shows "length z = 32 \<and> (neg \<longleftrightarrow> uval x < uval y) \<and> int (uval z) = \<bar>int (uval x) - int (uval y)\<bar>"
proof -
  have sub: "length (subUInt256_x_gt_y a b) = 32 \<and> uval (subUInt256_x_gt_y a b) = uval a - uval b"
    if "length a = 32" "length b = 32" "uval b \<le> uval a" for a b
    using sub_words_value [of "words32 8 a" "words32 8 b" 0] that by (simp add: subUInt256_x_gt_y_def byte_value_of_words32)
  show ?thesis using assms sub [of x y] sub [of y x]
    by (auto simp: subUInt256_Negative_def eqUInt256_iff gtUInt256_iff split: if_splits)
qed

lemma mulUInt256_value:
  assumes "length x = 32" "length y = 32"
  shows "length (mulUInt256 x y) = 64 \<and> uval (mulUInt256 x y) = uval x * uval y"
  using mul_fold [of "words32 8 x" "words32 8 y" 8] assms by (simp add: mulUInt256_def byte_value_of_words32 del: upt_Suc replicate.simps)

lemma u64_zero_iff: "u64_at x k = 0 \<longleftrightarrow> unat (u64_at x k) = 0"
  by (simp add: unat_eq_0)

lemma u64_at_drop: "u64_at (drop (8 * k) x) i = u64_at x (k + i)"
  by (simp add: u64_at_def algebra_simps)

lemma coerceUInt256_value:
  assumes "length x = 64" "coerceUInt256 x = (z, ovf)"
  shows "length z = 32 \<and> (ovf \<longleftrightarrow> 2 ^ 256 \<le> uval x) \<and> uval z = (if ovf then 0 else uval x)"
proof -
  have x: "uval x = uval (take 32 x) + 2 ^ 256 * uval (drop 32 x)" using byte_value_append [of "take 32 x" "drop 32 x"] assms(1) by simp
  have low: "uval (take 32 x) < 2 ^ 256" using byte_value_less [of "take 32 x"] assms(1) by simp
  have "uval (drop 32 x) = 0 \<longleftrightarrow> \<not> tooBigUInt256 x"
    using uval_u64 [of "drop 32 x"] u64_at_drop [of 4 x] assms(1) by (simp add: tooBigUInt256_def u64_zero_iff)
  then have ovf: "tooBigUInt256 x \<longleftrightarrow> 2 ^ 256 \<le> uval x" "\<not> tooBigUInt256 x \<Longrightarrow> uval x = uval (take 32 x)"
    using x low by (cases "uval (drop 32 x)"; simp)+
  have "concat (map (\<lambda>i. UInt64SetLE (u64_at x i)) [0..<4]) = take 32 x"
  proof -
    have "UInt64SetLE (u64_at x i) = take 8 (drop (8 * i) x)" if "i < 4" for i
      using that assms(1) UInt64SetLE_GetLE [of "take 8 (drop (8 * i) x)"] UInt64GetLE_take [of "drop (8 * i) x"]
      by (simp add: u64_at_def)
    then have "concat (map (\<lambda>i. UInt64SetLE (u64_at x i)) [0..<4]) = take 8 x @ take 8 (drop 8 x) @ take 8 (drop 16 x) @ take 8 (drop 24 x)"
      by (simp add: upt_rec)
    also have "\<dots> = take 32 x"
      using take_add [of 8 24 x] take_add [of 8 16 "drop 8 x"] take_add [of 8 8 "drop 16 x"] by simp
    finally show ?thesis .
  qed
  then have z: "z = (if tooBigUInt256 x then UINT256_ZERO else take 32 x)" "ovf \<longleftrightarrow> tooBigUInt256 x"
    using assms(2) by (simp_all add: coerceUInt256_def split: if_splits)
  then show ?thesis using ovf assms(1) by (cases "tooBigUInt256 x") simp_all
qed

lemma divUInt256_Small_value:
  assumes "length x = 32" "divUInt256_Small x y = Some (z, r)"
  shows "length z = 32 \<and> uval z = uval x div unat y \<and> unat r = uval x mod unat y"
proof -
  obtain zs r' where f: "foldr (div_step y) (words32 8 x) ([], 0) = (zs, r')" by (cases "foldr (div_step y) (words32 8 x) ([], 0)")
  have y: "y \<noteq> 0" and z: "z = of_words32 zs" "r = ucast r'" using assms(2) f by (simp_all add: divUInt256_Small_def split: if_splits)
  have v: "uval x = word_value zs * unat y + unat r'" "unat r' < unat y" "length zs = 8"
    using div_words_value [OF y f] assms(1) by simp_all
  have "unat r = unat r'" using v(2) unat_word [of y] by (simp add: z(2) split_64(1))
  then show ?thesis using v by (simp add: z(1) byte_value_of_words32)
qed

section \<open>The arithmetic\<close>

text \<open>
  C11: The arithmetic on 256 bit numbers is exact. The sum and the product are those of the numbers when they fit in 256
  bits, and otherwise zero with the overflow flag set; the difference is the absolute difference with the sign;
  the division by a small number gives quotient and remainder, and fails exactly on zero; the comparison has the sign
  of the difference.
\<close>
theorem uint256_arithmetic:
  assumes "length x = 32" "length y = 32"
  shows "(case addUInt256_Overflow x y of (z, ovf) \<Rightarrow>
        length z = 32 \<and> ovf = (2 ^ 256 \<le> uval x + uval y) \<and> uval z = (if ovf then 0 else uval x + uval y)) \<and>
    (case mulUInt256_Overflow x y of (z, ovf) \<Rightarrow>
        length z = 32 \<and> ovf = (2 ^ 256 \<le> uval x * uval y) \<and> uval z = (if ovf then 0 else uval x * uval y)) \<and>
    (case subUInt256_Negative x y of (z, neg) \<Rightarrow>
        length z = 32 \<and> neg = (uval x < uval y) \<and> int (uval z) = \<bar>int (uval x) - int (uval y)\<bar>) \<and>
    (case divUInt256_Small x d of None \<Rightarrow> d = 0
      | Some (z, r) \<Rightarrow> d \<noteq> 0 \<and> length z = 32 \<and> uval z = uval x div unat d \<and> unat r = uval x mod unat d) \<and>
    compareUInt256 x y = sgn (int (uval x) - int (uval y))"
proof (intro conjI)
  obtain z ovf where s: "addUInt256_Overflow x y = (z, ovf)" by (cases "addUInt256_Overflow x y")
  show "case addUInt256_Overflow x y of (z, ovf) \<Rightarrow>
        length z = 32 \<and> ovf = (2 ^ 256 \<le> uval x + uval y) \<and> uval z = (if ovf then 0 else uval x + uval y)"
    using addUInt256_Overflow_value [OF assms(2,1) s] unfolding s add.commute [of "uval y" "uval x"] by (cases ovf) simp_all
  obtain z ovf where "mulUInt256_Overflow x y = (z, ovf)" by (cases "mulUInt256_Overflow x y")
  then show "case mulUInt256_Overflow x y of (z, ovf) \<Rightarrow>
        length z = 32 \<and> ovf = (2 ^ 256 \<le> uval x * uval y) \<and> uval z = (if ovf then 0 else uval x * uval y)"
    using coerceUInt256_value [of "mulUInt256 x y" z ovf] mulUInt256_value [OF assms] by (simp add: mulUInt256_Overflow_def)
  obtain z neg where "subUInt256_Negative x y = (z, neg)" by (cases "subUInt256_Negative x y")
  then show "case subUInt256_Negative x y of (z, neg) \<Rightarrow>
        length z = 32 \<and> neg = (uval x < uval y) \<and> int (uval z) = \<bar>int (uval x) - int (uval y)\<bar>"
    using subUInt256_Negative_value [OF assms] by simp
  show "case divUInt256_Small x d of None \<Rightarrow> d = 0
      | Some (z, r) \<Rightarrow> d \<noteq> 0 \<and> length z = 32 \<and> uval z = uval x div unat d \<and> unat r = uval x mod unat d"
  proof (cases "divUInt256_Small x d")
    case None
    then show ?thesis by (auto simp: divUInt256_Small_def split: if_splits prod.splits)
  next
    case (Some zr)
    moreover obtain z r where "zr = (z, r)" by (cases zr)
    moreover have "d \<noteq> 0" using Some by (simp add: divUInt256_Small_def split: if_splits)
    ultimately show ?thesis using divUInt256_Small_value [OF assms(1)] by simp
  qed
qed (rule compareUInt256_sgn [OF assms])

lemma uval_max: "uval (replicate n 255) = 256 ^ n - 1"
proof (induction n)
  case (Suc n)
  obtain m where "(256 :: nat) ^ n = Suc m" using gr0_implies_Suc [of "256 ^ n"] by auto
  then show ?case using Suc by simp
qed simp

theorem uint256_arithmetic_witness: "snd (addUInt256_Overflow (replicate 32 255) (createUInt256 7))"
proof -
  have l: "length (replicate 32 255 :: bytes) = 32" by (rule length_replicate)
  have "2 ^ 256 \<le> uval (replicate 32 255) + uval (createUInt256 7)" unfolding uval_max by simp
  then show ?thesis using conjunct1 [OF uint256_arithmetic [OF l length_createUInt256 [of 7], of 0]] by (simp add: split_beta)
qed

end
