(* ===== verification/UInt256Parse.thy ===== *)
theory UInt256Parse
  imports UInt256Math Hex
begin

text \<open>
  Text and 256 bit numbers, \<open>ethereum/util/BRUtilMathParse.c\<close>: the printing in bases 2, 10 and 16 and with a decimal
  point, and the parsing in chunks that fit in 64 bits, with the \<open>strtoull\<close> of the C library that it calls. A C
  string is the list of its bytes in front of the terminator. That parsing gives exactly the number of a text of
  digits, and the printed number back.
\<close>

section \<open>Characters and the C library\<close>

definition isdigit :: "u8 \<Rightarrow> bool" where
  "isdigit c \<longleftrightarrow> 0x30 \<le> c \<and> c \<le> 0x39"

definition isspace :: "u8 \<Rightarrow> bool" where
  "isspace c \<longleftrightarrow> c = 0x20 \<or> 9 \<le> c \<and> c \<le> 13"

text \<open>The value of a digit or letter; other characters are no digit in any base.\<close>

definition digit_value :: "u8 \<Rightarrow> nat" where
  "digit_value c =
     (if 0x30 \<le> c \<and> c \<le> 0x39 then unat c - 48
      else if 0x61 \<le> c \<and> c \<le> 0x7a then unat c - 87
      else if 0x41 \<le> c \<and> c \<le> 0x5a then unat c - 55 else 255)"

definition digits_value :: "nat \<Rightarrow> bytes \<Rightarrow> nat" where
  "digits_value base s = foldl (\<lambda>v c. v * base + digit_value c) 0 s"

text \<open>\<open>strtoull\<close>: the value, the text behind the number, and whether \<open>errno\<close> is set to \<open>ERANGE\<close>.\<close>

definition strtoull :: "bytes \<Rightarrow> nat \<Rightarrow> u64 \<times> bytes \<times> bool" where
  "strtoull s base =
     (let s1 = dropWhile isspace s;
          neg = (s1 \<noteq> [] \<and> hd s1 = 0x2d);
          s2 = (if s1 \<noteq> [] \<and> (hd s1 = 0x2d \<or> hd s1 = 0x2b) then tl s1 else s1);
          s3 = (case s2 of a # x # d # r \<Rightarrow> if base = 16 \<and> a = 0x30 \<and> (x = 0x78 \<or> x = 0x58) \<and> digit_value d < 16 then d # r else s2 | _ \<Rightarrow> s2);
          ds = takeWhile (\<lambda>c. digit_value c < base) s3;
          v = digits_value base ds
      in if ds = [] then (0, s, False)
         else if 2 ^ 64 \<le> v then (- 1, drop (length ds) s3, True)
         else (if neg then - of_nat v else of_nat v, drop (length ds) s3, False))"

section \<open>Parsing\<close>

datatype BRCoreParseStatus = CORE_PARSE_OK | CORE_PARSE_STRANGE_DIGITS | CORE_PARSE_UNDERFLOW | CORE_PARSE_OVERFLOW

definition parseIsInteger :: "bytes option \<Rightarrow> BRCoreParseStatus" where
  "parseIsInteger number =
     (case number of None \<Rightarrow> CORE_PARSE_STRANGE_DIGITS
      | Some s \<Rightarrow> if s \<noteq> [] \<and> list_all isdigit s then CORE_PARSE_OK else CORE_PARSE_STRANGE_DIGITS)"

definition parseIsDecimal :: "bytes option \<Rightarrow> BRCoreParseStatus" where
  "parseIsDecimal number =
     (case number of None \<Rightarrow> CORE_PARSE_STRANGE_DIGITS
      | Some s \<Rightarrow>
        if s = [] \<or> hd s = 0x2e then CORE_PARSE_STRANGE_DIGITS
        else if \<not> list_all (\<lambda>c. isdigit c \<or> c = 0x2e) s then CORE_PARSE_STRANGE_DIGITS
        else if length (filter (\<lambda>c. c = 0x2e) s) > 1 then CORE_PARSE_STRANGE_DIGITS else CORE_PARSE_OK)"

definition SURELY_ENOUGH_CHARS :: nat where
  "SURELY_ENOUGH_CHARS = 100"

text \<open>The chunk sizes; \<open>None\<close> is the \<open>BRFail\<close> for another base.\<close>

definition parseMaximumDigitsForUInt64InBase :: "nat \<Rightarrow> nat option" where
  "parseMaximumDigitsForUInt64InBase base =
     (if base = 2 then Some 64 else if base = 10 then Some 19 else if base = 16 then Some 16 else None)"

definition parseMaximumDigitsForUInt256InBase :: "nat \<Rightarrow> nat option" where
  "parseMaximumDigitsForUInt256InBase base =
     (if base = 2 then Some 256 else if base = 10 then Some 78 else if base = 16 then Some 64 else None)"

definition parseUInt256Power :: "nat \<Rightarrow> nat \<Rightarrow> (bytes \<times> bool) option" where
  "parseUInt256Power base pw =
     map_option (\<lambda>maxPower.
       if pw > maxPower then (UINT256_ZERO, True)
       else let val = ((\<lambda>v. v * of_nat base) ^^ pw) (1 :: u64)
            in (if val = 0 then replicate 8 0 @ UInt64SetLE 1 @ replicate 16 0 else createUInt256 val, False))
       (parseMaximumDigitsForUInt64InBase base)"

definition parseUInt256ScaleByPower :: "bytes \<Rightarrow> nat \<Rightarrow> nat \<Rightarrow> (bytes \<times> bool) option" where
  "parseUInt256ScaleByPower val base pw =
     map_option (\<lambda>(scale, overflow). if overflow then (UINT256_ZERO, True) else mulUInt256_Overflow val scale)
       (parseUInt256Power base pw)"

text \<open>The number of the first \<open>maxDigits\<close> characters, and whether \<open>errno\<close> is set.\<close>

definition parseUInt64 :: "bytes \<Rightarrow> nat \<Rightarrow> (bytes \<times> bool) option" where
  "parseUInt64 s base =
     map_option (\<lambda>maxDigits.
       let number = take maxDigits s; (val, numberEnd, erange) = strtoull number base
       in (createUInt256 val, erange \<or> number = [] \<or> numberEnd \<noteq> []))
       (parseMaximumDigitsForUInt64InBase base)"

text \<open>
  The passes of the loop after the first one; the text is what is left from \<open>index\<close> on, and the next pass starts
  \<open>stringChunks\<close> characters behind its first one.
\<close>

fun parse_chunks :: "nat \<Rightarrow> nat \<Rightarrow> bytes \<Rightarrow> bytes \<Rightarrow> (BRCoreParseStatus \<times> bytes) option" where
  "parse_chunks base stringChunks val [] = Some (CORE_PARSE_OK, val)"
| "parse_chunks base stringChunks val (c # s) =
     (let remainingDigits = length (c # s); scalingDigits = (if remainingDigits \<ge> stringChunks then stringChunks else remainingDigits)
      in case (parseUInt256ScaleByPower val base scalingDigits, parseUInt64 (c # s) base) of
           (Some (scaled, scaleOverflow), Some (chunk, _)) \<Rightarrow>
             (let (val, addOverflow) = addUInt256_Overflow scaled chunk
              in if scaleOverflow \<or> addOverflow then Some (CORE_PARSE_OVERFLOW, UINT256_ZERO)
                 else parse_chunks base stringChunks val (drop (stringChunks - 1) s))
         | _ \<Rightarrow> None)"

definition createUInt256Parse :: "bytes \<Rightarrow> nat \<Rightarrow> (BRCoreParseStatus \<times> bytes) option" where
  "createUInt256Parse string base =
     (let prefixed = (take 2 string = [0x30, 0x78]);
          base = (if prefixed \<and> base = 0 then 16 else base)
      in if prefixed \<and> base \<noteq> 16 then Some (CORE_PARSE_STRANGE_DIGITS, UINT256_ZERO)
         else let string = (if prefixed then drop 2 string else string);
                  base = (if base = 0 then 10 else base);
                  string = dropWhile (\<lambda>c. c = 0x30) string
              in if string \<noteq> [] \<and> (hd string = 0x2d \<or> hd string = 0x2b) then Some (CORE_PARSE_STRANGE_DIGITS, UINT256_ZERO)
                 else case (parseMaximumDigitsForUInt256InBase base, parseMaximumDigitsForUInt64InBase base) of
                     (Some maxDigits, Some stringChunks) \<Rightarrow>
                       if length string > maxDigits then Some (CORE_PARSE_OVERFLOW, UINT256_ZERO)
                       else if string = [] then Some (CORE_PARSE_OK, UINT256_ZERO)
                       else (case parseUInt64 string base of
                           Some (val, errno) \<Rightarrow>
                             if errno then Some (CORE_PARSE_STRANGE_DIGITS, UINT256_ZERO)
                             else parse_chunks base stringChunks val (drop stringChunks string)
                         | None \<Rightarrow> None)
                   | _ \<Rightarrow> None)"

definition createUInt256ParseDecimal :: "bytes \<Rightarrow> nat \<Rightarrow> (BRCoreParseStatus \<times> bytes) option" where
  "createUInt256ParseDecimal string decimals =
     (if parseIsDecimal (Some string) \<noteq> CORE_PARSE_OK then Some (CORE_PARSE_STRANGE_DIGITS, UINT256_ZERO)
      else if length string \<ge> SURELY_ENOUGH_CHARS then Some (CORE_PARSE_OVERFLOW, UINT256_ZERO)
      else if decimals \<ge> SURELY_ENOUGH_CHARS then Some (CORE_PARSE_UNDERFLOW, UINT256_ZERO)
      else let whole = takeWhile (\<lambda>c. c \<noteq> 0x2e) string;
               fract = takeWhile (\<lambda>c. c \<noteq> 0x2e) (drop (Suc (length whole)) string);
               fract = rev (dropWhile (\<lambda>c. c = 0x30) (rev fract))
           in if length fract > decimals then Some (CORE_PARSE_UNDERFLOW, UINT256_ZERO)
              else createUInt256Parse (whole @ fract @ replicate (decimals - length fract) 0x30) 10)"

section \<open>Printing\<close>

text \<open>The remainders of the repeated division by ten, the low digit first; the loop makes at most \<open>256\<close> passes.\<close>

fun coerce_digits :: "nat \<Rightarrow> bytes \<Rightarrow> bytes" where
  "coerce_digits 0 x = []"
| "coerce_digits (Suc i) x =
     (if eqUInt256 x UINT256_ZERO then []
      else case divUInt256_Small x 10 of Some (x, rem) \<Rightarrow> (0x30 + ucast rem) # coerce_digits i x | None \<Rightarrow> [])"

definition coerceReverseString :: "bytes \<Rightarrow> bytes" where
  "coerceReverseString s = rev s"

definition hex2Binary :: "bytes list" where
  "hex2Binary =
     [[0x30, 0x30, 0x30, 0x30], [0x30, 0x30, 0x30, 0x31], [0x30, 0x30, 0x31, 0x30], [0x30, 0x30, 0x31, 0x31],
      [0x30, 0x31, 0x30, 0x30], [0x30, 0x31, 0x30, 0x31], [0x30, 0x31, 0x31, 0x30], [0x30, 0x31, 0x31, 0x31],
      [0x31, 0x30, 0x30, 0x30], [0x31, 0x30, 0x30, 0x31], [0x31, 0x30, 0x31, 0x30], [0x31, 0x30, 0x31, 0x31],
      [0x31, 0x31, 0x30, 0x30], [0x31, 0x31, 0x30, 0x31], [0x31, 0x31, 0x31, 0x30], [0x31, 0x31, 0x31, 0x31]]"

definition coerceString :: "bytes \<Rightarrow> nat \<Rightarrow> bytes option" where
  "coerceString x base =
     (let base16 = encodeHex (dropWhile (\<lambda>b. b = 0) (UInt256Reverse x))
      in if eqUInt256 x UINT256_ZERO then Some [0x30]
         else if base = 16 then Some base16
         else if base = 10 then Some (coerceReverseString (coerce_digits 256 x))
         else if base = 2 then Some (concat (map (\<lambda>c. hex2Binary ! unat (hexu c)) base16))
         else None)"

definition coerceStringPrefaced :: "bytes \<Rightarrow> nat \<Rightarrow> bytes option \<Rightarrow> bytes option" where
  "coerceStringPrefaced x base preface =
     map_option (\<lambda>string. case preface of
         None \<Rightarrow> string
       | Some p \<Rightarrow> if p = [] then string else p @ dropWhile (\<lambda>c. c = 0x30) string)
       (coerceString x base)"

definition coerceStringDecimal :: "bytes \<Rightarrow> nat \<Rightarrow> bytes option" where
  "coerceStringDecimal x decimals =
     map_option (\<lambda>string.
       if decimals = 0 then string
       else if decimals \<ge> length string
       then map (\<lambda>c. if c = 0x20 then 0x30 else c) ([0x30, 0x2e] @ replicate (decimals - length string) 0x20 @ string)
       else let dindex = length string - decimals in take dindex string @ [0x2e] @ drop dindex string)
       (coerceString x 10)"

definition coerceUInt256HashToString :: "bytes \<Rightarrow> bytes" where
  "coerceUInt256HashToString hash = [0x30, 0x78] @ encodeHex hash"

section \<open>The number of a text of digits\<close>

lemma digits_value_Nil [simp]: "digits_value base [] = 0"
  by (simp add: digits_value_def)

lemma digits_value_snoc: "digits_value base (s @ [c]) = digits_value base s * base + digit_value c"
  by (simp add: digits_value_def)

lemma digits_value_single [simp]: "digits_value base [c] = digit_value c"
  by (simp add: digits_value_def)

lemma digits_value_append: "digits_value base (s @ t) = digits_value base s * base ^ length t + digits_value base t"
proof (induction t rule: rev_induct)
  case (snoc c t)
  then show ?case using digits_value_snoc [of base "s @ t" c] by (simp add: digits_value_snoc algebra_simps)
qed simp

abbreviation is_digits :: "nat \<Rightarrow> bytes \<Rightarrow> bool" where
  "is_digits base s \<equiv> list_all (\<lambda>c. digit_value c < base) s"

lemma digits_value_less: "is_digits base s \<Longrightarrow> digits_value base s < base ^ length s"
proof (induction s rule: rev_induct)
  case (snoc c s)
  then have "digits_value base s + 1 \<le> base ^ length s" "digit_value c < base" by simp_all
  then have "(digits_value base s + 1) * base \<le> base ^ length s * base" by (intro mult_le_mono) simp_all
  then show ?case using \<open>digit_value c < base\<close> by (simp add: digits_value_snoc mult.commute)
qed simp

lemma digits_value_zeros [simp]: "digits_value base (dropWhile (\<lambda>c. c = 0x30) s) = digits_value base s"
proof (induction s)
  case (Cons c s)
  have "digits_value base (c # s) = digit_value c * base ^ length s + digits_value base s"
    using digits_value_append [of base "[c]" s] by (simp add: digits_value_def)
  then show ?case using Cons by (simp add: digit_value_def)
qed simp

text \<open>A number without leading zeros has the order of its length.\<close>

lemma digits_value_ge:
  assumes "s \<noteq> []" "hd s \<noteq> 0x30" "is_digits base s"
  shows "base ^ (length s - 1) \<le> digits_value base s"
proof -
  obtain c t where s: "s = c # t" using assms(1) by (cases s) auto
  have "digit_value c \<noteq> 0" using assms(2) by (simp add: s digit_value_def word_le_nat_alt word_unat_eq_iff)
  then have "base ^ length t \<le> digit_value c * base ^ length t" by simp
  also have "\<dots> \<le> digits_value base s" using digits_value_append [of base "[c]" t] by (simp add: s digits_value_def)
  finally show ?thesis by (simp add: s)
qed

section \<open>Parsing a text of digits\<close>

lemma base_cases:
  assumes "base \<in> {2, 10, 16}"
  obtains k m where "parseMaximumDigitsForUInt64InBase base = Some k" "0 < k" "base ^ k \<le> 2 ^ 64" "2 \<le> base" "base \<le> 16"
    "parseMaximumDigitsForUInt256InBase base = Some m" "2 ^ 256 \<le> base ^ m"
proof -
  consider "base = 2" | "base = 10" | "base = 16" using assms by auto
  then show thesis
  proof cases
    case 1
    show thesis by (rule that [of 64 256]) (simp_all add: 1 parseMaximumDigitsForUInt64InBase_def parseMaximumDigitsForUInt256InBase_def)
  next
    case 2
    show thesis by (rule that [of 19 78]) (simp_all add: 2 parseMaximumDigitsForUInt64InBase_def parseMaximumDigitsForUInt256InBase_def)
  next
    case 3
    show thesis by (rule that [of 16 64]) (simp_all add: 3 parseMaximumDigitsForUInt64InBase_def parseMaximumDigitsForUInt256InBase_def)
  qed
qed

lemma digit_not_special:
  "digit_value c < 16 \<Longrightarrow> \<not> isspace c \<and> c \<noteq> 0x2d \<and> c \<noteq> 0x2b \<and> c \<noteq> 0x78 \<and> c \<noteq> 0x58"
  by (auto simp: digit_value_def isspace_def word_le_nat_alt word_unat_eq_iff split: if_splits)

lemma strtoull_digits:
  assumes "is_digits base s" "s \<noteq> []" "base \<le> 16" "base ^ length s \<le> 2 ^ 64"
  shows "strtoull s base = (of_nat (digits_value base s), [], False)"
proof -
  have special: "\<not> isspace c \<and> c \<noteq> 0x2d \<and> c \<noteq> 0x2b \<and> c \<noteq> 0x78 \<and> c \<noteq> 0x58" if "c \<in> set s" for c
    using assms(1,3) that digit_not_special [of c] by (auto simp: list_all_iff)
  then have "dropWhile isspace s = s" using assms(2) by (cases s) simp_all
  moreover have "(case s of a # x # d # r \<Rightarrow> if base = 16 \<and> a = 0x30 \<and> (x = 0x78 \<or> x = 0x58) \<and> digit_value d < 16 then d # r else s | _ \<Rightarrow> s) = s"
    using special by (auto split: list.split)
  moreover have "takeWhile (\<lambda>c. digit_value c < base) s = s" using assms(1) by (simp add: list_all_iff)
  moreover have "digits_value base s < 2 ^ 64" using digits_value_less [OF assms(1)] assms(4) by (rule less_le_trans)
  moreover have "hd s \<in> set s" using assms(2) by simp
  ultimately show ?thesis using assms(2) special [of "hd s"] unfolding strtoull_def by (simp add: Let_def del: takeWhile_eq_all_conv)
qed

lemma unat_of_nat_64: "n < 2 ^ 64 \<Longrightarrow> unat (of_nat n :: u64) = n"
  by (simp add: unsigned_of_nat take_bit_nat_eq_self)

lemma parseUInt64_digits:
  assumes "base \<in> {2, 10, 16}" "parseMaximumDigitsForUInt64InBase base = Some k" "is_digits base s" "s \<noteq> []"
  shows "\<exists>chunk. parseUInt64 s base = Some (chunk, False) \<and> length chunk = 32 \<and> uval chunk = digits_value base (take k s)"
proof -
  obtain k' m where k: "k' = k" "0 < k" "base ^ k \<le> 2 ^ 64" "2 \<le> base" "base \<le> 16"
    using base_cases [OF assms(1)] assms(2) by (metis option.sel)
  have digits: "is_digits base (take k s)" using assms(3) by (auto simp: list_all_iff dest: in_set_takeD)
  have "base ^ length (take k s) \<le> base ^ k" using k(4) by (intro power_increasing) simp_all
  then have small: "base ^ length (take k s) \<le> 2 ^ 64" using k(3) by (rule le_trans)
  have ne: "take k s \<noteq> []" using assms(4) k(2) by simp
  have "digits_value base (take k s) < 2 ^ 64" using digits_value_less [OF digits] small by (rule less_le_trans)
  then show ?thesis
    using strtoull_digits [OF digits ne k(5) small] ne assms(4) k(2) by (simp add: parseUInt64_def assms(2) unat_of_nat_64)
qed

lemma power_loop: "((\<lambda>v. v * of_nat base) ^^ pw) (1 :: u64) = of_nat (base ^ pw)"
  by (induction pw) (simp_all add: mult.commute)

lemma uval_two_64: "uval (replicate 8 0 @ UInt64SetLE 1 @ replicate 16 0) = 2 ^ 64"
  by (simp add: byte_value_append byte_value_UInt64SetLE)

lemma parseUInt256Power_value:
  assumes "base \<in> {2, 10, 16}" "parseMaximumDigitsForUInt64InBase base = Some k" "pw \<le> k"
  shows "\<exists>scale. parseUInt256Power base pw = Some (scale, False) \<and> length scale = 32 \<and> uval scale = base ^ pw"
proof -
  have k: "base ^ k \<le> 2 ^ 64" "2 \<le> base" using base_cases [OF assms(1)] assms(2) by (metis option.sel)+
  have "base ^ pw \<le> base ^ k" using k(2) assms(3) by (intro power_increasing) simp_all
  then have le: "base ^ pw \<le> 2 ^ 64" using k(1) by (rule le_trans)
  show ?thesis
  proof (cases "base ^ pw = 2 ^ 64")
    case True
    then have "(of_nat (base ^ pw) :: u64) = 0" by (simp only: word_of_nat_eq_0_iff) simp
    then show ?thesis using assms(2,3) uval_two_64 unfolding True [symmetric]
      by (simp add: parseUInt256Power_def power_loop Let_def)
  next
    case False
    then have lt: "base ^ pw < 2 ^ 64" using le by simp
    then have "unat (of_nat (base ^ pw) :: u64) = base ^ pw" by (rule unat_of_nat_64)
    moreover have "base ^ pw \<noteq> 0" using k(2) by simp
    ultimately have "(of_nat (base ^ pw) :: u64) \<noteq> 0" by (metis unat_0)
    then show ?thesis using assms(2,3) \<open>unat (of_nat (base ^ pw)) = base ^ pw\<close> by (simp add: parseUInt256Power_def power_loop Let_def)
  qed
qed

lemma parseUInt256ScaleByPower_value:
  assumes "base \<in> {2, 10, 16}" "parseMaximumDigitsForUInt64InBase base = Some k" "pw \<le> k" "length val = 32"
  shows "\<exists>z ovf. parseUInt256ScaleByPower val base pw = Some (z, ovf) \<and> length z = 32 \<and>
    ovf = (2 ^ 256 \<le> uval val * base ^ pw) \<and> uval z = (if ovf then 0 else uval val * base ^ pw)"
proof -
  obtain scale where s: "parseUInt256Power base pw = Some (scale, False)" "length scale = 32" "uval scale = base ^ pw"
    using parseUInt256Power_value [OF assms(1-3)] by auto
  obtain z ovf where m: "mulUInt256_Overflow val scale = (z, ovf)" by (cases "mulUInt256_Overflow val scale")
  show ?thesis
    using coerceUInt256_value [of "mulUInt256 val scale" z ovf] mulUInt256_value [OF assms(4) s(2)] m s
    by (simp add: mulUInt256_Overflow_def parseUInt256ScaleByPower_def)
qed

text \<open>The value as the bytes of a \<open>UInt256\<close>, and a number as the result of the parser.\<close>

definition parse_result :: "nat \<Rightarrow> BRCoreParseStatus \<times> bytes" where
  "parse_result n = (if n < 2 ^ 256 then (CORE_PARSE_OK, le_bytes 32 n) else (CORE_PARSE_OVERFLOW, UINT256_ZERO))"

lemma parse_result_uval: "length x = 32 \<Longrightarrow> parse_result (uval x) = (CORE_PARSE_OK, x)"
  using le_bytes_byte_value [of x] uval_less [of x] by (simp add: parse_result_def)

text \<open>One pass of the loop, whatever the characters of the chunk.\<close>

lemma parse_chunks_step:
  fixes c s
  defines "n \<equiv> \<lambda>k. min k (length (c # s))"
  assumes "base \<in> {2, 10, 16}" "parseMaximumDigitsForUInt64InBase base = Some k" "length val = 32"
    and chunk: "parseUInt64 (c # s) base = Some (chunk, e)" "length chunk = 32"
  shows "parse_chunks base k val (c # s) =
    (if uval val * base ^ n k + uval chunk < 2 ^ 256
     then parse_chunks base k (le_bytes 32 (uval val * base ^ n k + uval chunk)) (drop (n k) (c # s))
     else Some (CORE_PARSE_OVERFLOW, UINT256_ZERO))"
proof -
  have k: "0 < k" using base_cases [OF assms(2)] assms(3) by (metis option.sel)
  have n: "(if length (c # s) \<ge> k then k else length (c # s)) = n k" "n k \<le> k" "drop (k - 1) s = drop (n k) (c # s)"
    using k by (auto simp: n_def min_def Suc_le_eq drop_Cons')
  obtain scaled ovf where sc: "parseUInt256ScaleByPower val base (n k) = Some (scaled, ovf)" "length scaled = 32"
      "ovf = (2 ^ 256 \<le> uval val * base ^ n k)" "uval scaled = (if ovf then 0 else uval val * base ^ n k)"
    using parseUInt256ScaleByPower_value [OF assms(2,3) n(2) assms(4)] by blast
  obtain z carry where add: "addUInt256_Overflow scaled chunk = (z, carry)" by (cases "addUInt256_Overflow scaled chunk")
  note z = addUInt256_Overflow_value [OF chunk(2) sc(2) add]
  have step: "parse_chunks base k val (c # s) =
      (if ovf \<or> carry then Some (CORE_PARSE_OVERFLOW, UINT256_ZERO) else parse_chunks base k z (drop (n k) (c # s)))"
    unfolding parse_chunks.simps Let_def n(1) sc(1) chunk(1) n(3) by (simp add: add)
  have ovf: "ovf \<or> carry \<longleftrightarrow> \<not> uval val * base ^ n k + uval chunk < 2 ^ 256"
    using sc(3,4) z(2) by (cases ovf) (simp_all add: add.commute not_less)
  show ?thesis
  proof (cases "ovf \<or> carry")
    case True
    then show ?thesis using step ovf by simp
  next
    case False
    then have "uval z = uval val * base ^ n k + uval chunk" using z(3) sc(4) by (simp add: add.commute)
    then show ?thesis using step ovf False le_bytes_byte_value [of z] z(1) by simp
  qed
qed

lemma parse_chunks_value:
  assumes "base \<in> {2, 10, 16}" "parseMaximumDigitsForUInt64InBase base = Some k" "length val = 32" "is_digits base s"
  shows "parse_chunks base k val s = Some (parse_result (uval val * base ^ length s + digits_value base s))"
  using assms(3,4)
proof (induction s arbitrary: val rule: length_induct)
  case IH: (1 s val)
  show ?case
  proof (cases s)
    case Nil
    then show ?thesis using IH(2) by (simp add: parse_result_uval)
  next
    case (Cons c s')
    define n where "n = min k (length s)"
    have base: "0 < k" "2 \<le> base" using base_cases [OF assms(1)] assms(2) by (metis option.sel)+
    obtain chunk where ch: "parseUInt64 s base = Some (chunk, False)" "length chunk = 32" "uval chunk = digits_value base (take k s)"
      using parseUInt64_digits [OF assms(1,2), of s] IH(3) Cons by auto
    define first where "first = uval val * base ^ n + uval chunk"
    have step: "parse_chunks base k val s =
        (if first < 2 ^ 256 then parse_chunks base k (le_bytes 32 first) (drop n s) else Some (CORE_PARSE_OVERFLOW, UINT256_ZERO))"
      using parse_chunks_step [OF assms(1,2) IH(2), of c s'] ch unfolding first_def n_def Cons by blast
    have "take n s = take k s" by (simp add: n_def min_def)
    then have "digits_value base s = digits_value base (take k s) * base ^ length (drop n s) + digits_value base (drop n s)"
      using digits_value_append [of base "take n s" "drop n s"] by (metis append_take_drop_id)
    moreover have "length s = n + length (drop n s)" by (simp add: n_def)
    then have "base ^ length s = base ^ n * base ^ length (drop n s)" by (metis power_add)
    ultimately have total: "uval val * base ^ length s + digits_value base s = first * base ^ length (drop n s) + digits_value base (drop n s)"
      by (simp only: first_def ch(3) distrib_right mult.assoc add.assoc)
    show ?thesis
    proof (cases "first < 2 ^ 256")
      case False
      have "first * 1 \<le> first * base ^ length (drop n s)" using base(2) by (intro mult_le_mono) simp_all
      then have "2 ^ 256 \<le> first * base ^ length (drop n s)" using False by (simp only: mult_1_right not_less)
      then have "2 ^ 256 \<le> uval val * base ^ length s + digits_value base s" unfolding total by (rule trans_le_add1)
      then show ?thesis using step False by (simp add: parse_result_def)
    next
      case True
      then have z: "uval (le_bytes 32 first) = first" by (simp add: byte_value_le_bytes)
      have "is_digits base (drop n s)" using IH(3) by (metis append_take_drop_id list_all_append)
      moreover have "length (drop n s) < length s" using base(1) Cons by (simp add: n_def)
      ultimately have "parse_chunks base k (le_bytes 32 first) (drop n s) =
          Some (parse_result (uval (le_bytes 32 first) * base ^ length (drop n s) + digits_value base (drop n s)))"
        using IH(1) by simp
      then show ?thesis using step True unfolding total z by simp
    qed
  qed
qed

lemma createUInt256Parse_digits:
  assumes "base \<in> {2, 10, 16}" "is_digits base s"
  shows "createUInt256Parse s base = Some (parse_result (digits_value base s))"
proof -
  obtain k m where base: "parseMaximumDigitsForUInt64InBase base = Some k" "0 < k" "2 \<le> base" "base \<le> 16"
    "parseMaximumDigitsForUInt256InBase base = Some m" "2 ^ 256 \<le> base ^ m"
    using base_cases [OF assms(1)] by metis
  define t where "t = dropWhile (\<lambda>c. c = 0x30) s"
  have digits: "is_digits base t" using assms(2) by (auto simp: t_def list_all_iff dest: set_dropWhileD)
  have special: "c \<noteq> 0x2d \<and> c \<noteq> 0x2b \<and> c \<noteq> 0x78" if "is_digits base r" "c \<in> set r" for c r
    using that base(4) digit_not_special [of c] by (auto simp: list_all_iff)
  have "take 2 s \<noteq> [0x30, 0x78]" using special [OF assms(2), of "0x78"] by (metis in_set_takeD insertCI list.set(2))
  moreover have "\<not> (t \<noteq> [] \<and> (hd t = 0x2d \<or> hd t = 0x2b))" using special [OF digits] hd_in_set [of t] by blast
  moreover have "0 < base" using base(3) by simp
  ultimately have parse: "createUInt256Parse s base =
      (if length t > m then Some (CORE_PARSE_OVERFLOW, UINT256_ZERO)
       else if t = [] then Some (CORE_PARSE_OK, UINT256_ZERO)
       else (case parseUInt64 t base of
           Some (val, errno) \<Rightarrow> if errno then Some (CORE_PARSE_STRANGE_DIGITS, UINT256_ZERO) else parse_chunks base k val (drop k t)
         | None \<Rightarrow> None))"
    unfolding t_def createUInt256Parse_def by (auto simp: Let_def base(1,5))
  have v: "digits_value base s = digits_value base t" by (simp add: t_def)
  show ?thesis
  proof (cases "t = []")
    case True
    then show ?thesis using parse v parse_result_uval [of UINT256_ZERO] by simp
  next
    case ne: False
    show ?thesis
    proof (cases "length t > m")
      case True
      have "hd t \<noteq> 0x30" using hd_dropWhile [of "\<lambda>c. c = 0x30" s] ne unfolding t_def by simp
      then have "base ^ (length t - 1) \<le> digits_value base t" using ne digits by (intro digits_value_ge)
      moreover have "base ^ m \<le> base ^ (length t - 1)" using True base(3) by (intro power_increasing) simp_all
      ultimately have "2 ^ 256 \<le> digits_value base t" using base(6) by linarith
      then show ?thesis using parse v True by (simp add: parse_result_def)
    next
      case False
      obtain chunk where ch: "parseUInt64 t base = Some (chunk, False)" "length chunk = 32" "uval chunk = digits_value base (take k t)"
        using parseUInt64_digits [OF assms(1) base(1) digits ne] by auto
      have "is_digits base (drop k t)" using digits by (auto simp: list_all_iff dest: in_set_dropD)
      then have "parse_chunks base k chunk (drop k t) = Some (parse_result (uval chunk * base ^ length (drop k t) + digits_value base (drop k t)))"
        by (rule parse_chunks_value [OF assms(1) base(1) ch(2)])
      then show ?thesis using parse ne False ch v digits_value_append [of base "take k t" "drop k t"] by simp
    qed
  qed
qed

section \<open>Printing a number\<close>

lemma digit_value_decimal: "n < 10 \<Longrightarrow> digit_value (0x30 + of_nat n) = n"
proof -
  assume "n < 10"
  then have "n \<in> set [0..<10]" by simp
  moreover have "list_all (\<lambda>n. digit_value (0x30 + of_nat n) = n) [0..<10]" by (simp add: upt_rec digit_value_def)
  ultimately show ?thesis unfolding list_all_iff by blast
qed

lemma coerce_digits_value:
  "length x = 32 \<Longrightarrow> uval x < 10 ^ n \<Longrightarrow> is_digits 10 (coerce_digits n x) \<and> digits_value 10 (rev (coerce_digits n x)) = uval x \<and>
    (\<forall>k. uval x < 10 ^ k \<longrightarrow> length (coerce_digits n x) \<le> k)"
proof (induction n arbitrary: x)
  case (Suc n)
  show ?case
  proof (cases "eqUInt256 x UINT256_ZERO")
    case True
    then show ?thesis using Suc.prems by (simp add: eqUInt256_iff)
  next
    case False
    then have pos: "0 < uval x" using Suc.prems by (simp add: eqUInt256_iff)
    have "divUInt256_Small x 10 \<noteq> None" by (auto simp: divUInt256_Small_def split: prod.splits)
    then obtain q r where d: "divUInt256_Small x 10 = Some (q, r)" by auto
    have qr: "length q = 32" "uval q = uval x div 10" "unat r = uval x mod 10" using divUInt256_Small_value [OF Suc.prems(1) d] by simp_all
    have c: "(0x30 + ucast r :: u8) = 0x30 + of_nat (uval x mod 10)" unfolding qr(3) [symmetric] by simp
    have IH: "is_digits 10 (coerce_digits n q) \<and> digits_value 10 (rev (coerce_digits n q)) = uval q \<and>
        (\<forall>k. uval q < 10 ^ k \<longrightarrow> length (coerce_digits n q) \<le> k)"
      by (rule Suc.IH) (use qr Suc.prems in \<open>simp_all add: less_mult_imp_div_less mult.commute\<close>)
    have len: "Suc (length (coerce_digits n q)) \<le> k" if "uval x < 10 ^ k" for k
    proof (cases k)
      case 0
      then show ?thesis using that pos by simp
    next
      case (Suc k')
      then have "uval q < 10 ^ k'" using that qr(2) by (simp add: less_mult_imp_div_less mult.commute)
      then show ?thesis using IH Suc by simp
    qed
    show ?thesis using False d c IH len qr(2) digit_value_decimal [of "uval x mod 10"] by (simp add: digits_value_snoc)
  qed
qed simp

lemma byte_value_rev_dropWhile: "byte_value (rev (dropWhile (\<lambda>b. b = 0) s)) = byte_value (rev s)"
  by (induction s) (simp_all add: byte_value_append)

lemma digit_value_hexc: "digit_value (hexc u) = unat (u AND 0x0f)"
proof -
  have "list_all (\<lambda>n. digit_value (hexc n) = unat n) (map of_nat [0..<16])" by (simp add: upt_rec hexc_def digit_value_def)
  then show ?thesis using nibble_cases [of u] hexc_nibble [of u] unfolding list_all_iff by auto
qed

lemma unat_u8: "unat (u :: u8) < 256"
proof -
  have "unat u < 2 ^ LENGTH(8)" by (rule unsigned_less)
  then show ?thesis by simp
qed

lemma digits_value_encodeHex: "digits_value 16 (encodeHex s) = byte_value (rev s)"
proof (induction s rule: rev_induct)
  case (snoc u s)
  have "unat (drop_bit 4 u) = unat u div 16" by (simp only: drop_bit_eq_div unat_div) simp
  then have n: "unat (drop_bit 4 u AND 0x0f) = unat u div 16" "unat (u AND 0x0f) = unat u mod 16"
    using unat_u8 [of u] by (simp_all add: nibble unat_mod)
  have "digits_value 16 (encodeHex (s @ [u])) = digits_value 16 ((encodeHex s @ [hexc (drop_bit 4 u)]) @ [hexc u])"
    by (simp add: encodeHex_append)
  also have "\<dots> = (digits_value 16 (encodeHex s) * 16 + unat u div 16) * 16 + unat u mod 16"
    by (simp only: digits_value_snoc digit_value_hexc n)
  also have "\<dots> = digits_value 16 (encodeHex s) * 256 + (unat u div 16 * 16 + unat u mod 16)" by simp
  finally show ?case using snoc by (simp only: div_mult_mod_eq) simp
qed simp

lemma is_digits_encodeHex: "is_digits 16 (encodeHex s)"
proof -
  have "digit_value (hexc u) < 16" for u using digit_value_hexc [of u] by (simp add: nibble unat_mod)
  then show ?thesis by (induction s) simp_all
qed

lemma hex2Binary_digit:
  "length (hex2Binary ! unat (hexu (hexc u))) = 4 \<and> is_digits 2 (hex2Binary ! unat (hexu (hexc u))) \<and>
    digits_value 2 (hex2Binary ! unat (hexu (hexc u))) = digit_value (hexc u)"
proof -
  have "list_all (\<lambda>n :: u8. length (hex2Binary ! unat n) = 4 \<and> is_digits 2 (hex2Binary ! unat n) \<and> digits_value 2 (hex2Binary ! unat n) = unat n)
      (map of_nat [0..<16])"
    by code_simp
  then show ?thesis using nibble_cases [of u] unfolding list_all_iff hexu_hexc digit_value_hexc by blast
qed

lemma digits_value_binary:
  "is_digits 2 (concat (map (\<lambda>c. hex2Binary ! unat (hexu c)) (encodeHex s))) \<and>
   digits_value 2 (concat (map (\<lambda>c. hex2Binary ! unat (hexu c)) (encodeHex s))) = digits_value 16 (encodeHex s)"
proof -
  have "is_digits 2 (concat (map (\<lambda>c. hex2Binary ! unat (hexu c)) (map hexc us))) \<and>
     digits_value 2 (concat (map (\<lambda>c. hex2Binary ! unat (hexu c)) (map hexc us))) = digits_value 16 (map hexc us)" for us
    by (induction us rule: rev_induct)
      (use hex2Binary_digit in \<open>simp_all add: digits_value_append digits_value_snoc del: hexu_hexc\<close>)
  then show ?thesis using encodeHex_hexc [of s] by metis
qed

lemma coerceString_value:
  assumes "base \<in> {2, 10, 16}" "length x = 32"
  shows "\<exists>s. coerceString x base = Some s \<and> s \<noteq> [] \<and> is_digits base s \<and> digits_value base s = uval x"
proof (cases "eqUInt256 x UINT256_ZERO")
  case True
  then show ?thesis using assms by (auto simp: coerceString_def eqUInt256_iff digits_value_def digit_value_def)
next
  case False
  define b where "b = dropWhile (\<lambda>b. b = 0) (rev x)"
  have b: "byte_value (rev b) = uval x" using byte_value_rev_dropWhile [of "rev x"] by (simp add: b_def)
  have pos: "uval x \<noteq> 0" using False assms(2) by (simp add: eqUInt256_iff)
  have ne: "s \<noteq> []" if "digits_value base s = uval x" for s using that pos by auto
  have "uval x < 10 ^ 256" using uval_less [OF assms(2)] by (rule order_less_trans) simp
  then have ten: "is_digits 10 (rev (coerce_digits 256 x)) \<and> digits_value 10 (rev (coerce_digits 256 x)) = uval x"
    using coerce_digits_value [OF assms(2), of 256] by simp
  consider "base = 2" | "base = 10" | "base = 16" using assms(1) by auto
  then show ?thesis
  proof cases
    case 1
    then show ?thesis using False assms(2) digits_value_binary [of b] digits_value_encodeHex [of b] b ne
      by (simp add: coerceString_def UInt256Reverse_rev Let_def del: concat_eq_Nil_conv flip: b_def)
  next
    case 2
    then show ?thesis using False ten ne by (simp add: coerceString_def coerceReverseString_def Let_def del: rev_is_Nil_conv)
  next
    case 3
    then show ?thesis using False assms(2) is_digits_encodeHex [of b] digits_value_encodeHex [of b] b ne
      by (simp add: coerceString_def UInt256Reverse_rev Let_def flip: b_def)
  qed
qed

section \<open>What the parser and the printer promise\<close>

text \<open>
  C12: On a text of digits in base 2, 10 or 16, with any number of leading zeros, the parser returns exactly the number of
  the digits if it fits in 256 bits, and the overflow status with the value zero otherwise. Parsing what was printed
  in the base gives the number back.
\<close>
theorem parse_exact:
  assumes "base \<in> {2, 10, 16}"
  shows "(is_digits base s \<longrightarrow> createUInt256Parse s base =
      Some (if digits_value base s < 2 ^ 256 then (CORE_PARSE_OK, le_bytes 32 (digits_value base s)) else (CORE_PARSE_OVERFLOW, UINT256_ZERO))) \<and>
    (length x = 32 \<longrightarrow> Option.bind (coerceString x base) (\<lambda>s. createUInt256Parse s base) = Some (CORE_PARSE_OK, x))"
proof (intro conjI impI)
  assume "is_digits base s"
  then show "createUInt256Parse s base =
      Some (if digits_value base s < 2 ^ 256 then (CORE_PARSE_OK, le_bytes 32 (digits_value base s)) else (CORE_PARSE_OVERFLOW, UINT256_ZERO))"
    using createUInt256Parse_digits [OF assms] by (simp add: parse_result_def)
next
  assume x: "length x = 32"
  then obtain s where "coerceString x base = Some s" "is_digits base s" "digits_value base s = uval x"
    using coerceString_value [OF assms] by blast
  then show "Option.bind (coerceString x base) (\<lambda>s. createUInt256Parse s base) = Some (CORE_PARSE_OK, x)"
    using createUInt256Parse_digits [OF assms] parse_result_uval [OF x] by simp
qed

theorem parse_exact_witness:
  "createUInt256Parse [0x30, 0x31, 0x30] 10 = Some (CORE_PARSE_OK, createUInt256 10)"
  using parse_exact [of 10 "[0x30, 0x31, 0x30]" UINT256_ZERO] le_bytes_byte_value [of "createUInt256 10"]
  by (simp add: digits_value_def digit_value_def)

text \<open>The number of decimals: what a decimal point splits, and the zeros that the parser strips and pads again.\<close>

lemma strip_and_pad:
  "rev (dropWhile (\<lambda>c. c = z) (rev s)) @ replicate (length s - length (rev (dropWhile (\<lambda>c. c = z) (rev s)))) z = s"
proof (induction s rule: rev_induct)
  case (snoc c s)
  have "length (dropWhile (\<lambda>c. c = z) (rev s)) \<le> length s" using length_dropWhile_le [of "\<lambda>c. c = z" "rev s"] by simp
  then have "rev (dropWhile (\<lambda>c. c = z) (rev s)) @ replicate (Suc (length s) - length (dropWhile (\<lambda>c. c = z) (rev s))) z =
      (rev (dropWhile (\<lambda>c. c = z) (rev s)) @ replicate (length s - length (dropWhile (\<lambda>c. c = z) (rev s))) z) @ [z]"
    by (simp add: Suc_diff_le replicate_append_same)
  then show ?case using snoc by (cases "c = z") simp_all
qed simp

lemma parse_decimal_digits:
  assumes "list_all isdigit w" "w \<noteq> []" "list_all isdigit f" "length w + length f < 99" "length f < 100"
  shows "createUInt256ParseDecimal (w @ 0x2e # f) (length f) = Some (parse_result (digits_value 10 (w @ f)))"
proof -
  have digit: "isdigit c \<Longrightarrow> c \<noteq> 0x2e \<and> digit_value c < 10" for c
    by (auto simp: isdigit_def digit_value_def word_le_nat_alt word_unat_eq_iff)
  have ok: "parseIsDecimal (Some (w @ 0x2e # f)) = CORE_PARSE_OK"
  proof -
    have "hd (w @ 0x2e # f) \<noteq> 0x2e" using assms(1,2) digit by (cases w) auto
    moreover have "filter (\<lambda>c. c = 0x2e) w = []" "filter (\<lambda>c. c = 0x2e) f = []"
      using assms(1,3) digit by (auto simp: filter_empty_conv list_all_iff)
    moreover have "list_all (\<lambda>c. isdigit c \<or> c = 0x2e) w" "list_all (\<lambda>c. isdigit c \<or> c = 0x2e) f"
      using assms(1,3) by (auto simp: list_all_iff)
    ultimately show ?thesis using assms(2) by (simp add: parseIsDecimal_def)
  qed
  have split: "takeWhile (\<lambda>c. c \<noteq> 0x2e) (w @ 0x2e # f) = w" "takeWhile (\<lambda>c. c \<noteq> 0x2e) f = f"
    using assms(1,3) digit by (auto simp: list_all_iff takeWhile_append)
  have "is_digits 10 (w @ f)" using assms(1,3) digit by (auto simp: list_all_iff)
  then have parse: "createUInt256Parse (w @ f) 10 = Some (parse_result (digits_value 10 (w @ f)))"
    by (rule createUInt256Parse_digits [rotated]) simp
  have "length (rev (dropWhile (\<lambda>c. c = 0x30) (rev f))) \<le> length f" using length_dropWhile_le [of "\<lambda>c. c = 0x30" "rev f"] by simp
  then show ?thesis
    using assms(4,5) ok parse strip_and_pad [of "0x30" f]
    by (simp add: createUInt256ParseDecimal_def SURELY_ENOUGH_CHARS_def split Let_def)
qed

lemma isdigit_decimal: "digit_value c < 10 \<longleftrightarrow> isdigit c"
  by (auto simp: isdigit_def digit_value_def word_le_nat_alt word_unat_eq_iff split: if_splits)

lemma coerceString_decimal:
  assumes "length x = 32"
  obtains s where "coerceString x 10 = Some s" "s \<noteq> []" "list_all isdigit s" "digits_value 10 s = uval x" "length s \<le> 78"
proof -
  obtain s where s: "coerceString x 10 = Some s" "s \<noteq> []" "list_all isdigit s" "digits_value 10 s = uval x"
    using coerceString_value [of 10 x] assms isdigit_decimal by auto
  have "uval x < 10 ^ 78" using uval_less [OF assms] by (rule order_less_trans) simp
  moreover from this have "uval x < 10 ^ 256" by (rule order_less_trans) simp
  ultimately have "length (coerce_digits 256 x) \<le> 78" using coerce_digits_value [OF assms, of 256] by blast
  then have "length s \<le> 78" using s(1) by (auto simp: coerceString_def coerceReverseString_def Let_def split: if_splits)
  then show thesis using s by (intro that)
qed

lemma parse_whole_digits:
  assumes "list_all isdigit w" "w \<noteq> []" "length w < 100"
  shows "createUInt256ParseDecimal w 0 = Some (parse_result (digits_value 10 w))"
proof -
  have digit: "isdigit c \<Longrightarrow> c \<noteq> 0x2e" for c by (auto simp: isdigit_def)
  have "hd w \<noteq> 0x2e" "filter (\<lambda>c. c = 0x2e) w = []" "list_all (\<lambda>c. isdigit c \<or> c = 0x2e) w" "takeWhile (\<lambda>c. c \<noteq> 0x2e) w = w"
    using assms(1,2) digit by (auto simp: filter_empty_conv list_all_iff)
  moreover have "is_digits 10 w" using assms(1) by (simp add: isdigit_decimal)
  ultimately show ?thesis
    using assms(2,3) createUInt256Parse_digits [of 10 w]
    by (simp add: createUInt256ParseDecimal_def parseIsDecimal_def SURELY_ENOUGH_CHARS_def Let_def del: takeWhile_eq_all_conv)
qed

lemma coerceStringDecimal_form:
  assumes "length x = 32" "0 < decimals"
  obtains w f where "coerceStringDecimal x decimals = Some (w @ 0x2e # f)" "list_all isdigit w" "w \<noteq> []" "list_all isdigit f"
    "length f = decimals" "length w + length f \<le> max 78 (Suc decimals)" "digits_value 10 (w @ f) = uval x"
proof -
  obtain s where s: "coerceString x 10 = Some s" "s \<noteq> []" "list_all isdigit s" "digits_value 10 s = uval x" "length s \<le> 78"
    using coerceString_decimal [OF assms(1)] by blast
  note len = s(5)
  show thesis
  proof (cases "decimals \<ge> length s")
    case True
    let ?f = "replicate (decimals - length s) 0x30 @ s"
    have "map (\<lambda>c. if c = 0x20 then 0x30 else c) s = map id s"
      using s(3) by (intro map_cong) (auto simp: list_all_iff isdigit_def)
    then have "coerceStringDecimal x decimals = Some ([0x30] @ 0x2e # ?f)"
      using True assms(2) s(1) by (simp add: coerceStringDecimal_def)
    moreover have "dropWhile (\<lambda>c. c = 0x30) ([0x30] @ ?f) = dropWhile (\<lambda>c. c = 0x30) s"
      by (simp add: dropWhile_append)
    then have "digits_value 10 ([0x30] @ ?f) = uval x"
      using digits_value_zeros [of 10 "[0x30] @ ?f"] digits_value_zeros [of 10 s] s(4) by simp
    ultimately show thesis
      using True s(3) by (intro that [of "[0x30]" ?f]) (auto simp: isdigit_def list_all_iff)
  next
    case False
    let ?d = "length s - decimals"
    have "coerceStringDecimal x decimals = Some (take ?d s @ 0x2e # drop ?d s)"
      using False assms(2) s(1) by (simp add: coerceStringDecimal_def Let_def)
    moreover have "list_all isdigit (take ?d s)" "list_all isdigit (drop ?d s)" using s(3) by (metis append_take_drop_id list_all_append)+
    ultimately show thesis using False len s by (intro that [of "take ?d s" "drop ?d s"]) simp_all
  qed
qed

text \<open>
  An amount survives being shown to the user: parsing, with the same number of decimals, what
  \<open>coerceStringDecimal\<close> printed gives exactly the number back, for every number and up to 96 decimals.
\<close>
theorem decimal_round_trip:
  assumes "length x = 32" "decimals \<le> 96"
  shows "Option.bind (coerceStringDecimal x decimals) (\<lambda>s. createUInt256ParseDecimal s decimals) = Some (CORE_PARSE_OK, x)"
proof (cases "decimals = 0")
  case False
  then obtain w f where wf: "coerceStringDecimal x decimals = Some (w @ 0x2e # f)" "list_all isdigit w" "w \<noteq> []" "list_all isdigit f"
    "length f = decimals" "length w + length f \<le> max 78 (Suc decimals)" "digits_value 10 (w @ f) = uval x"
    using coerceStringDecimal_form [OF assms(1)] by (metis neq0_conv)
  have "length w + length f < 99" "length f < 100" using wf(5,6) assms(2) by simp_all
  then show ?thesis using parse_decimal_digits [OF wf(2,3,4)] wf parse_result_uval [OF assms(1)] by simp
next
  case True
  then show ?thesis
    using parse_whole_digits parse_result_uval [OF assms(1)] coerceString_decimal [OF assms(1)] by (force simp: coerceStringDecimal_def)
qed

theorem decimal_round_trip_witness:
  "Option.bind (coerceStringDecimal (createUInt256 1000) 18) (\<lambda>s. createUInt256ParseDecimal s 18) = Some (CORE_PARSE_OK, createUInt256 1000)"
  by (rule decimal_round_trip) simp_all

lemma parse_tail:
  assumes "length s = 19" "list_all isdigit s" "hd s \<noteq> 0x30" "t \<noteq> []" "length t \<le> 19" "parseUInt64 t 10 = Some (createUInt256 v, e)"
  shows "createUInt256Parse (s @ t) 10 = Some (CORE_PARSE_OK, le_bytes 32 (digits_value 10 s * 10 ^ length t + unat v))"
proof -
  obtain h s' where s: "s = h # s'" using assms(1) by (cases s) simp_all
  have digits: "is_digits 10 s" using assms(2) by (simp add: isdigit_decimal)
  obtain c t' where t: "t = c # t'" using assms(4) by (cases t) simp_all
  have max: "parseMaximumDigitsForUInt64InBase 10 = Some 19" "parseMaximumDigitsForUInt256InBase 10 = Some 78"
    by (simp_all add: parseMaximumDigitsForUInt64InBase_def parseMaximumDigitsForUInt256InBase_def)
  obtain chunk where ch: "parseUInt64 s 10 = Some (chunk, False)" "length chunk = 32" "uval chunk = digits_value 10 s"
    using parseUInt64_digits [of 10 19 s] max digits assms(1) s by auto
  have "parseUInt64 (s @ t) 10 = parseUInt64 s 10" using assms(1) by (simp add: parseUInt64_def max)
  moreover have "h \<noteq> 0x2d" "h \<noteq> 0x2b" using assms(2) s by (auto simp: isdigit_def word_le_nat_alt)
  ultimately have parse: "createUInt256Parse (s @ t) 10 = parse_chunks 10 19 chunk t"
    using assms(1,3,5) ch(1) s by (simp add: createUInt256Parse_def max Let_def)
  have "digits_value 10 s < 10 ^ 19" using digits_value_less [OF digits] assms(1) by simp
  moreover have "(10 :: nat) ^ length t \<le> 10 ^ 19" using assms(5) by (intro power_increasing) simp_all
  ultimately have "digits_value 10 s * 10 ^ length t \<le> 10 ^ 19 * 10 ^ 19" by (intro mult_le_mono) simp_all
  moreover have "unat v < 2 ^ 64" by (rule unat_less_64)
  ultimately have small: "digits_value 10 s * 10 ^ length t + unat v < 2 ^ 256" by simp
  have "parse_chunks 10 19 chunk t = parse_chunks 10 19 (le_bytes 32 (digits_value 10 s * 10 ^ length t + unat v)) (drop (min 19 (length t)) t)"
    using parse_chunks_step [of 10 19 chunk c t' "createUInt256 v" e] max ch assms(5,6) small unfolding t [symmetric]
    by (simp add: min_def)
  then show ?thesis using parse assms(5) by (simp add: min_def)
qed

text \<open>
  C37: Characters that are no digits are refused only in the first chunk. Behind any 19 digits that do not start with a
  zero a text that is no number gets the status of success: the letters \<open>abc\<close> count as three zeros, and \<open>-1\<close> as two
  zeros and the largest 64 bit number. In the first chunk a letter is refused.
\<close>
theorem parse_garbage:
  assumes "length s = 19" "list_all isdigit s" "hd s \<noteq> 0x30"
  shows "createUInt256Parse (s @ [0x61, 0x62, 0x63]) 10 = Some (CORE_PARSE_OK, le_bytes 32 (digits_value 10 s * 1000)) \<and>
    createUInt256Parse (s @ [0x2d, 0x31]) 10 = Some (CORE_PARSE_OK, le_bytes 32 (digits_value 10 s * 100 + (2 ^ 64 - 1))) \<and>
    createUInt256Parse (0x61 # s) 10 = Some (CORE_PARSE_STRANGE_DIGITS, UINT256_ZERO)"
proof (intro conjI)
  have abc: "parseUInt64 [0x61, 0x62, 0x63] 10 = Some (createUInt256 0, True)" by code_simp
  show "createUInt256Parse (s @ [0x61, 0x62, 0x63]) 10 = Some (CORE_PARSE_OK, le_bytes 32 (digits_value 10 s * 1000))"
    using parse_tail [OF assms _ _ abc] by simp
  have minus: "parseUInt64 [0x2d, 0x31] 10 = Some (createUInt256 (- 1), False)"
    by (simp add: parseUInt64_def parseMaximumDigitsForUInt64InBase_def strtoull_def isspace_def digit_value_def digits_value_def)
  have "unat (- 1 :: u64) = 2 ^ 64 - 1" by (simp add: unsigned_minus_1_eq_mask mask_eq_exp_minus_1)
  then show "createUInt256Parse (s @ [0x2d, 0x31]) 10 = Some (CORE_PARSE_OK, le_bytes 32 (digits_value 10 s * 100 + (2 ^ 64 - 1)))"
    using parse_tail [OF assms, of "[0x2d, 0x31]", OF _ _ minus] by (simp only: list.simps length_Cons list.size) simp
  have d97: "digit_value 0x61 = 10" by (simp add: digit_value_def)
  have "strtoull (take 19 (0x61 # s)) 10 = (0, take 19 (0x61 # s), False)"
    using assms(1) d97 by (simp add: strtoull_def isspace_def Let_def split: list.split)
  then have "\<exists>val. parseUInt64 (0x61 # s) 10 = Some (val, True)" by (simp add: parseUInt64_def parseMaximumDigitsForUInt64InBase_def)
  then show "createUInt256Parse (0x61 # s) 10 = Some (CORE_PARSE_STRANGE_DIGITS, UINT256_ZERO)"
    using assms(1) by (auto simp: createUInt256Parse_def Let_def parseMaximumDigitsForUInt64InBase_def parseMaximumDigitsForUInt256InBase_def)
qed

theorem parse_garbage_witness:
  "createUInt256Parse (replicate 19 0x31 @ [0x61, 0x62, 0x63]) 10 = Some (CORE_PARSE_OK, le_bytes 32 (digits_value 10 (replicate 19 0x31) * 1000))"
  using parse_garbage [of "replicate 19 0x31"] by (simp add: isdigit_def list_all_iff)

end
