(* ===== verification/EthBase.thy ===== *)
theory EthBase
  imports RlpProps UInt256Parse BIP32
begin

text \<open>
  The base types of Ethereum: hashes, addresses, ether, gas, fees and signatures (\<open>ethereum/base\<close>).
  A struct with one member is that member: a hash is its 32 bytes, an address its
  20 bytes, ether and a gas price the 32 bytes of the \<open>UInt256\<close>, gas a 64 bit word. \<open>BREthereumBoolean\<close> is \<open>bool\<close>. A
  coder is left out: an item is a value of \<open>Rlp\<close>.
\<close>

type_synonym BREthereumHash = bytes
type_synonym BREthereumAddress = bytes
type_synonym BREthereumEther = bytes
type_synonym BREthereumGasPrice = bytes
type_synonym BREthereumGas = u64

datatype BREthereumComparison = ETHEREUM_COMPARISON_LT | ETHEREUM_COMPARISON_EQ | ETHEREUM_COMPARISON_GT

section \<open>Hashes\<close>

definition ETHEREUM_HASH_BYTES :: nat where "ETHEREUM_HASH_BYTES = 32"

definition hashCreateEmpty :: BREthereumHash where "hashCreateEmpty = replicate ETHEREUM_HASH_BYTES 0"

text \<open>\<open>None\<close> is the failed \<open>assert\<close> on the form of the text.\<close>

definition hashCreate :: "bytes option \<Rightarrow> BREthereumHash option" where
  "hashCreate string =
     (case string of
        None \<Rightarrow> Some hashCreateEmpty
      | Some s \<Rightarrow>
          if s = [] \<or> s = hex_prefix then Some hashCreateEmpty
          else if take 2 s = hex_prefix \<and> length s = 2 + 2 * ETHEREUM_HASH_BYTES then Some (decodeHex (drop 2 s)) else None)"

definition hashCreateFromData :: "bytes \<Rightarrow> BREthereumHash" where
  "hashCreateFromData data = BRKeccak256 data"

definition hashAsString :: "BREthereumHash \<Rightarrow> bytes" where
  "hashAsString hash = [0x30, 0x78] @ encodeHex hash"

definition hashFillString :: "BREthereumHash \<Rightarrow> bytes" where
  "hashFillString hash = [0x30, 0x78] @ encodeHex hash"

fun hashCompare :: "BREthereumHash \<Rightarrow> BREthereumHash \<Rightarrow> BREthereumComparison" where
  "hashCompare (a # hash1) (b # hash2) =
     (if a > b then ETHEREUM_COMPARISON_GT else if a < b then ETHEREUM_COMPARISON_LT else hashCompare hash1 hash2)"
| "hashCompare _ _ = ETHEREUM_COMPARISON_EQ"

definition hashEqual :: "BREthereumHash \<Rightarrow> BREthereumHash \<Rightarrow> bool" where
  "hashEqual hash1 hash2 \<longleftrightarrow> hash1 = hash2"

definition hashSetValue :: "BREthereumHash \<Rightarrow> u32" where
  "hashSetValue hash = u32_at hash 0"

definition hashRlpEncode :: "BREthereumHash \<Rightarrow> BRRlpItem" where
  "hashRlpEncode hash = rlpEncodeBytes hash"

definition hashRlpDecode :: "BRRlpItem \<Rightarrow> BREthereumHash option" where
  "hashRlpDecode item = do { data \<leftarrow> rlpDecodeBytes item; if length data = ETHEREUM_HASH_BYTES then Some data else None }"

definition hashEncodeList :: "BREthereumHash list \<Rightarrow> BRRlpItem" where
  "hashEncodeList hashes = rlpEncodeListItems (map hashRlpEncode hashes)"

definition hashesIndex :: "BREthereumHash list \<Rightarrow> BREthereumHash \<Rightarrow> int" where
  "hashesIndex hashes hash =
     (let i = length (takeWhile (\<lambda>h. \<not> hashEqual hash h) hashes) in if i < length hashes then int i else - 1)"

section \<open>Addresses\<close>

definition EMPTY_ADDRESS_INIT :: BREthereumAddress where "EMPTY_ADDRESS_INIT = replicate 20 0"

definition addressValidateString :: "bytes \<Rightarrow> bool" where
  "addressValidateString string \<longleftrightarrow>
     length string = 42 \<and> string ! 0 = 0x30 \<and> string ! 1 = 0x78 \<and> encodeHexValidate (Some (drop 2 string))"

definition addressCreate :: "bytes \<Rightarrow> BREthereumAddress" where
  "addressCreate address =
     (if \<not> addressValidateString address then EMPTY_ADDRESS_INIT
      else decodeHex (if take 2 address = [0x30, 0x78] then drop 2 address else address))"

text \<open>The key must hold its uncompressed public key of 65 bytes.\<close>

definition addressCreateKey :: "BRKey \<Rightarrow> BREthereumAddress" where
  "addressCreateKey key = take 20 (drop 12 (BRKeccak256 (take 64 (drop 1 (pubKey key)))))"

definition tolower :: "u8 \<Rightarrow> u8" where
  "tolower c = (if 0x41 \<le> c \<and> c \<le> 0x5a then c + 0x20 else c)"

definition toupper :: "u8 \<Rightarrow> u8" where
  "toupper c = (if 0x61 \<le> c \<and> c \<le> 0x7a then c - 0x20 else c)"

definition addressFillEncodedString :: "BREthereumAddress \<Rightarrow> bool \<Rightarrow> bytes" where
  "addressFillEncodedString address useChecksum =
     (let checksumAddr = encodeHex address;
          hash = BRKeccak256 checksumAddr;
          letter = (\<lambda>i. let val = 0x0f AND drop_bit (if i mod 2 = 0 then 4 else 0) (hash ! (i div 2))
                        in if val < 8 then tolower (checksumAddr ! i) else toupper (checksumAddr ! i))
      in [0x30, 0x78] @ (if \<not> useChecksum then checksumAddr else map letter [0..<length checksumAddr]))"

definition addressGetEncodedString :: "BREthereumAddress \<Rightarrow> bool \<Rightarrow> bytes" where
  "addressGetEncodedString address useChecksum = addressFillEncodedString address useChecksum"

definition addressGetHash :: "BREthereumAddress \<Rightarrow> BREthereumHash" where
  "addressGetHash address = hashCreateFromData address"

definition addressRlpDecode :: "BRRlpItem \<Rightarrow> BREthereumAddress option" where
  "addressRlpDecode item =
     do {
       data \<leftarrow> rlpDecodeBytes item;
       if data = [] then Some EMPTY_ADDRESS_INIT else if length data = 20 then Some data else None
     }"

definition addressRlpEncode :: "BREthereumAddress \<Rightarrow> BRRlpItem" where
  "addressRlpEncode address = rlpEncodeBytes address"

definition addressEqual :: "BREthereumAddress \<Rightarrow> BREthereumAddress \<Rightarrow> bool" where
  "addressEqual address1 address2 \<longleftrightarrow> address1 = address2"

section \<open>Ether\<close>

datatype BREthereumEtherUnit = WEI | KWEI | MWEI | GWEI | SZABO | FINNEY | ETHER | KETHER | METHER | GETHER | TETHER

fun unit_number :: "BREthereumEtherUnit \<Rightarrow> nat" where
  "unit_number WEI = 0" | "unit_number KWEI = 1" | "unit_number MWEI = 2" | "unit_number GWEI = 3" | "unit_number SZABO = 4"
| "unit_number FINNEY = 5" | "unit_number ETHER = 6" | "unit_number KETHER = 7" | "unit_number METHER = 8"
| "unit_number GETHER = 9" | "unit_number TETHER = 10"

definition etherUnitScaleFactor :: "bytes list" where
  "etherUnitScaleFactor = map (\<lambda>(a, b). UInt64SetLE a @ UInt64SetLE b @ replicate 16 0)
     [(1, 0), (1000, 0), (1000000, 0), (1000000000, 0), (1000000000000, 0), (1000000000000000, 0), (1000000000000000000, 0),
      (3875820019684212736, 54), (2003764205206896640, 54210), (11515845246265065472, 54210108), (5076944270305263616, 54210108624)]"

definition etherCreate :: "bytes \<Rightarrow> BREthereumEther" where "etherCreate val = val"

definition etherCreateUnit :: "bytes \<Rightarrow> BREthereumEtherUnit \<Rightarrow> BREthereumEther \<times> bool" where
  "etherCreateUnit val unit =
     (if unit = WEI then (val, False) else mulUInt256_Overflow val (etherUnitScaleFactor ! unit_number unit))"

text \<open>\<open>None\<close> is the failed \<open>assert\<close> on an overflow.\<close>

definition etherCreateNumber :: "u64 \<Rightarrow> BREthereumEtherUnit \<Rightarrow> BREthereumEther option" where
  "etherCreateNumber number unit =
     (case etherCreateUnit (UInt64SetLE number @ replicate 24 0) unit of (ether, overflow) \<Rightarrow> if overflow then None else Some ether)"

definition etherCreateZero :: BREthereumEther where "etherCreateZero = etherCreate UINT256_ZERO"

definition etherCreateString :: "bytes \<Rightarrow> BREthereumEtherUnit \<Rightarrow> (BRCoreParseStatus \<times> BREthereumEther) option" where
  "etherCreateString number unit = createUInt256ParseDecimal number (3 * unit_number unit)"

definition etherGetValue :: "BREthereumEther \<Rightarrow> BREthereumEtherUnit \<Rightarrow> bytes" where
  "etherGetValue ether unit = (if unit = WEI then ether else UINT256_ZERO)"

definition etherGetValueString :: "BREthereumEther \<Rightarrow> BREthereumEtherUnit \<Rightarrow> bytes option" where
  "etherGetValueString ether unit = coerceStringDecimal ether (3 * unit_number unit)"

definition etherRlpEncode :: "BREthereumEther \<Rightarrow> BRRlpItem" where
  "etherRlpEncode ether = rlpEncodeUInt256 ether True"

definition etherRlpDecode :: "BRRlpItem \<Rightarrow> BREthereumEther option" where
  "etherRlpDecode item = map_option etherCreate (rlpDecodeUInt256 item True)"

definition etherAdd :: "BREthereumEther \<Rightarrow> BREthereumEther \<Rightarrow> BREthereumEther \<times> bool" where
  "etherAdd e1 e2 = addUInt256_Overflow e1 e2"

definition etherSub :: "BREthereumEther \<Rightarrow> BREthereumEther \<Rightarrow> BREthereumEther \<times> bool" where
  "etherSub e1 e2 = subUInt256_Negative e1 e2"

definition etherIsEQ :: "BREthereumEther \<Rightarrow> BREthereumEther \<Rightarrow> bool" where "etherIsEQ e1 e2 = eqUInt256 e1 e2"
definition etherIsGT :: "BREthereumEther \<Rightarrow> BREthereumEther \<Rightarrow> bool" where "etherIsGT e1 e2 = gtUInt256 e1 e2"
definition etherIsGE :: "BREthereumEther \<Rightarrow> BREthereumEther \<Rightarrow> bool" where "etherIsGE e1 e2 = geUInt256 e1 e2"
definition etherIsLT :: "BREthereumEther \<Rightarrow> BREthereumEther \<Rightarrow> bool" where "etherIsLT e1 e2 = ltUInt256 e1 e2"
definition etherIsLE :: "BREthereumEther \<Rightarrow> BREthereumEther \<Rightarrow> bool" where "etherIsLE e1 e2 = leUInt256 e1 e2"
definition etherIsZero :: "BREthereumEther \<Rightarrow> bool" where "etherIsZero e = UInt256IsZero e"

definition etherCompare :: "BREthereumEther \<Rightarrow> BREthereumEther \<Rightarrow> BREthereumComparison" where
  "etherCompare e1 e2 =
     (let c = compareUInt256 e1 e2
      in if c = - 1 then ETHEREUM_COMPARISON_LT else if c = 0 then ETHEREUM_COMPARISON_EQ else ETHEREUM_COMPARISON_GT)"

section \<open>Gas and fees\<close>

definition gasCreate :: "u64 \<Rightarrow> BREthereumGas" where "gasCreate amountOfGas = amountOfGas"

definition gasCompare :: "BREthereumGas \<Rightarrow> BREthereumGas \<Rightarrow> BREthereumComparison" where
  "gasCompare e1 e2 =
     (if e1 = e2 then ETHEREUM_COMPARISON_EQ else if e1 > e2 then ETHEREUM_COMPARISON_GT else ETHEREUM_COMPARISON_LT)"

definition gasRlpEncode :: "BREthereumGas \<Rightarrow> BRRlpItem" where
  "gasRlpEncode gas = rlpEncodeUInt64 gas True"

definition gasRlpDecode :: "BRRlpItem \<Rightarrow> BREthereumGas option" where
  "gasRlpDecode item = map_option gasCreate (rlpDecodeUInt64 item True)"

definition gasPriceCreate :: "BREthereumEther \<Rightarrow> BREthereumGasPrice" where "gasPriceCreate ether = ether"

definition gasPriceCompare :: "BREthereumGasPrice \<Rightarrow> BREthereumGasPrice \<Rightarrow> BREthereumComparison" where
  "gasPriceCompare e1 e2 = etherCompare e1 e2"

definition gasPriceGetGasCost :: "BREthereumGasPrice \<Rightarrow> BREthereumGas \<Rightarrow> BREthereumEther \<times> bool" where
  "gasPriceGetGasCost price gas = mulUInt256_Overflow (createUInt256 gas) price"

definition gasPriceRlpEncode :: "BREthereumGasPrice \<Rightarrow> BRRlpItem" where
  "gasPriceRlpEncode price = etherRlpEncode price"

definition gasPriceRlpDecode :: "BRRlpItem \<Rightarrow> BREthereumGasPrice option" where
  "gasPriceRlpDecode item = map_option gasPriceCreate (etherRlpDecode item)"

datatype BREthereumFeeBasis = FEE_BASIS_NONE | FEE_BASIS_GAS BREthereumGas BREthereumGasPrice

definition feeBasisCreate :: "BREthereumGas \<Rightarrow> BREthereumGasPrice \<Rightarrow> BREthereumFeeBasis" where
  "feeBasisCreate limit price = FEE_BASIS_GAS limit price"

definition feeBasisGetGasLimit :: "BREthereumFeeBasis \<Rightarrow> BREthereumGas" where
  "feeBasisGetGasLimit basis = (case basis of FEE_BASIS_NONE \<Rightarrow> gasCreate 0 | FEE_BASIS_GAS limit price \<Rightarrow> limit)"

definition feeBasisGetGasPrice :: "BREthereumFeeBasis \<Rightarrow> BREthereumGasPrice" where
  "feeBasisGetGasPrice basis = (case basis of FEE_BASIS_NONE \<Rightarrow> gasPriceCreate etherCreateZero | FEE_BASIS_GAS limit price \<Rightarrow> price)"

definition feeBasisGetFee :: "BREthereumFeeBasis \<Rightarrow> BREthereumEther \<times> bool" where
  "feeBasisGetFee feeBasis =
     (case feeBasis of
        FEE_BASIS_NONE \<Rightarrow> (etherCreateZero, False)
      | FEE_BASIS_GAS limit price \<Rightarrow> mulUInt256_Overflow price (createUInt256 limit))"

fun feeBasisEqual :: "BREthereumFeeBasis \<Rightarrow> BREthereumFeeBasis \<Rightarrow> bool" where
  "feeBasisEqual FEE_BASIS_NONE FEE_BASIS_NONE = True"
| "feeBasisEqual (FEE_BASIS_GAS limit1 price1) (FEE_BASIS_GAS limit2 price2) =
     (gasCompare limit1 limit2 = ETHEREUM_COMPARISON_EQ \<and> gasPriceCompare price1 price2 = ETHEREUM_COMPARISON_EQ)"
| "feeBasisEqual _ _ = False"

section \<open>Signatures\<close>

text \<open>
  The union of the two forms of a signature is its 65 bytes: \<open>v\<close>, \<open>r\<close>, \<open>s\<close> in the form for transactions and \<open>r\<close>, \<open>s\<close>, \<open>v\<close> in
  the other.
\<close>

datatype BREthereumSignatureType = SIGNATURE_TYPE_RECOVERABLE_VRS_EIP | SIGNATURE_TYPE_RECOVERABLE_RSV

record BREthereumSignature =
  sig_type :: BREthereumSignatureType
  sig_bytes :: bytes

definition vrs_v :: "BREthereumSignature \<Rightarrow> u8" where "vrs_v sig = sig_bytes sig ! 0"
definition vrs_r :: "BREthereumSignature \<Rightarrow> bytes" where "vrs_r sig = take 32 (drop 1 (sig_bytes sig))"
definition vrs_s :: "BREthereumSignature \<Rightarrow> bytes" where "vrs_s sig = take 32 (drop 33 (sig_bytes sig))"
definition rsv_v :: "BREthereumSignature \<Rightarrow> u8" where "rsv_v sig = sig_bytes sig ! 64"

text \<open>\<open>None\<close> is the failed \<open>assert\<close> on the length, when the key cannot sign.\<close>

definition signatureCreate :: "('p, 's, 'r) secp \<Rightarrow> BREthereumSignatureType \<Rightarrow> bytes \<Rightarrow> BRKey \<Rightarrow> BREthereumSignature option" where
  "signatureCreate lib type bs privateKeyUncompressed =
     (let messageDigest = BRKeccak256 bs
      in case type of
           SIGNATURE_TYPE_RECOVERABLE_VRS_EIP \<Rightarrow>
             (let signatureLen = snd (BRKeyCompactSign lib privateKeyUncompressed None messageDigest)
              in case BRKeyCompactSign lib privateKeyUncompressed (Some (replicate signatureLen 0)) messageDigest of
                   (Some signatureBytes, len) \<Rightarrow>
                     if len = 65
                     then Some \<lparr>sig_type = type,
                       sig_bytes = signatureBytes ! 0 # take 32 (drop 1 signatureBytes) @ take 32 (drop 33 signatureBytes)\<rparr>
                     else None
                 | _ \<Rightarrow> None)
         | SIGNATURE_TYPE_RECOVERABLE_RSV \<Rightarrow>
             (let signatureLen = snd (BRKeyCompactSignEthereum lib privateKeyUncompressed None messageDigest)
              in case BRKeyCompactSignEthereum lib privateKeyUncompressed (Some (replicate signatureLen 0)) messageDigest of
                   (Some signatureBytes, len) \<Rightarrow>
                     if len = 65
                     then Some \<lparr>sig_type = type,
                       sig_bytes = take 32 signatureBytes @ take 32 (drop 32 signatureBytes) @ [signatureBytes ! 64]\<rparr>
                     else None
                 | _ \<Rightarrow> None))"

definition signatureEqual :: "BREthereumSignature \<Rightarrow> BREthereumSignature \<Rightarrow> bool" where
  "signatureEqual s1 s2 \<longleftrightarrow> sig_type s1 = sig_type s2 \<and> vrs_v s1 = vrs_v s2 \<and> vrs_r s1 = vrs_r s2 \<and> vrs_s s1 = vrs_s s2"

text \<open>The key is not initialised in front of the recovery, which writes it when it succeeds.\<close>

definition signatureExtractAddress :: "('p, 's, 'r) secp \<Rightarrow> BREthereumSignature \<Rightarrow> bytes \<Rightarrow> BREthereumAddress \<times> bool" where
  "signatureExtractAddress lib signature bs =
     (let digest = BRKeccak256 bs;
          (key, success) = (case sig_type signature of
              SIGNATURE_TYPE_RECOVERABLE_VRS_EIP \<Rightarrow> BRKeyRecoverPubKey lib BRKeyClean digest (sig_bytes signature)
            | SIGNATURE_TYPE_RECOVERABLE_RSV \<Rightarrow> BRKeyRecoverPubKeyEthereum lib BRKeyClean digest (sig_bytes signature))
      in (if \<not> success then EMPTY_ADDRESS_INIT else addressCreateKey key, success))"

definition signatureClear :: "BREthereumSignatureType \<Rightarrow> BREthereumSignature" where
  "signatureClear type = \<lparr>sig_type = type, sig_bytes = replicate 65 0\<rparr>"

section \<open>Lemmas\<close>

lemma case_hexc:
  "hexu (tolower (hexc u)) = hexu (hexc u) \<and> hexu (toupper (hexc u)) = hexu (hexc u) \<and>
    isxdigit (tolower (hexc u)) \<and> isxdigit (toupper (hexc u))"
proof -
  have "list_all (\<lambda>n. hexu (tolower (hexc n)) = hexu (hexc n) \<and> hexu (toupper (hexc n)) = hexu (hexc n) \<and>
      isxdigit (tolower (hexc n)) \<and> isxdigit (toupper (hexc n))) (map of_nat [0..<16])"
    by (simp add: upt_rec hexc_def hexu_def isxdigit_def tolower_def toupper_def)
  then show ?thesis using nibble_cases [of u] hexc_nibble [of u] unfolding list_all_iff by metis
qed

lemma decodeHex_same: "list_all2 (\<lambda>a b. hexu a = hexu b) s t \<Longrightarrow> decodeHex s = decodeHex t"
proof (induction s arbitrary: t rule: decodeHex.induct)
  case (1 a b source)
  then obtain a' b' t' where t: "t = a' # b' # t'" "hexu a = hexu a'" "hexu b = hexu b'" "list_all2 (\<lambda>a b. hexu a = hexu b) source t'"
    by (auto simp: list_all2_Cons1)
  then show ?case using "1.IH" [OF t(4)] by simp
qed (auto simp: list_all2_Cons1)

text \<open>The text of an address: the digits with some of the letters in upper case.\<close>

lemma encoded_address:
  assumes "length address = 20"
  obtains s where "addressGetEncodedString address c = [0x30, 0x78] @ s" "length s = 40" "list_all isxdigit s" "decodeHex s = address"
proof -
  obtain us where us: "encodeHex address = map hexc us" using encodeHex_hexc by blast
  have digit: "\<exists>u. encodeHex address ! i = hexc u" if "i < 40" for i
    using that us assms length_encodeHex [of address] by (metis length_map nth_map mult_numeral_1_right numeral_times_numeral semiring_norm(12,13))
  define letter where "letter = (\<lambda>i. let val = 0x0f AND drop_bit (if i mod 2 = 0 then 4 else 0) (BRKeccak256 (encodeHex address) ! (i div 2))
      in if val < 8 then tolower (encodeHex address ! i) else toupper (encodeHex address ! i))"
  let ?s = "if \<not> c then encodeHex address else map letter [0..<length (encodeHex address)]"
  have l: "hexu (letter i) = hexu (encodeHex address ! i) \<and> isxdigit (letter i)" if "i < 40" for i
    using digit [OF that] case_hexc by (auto simp: letter_def Let_def)
  have "list_all2 (\<lambda>a b. hexu a = hexu b) ?s (encodeHex address)"
    using l assms by (auto simp: list_all2_conv_all_nth)
  then have "decodeHex ?s = address" using decodeHex_same decodeHex_encodeHex by metis
  moreover have "list_all isxdigit ?s" using l assms encodeHex_digits [of address] by (auto simp: list_all_iff)
  moreover have "length ?s = 40" using assms by simp
  moreover have "addressGetEncodedString address c = [0x30, 0x78] @ ?s"
    by (simp add: addressGetEncodedString_def addressFillEncodedString_def letter_def Let_def)
  ultimately show thesis by (intro that)
qed

text \<open>
  C14: The text of an Ethereum address, with or without the checksum in the case of its letters, is valid and gives the
  address back.
\<close>
theorem address_text_round_trip:
  assumes "length address = 20"
  shows "addressValidateString (addressGetEncodedString address c) \<and> addressCreate (addressGetEncodedString address c) = address"
proof -
  obtain s where s: "addressGetEncodedString address c = [0x30, 0x78] @ s" "length s = 40" "list_all isxdigit s" "decodeHex s = address"
    using encoded_address [OF assms] by blast
  then have "addressValidateString (addressGetEncodedString address c)"
    by (auto simp: addressValidateString_def encodeHexValidate_def)
  then show ?thesis using s by (simp add: addressCreate_def)
qed

theorem address_text_round_trip_witness: "addressCreate (addressGetEncodedString (replicate 20 0xab) True) = replicate 20 0xab"
  using address_text_round_trip [of "replicate 20 0xab" True] by simp

lemma ether_scale: "uval (etherUnitScaleFactor ! unit_number unit) = 10 ^ (3 * unit_number unit) \<and> length (etherUnitScaleFactor ! unit_number unit) = 32"
  by (cases unit) (simp_all add: etherUnitScaleFactor_def byte_value_append byte_value_UInt64SetLE)

text \<open>
  C15: Amounts of ether. The text of an amount in any unit, from wei to tether, is read back as exactly that amount, and a
  whole number of a unit is that number times the power of ten of the unit, with the overflow flag set exactly when
  it does not fit in 256 bits.
\<close>
theorem ether_units:
  assumes "length ether = 32"
  shows "Option.bind (etherGetValueString ether unit) (\<lambda>s. etherCreateString s unit) = Some (CORE_PARSE_OK, ether) \<and>
    (case etherCreateUnit ether unit of (e, overflow) \<Rightarrow>
      overflow = (2 ^ 256 \<le> uval ether * 10 ^ (3 * unit_number unit)) \<and>
      uval e = (if overflow then 0 else uval ether * 10 ^ (3 * unit_number unit)))"
proof
  have "3 * unit_number unit \<le> 96" by (cases unit) simp_all
  from decimal_round_trip [OF assms this]
  show "Option.bind (etherGetValueString ether unit) (\<lambda>s. etherCreateString s unit) = Some (CORE_PARSE_OK, ether)"
    by (simp add: etherGetValueString_def etherCreateString_def)
  let ?f = "etherUnitScaleFactor ! unit_number unit"
  obtain e overflow where m: "mulUInt256_Overflow ether ?f = (e, overflow)" by (cases "mulUInt256_Overflow ether ?f")
  have v: "overflow = (2 ^ 256 \<le> uval ether * 10 ^ (3 * unit_number unit)) \<and> uval e = (if overflow then 0 else uval ether * 10 ^ (3 * unit_number unit))"
    using coerceUInt256_value [of "mulUInt256 ether ?f" e overflow] mulUInt256_value [OF assms, of ?f] ether_scale [of unit] m
    by (simp add: mulUInt256_Overflow_def)
  show "case etherCreateUnit ether unit of (e, overflow) \<Rightarrow>
      overflow = (2 ^ 256 \<le> uval ether * 10 ^ (3 * unit_number unit)) \<and>
      uval e = (if overflow then 0 else uval ether * 10 ^ (3 * unit_number unit))"
    using v m uval_less [OF assms] by (cases "unit = WEI") (simp_all add: etherCreateUnit_def)
qed

theorem ether_units_witness:
  "Option.bind (etherGetValueString (createUInt256 1500) ETHER) (\<lambda>s. etherCreateString s ETHER) = Some (CORE_PARSE_OK, createUInt256 1500)"
  using ether_units [of "createUInt256 1500" ETHER] by simp

end
