(* ===== verification/EthTx.thy ===== *)
theory EthTx
  imports EthBase
begin

text \<open>
  Ethereum transactions: \<open>ethereum/blockchain/BREthereumTransaction.c\<close> and \<open>BREthereumTransactionStatus.c\<close>. A text is
  the list of its bytes, \<open>None\<close> where the pointer is \<open>NULL\<close>; a decoder gives \<open>None\<close> where an \<open>assert\<close> fails.
\<close>

section \<open>The status of a transaction\<close>

type_synonym BREthereumTransactionErrorType = u32

definition TRANSACTION_ERROR_ALREADY_KNOWN :: BREthereumTransactionErrorType where "TRANSACTION_ERROR_ALREADY_KNOWN = 7"
definition TRANSACTION_ERROR_UNKNOWN :: BREthereumTransactionErrorType where "TRANSACTION_ERROR_UNKNOWN = 8"

datatype BREthereumTransactionStatus =
    TRANSACTION_STATUS_UNKNOWN
  | TRANSACTION_STATUS_QUEUED
  | TRANSACTION_STATUS_PENDING
  | TRANSACTION_STATUS_INCLUDED BREthereumHash u64 u64 u64 BREthereumGas
  | TRANSACTION_STATUS_ERRORED BREthereumTransactionErrorType bytes

definition TRANSACTION_STATUS_DETAIL_BYTES :: nat where "TRANSACTION_STATUS_DETAIL_BYTES = 60"
definition TRANSACTION_STATUS_BLOCK_TIMESTAMP_UNKNOWN :: u64 where "TRANSACTION_STATUS_BLOCK_TIMESTAMP_UNKNOWN = 0"

text \<open>
  The names of the errors: invalid signature, nonce too low, balance too low, gas price too low, gas too low,
  replacement under-pricesd, dropped, already known and unknown, each behind a star.
\<close>

definition error_names :: "string list" where
  "error_names = map (\<lambda>s. ''* '' @ s)
     [''invalid signature'', ''nonce too low'', ''balance too low'', ''gas price too low'', ''gas too low'',
      ''replacement under-pricesd'', ''dropped'', ''already known'', ''unknown'']"

definition transactionGetErrorName :: "BREthereumTransactionErrorType \<Rightarrow> bytes option" where
  "transactionGetErrorName type =
     (if unat type < length error_names then Some (map (\<lambda>c. of_nat (of_char c)) (error_names ! unat type)) else None)"

fun status_type :: "BREthereumTransactionStatus \<Rightarrow> u64" where
  "status_type TRANSACTION_STATUS_UNKNOWN = 0"
| "status_type TRANSACTION_STATUS_QUEUED = 1"
| "status_type TRANSACTION_STATUS_PENDING = 2"
| "status_type (TRANSACTION_STATUS_INCLUDED _ _ _ _ _) = 3"
| "status_type (TRANSACTION_STATUS_ERRORED _ _) = 4"

definition transactionStatusCreateIncluded :: "BREthereumHash \<Rightarrow> u64 \<Rightarrow> u64 \<Rightarrow> u64 \<Rightarrow> BREthereumGas \<Rightarrow> BREthereumTransactionStatus" where
  "transactionStatusCreateIncluded blockHash blockNumber transactionIndex blockTimestamp gasUsed =
     TRANSACTION_STATUS_INCLUDED blockHash blockNumber transactionIndex blockTimestamp gasUsed"

text \<open>\<open>strlcpy\<close> copies one byte less than the size it is given.\<close>

definition transactionStatusCreateErrored :: "BREthereumTransactionErrorType \<Rightarrow> bytes \<Rightarrow> BREthereumTransactionStatus" where
  "transactionStatusCreateErrored type detail = TRANSACTION_STATUS_ERRORED type (take (TRANSACTION_STATUS_DETAIL_BYTES - 1) detail)"

fun transactionStatusExtractIncluded :: "BREthereumTransactionStatus \<Rightarrow> (BREthereumHash \<times> u64 \<times> u64 \<times> u64 \<times> BREthereumGas) option" where
  "transactionStatusExtractIncluded (TRANSACTION_STATUS_INCLUDED blockHash blockNumber transactionIndex blockTimestamp gasUsed) =
     Some (blockHash, blockNumber, transactionIndex, blockTimestamp, gasUsed)"
| "transactionStatusExtractIncluded _ = None"

text \<open>The timestamps are not compared.\<close>

fun transactionStatusEqual :: "BREthereumTransactionStatus \<Rightarrow> BREthereumTransactionStatus \<Rightarrow> bool" where
  "transactionStatusEqual (TRANSACTION_STATUS_INCLUDED h1 n1 i1 t1 g1) (TRANSACTION_STATUS_INCLUDED h2 n2 i2 t2 g2) =
     (gasCompare g1 g2 = ETHEREUM_COMPARISON_EQ \<and> hashEqual h1 h2 \<and> n1 = n2 \<and> i1 = i2)"
| "transactionStatusEqual (TRANSACTION_STATUS_ERRORED e1 d1) (TRANSACTION_STATUS_ERRORED e2 d2) = (e1 = e2 \<and> d1 = d2)"
| "transactionStatusEqual ts1 ts2 = (status_type ts1 = status_type ts2)"

text \<open>The first reason that is a prefix of the text; there are as many reasons as types.\<close>

definition lookupTransactionErrorType :: "bytes list option \<Rightarrow> bytes \<Rightarrow> BREthereumTransactionErrorType" where
  "lookupTransactionErrorType reasons reason =
     (case reasons of
        None \<Rightarrow> TRANSACTION_ERROR_UNKNOWN
      | Some rs \<Rightarrow>
          (let i = length (takeWhile (\<lambda>r. take (length r) reason \<noteq> r) (take 9 rs))
           in if i < length (take 9 rs) then of_nat i else TRANSACTION_ERROR_UNKNOWN))"

definition transactionStatusRLPDecode :: "BRRlpItem \<Rightarrow> bytes list option \<Rightarrow> BREthereumTransactionStatus option" where
  "transactionStatusRLPDecode item reasons =
     (let items = rlpDecodeList item
      in if length items \<noteq> 3 then None
         else do {
           reason \<leftarrow> rlpDecodeString (items ! 2);
           if reason \<noteq> [] \<and> reason \<noteq> hex_prefix
           then (let type = lookupTransactionErrorType reasons reason
                 in Some (if type \<noteq> TRANSACTION_ERROR_ALREADY_KNOWN then transactionStatusCreateErrored type reason
                          else TRANSACTION_STATUS_PENDING))
           else do {
             type \<leftarrow> rlpDecodeUInt64 (items ! 0) False;
             let type = (ucast type :: u32);
             if type = 0 then Some TRANSACTION_STATUS_UNKNOWN
             else if type = 1 then Some TRANSACTION_STATUS_QUEUED
             else if type = 2 then Some TRANSACTION_STATUS_PENDING
             else if type = 3 then
               (let others = rlpDecodeList (items ! 1)
                in if length others \<noteq> 5 \<and> length others \<noteq> 3 then None
                   else do {
                     blockHash \<leftarrow> hashRlpDecode (others ! 0);
                     blockNumber \<leftarrow> rlpDecodeUInt64 (others ! 1) False;
                     transactionIndex \<leftarrow> rlpDecodeUInt64 (others ! 2) False;
                     blockTimestamp \<leftarrow> (if length others = 3 then Some TRANSACTION_STATUS_BLOCK_TIMESTAMP_UNKNOWN else rlpDecodeUInt64 (others ! 3) False);
                     gasUsed \<leftarrow> (if length others = 3 then Some (gasCreate 0) else gasRlpDecode (others ! 4));
                     Some (transactionStatusCreateIncluded blockHash blockNumber transactionIndex blockTimestamp gasUsed)
                   })
             else if type = 4 then
               do {
                 type \<leftarrow> rlpDecodeUInt64 (items ! 2) False;
                 let type = (ucast type :: u32);
                 if type \<noteq> TRANSACTION_ERROR_ALREADY_KNOWN
                 then map_option (transactionStatusCreateErrored type) (transactionGetErrorName type)
                 else Some TRANSACTION_STATUS_PENDING
               }
             else None
           }
         })"

definition transactionStatusRLPEncode :: "BREthereumTransactionStatus \<Rightarrow> BRRlpItem" where
  "transactionStatusRLPEncode status =
     (let item0 = rlpEncodeUInt64 (status_type status) False
      in rlpEncodeListItems (case status of
           TRANSACTION_STATUS_INCLUDED blockHash blockNumber transactionIndex blockTimestamp gasUsed \<Rightarrow>
             [item0,
              rlpEncodeListItems [hashRlpEncode blockHash, rlpEncodeUInt64 blockNumber False, rlpEncodeUInt64 transactionIndex False,
                rlpEncodeUInt64 blockTimestamp False, gasRlpEncode gasUsed],
              rlpEncodeString (Some [])]
         | TRANSACTION_STATUS_ERRORED type detail \<Rightarrow> [item0, rlpEncodeListItems [], rlpEncodeUInt64 (ucast type) False]
         | _ \<Rightarrow> [item0, rlpEncodeListItems [], rlpEncodeString (Some [])]))"

definition transactionStatusDecodeList :: "BRRlpItem \<Rightarrow> bytes list option \<Rightarrow> BREthereumTransactionStatus list option" where
  "transactionStatusDecodeList item reasons = those (map (\<lambda>i. transactionStatusRLPDecode i reasons) (rlpDecodeList item))"

section \<open>Transactions\<close>

record BREthereumTransaction =
  hash :: BREthereumHash
  sourceAddress :: BREthereumAddress
  targetAddress :: BREthereumAddress
  amount :: BREthereumEther
  gasPrice :: BREthereumGasPrice
  gasLimit :: BREthereumGas
  gasEstimate :: BREthereumGas
  nonce :: u64
  chainId :: int
  data :: "bytes option"
  signature :: BREthereumSignature
  status :: BREthereumTransactionStatus

text \<open>Of a network the chain id is used.\<close>

record BREthereumNetwork =
  network_name :: bytes
  network_chainId :: int

definition networkGetChainId :: "BREthereumNetwork \<Rightarrow> int" where
  "networkGetChainId network = network_chainId network"

datatype BREthereumRlpType = RLP_TYPE_ARCHIVE | RLP_TYPE_TRANSACTION_UNSIGNED | RLP_TYPE_TRANSACTION_SIGNED

definition transactionCreate ::
  "BREthereumAddress \<Rightarrow> BREthereumAddress \<Rightarrow> BREthereumEther \<Rightarrow> BREthereumGasPrice \<Rightarrow> BREthereumGas \<Rightarrow> bytes option \<Rightarrow> u64 \<Rightarrow> BREthereumTransaction" where
  "transactionCreate source target am price limit dat non =
     \<lparr>hash = hashCreateEmpty, sourceAddress = source, targetAddress = target, amount = am, gasPrice = price, gasLimit = limit,
      gasEstimate = limit, nonce = non, chainId = 0, data = dat, signature = signatureClear SIGNATURE_TYPE_RECOVERABLE_VRS_EIP,
      status = TRANSACTION_STATUS_UNKNOWN\<rparr>"

definition transactionHasAddress :: "BREthereumTransaction \<Rightarrow> BREthereumAddress \<Rightarrow> bool" where
  "transactionHasAddress tx address \<longleftrightarrow> addressEqual address (sourceAddress tx) \<or> addressEqual address (targetAddress tx)"

definition transactionIsConfirmed :: "BREthereumTransaction \<Rightarrow> bool" where
  "transactionIsConfirmed tx \<longleftrightarrow> status_type (status tx) = 3"

definition transactionIsSubmitted :: "BREthereumTransaction \<Rightarrow> bool" where
  "transactionIsSubmitted tx \<longleftrightarrow> status_type (status tx) \<noteq> 0"

definition transactionIsErrored :: "BREthereumTransaction \<Rightarrow> bool" where
  "transactionIsErrored tx \<longleftrightarrow> status_type (status tx) = 4"

definition transactionGetFeeBasis :: "BREthereumTransaction \<Rightarrow> BREthereumFeeBasis" where
  "transactionGetFeeBasis tx =
     FEE_BASIS_GAS (case status tx of TRANSACTION_STATUS_INCLUDED _ _ _ _ gasUsed \<Rightarrow> gasUsed | _ \<Rightarrow> gasLimit tx) (gasPrice tx)"

definition transactionGetFee :: "BREthereumTransaction \<Rightarrow> BREthereumEther \<times> bool" where
  "transactionGetFee tx = feeBasisGetFee (transactionGetFeeBasis tx)"

definition transactionGetFeeBasisLimit :: "BREthereumTransaction \<Rightarrow> BREthereumFeeBasis" where
  "transactionGetFeeBasisLimit tx = FEE_BASIS_GAS (gasLimit tx) (gasPrice tx)"

definition transactionGetFeeLimit :: "BREthereumTransaction \<Rightarrow> BREthereumEther \<times> bool" where
  "transactionGetFeeLimit tx = feeBasisGetFee (transactionGetFeeBasisLimit tx)"

definition GAS_LIMIT_MARGIN_PERCENT :: u64 where "GAS_LIMIT_MARGIN_PERCENT = 20"

definition gasLimitApplyMargin :: "BREthereumGas \<Rightarrow> BREthereumGas" where
  "gasLimitApplyMargin gas = gasCreate (((100 + GAS_LIMIT_MARGIN_PERCENT) * gas) div 100)"

definition transactionSetGasEstimate :: "BREthereumTransaction \<Rightarrow> BREthereumGas \<Rightarrow> BREthereumTransaction" where
  "transactionSetGasEstimate tx estimate =
     (let tx = tx\<lparr>gasEstimate := estimate\<rparr>;
          gasLimitWithMargin = (if estimate \<noteq> 21000 then gasLimitApplyMargin estimate else gasCreate 21000)
      in if gasLimitWithMargin > gasLimit tx then tx\<lparr>gasLimit := gasLimitWithMargin\<rparr> else tx)"

definition transactionSetNonce :: "BREthereumTransaction \<Rightarrow> u64 \<Rightarrow> BREthereumTransaction" where
  "transactionSetNonce tx n = tx\<lparr>nonce := n\<rparr>"

definition transactionHashValue :: "BREthereumTransaction \<Rightarrow> u32" where
  "transactionHashValue t = hashSetValue (hash t)"

definition transactionHashEqual :: "BREthereumTransaction \<Rightarrow> BREthereumTransaction \<Rightarrow> bool" where
  "transactionHashEqual t1 t2 \<longleftrightarrow> hashEqual (hash t1) (hash t2)"

definition transactionSign :: "BREthereumTransaction \<Rightarrow> BREthereumSignature \<Rightarrow> BREthereumTransaction option" where
  "transactionSign tx sig =
     (if sig_type sig = SIGNATURE_TYPE_RECOVERABLE_VRS_EIP \<and> (vrs_v sig = 27 \<or> vrs_v sig = 28)
      then Some (tx\<lparr>status := TRANSACTION_STATUS_UNKNOWN, signature := sig\<rparr>) else None)"

definition transactionIsSigned :: "BREthereumTransaction \<Rightarrow> bool" where
  "transactionIsSigned tx \<longleftrightarrow>
     (case sig_type (signature tx) of
        SIGNATURE_TYPE_RECOVERABLE_VRS_EIP \<Rightarrow> vrs_v (signature tx) \<noteq> 0
      | SIGNATURE_TYPE_RECOVERABLE_RSV \<Rightarrow> rsv_v (signature tx) \<noteq> 0)"

text \<open>
  The encoder sets the chain id of the transaction, and its hash when it encodes the signed form. The item is
  missing when the data is no text of an even number of hexadecimal digits. The sum with the chain id has the type \<open>int\<close>
  in the code, here and in the decoder; it is written as an integer, which is the same for chain ids below \<open>2 ^ 30 - 131\<close>,
  where the sum does not overflow.
\<close>

definition transactionRlpEncode ::
  "BREthereumTransaction \<Rightarrow> BREthereumNetwork \<Rightarrow> BREthereumRlpType \<Rightarrow> (BREthereumTransaction \<times> BRRlpItem) option" where
  "transactionRlpEncode transaction network type =
     do {
       item5 \<leftarrow> rlpEncodeHexString (data transaction);
       let items = [rlpEncodeUInt64 (nonce transaction) True, gasPriceRlpEncode (gasPrice transaction), gasRlpEncode (gasLimit transaction),
                    addressRlpEncode (targetAddress transaction), etherRlpEncode (amount transaction), item5];
       let transaction = transaction\<lparr>chainId := networkGetChainId network\<rparr>;
       let items = items @ (if type = RLP_TYPE_TRANSACTION_UNSIGNED
         then [rlpEncodeUInt64 (word_of_int (chainId transaction)) True, rlpEncodeString (Some []), rlpEncodeString (Some [])]
         else [rlpEncodeUInt64 (word_of_int (int (unat (vrs_v (signature transaction))) + 8 + 2 * chainId transaction)) True,
               rlpEncodeBytesPurgeLeadingZeros (vrs_r (signature transaction)),
               rlpEncodeBytesPurgeLeadingZeros (vrs_s (signature transaction))] @
              (if type = RLP_TYPE_ARCHIVE
               then [addressRlpEncode (sourceAddress transaction), hashRlpEncode (hash transaction), transactionStatusRLPEncode (status transaction)]
               else []));
       let result = rlpEncodeListItems items;
       let transaction = (if type = RLP_TYPE_TRANSACTION_SIGNED then transaction\<lparr>hash := hashCreateFromData (rlpGetData result)\<rparr> else transaction);
       Some (transaction, result)
     }"

definition transactionExtractAddress ::
  "('p, 's, 'r) secp \<Rightarrow> BREthereumTransaction \<Rightarrow> BREthereumNetwork \<Rightarrow> (BREthereumTransaction \<times> BREthereumAddress) option" where
  "transactionExtractAddress lib transaction network =
     (if \<not> transactionIsSigned transaction then Some (transaction, EMPTY_ADDRESS_INIT)
      else do {
        (transaction, item) \<leftarrow> transactionRlpEncode transaction network RLP_TYPE_TRANSACTION_UNSIGNED;
        Some (transaction, fst (signatureExtractAddress lib (signature transaction) (rlpGetData item)))
      })"

text \<open>A number of up to 32 bytes, right aligned in 32 bytes that are zero.\<close>

definition sig_number :: "BRRlpItem \<Rightarrow> bytes option" where
  "sig_number item =
     do { rData \<leftarrow> rlpDecodeBytes item; if length rData \<le> 32 then Some (replicate (32 - length rData) 0 @ rData) else None }"

definition transactionRlpDecode ::
  "('p, 's, 'r) secp \<Rightarrow> BRRlpItem \<Rightarrow> BREthereumNetwork \<Rightarrow> BREthereumRlpType \<Rightarrow> BREthereumTransaction option" where
  "transactionRlpDecode lib item network type =
     (let items = rlpDecodeList item
      in if \<not> (length items = 9 \<and> type \<noteq> RLP_TYPE_ARCHIVE \<or> length items = 12 \<and> type = RLP_TYPE_ARCHIVE) then None
         else do {
           non \<leftarrow> rlpDecodeUInt64 (items ! 0) True;
           price \<leftarrow> gasPriceRlpDecode (items ! 1);
           limit \<leftarrow> gasRlpDecode (items ! 2);
           target \<leftarrow> addressRlpDecode (items ! 3);
           am \<leftarrow> etherRlpDecode (items ! 4);
           dat \<leftarrow> rlpDecodeHexString (items ! 5) hex_prefix;
           let cid = networkGetChainId network;
           eipChainId \<leftarrow> rlpDecodeUInt64 (items ! 6) True;
           sig \<leftarrow> (if eipChainId \<noteq> word_of_int cid
             then do {
               let v = (ucast (if eipChainId > 30 then eipChainId - 8 - word_of_int (2 * cid) else eipChainId) :: u8);
               r \<leftarrow> sig_number (items ! 7);
               s \<leftarrow> sig_number (items ! 8);
               Some \<lparr>sig_type = SIGNATURE_TYPE_RECOVERABLE_VRS_EIP, sig_bytes = v # r @ s\<rparr>
             }
             else Some (signatureClear SIGNATURE_TYPE_RECOVERABLE_VRS_EIP));
           let transaction = \<lparr>hash = hashCreateEmpty, sourceAddress = EMPTY_ADDRESS_INIT, targetAddress = target, amount = am, gasPrice = price,
             gasLimit = limit, gasEstimate = gasCreate 0, nonce = non, chainId = cid, data = Some dat, signature = sig, status = TRANSACTION_STATUS_UNKNOWN\<rparr>;
           (case type of
              RLP_TYPE_ARCHIVE \<Rightarrow>
                do {
                  source \<leftarrow> addressRlpDecode (items ! 9);
                  h \<leftarrow> hashRlpDecode (items ! 10);
                  st \<leftarrow> transactionStatusRLPDecode (items ! 11) None;
                  Some (transaction\<lparr>sourceAddress := source, hash := h, status := st\<rparr>)
                }
            | RLP_TYPE_TRANSACTION_SIGNED \<Rightarrow>
                do {
                  let transaction = transaction\<lparr>hash := hashCreateFromData (rlpGetData item)\<rparr>;
                  (transaction, source) \<leftarrow> transactionExtractAddress lib transaction network;
                  Some (transaction\<lparr>sourceAddress := source\<rparr>)
                }
            | RLP_TYPE_TRANSACTION_UNSIGNED \<Rightarrow> Some transaction)
         })"

text \<open>A transaction is compared by its pointer first; the pointers are \<open>NULL\<close> or the transactions themselves.\<close>

fun transactionCompare :: "BREthereumTransaction option \<Rightarrow> BREthereumTransaction option \<Rightarrow> BREthereumComparison" where
  "transactionCompare None None = ETHEREUM_COMPARISON_EQ"
| "transactionCompare (Some t1) None = ETHEREUM_COMPARISON_LT"
| "transactionCompare None (Some t2) = ETHEREUM_COMPARISON_GT"
| "transactionCompare (Some t1) (Some t2) =
     (case (transactionStatusExtractIncluded (status t1), transactionStatusExtractIncluded (status t2)) of
        (Some (_, n1, i1, _), Some (_, n2, i2, _)) \<Rightarrow>
          if n1 < n2 then ETHEREUM_COMPARISON_LT
          else if n1 > n2 then ETHEREUM_COMPARISON_GT
          else if i1 < i2 then ETHEREUM_COMPARISON_LT
          else if i1 > i2 then ETHEREUM_COMPARISON_GT else ETHEREUM_COMPARISON_EQ
      | (None, Some _) \<Rightarrow> ETHEREUM_COMPARISON_GT
      | (Some _, None) \<Rightarrow> ETHEREUM_COMPARISON_LT
      | (None, None) \<Rightarrow>
          if nonce t1 < nonce t2 then ETHEREUM_COMPARISON_LT
          else if nonce t1 > nonce t2 then ETHEREUM_COMPARISON_GT else ETHEREUM_COMPARISON_EQ)"

definition transactionGetRlpHexEncoded ::
  "BREthereumTransaction \<Rightarrow> BREthereumNetwork \<Rightarrow> BREthereumRlpType \<Rightarrow> bytes option \<Rightarrow> bytes option" where
  "transactionGetRlpHexEncoded transaction network type prefix =
     map_option (\<lambda>(_, item). (case prefix of None \<Rightarrow> [] | Some p \<Rightarrow> p) @ encodeHex (rlpGetData item))
       (transactionRlpEncode transaction network type)"

end
