(* ===== verification/EthTxProps.thy ===== *)
theory EthTxProps
  imports EthTx
begin

text \<open>
  What the RLP encodings of Ethereum transactions promise: the signed form and the archived form are read back,
  and which transactions the code does not read back.
\<close>

section \<open>The items of a transaction\<close>

lemma rlpDecodeList_items [simp]: "rlpDecodeList (rlpEncodeListItems items) = items"
  by (simp add: rlpEncodeListItems_def coderEncodeList_def Let_def)

lemma empty_string: "rlpEncodeString (Some []) = rlpEncodeBytes []"
  by (simp add: rlpEncodeString_def)

lemma uint64_bytes: "\<exists>b. rlpEncodeUInt64 n z = rlpEncodeBytes b \<and> length b \<le> 8"
proof (cases "z \<and> n = 0")
  case True
  then show ?thesis by (intro exI [of _ "[]"]) (simp add: rlpEncodeUInt64_def empty_string)
next
  case False
  have "UInt64SetLE n \<noteq> []" by (metis length_UInt64SetLE length_0_conv zero_neq_numeral)
  from length_normalized(1) [OF this] have "length (normalized (UInt64SetLE n)) \<le> 8" by simp
  moreover have "rlpEncodeUInt64 n z = rlpEncodeBytes (normalized (UInt64SetLE n))"
    using False by (simp only: rlpEncodeUInt64_def coderEncodeUInt64_def coderEncodeNumber_eq rlpEncodeBytes_def if_False)
  ultimately show ?thesis by blast
qed

lemma uint256_bytes: "length val = 32 \<Longrightarrow> \<exists>b. rlpEncodeUInt256 val z = rlpEncodeBytes b \<and> length b \<le> 32"
proof (cases "z \<and> val = UINT256_ZERO")
  case True
  then show ?thesis by (intro exI [of _ "[]"]) (simp add: rlpEncodeUInt256_def empty_string)
next
  case False
  assume "length val = 32"
  then have "val \<noteq> []" by auto
  from length_normalized(1) [OF this] have "length (normalized val) \<le> 32" using \<open>length val = 32\<close> by simp
  moreover have "rlpEncodeUInt256 val z = rlpEncodeBytes (normalized val)"
    using False by (simp only: rlpEncodeUInt256_def coderEncodeUInt256_def coderEncodeNumber_eq rlpEncodeBytes_def if_False)
  ultimately show ?thesis by blast
qed

lemma hash_rlp: "length h = 32 \<Longrightarrow> hashRlpDecode (hashRlpEncode h) = Some h"
  by (simp add: hashRlpDecode_def hashRlpEncode_def rlpDecodeBytes_encode ETHEREUM_HASH_BYTES_def)

lemma address_rlp: "length a = 20 \<Longrightarrow> addressRlpDecode (addressRlpEncode a) = Some a"
  by (auto simp: addressRlpDecode_def addressRlpEncode_def rlpDecodeBytes_encode)

lemma ether_rlp: "length e = 32 \<Longrightarrow> etherRlpDecode (etherRlpEncode e) = Some e"
  by (simp add: etherRlpDecode_def etherRlpEncode_def rlp_uint256 etherCreate_def)

lemma gas_rlp: "gasRlpDecode (gasRlpEncode g) = Some g"
  by (simp add: gasRlpDecode_def gasRlpEncode_def rlp_uint64 gasCreate_def)

lemma gasPrice_rlp: "length p = 32 \<Longrightarrow> gasPriceRlpDecode (gasPriceRlpEncode p) = Some p"
  by (simp add: gasPriceRlpDecode_def gasPriceRlpEncode_def ether_rlp gasPriceCreate_def)

lemma sig_number_purge:
  assumes "length r = 32"
  shows "sig_number (rlpEncodeBytesPurgeLeadingZeros r) = Some r"
proof -
  obtain z d where zd: "r = replicate z 0 @ d" "takeWhile zero r = replicate z 0" by (rule leading_zeros [of r])
  then have "drop (length (takeWhile zero r)) r = d" by simp
  moreover have "z + length d = 32" using assms zd(1) by simp
  ultimately show ?thesis using zd(1)
    by (simp add: sig_number_def rlpEncodeBytesPurgeLeadingZeros_def rlpDecodeBytes_encode)
qed

text \<open>The items of the unsigned and of the signed form; \<open>b\<close> are the bytes of the data.\<close>

definition tx_fields :: "BREthereumTransaction \<Rightarrow> bytes \<Rightarrow> BRRlpItem list" where
  "tx_fields tx b = [rlpEncodeUInt64 (nonce tx) True, gasPriceRlpEncode (gasPrice tx), gasRlpEncode (gasLimit tx),
     addressRlpEncode (targetAddress tx), etherRlpEncode (amount tx), rlpEncodeBytes b]"

definition unsigned_items :: "BREthereumTransaction \<Rightarrow> bytes \<Rightarrow> int \<Rightarrow> BRRlpItem list" where
  "unsigned_items tx b cid = tx_fields tx b @ [rlpEncodeUInt64 (word_of_int cid) True, rlpEncodeBytes [], rlpEncodeBytes []]"

definition signed_items :: "BREthereumTransaction \<Rightarrow> bytes \<Rightarrow> int \<Rightarrow> BRRlpItem list" where
  "signed_items tx b cid = tx_fields tx b @ [rlpEncodeUInt64 (word_of_int (int (unat (vrs_v (signature tx))) + 8 + 2 * cid)) True,
     rlpEncodeBytesPurgeLeadingZeros (vrs_r (signature tx)), rlpEncodeBytesPurgeLeadingZeros (vrs_s (signature tx))]"

definition has_data :: "BREthereumTransaction \<Rightarrow> bytes \<Rightarrow> bool" where
  "has_data tx b \<longleftrightarrow> data tx = None \<and> b = [] \<or> data tx = Some (hex_prefix @ encodeHex b)"

lemma encode_data: "has_data tx b \<Longrightarrow> rlpEncodeHexString (data tx) = Some (rlpEncodeBytes b)"
  by (cases b) (auto simp: has_data_def rlpEncodeHexString_def hex_prefix_def empty_string nibbles_join)

lemma encode_unsigned:
  "has_data tx b \<Longrightarrow> transactionRlpEncode tx network RLP_TYPE_TRANSACTION_UNSIGNED =
     Some (tx\<lparr>chainId := networkGetChainId network\<rparr>, rlpEncodeListItems (unsigned_items tx b (networkGetChainId network)))"
  by (simp add: transactionRlpEncode_def encode_data unsigned_items_def tx_fields_def empty_string)

lemma encode_signed:
  "has_data tx b \<Longrightarrow> transactionRlpEncode tx network RLP_TYPE_TRANSACTION_SIGNED =
     (let item = rlpEncodeListItems (signed_items tx b (networkGetChainId network))
      in Some (tx\<lparr>chainId := networkGetChainId network, hash := hashCreateFromData (rlpGetData item)\<rparr>, item))"
  by (simp add: transactionRlpEncode_def encode_data signed_items_def tx_fields_def)

lemma encode_archive:
  "has_data tx b \<Longrightarrow> transactionRlpEncode tx network RLP_TYPE_ARCHIVE =
     Some (tx\<lparr>chainId := networkGetChainId network\<rparr>,
       rlpEncodeListItems (signed_items tx b (networkGetChainId network) @
         [addressRlpEncode (sourceAddress tx), hashRlpEncode (hash tx), transactionStatusRLPEncode (status tx)]))"
  by (simp add: transactionRlpEncode_def encode_data signed_items_def tx_fields_def)

text \<open>The \<open>v\<close> of EIP-155 with a chain id that is not negative.\<close>

lemma eip155_v:
  fixes v :: u8
  assumes "0 \<le> cid" "cid < 2 ^ 31" "27 \<le> v"
  shows "(word_of_int (int (unat v) + 8 + 2 * cid) :: u64) \<noteq> word_of_int cid"
    "(30 :: u64) < word_of_int (int (unat v) + 8 + 2 * cid)"
    "(ucast (word_of_int (int (unat v) + 8 + 2 * cid) - 8 - word_of_int (2 * cid) :: u64) :: u8) = v"
proof -
  have v: "27 \<le> unat v" "unat v < 256" using assms(3) unat_u8 [of v] by (simp_all add: word_le_nat_alt)
  obtain iv where iv: "int (unat v) = iv" "27 \<le> iv" "iv < 256" using v by fastforce
  have small: "uint (word_of_int n :: u64) = n" if "0 \<le> n" "n < 2 ^ 64" for n
    using that by (simp add: unsigned_of_int take_bit_int_eq_self)
  have u: "uint (word_of_int (int (unat v) + 8 + 2 * cid) :: u64) = int (unat v) + 8 + 2 * cid"
    using assms(1,2) iv(2,3) unfolding iv(1) by (intro small) simp_all
  have c: "uint (word_of_int cid :: u64) = cid" using assms(1,2) by (intro small) simp_all
  show "(word_of_int (int (unat v) + 8 + 2 * cid) :: u64) \<noteq> word_of_int cid"
  proof
    assume "(word_of_int (int (unat v) + 8 + 2 * cid) :: u64) = word_of_int cid"
    then have "int (unat v) + 8 + 2 * cid = cid" using u c by metis
    then show False using assms(1) iv(2) unfolding iv(1) by simp
  qed
  have "30 < int (unat v) + 8 + 2 * cid" using iv assms(1) by simp
  then have "uint (30 :: u64) < uint (word_of_int (int (unat v) + 8 + 2 * cid) :: u64)" unfolding u by simp
  then show "(30 :: u64) < word_of_int (int (unat v) + 8 + 2 * cid)" by (simp only: word_less_def)
  have "(word_of_int (int (unat v) + 8 + 2 * cid) :: u64) - 8 - word_of_int (2 * cid) = of_nat (unat v)"
    by simp
  then show "(ucast (word_of_int (int (unat v) + 8 + 2 * cid) - 8 - word_of_int (2 * cid) :: u64) :: u8) = v"
    unfolding of_nat_unat
    by (intro bit_word_eqI) (simp add: bit_simps)
qed

text \<open>The decoders on the items of a well-formed transaction.\<close>

definition tx_wf :: "BREthereumTransaction \<Rightarrow> bytes \<Rightarrow> bool" where
  "tx_wf tx b \<longleftrightarrow> length (targetAddress tx) = 20 \<and> length (amount tx) = 32 \<and> length (gasPrice tx) = 32 \<and>
     has_data tx b \<and> length b < 2 ^ 63"

definition sig_wf :: "BREthereumSignature \<Rightarrow> bool" where
  "sig_wf sig \<longleftrightarrow> sig_type sig = SIGNATURE_TYPE_RECOVERABLE_VRS_EIP \<and> length (sig_bytes sig) = 65 \<and> 27 \<le> vrs_v sig"

text \<open>The transaction that the decoder builds.\<close>

definition decoded :: "BREthereumTransaction \<Rightarrow> bytes \<Rightarrow> int \<Rightarrow> BREthereumTransaction" where
  "decoded tx b cid = \<lparr>hash = hashCreateEmpty, sourceAddress = EMPTY_ADDRESS_INIT, targetAddress = targetAddress tx, amount = amount tx,
     gasPrice = gasPrice tx, gasLimit = gasLimit tx, gasEstimate = 0, nonce = nonce tx, chainId = cid,
     data = Some (hex_prefix @ encodeHex b), signature = signature tx, status = TRANSACTION_STATUS_UNKNOWN\<rparr>"

lemma sig_parts:
  "length (sig_bytes sig) = 65 \<Longrightarrow> sig\<lparr>sig_bytes := vrs_v sig # vrs_r sig @ vrs_s sig\<rparr> = sig \<and> length (vrs_r sig) = 32 \<and> length (vrs_s sig) = 32"
proof -
  assume l: "length (sig_bytes sig) = 65"
  then obtain v b where vb: "sig_bytes sig = v # b" "length b = 64" by (cases "sig_bytes sig") auto
  have "b = take 32 b @ take 32 (drop 32 b)" using vb(2) by (metis append_take_drop_id length_drop take_all le_refl add_diff_cancel_right' numeral_Bit0)
  then show ?thesis using vb by (simp add: vrs_v_def vrs_r_def vrs_s_def)
qed

lemma decode_unsigned_fields:
  assumes "tx_wf tx b"
  shows "rlpDecodeUInt64 (rlpEncodeUInt64 (nonce tx) True) True = Some (nonce tx)"
    "gasPriceRlpDecode (gasPriceRlpEncode (gasPrice tx)) = Some (gasPrice tx)"
    "gasRlpDecode (gasRlpEncode (gasLimit tx)) = Some (gasLimit tx)"
    "addressRlpDecode (addressRlpEncode (targetAddress tx)) = Some (targetAddress tx)"
    "etherRlpDecode (etherRlpEncode (amount tx)) = Some (amount tx)"
    "rlpDecodeHexString (rlpEncodeBytes b) hex_prefix = Some (hex_prefix @ encodeHex b)"
  using assms by (simp_all add: tx_wf_def rlp_uint64 gasPrice_rlp gas_rlp address_rlp ether_rlp rlpDecodeHexString_def rlpDecodeBytes_encode)

lemma decode_signature:
  assumes "sig_wf sig" "0 \<le> cid" "cid < 2 ^ 31"
  shows "rlpDecodeUInt64 (rlpEncodeUInt64 (word_of_int (int (unat (vrs_v sig)) + 8 + 2 * cid)) True) True =
      Some (word_of_int (int (unat (vrs_v sig)) + 8 + 2 * cid))"
    "sig_number (rlpEncodeBytesPurgeLeadingZeros (vrs_r sig)) = Some (vrs_r sig)"
    "sig_number (rlpEncodeBytesPurgeLeadingZeros (vrs_s sig)) = Some (vrs_s sig)"
    "\<lparr>sig_type = SIGNATURE_TYPE_RECOVERABLE_VRS_EIP, sig_bytes = vrs_v sig # vrs_r sig @ vrs_s sig\<rparr> = sig"
  using assms sig_parts [of sig] by (cases sig; simp add: sig_wf_def rlp_uint64 sig_number_purge)+

lemma decode_archive_items:
  assumes "tx_wf tx b" "sig_wf (signature tx)" "networkGetChainId network = cid" "0 \<le> cid" "cid < 2 ^ 31"
  shows "transactionRlpDecode lib (rlpEncodeListItems (signed_items tx b cid @ [i9, i10, i11])) network RLP_TYPE_ARCHIVE =
    do {
      source \<leftarrow> addressRlpDecode i9; h \<leftarrow> hashRlpDecode i10; st \<leftarrow> transactionStatusRLPDecode i11 None;
      Some ((decoded tx b cid)\<lparr>sourceAddress := source, hash := h, status := st\<rparr>)
    }"
proof -
  have v: "27 \<le> vrs_v (signature tx)" using assms(2) by (simp add: sig_wf_def)
  define w where "w = (word_of_int (int (unat (vrs_v (signature tx))) + 8 + 2 * cid) :: u64)"
  note e = eip155_v [OF assms(4,5) v, folded w_def]
  have v: "(ucast (w - 8 - 2 * word_of_int cid) :: u8) = vrs_v (signature tx)" using e(3) by simp
  show ?thesis
    using assms(3) e(1,2) v decode_signature [OF assms(2,4,5), folded w_def]
    unfolding transactionRlpDecode_def signed_items_def tx_fields_def w_def [symmetric]
    by (simp add: decode_unsigned_fields [OF assms(1)] decoded_def gasCreate_def Let_def)
qed

text \<open>Nine items, with any target and any \<open>v\<close> that the decoder takes for that of a signature.\<close>

lemma decode_nine_items:
  fixes tx b i3 i6 i7 i8
  defines "item \<equiv> rlpEncodeListItems ((tx_fields tx b)[3 := i3] @ [i6, i7, i8])"
  assumes "tx_wf tx b" "networkGetChainId network = cid" "addressRlpDecode i3 = Some target" "rlpDecodeUInt64 i6 True = Some e"
    and "e \<noteq> word_of_int cid" "v = ucast (if e > 30 then e - 8 - word_of_int (2 * cid) else e)" "v \<noteq> 0"
    and "sig_number i7 = Some r" "sig_number i8 = Some s"
    and "sig = \<lparr>sig_type = SIGNATURE_TYPE_RECOVERABLE_VRS_EIP, sig_bytes = v # r @ s\<rparr>" "tx' = tx\<lparr>targetAddress := target, signature := sig\<rparr>"
  shows "transactionRlpDecode lib item network RLP_TYPE_TRANSACTION_SIGNED =
    Some ((decoded tx' b cid)\<lparr>hash := hashCreateFromData (rlpGetData item),
      sourceAddress := fst (signatureExtractAddress lib sig (rlpGetData (rlpEncodeListItems (unsigned_items tx' b cid))))\<rparr>)"
proof -
  let ?d = "(decoded tx' b cid)\<lparr>hash := hashCreateFromData (rlpGetData item)\<rparr>"
  have "(ucast (if e > 30 then e - 8 - 2 * word_of_int cid else e) :: u8) = v" using assms(7) by simp
  then have "transactionRlpDecode lib item network RLP_TYPE_TRANSACTION_SIGNED =
      do { (transaction, source) \<leftarrow> transactionExtractAddress lib ?d network; Some (transaction\<lparr>sourceAddress := source\<rparr>) }"
    using assms(3-6,9-)
    unfolding transactionRlpDecode_def item_def tx_fields_def
    by (simp add: decode_unsigned_fields [OF assms(2)] decoded_def gasCreate_def Let_def cong: if_cong)
  moreover have "has_data ?d b" by (simp add: has_data_def decoded_def)
  then have "transactionExtractAddress lib ?d network =
      Some (?d, fst (signatureExtractAddress lib sig (rlpGetData (rlpEncodeListItems (unsigned_items tx' b cid)))))"
    using assms(3,8,11,12)
    by (simp add: transactionExtractAddress_def transactionIsSigned_def vrs_v_def encode_unsigned unsigned_items_def tx_fields_def decoded_def)
  ultimately show ?thesis by simp
qed

lemma decode_signed_items:
  fixes network cid tx b
  defines "item \<equiv> rlpEncodeListItems (signed_items tx b cid)"
  assumes "tx_wf tx b" "sig_wf (signature tx)" "networkGetChainId network = cid" "0 \<le> cid" "cid < 2 ^ 31"
  shows "transactionRlpDecode lib item network RLP_TYPE_TRANSACTION_SIGNED =
    Some ((decoded tx b cid)\<lparr>hash := hashCreateFromData (rlpGetData item),
      sourceAddress := fst (signatureExtractAddress lib (signature tx) (rlpGetData (rlpEncodeListItems (unsigned_items tx b cid))))\<rparr>)"
proof -
  have v: "27 \<le> vrs_v (signature tx)" using assms(3) by (simp add: sig_wf_def)
  then have v0: "vrs_v (signature tx) \<noteq> 0" by (auto simp: word_le_nat_alt)
  define w where "w = (word_of_int (int (unat (vrs_v (signature tx))) + 8 + 2 * cid) :: u64)"
  note e = eip155_v [OF assms(5,6) v, folded w_def]
  note s = decode_signature [OF assms(3,5,6), folded w_def]
  have item: "item = rlpEncodeListItems ((tx_fields tx b)[3 := addressRlpEncode (targetAddress tx)] @ [rlpEncodeUInt64 w True,
      rlpEncodeBytesPurgeLeadingZeros (vrs_r (signature tx)), rlpEncodeBytesPurgeLeadingZeros (vrs_s (signature tx))])"
    by (simp add: item_def signed_items_def tx_fields_def w_def)
  have "vrs_v (signature tx) = ucast (if w > 30 then w - 8 - word_of_int (2 * cid) else w)" using e(2,3) by simp
  from decode_nine_items [OF assms(2,4) decode_unsigned_fields(4) [OF assms(2)] s(1) e(1) this v0 s(2,3) s(4) [symmetric] refl, of lib]
  show ?thesis unfolding item by simp
qed

text \<open>The encodings are those of values, so that the bytes give the items back.\<close>

definition is_rlp :: "BRRlpItem \<Rightarrow> nat \<Rightarrow> bool" where
  "is_rlp item n \<longleftrightarrow> (\<exists>v. item = rlp_item v \<and> length (BRRlpItem.item_bytes item) \<le> n)"

lemma is_rlp_bytes: "length b \<le> n \<Longrightarrow> is_rlp (rlpEncodeBytes b) (n + 9)"
  unfolding is_rlp_def using length_encodeLength(1) [of "of_nat (length b)" "0x80"]
  by (intro exI [of _ "Bytes b"]) (simp add: rlpEncodeBytes_def coderEncodeBytes_def RLP_PREFIX_BYTES_def)

lemma is_rlp_list: "list_all2 is_rlp items ns \<Longrightarrow> is_rlp (rlpEncodeListItems items) (sum_list ns + 9)"
proof -
  assume all: "list_all2 is_rlp items ns"
  then obtain vs where vs: "items = map rlp_item vs" "length (concat (map BRRlpItem.item_bytes items)) \<le> sum_list ns"
  proof (induction arbitrary: thesis rule: list_all2_induct)
    case (Cons item items n ns)
    then obtain v vs where "item = rlp_item v" "items = map rlp_item vs" "length (BRRlpItem.item_bytes item) \<le> n"
      "length (concat (map BRRlpItem.item_bytes items)) \<le> sum_list ns" unfolding is_rlp_def by blast
    then show ?case by (intro Cons.prems [of "v # vs"]) simp_all
  qed simp
  then show ?thesis
    unfolding is_rlp_def using length_encodeLength(1) [of "of_nat (length (concat (map BRRlpItem.item_bytes items)))" "0xc0"]
    by (intro exI [of _ "List vs"]) (simp add: rlpEncodeListItems_def coderEncodeList_def RLP_PREFIX_LIST_def Let_def)
qed

lemma is_rlp_read: "is_rlp item n \<Longrightarrow> n < 2 ^ 64 \<Longrightarrow> rlpGetItem (rlpGetData item) = Some item"
  unfolding is_rlp_def using get_item [of "[]" _ "[]"] by (auto simp: rlpGetItem_def rlpGetData_def)

lemma is_rlp_parts:
  "is_rlp (rlpEncodeUInt64 n z) 17" "length val = 32 \<Longrightarrow> is_rlp (rlpEncodeUInt256 val z) 41"
  "length r = 32 \<Longrightarrow> is_rlp (rlpEncodeBytesPurgeLeadingZeros r) 41"
proof -
  show "is_rlp (rlpEncodeUInt64 n z) 17" using uint64_bytes [of n z] is_rlp_bytes [of _ 8] by auto
  show "length val = 32 \<Longrightarrow> is_rlp (rlpEncodeUInt256 val z) 41" using uint256_bytes [of val z] is_rlp_bytes [of _ 32] by auto
  show "length r = 32 \<Longrightarrow> is_rlp (rlpEncodeBytesPurgeLeadingZeros r) 41"
    unfolding rlpEncodeBytesPurgeLeadingZeros_def using is_rlp_bytes [of _ 32] by simp
qed

lemma fields_rlp: "tx_wf tx b \<Longrightarrow> list_all2 is_rlp (tx_fields tx b) [17, 41, 17, 29, 41, length b + 9]"
  using is_rlp_bytes [of "targetAddress tx" 20] is_rlp_bytes [of b "length b"]
  by (simp add: tx_fields_def tx_wf_def is_rlp_parts gasPriceRlpEncode_def gasRlpEncode_def etherRlpEncode_def addressRlpEncode_def)

lemma unsigned_rlp: "tx_wf tx b \<Longrightarrow> list_all2 is_rlp (unsigned_items tx b cid) [17, 41, 17, 29, 41, length b + 9, 17, 9, 9]"
  using fields_rlp [of tx b] is_rlp_bytes [of "[]" 0] by (simp add: unsigned_items_def tx_fields_def is_rlp_parts)

lemma signed_items_read:
  assumes "tx_wf tx b" "sig_wf (signature tx)"
  shows "rlpGetItem (rlpGetData (rlpEncodeListItems (signed_items tx b cid))) = Some (rlpEncodeListItems (signed_items tx b cid))"
proof (rule is_rlp_read)
  have "list_all2 is_rlp (signed_items tx b cid) [17, 41, 17, 29, 41, length b + 9, 17, 41, 41]"
    using fields_rlp [OF assms(1)] assms(2) sig_parts [of "signature tx"] by (simp add: signed_items_def tx_fields_def sig_wf_def is_rlp_parts)
  from is_rlp_list [OF this] show "is_rlp (rlpEncodeListItems (signed_items tx b cid)) (sum_list [17, 41, 17, 29, 41, length b + 9, 17, 41, 41] + 9)" .
  show "sum_list [17, 41, 17, 29, 41, length b + 9, 17, 41, 41] + 9 < 2 ^ 64" using assms(1) by (simp add: tx_wf_def)
qed

section \<open>The status\<close>

fun status_wf :: "BREthereumTransactionStatus \<Rightarrow> bool" where
  "status_wf (TRANSACTION_STATUS_INCLUDED blockHash _ _ _ _) \<longleftrightarrow> length blockHash = 32"
| "status_wf (TRANSACTION_STATUS_ERRORED _ _) \<longleftrightarrow> False"
| "status_wf _ \<longleftrightarrow> True"

lemma decode_empty_string: "rlpDecodeString (rlpEncodeBytes []) = Some []"
  using rlpDecodeBytes_encode [of "[]"] by (simp add: rlpDecodeString_def rlpDecodeBytes_def)

lemma status_rlp: "status_wf st \<Longrightarrow> transactionStatusRLPDecode (transactionStatusRLPEncode st) reasons = Some st"
  by (cases st) (simp_all add: transactionStatusRLPDecode_def transactionStatusRLPEncode_def empty_string decode_empty_string rlp_uint64
    hash_rlp gas_rlp transactionStatusCreateIncluded_def Let_def)

lemma small_uint64:
  assumes "0 < n" "n < 128"
  shows "rlpEncodeUInt64 (of_nat n) False = rlpEncodeBytes [of_nat n]" "(of_nat n :: u8) \<noteq> 0"
proof -
  have "be n = [of_nat n]" using assms by (simp add: be.simps)
  moreover have "normalized (UInt64SetLE (of_nat n)) = be n" using assms by (intro normalized_be) simp_all
  ultimately show "rlpEncodeUInt64 (of_nat n) False = rlpEncodeBytes [of_nat n]"
    by (simp add: rlpEncodeUInt64_def coderEncodeUInt64_def coderEncodeNumber_eq rlpEncodeBytes_def)
  show "(of_nat n :: u8) \<noteq> 0" using of_nat_u8_zero [of n] assms by simp
qed

lemma normalized_zero: "normalized (UInt64SetLE 0) = [0]"
  by (simp add: normalized_def convertToBigEndianAndNormalize_def swapBytesIfLittleEndian_def findNonZeroIndex_def UInt64SetLE_def Let_def)

lemma zero_uint64: "rlpEncodeUInt64 0 False = rlpEncodeBytes [0]"
  by (simp only: rlpEncodeUInt64_def coderEncodeUInt64_def coderEncodeNumber_eq rlpEncodeBytes_def simp_thms if_False normalized_zero)

lemma zero_error_name: "transactionGetErrorName 0 = Some (map (\<lambda>c. of_nat (of_char c)) ''* invalid signature'')"
  by (simp add: transactionGetErrorName_def error_names_def)

lemma errored_zero:
  "transactionStatusRLPDecode (transactionStatusRLPEncode (TRANSACTION_STATUS_ERRORED 0 detail)) None =
    Some (TRANSACTION_STATUS_ERRORED 0 (map (\<lambda>c. of_nat (of_char c)) ''* invalid signature''))"
proof -
  have reason: "rlpDecodeString (rlpEncodeUInt64 0 False) = Some []"
    using rlpDecodeBytes_encode [of "[0]"] by (simp add: zero_uint64 rlpDecodeString_def rlpDecodeBytes_def)
  have items: "rlpDecodeList (transactionStatusRLPEncode (TRANSACTION_STATUS_ERRORED 0 detail)) =
      [rlpEncodeUInt64 4 False, rlpEncodeListItems [], rlpEncodeUInt64 0 False]"
    by (simp add: transactionStatusRLPEncode_def rlpDecodeList_items)
  show ?thesis
    by (simp add: transactionStatusRLPDecode_def items reason rlp_uint64 zero_error_name transactionStatusCreateErrored_def
      TRANSACTION_STATUS_DETAIL_BYTES_def TRANSACTION_ERROR_ALREADY_KNOWN_def)
qed

section \<open>Properties\<close>

text \<open>
  C13: Archived transactions. What the wallet saves of a signed transaction is read back with the source address, the
  hash and the status, if the status is not that of an error and the chain id is not negative; only the gas estimate is
  not saved. (From \<open>2 ^ 30 - 131\<close> on, the sums of the code with the chain id may overflow, see \<open>EthTx\<close>; the networks
  of the code have smaller ones.)
\<close>
theorem transaction_archive_round_trip:
  assumes "tx_wf tx b" "sig_wf (signature tx)" "status_wf (status tx)" "length (sourceAddress tx) = 20" "length (hash tx) = 32"
    and "networkGetChainId network = cid" "0 \<le> cid" "cid < 2 ^ 31"
  shows "\<exists>item. transactionRlpEncode tx network RLP_TYPE_ARCHIVE = Some (tx\<lparr>chainId := cid\<rparr>, item) \<and>
    transactionRlpDecode lib item network RLP_TYPE_ARCHIVE =
      Some (tx\<lparr>chainId := cid, gasEstimate := 0, data := Some (hex_prefix @ encodeHex b)\<rparr>)"
proof -
  have "has_data tx b" using assms(1) by (simp add: tx_wf_def)
  let ?item = "rlpEncodeListItems (signed_items tx b cid @ [addressRlpEncode (sourceAddress tx), hashRlpEncode (hash tx), transactionStatusRLPEncode (status tx)])"
  have "transactionRlpDecode lib ?item network RLP_TYPE_ARCHIVE =
      Some ((decoded tx b cid)\<lparr>sourceAddress := sourceAddress tx, hash := hash tx, status := status tx\<rparr>)"
    by (simp add: decode_archive_items [OF assms(1,2,6-8)] address_rlp [OF assms(4)] hash_rlp [OF assms(5)] status_rlp [OF assms(3)])
  moreover have "(decoded tx b cid)\<lparr>sourceAddress := sourceAddress tx, hash := hash tx, status := status tx\<rparr> =
      tx\<lparr>chainId := cid, gasEstimate := 0, data := Some (hex_prefix @ encodeHex b)\<rparr>"
    by (cases tx) (simp add: decoded_def)
  moreover have "transactionRlpEncode tx network RLP_TYPE_ARCHIVE = Some (tx\<lparr>chainId := cid\<rparr>, ?item)"
    using assms(6) \<open>has_data tx b\<close> by (simp add: encode_archive)
  ultimately show ?thesis by (metis (no_types))
qed

text \<open>A transaction for the witnesses.\<close>

definition sample_tx :: "bytes \<Rightarrow> BREthereumTransaction" where
  "sample_tx sb = (transactionCreate (replicate 20 1) (replicate 20 2) UINT256_ZERO UINT256_ZERO 21000 None 0)
     \<lparr>signature := \<lparr>sig_type = SIGNATURE_TYPE_RECOVERABLE_VRS_EIP, sig_bytes = sb\<rparr>\<rparr>"

definition sample_network :: BREthereumNetwork where
  "sample_network = \<lparr>network_name = [], network_chainId = 1\<rparr>"

lemma sample_network: "networkGetChainId sample_network = 1"
  by (simp add: sample_network_def networkGetChainId_def)

lemma sample_tx: "tx_wf (sample_tx sb) []" "length (sourceAddress (sample_tx sb)) = 20" "length (hash (sample_tx sb)) = 32"
    "status_wf (status (sample_tx sb))" "signature (sample_tx sb) = \<lparr>sig_type = SIGNATURE_TYPE_RECOVERABLE_VRS_EIP, sig_bytes = sb\<rparr>"
  by (simp_all add: sample_tx_def transactionCreate_def tx_wf_def has_data_def hashCreateEmpty_def ETHEREUM_HASH_BYTES_def)

theorem transaction_archive_round_trip_witness:
  "\<exists>item. transactionRlpDecode vector_secp item sample_network RLP_TYPE_ARCHIVE =
    Some ((sample_tx (28 # replicate 64 7))\<lparr>chainId := 1, gasEstimate := 0, data := Some (hex_prefix @ encodeHex [])\<rparr>)"
proof -
  have "sig_wf (signature (sample_tx (28 # replicate 64 7)))" by (simp add: sample_tx sig_wf_def vrs_v_def)
  from transaction_archive_round_trip [OF sample_tx(1) this sample_tx(4,2,3) sample_network, of vector_secp] show ?thesis by simp blast
qed

text \<open>
  C39: Errors in the archive. What is read back does not depend on the detail of the error, and of the types only the first and the
  unknown one come back as they were: the encoder writes the number of the type in the place where the decoder expects the reason as a text. The
  number 0 is written as the empty text, for which the decoder takes the type 0 and its name; another number is taken for
  a reason of one character, which is found to be no known one.
\<close>
theorem errored_status_lost:
  assumes "type \<le> 8"
  shows "transactionStatusRLPDecode (transactionStatusRLPEncode (TRANSACTION_STATUS_ERRORED (of_nat type) detail)) None =
    (if type = 0 then Some (TRANSACTION_STATUS_ERRORED 0 (map (\<lambda>c. of_nat (of_char c)) ''* invalid signature''))
     else Some (TRANSACTION_STATUS_ERRORED TRANSACTION_ERROR_UNKNOWN [of_nat type]))"
proof (cases "type = 0")
  case True
  then show ?thesis by (simp add: errored_zero)
next
  case False
  then have "(ucast (of_nat type :: u32) :: u64) = of_nat type" using assms by (simp add: unsigned_of_nat take_bit_nat_eq_self)
  moreover have "rlpDecodeString (rlpEncodeBytes [of_nat type]) = Some [of_nat type]"
    using rlpDecodeBytes_encode [of "[of_nat type]"] small_uint64(2) [of type] assms False by (simp add: rlpDecodeString_def rlpDecodeBytes_def)
  ultimately show ?thesis
    using small_uint64(1) [of type] assms False
    by (simp add: transactionStatusRLPDecode_def transactionStatusRLPEncode_def lookupTransactionErrorType_def hex_prefix_def
      transactionStatusCreateErrored_def TRANSACTION_STATUS_DETAIL_BYTES_def TRANSACTION_ERROR_UNKNOWN_def TRANSACTION_ERROR_ALREADY_KNOWN_def)
qed

theorem errored_status_lost_witness:
  "transactionStatusRLPDecode (transactionStatusRLPEncode (TRANSACTION_STATUS_ERRORED (of_nat 1) [0x62, 0x61, 0x64])) None =
    Some (TRANSACTION_STATUS_ERRORED TRANSACTION_ERROR_UNKNOWN [of_nat 1])"
  using errored_status_lost [of 1] by simp

text \<open>
  C38: Two signed forms of the protocol are read with the wrong source. The source is recovered from the unsigned form
  that the code itself builds: for a transaction that creates a contract that form has a target of 20 zero
  bytes where the signed one has none, and for a transaction from before EIP-155 it has three more items than the
  signed one. In both cases these are not the bytes that were signed.
\<close>
theorem source_of_other_bytes:
  assumes "tx_wf tx b" "networkGetChainId network = cid" "0 \<le> cid" "cid < 27" "length r = 32" "length s = 32"
    and "sig = \<lparr>sig_type = SIGNATURE_TYPE_RECOVERABLE_VRS_EIP, sig_bytes = 27 # r @ s\<rparr>"
    and "r_item = rlpEncodeBytesPurgeLeadingZeros r" "s_item = rlpEncodeBytesPurgeLeadingZeros s"
  shows "(\<exists>d bs. transactionRlpDecode lib (rlpEncodeListItems ((tx_fields tx b)[3 := rlpEncodeBytes []] @
        [rlpEncodeUInt64 (word_of_int (35 + 2 * cid)) True, r_item, s_item])) network RLP_TYPE_TRANSACTION_SIGNED = Some d \<and>
      sourceAddress d = fst (signatureExtractAddress lib sig bs) \<and>
      bs \<noteq> rlpGetData (rlpEncodeListItems ((tx_fields tx b)[3 := rlpEncodeBytes []] @
        [rlpEncodeUInt64 (word_of_int cid) True, rlpEncodeBytes [], rlpEncodeBytes []]))) \<and>
    (\<exists>d bs. transactionRlpDecode lib (rlpEncodeListItems (tx_fields tx b @ [rlpEncodeUInt64 27 True, r_item, s_item]))
        network RLP_TYPE_TRANSACTION_SIGNED = Some d \<and>
      sourceAddress d = fst (signatureExtractAddress lib sig bs) \<and> bs \<noteq> rlpGetData (rlpEncodeListItems (tx_fields tx b)))"
proof
  let ?tail = "[rlpEncodeUInt64 (word_of_int cid) True, rlpEncodeBytes [], rlpEncodeBytes []]"
  have sig: "sig_number r_item = Some r" "sig_number s_item = Some s" using assms(5,6,8,9) by (simp_all add: sig_number_purge)
  note fields1 = fields_rlp [OF assms(1)]
  have fields2: "list_all2 is_rlp ((tx_fields tx b)[3 := rlpEncodeBytes []]) [17, 41, 17, 9, 41, length b + 9]"
    using fields_rlp [OF assms(1)] is_rlp_bytes [of "[]" 0] by (simp add: tx_fields_def)
  have tail: "list_all2 is_rlp ?tail [17, 9, 9]" using is_rlp_bytes [of "[]" 0] by (simp add: is_rlp_parts)
  have small: "length b < 2 ^ 63" using assms(1) by (simp add: tx_wf_def)
  have differ: "rlpGetData (rlpEncodeListItems xs) \<noteq> rlpGetData (rlpEncodeListItems ys)"
    if "list_all2 is_rlp xs ns" "list_all2 is_rlp ys ms" "sum_list ns + 9 < 2 ^ 64" "sum_list ms + 9 < 2 ^ 64" "xs \<noteq> ys" for xs ys ns ms
    using is_rlp_read [OF is_rlp_list [OF that(1)] that(3)] is_rlp_read [OF is_rlp_list [OF that(2)] that(4)] that(5)
    by (metis option.inject rlpDecodeList_items)
  show "\<exists>d bs. transactionRlpDecode lib (rlpEncodeListItems ((tx_fields tx b)[3 := rlpEncodeBytes []] @
        [rlpEncodeUInt64 (word_of_int (35 + 2 * cid)) True, r_item, s_item])) network RLP_TYPE_TRANSACTION_SIGNED = Some d \<and>
      sourceAddress d = fst (signatureExtractAddress lib sig bs) \<and>
      bs \<noteq> rlpGetData (rlpEncodeListItems ((tx_fields tx b)[3 := rlpEncodeBytes []] @ ?tail))"
  proof -
    let ?tx = "tx\<lparr>targetAddress := EMPTY_ADDRESS_INIT, signature := sig\<rparr>"
    have "unat (27 :: u8) = 27" by simp
    note e = eip155_v [of cid 27, unfolded this]
    have e3: "(27 :: u8) = ucast (if (word_of_int (35 + 2 * cid) :: u64) > 30 then word_of_int (35 + 2 * cid) - 8 - word_of_int (2 * cid) else word_of_int (35 + 2 * cid) :: u64)"
      using e(2,3) assms(3,4) by simp
    have e1: "(word_of_int (35 + 2 * cid) :: u64) \<noteq> word_of_int cid" using e(1) assms(3,4) by simp
    have "addressRlpDecode (rlpEncodeBytes []) = Some EMPTY_ADDRESS_INIT" by (simp add: addressRlpDecode_def rlpDecodeBytes_encode)
    note d = decode_nine_items [OF assms(1,2) this rlp_uint64 e1 e3 _ sig assms(7) refl, of lib]
    have "addressRlpEncode EMPTY_ADDRESS_INIT \<noteq> rlpEncodeBytes []"
      using rlpDecodeBytes_encode [of EMPTY_ADDRESS_INIT] rlpDecodeBytes_encode [of "[]"]
      by (auto simp: addressRlpEncode_def EMPTY_ADDRESS_INIT_def simp del: replicate.simps)
    then have "unsigned_items ?tx b cid \<noteq> (tx_fields tx b)[3 := rlpEncodeBytes []] @ ?tail"
      by (simp add: unsigned_items_def tx_fields_def)
    moreover have "tx_wf ?tx b" using assms(1) by (simp add: tx_wf_def has_data_def EMPTY_ADDRESS_INIT_def)
    ultimately have "rlpGetData (rlpEncodeListItems (unsigned_items ?tx b cid)) \<noteq> rlpGetData (rlpEncodeListItems ((tx_fields tx b)[3 := rlpEncodeBytes []] @ ?tail))"
      using differ [OF unsigned_rlp list_all2_appendI [OF fields2 tail]] small by simp
    then show ?thesis using d by auto
  qed
  show "\<exists>d bs. transactionRlpDecode lib (rlpEncodeListItems (tx_fields tx b @ [rlpEncodeUInt64 27 True, r_item, s_item]))
        network RLP_TYPE_TRANSACTION_SIGNED = Some d \<and>
      sourceAddress d = fst (signatureExtractAddress lib sig bs) \<and> bs \<noteq> rlpGetData (rlpEncodeListItems (tx_fields tx b))"
  proof -
    let ?tx = "tx\<lparr>signature := sig\<rparr>"
    have "(27 :: u64) \<noteq> word_of_int cid"
    proof
      assume "(27 :: u64) = word_of_int cid"
      then have "uint (27 :: u64) = uint (word_of_int cid :: u64)" by simp
      then show False using assms(3,4) by (simp add: unsigned_of_int take_bit_int_eq_self)
    qed
    note d = decode_nine_items [OF assms(1,2) decode_unsigned_fields(4) [OF assms(1)] rlp_uint64 this _ _ sig assms(7) refl, of lib]
    have same: "(tx_fields tx b)[3 := addressRlpEncode (targetAddress tx)] = tx_fields tx b" by (simp add: tx_fields_def)
    have "unsigned_items ?tx b cid \<noteq> tx_fields tx b" by (simp add: unsigned_items_def tx_fields_def)
    moreover have "tx_wf ?tx b" using assms(1) by (simp add: tx_wf_def has_data_def)
    ultimately have "rlpGetData (rlpEncodeListItems (unsigned_items ?tx b cid)) \<noteq> rlpGetData (rlpEncodeListItems (tx_fields tx b))"
      using differ [OF unsigned_rlp fields1] small by simp
    then show ?thesis using d unfolding same by auto
  qed
qed

theorem source_of_other_bytes_witness:
  "\<exists>d bs. transactionRlpDecode vector_secp (rlpEncodeListItems (tx_fields (sample_tx []) [] @
      [rlpEncodeUInt64 27 True, rlpEncodeBytesPurgeLeadingZeros (replicate 32 1), rlpEncodeBytesPurgeLeadingZeros (replicate 32 1)]))
      sample_network RLP_TYPE_TRANSACTION_SIGNED = Some d \<and>
    sourceAddress d = fst (signatureExtractAddress vector_secp
      \<lparr>sig_type = SIGNATURE_TYPE_RECOVERABLE_VRS_EIP, sig_bytes = 27 # replicate 32 1 @ replicate 32 1\<rparr> bs) \<and>
    bs \<noteq> rlpGetData (rlpEncodeListItems (tx_fields (sample_tx []) []))"
proof -
  have l: "length (replicate 32 1 :: bytes) = 32" by simp
  show ?thesis
    using conjunct2 [OF source_of_other_bytes [OF sample_tx(1) sample_network _ _ l l refl refl refl, of vector_secp "[]"]] by simp
qed

end
