(* ===== verification/Mnemonic.thy ===== *)
theory Mnemonic
  imports Mac
begin

text \<open>
  Mnemonic phrases, \<open>support/BRBIP39Mnemonic.c\<close>: entropy and its checksum as words of 11 bits, and the seed of a
  phrase. The list of words is an argument; a word and a phrase are the lists of their bytes in front of the
  terminator. What they promise is in \<open>MnemonicProps\<close>.
\<close>

section \<open>The operations\<close>

definition BIP39_WORDLIST_COUNT :: nat where "BIP39_WORDLIST_COUNT = 2048"

text \<open>The number of the \<open>i\<close>-th word.\<close>

definition word_number :: "bytes \<Rightarrow> nat \<Rightarrow> nat" where
  "word_number buf i =
     (let x = UInt32GetBE (drop (i * 11 div 8) buf)
      in unat (drop_bit (32 - (11 + (i * 11) mod 8)) x) mod BIP39_WORDLIST_COUNT)"

text \<open>\<open>strncpy\<close> pads with zeros up to the end of the buffer.\<close>

definition put_word :: "bytes option \<Rightarrow> nat \<Rightarrow> bytes \<Rightarrow> bytes option" where
  "put_word phrase len word =
     map_option (\<lambda>m. if len < length m then take len m @ take (length m - len) (word @ replicate (length m - len) 0) else m) phrase"

definition put_char :: "bytes option \<Rightarrow> nat \<Rightarrow> u8 \<Rightarrow> bytes option" where
  "put_char phrase len c = map_option (\<lambda>m. if len < length m then m[len := c] else m) phrase"

fun encode_words :: "bytes option \<Rightarrow> nat \<Rightarrow> bool \<Rightarrow> bytes list \<Rightarrow> bytes option \<times> nat" where
  "encode_words phrase len first [] = (phrase, len)"
| "encode_words phrase len first (word # words) =
     (let phrase = (if first then phrase else put_char phrase len 0x20);
          len = (if first then len else len + 1)
      in encode_words (put_word phrase len word) (len + length word) False words)"

definition BRBIP39Encode :: "bytes option \<Rightarrow> bytes list \<Rightarrow> bytes option \<Rightarrow> bytes option \<times> nat" where
  "BRBIP39Encode phrase wordList data =
     (case data of
        None \<Rightarrow> (phrase, 0)
      | Some d \<Rightarrow>
          if length d mod 4 \<noteq> 0 then (phrase, 0)
          else let buf = d @ BRSHA256 d;
                   (phrase', len) = encode_words phrase 0 True (map (\<lambda>i. wordList ! word_number buf i) [0..<length d * 3 div 4])
               in (phrase', case phrase of None \<Rightarrow> len + 1 | Some m \<Rightarrow> if len + 1 \<le> length m then len + 1 else 0))"

text \<open>The first word of the list that the text starts with, up to a space or the end.\<close>

definition find_word :: "bytes list \<Rightarrow> bytes \<Rightarrow> nat option" where
  "find_word wordList word =
     (let matches = (\<lambda>w. take (length w) word = w \<and> (drop (length w) word = [] \<or> hd (drop (length w) word) = 0x20));
          i = length (takeWhile (\<lambda>w. \<not> matches w) (take BIP39_WORDLIST_COUNT wordList))
      in if i < BIP39_WORDLIST_COUNT then Some i else None)"

text \<open>The indexes of the words and the rest of the phrase, \<open>None\<close> where \<open>word\<close> is \<open>NULL\<close>.\<close>

fun decode_words :: "nat \<Rightarrow> bytes list \<Rightarrow> bytes option \<Rightarrow> nat list \<times> bytes option" where
  "decode_words (Suc n) wordList (Some (c # word)) =
     (case find_word wordList (c # word) of
        None \<Rightarrow> ([], Some (c # word))
      | Some i \<Rightarrow>
          let rest = (case dropWhile (\<lambda>c. c \<noteq> 0x20) (c # word) of [] \<Rightarrow> None | _ # r \<Rightarrow> Some r);
              (idx, rest) = decode_words n wordList rest
          in (i # idx, rest))"
| "decode_words _ _ word = ([], word)"

definition entropy_byte :: "nat list \<Rightarrow> nat \<Rightarrow> u8" where
  "entropy_byte idx i =
     (let x = (of_nat (idx ! (i * 8 div 11)) :: u32);
          y = (if i * 8 div 11 + 1 < length idx then of_nat (idx ! (i * 8 div 11 + 1)) else 0)
      in ucast (drop_bit ((i * 8 div 11 + 2) * 11 - (i + 1) * 8) (x * of_nat BIP39_WORDLIST_COUNT + y) AND 0xff))"

definition BRBIP39Decode :: "bytes option \<Rightarrow> bytes list \<Rightarrow> bytes \<Rightarrow> bytes option \<times> nat" where
  "BRBIP39Decode data wordList phrase =
     (let (idx, word) = decode_words 24 wordList (Some phrase); cnt = length idx;
          buf = map (entropy_byte idx) [0..<(cnt * 11 + 7) div 8];
          b = (if buf = [] then 0 else last buf);
          hash = BRSHA256 (take (cnt * 4 div 3) buf);
          valid = (cnt mod 3 = 0 \<and> (word = None \<or> word = Some []) \<and> drop_bit (8 - cnt div 3) b = drop_bit (8 - cnt div 3) (hash ! 0));
          r = (if valid then cnt * 4 div 3 else 0);
          data' = (if valid then poke data 0 (take r buf) else data)
      in (data', if room data r then r else 0))"

definition BRBIP39PhraseIsValid :: "bytes list \<Rightarrow> bytes \<Rightarrow> bool" where
  "BRBIP39PhraseIsValid wordList phrase \<longleftrightarrow> snd (BRBIP39Decode None wordList phrase) > 0"

definition mnemonic_salt :: bytes where
  "mnemonic_salt = [0x6d, 0x6e, 0x65, 0x6d, 0x6f, 0x6e, 0x69, 0x63]"

definition BRBIP39DeriveKey :: "bytes option \<Rightarrow> bytes option \<Rightarrow> bytes option" where
  "BRBIP39DeriveKey phrase passphrase =
     map_option (\<lambda>p. BRPBKDF2 64 BRSHA512 64 p (mnemonic_salt @ (case passphrase of None \<Rightarrow> [] | Some q \<Rightarrow> q)) 2048) phrase"

end
