(* ===== verification/EthAccount.thy ===== *)
theory EthAccount
  imports EthTxProps Mnemonic
begin

text \<open>
  The Ethereum account (\<open>ethereum/ewm/BREthereumAccount.c\<close>) and the signing of a transfer with it
  (\<open>ethereum/ewm/BREthereumTransfer.c\<close>): the nonce is taken from the account, the unsigned form is signed, and the hash
  is that of the signed form. A received signed transaction gives the address of the signer back.
\<close>

section \<open>Accounts\<close>

record BREthereumAddressDetail =
  raw :: BREthereumAddress
  address_string :: bytes
  publicKey :: bytes
  address_index :: u32
  address_nonce :: u64

record BREthereumAccount =
  masterPubKey :: BRMasterPubKey
  primaryAddress :: BREthereumAddressDetail

definition PRIMARY_ADDRESS_BIP44_INDEX :: u32 where "PRIMARY_ADDRESS_BIP44_INDEX = 0"

definition deriveSeedFromPaperKey :: "bytes \<Rightarrow> bytes option" where
  "deriveSeedFromPaperKey paperKey = BRBIP39DeriveKey (Some paperKey) None"

definition derivePrivateKeyFromSeed :: "('p, 's, 'r) secp \<Rightarrow> bytes \<Rightarrow> u32 \<Rightarrow> BRKey option" where
  "derivePrivateKeyFromSeed lib seed index =
     map_option (\<lambda>privateKey. privateKey\<lparr>compressed := False\<rparr>)
       (BRBIP32PrivKeyPath lib seed [44 OR BIP32_HARD, 60 OR BIP32_HARD, 0 OR BIP32_HARD, 0, index])"

definition addressDetailGetPublicKey :: "BREthereumAddressDetail \<Rightarrow> BRKey" where
  "addressDetailGetPublicKey address = BRKeyClean\<lparr>pubKey := 0x04 # publicKey address\<rparr>"

definition addressDetailFillKey :: "BRKey \<Rightarrow> u32 \<Rightarrow> BREthereumAddressDetail" where
  "addressDetailFillKey key index =
     (let a = addressCreateKey key
      in \<lparr>raw = a, address_string = take 42 (addressGetEncodedString a True), publicKey = take 64 (drop 1 (pubKey key)),
          address_index = index, address_nonce = 0\<rparr>)"

definition addressDetailFillSeed :: "('p, 's, 'r) secp \<Rightarrow> bytes \<Rightarrow> u32 \<Rightarrow> BREthereumAddressDetail option" where
  "addressDetailFillSeed lib seed index =
     do { key \<leftarrow> derivePrivateKeyFromSeed lib seed index; Some (addressDetailFillKey (fst (BRKeyPubKey lib key None)) index) }"

definition createAccountWithBIP32Seed :: "('p, 's, 'r) secp \<Rightarrow> bytes \<Rightarrow> BREthereumAccount option" where
  "createAccountWithBIP32Seed lib seed =
     do {
       mpk \<leftarrow> BRBIP32MasterPubKey lib seed;
       address \<leftarrow> addressDetailFillSeed lib seed PRIMARY_ADDRESS_BIP44_INDEX;
       Some \<lparr>masterPubKey = mpk, primaryAddress = address\<rparr>
     }"

definition createAccountWithPublicKey :: "BRKey \<Rightarrow> BREthereumAccount" where
  "createAccountWithPublicKey key =
     \<lparr>masterPubKey = BR_MASTER_PUBKEY_NONE, primaryAddress = addressDetailFillKey key PRIMARY_ADDRESS_BIP44_INDEX\<rparr>"

text \<open>The release build; \<open>None\<close> is \<open>NULL\<close>.\<close>

definition createAccountDetailed :: "('p, 's, 'r) secp \<Rightarrow> bytes option \<Rightarrow> bytes list option \<Rightarrow> int \<Rightarrow> BREthereumAccount option" where
  "createAccountDetailed lib paperKey wordList wordListLength =
     (case (paperKey, wordList) of
        (Some key, Some words) \<Rightarrow>
          if wordListLength \<noteq> int BIP39_WORDLIST_COUNT then None
          else if snd (BRBIP39Decode None words key) = 0 then None
          else do { seed \<leftarrow> deriveSeedFromPaperKey key; createAccountWithBIP32Seed lib seed }
      | _ \<Rightarrow> None)"

definition accountGetPrimaryAddress :: "BREthereumAccount \<Rightarrow> BREthereumAddress" where
  "accountGetPrimaryAddress account = raw (primaryAddress account)"

definition accountGetPrimaryAddressString :: "BREthereumAccount \<Rightarrow> bytes" where
  "accountGetPrimaryAddressString account = address_string (primaryAddress account)"

definition accountGetPrimaryAddressPublicKey :: "BREthereumAccount \<Rightarrow> BRKey" where
  "accountGetPrimaryAddressPublicKey account = addressDetailGetPublicKey (primaryAddress account)"

definition accountGetPrimaryAddressPrivateKey :: "('p, 's, 'r) secp \<Rightarrow> BREthereumAccount \<Rightarrow> bytes \<Rightarrow> BRKey option" where
  "accountGetPrimaryAddressPrivateKey lib account paperKey =
     do { seed \<leftarrow> deriveSeedFromPaperKey paperKey; derivePrivateKeyFromSeed lib seed (address_index (primaryAddress account)) }"

definition accountHasAddress :: "BREthereumAccount \<Rightarrow> BREthereumAddress \<Rightarrow> bool" where
  "accountHasAddress account address = addressEqual (raw (primaryAddress account)) address"

definition accountSignBytesWithPrivateKey ::
  "('p, 's, 'r) secp \<Rightarrow> BREthereumSignatureType \<Rightarrow> bytes \<Rightarrow> BRKey \<Rightarrow> BREthereumSignature option" where
  "accountSignBytesWithPrivateKey lib type bs privateKey = signatureCreate lib type bs privateKey"

definition accountSignBytes ::
  "('p, 's, 'r) secp \<Rightarrow> BREthereumAccount \<Rightarrow> BREthereumSignatureType \<Rightarrow> bytes \<Rightarrow> bytes \<Rightarrow> BREthereumSignature option" where
  "accountSignBytes lib account type bs paperKey =
     do {
       seed \<leftarrow> deriveSeedFromPaperKey paperKey;
       key \<leftarrow> derivePrivateKeyFromSeed lib seed (address_index (primaryAddress account));
       accountSignBytesWithPrivateKey lib type bs key
     }"

definition accountGetAddressNonce :: "BREthereumAccount \<Rightarrow> u64" where
  "accountGetAddressNonce account = address_nonce (primaryAddress account)"

definition accountSetAddressNonce :: "BREthereumAccount \<Rightarrow> u64 \<Rightarrow> bool \<Rightarrow> BREthereumAccount" where
  "accountSetAddressNonce account n force =
     (if force \<or> n > address_nonce (primaryAddress account)
      then account\<lparr>primaryAddress := (primaryAddress account)\<lparr>address_nonce := n\<rparr>\<rparr> else account)"

definition accountGetThenIncrementAddressNonce :: "BREthereumAccount \<Rightarrow> u64 \<times> BREthereumAccount" where
  "accountGetThenIncrementAddressNonce account =
     (let n = address_nonce (primaryAddress account)
      in (n, account\<lparr>primaryAddress := (primaryAddress account)\<lparr>address_nonce := n + 1\<rparr>\<rparr>))"

section \<open>Signing a transfer\<close>

definition TRANSACTION_NONCE_IS_NOT_ASSIGNED :: u64 where "TRANSACTION_NONCE_IS_NOT_ASSIGNED = - 1"

text \<open>
  The originating transaction of the transfer and the account, for a way to sign the bytes; \<open>None\<close> where an \<open>assert\<close>
  fails.
\<close>

definition transfer_sign ::
  "(bytes \<Rightarrow> BREthereumSignature option) \<Rightarrow> BREthereumTransaction \<Rightarrow> BREthereumNetwork \<Rightarrow> BREthereumAccount \<Rightarrow>
     (BREthereumTransaction \<times> BREthereumAccount) option" where
  "transfer_sign sign transaction network account =
     do {
       let (transaction, account) =
         (if nonce transaction = TRANSACTION_NONCE_IS_NOT_ASSIGNED
          then (let (n, account) = accountGetThenIncrementAddressNonce account in (transactionSetNonce transaction n, account))
          else (transaction, account));
       (transaction, item) \<leftarrow> transactionRlpEncode transaction network RLP_TYPE_TRANSACTION_UNSIGNED;
       sig \<leftarrow> sign (rlpGetData item);
       transaction \<leftarrow> transactionSign transaction sig;
       (transaction, item) \<leftarrow> transactionRlpEncode transaction network RLP_TYPE_TRANSACTION_SIGNED;
       Some (transaction\<lparr>hash := hashCreateFromData (rlpGetData item)\<rparr>, account)
     }"

definition transferSign ::
  "('p, 's, 'r) secp \<Rightarrow> BREthereumTransaction \<Rightarrow> BREthereumNetwork \<Rightarrow> BREthereumAccount \<Rightarrow> bytes \<Rightarrow>
     (BREthereumTransaction \<times> BREthereumAccount) option" where
  "transferSign lib transaction network account paperKey =
     transfer_sign (\<lambda>bs. accountSignBytes lib account SIGNATURE_TYPE_RECOVERABLE_VRS_EIP bs paperKey) transaction network account"

definition transferSignWithKey ::
  "('p, 's, 'r) secp \<Rightarrow> BREthereumTransaction \<Rightarrow> BREthereumNetwork \<Rightarrow> BREthereumAccount \<Rightarrow> BRKey \<Rightarrow>
     (BREthereumTransaction \<times> BREthereumAccount) option" where
  "transferSignWithKey lib transaction network account privateKey =
     transfer_sign (\<lambda>bs. accountSignBytesWithPrivateKey lib SIGNATURE_TYPE_RECOVERABLE_VRS_EIP bs privateKey) transaction network account"

section \<open>The signer is recovered\<close>

lemma signature_recovers:
  assumes "secp_recover_laws lib" "length (secret key) = 32" "pubkey_create lib (secret key) = Some pk" "\<not> compressed key"
    and "signatureCreate lib SIGNATURE_TYPE_RECOVERABLE_VRS_EIP bs key = Some sig"
  shows "sig_type sig = SIGNATURE_TYPE_RECOVERABLE_VRS_EIP" "length (sig_bytes sig) = 65"
    "fst (signatureExtractAddress lib sig bs) = addressCreateKey (BRKeyClean\<lparr>pubKey := pubkey_serialize lib pk False\<rparr>)"
proof -
  let ?md = "BRKeccak256 bs"
  have nz: "\<not> UInt256IsZero (secret key)" using assms(5) by (auto simp: signatureCreate_def BRKeyCompactSign_def Let_def)
  have len: "snd (BRKeyCompactSign lib key None ?md) = 65" using nz by (simp add: BRKeyCompactSign_def)
  have "sign_recoverable lib ?md (secret key) \<noteq> None"
  proof
    assume "sign_recoverable lib ?md (secret key) = None"
    then show False
      using assms(5) nz unfolding signatureCreate_def BREthereumSignatureType.case Let_def len
      by (simp add: BRKeyCompactSign_def del: replicate.simps)
  qed
  then obtain r where r: "sign_recoverable lib ?md (secret key) = Some r" by blast
  obtain sb where sb: "BRKeyCompactSign lib key (Some (replicate 65 0)) ?md = (Some sb, 65)"
      "BRKeyRecoverPubKey lib BRKeyClean ?md sb = BRKeySetPubKey lib (pubkey_serialize lib pk False)"
      "snd (BRKeyRecoverPubKey lib BRKeyClean ?md sb)"
    using conjunct1 [OF compact_signature_recovers [OF assms(1,2) nz assms(3) r, of 0 BRKeyClean]] assms(4) by auto
  have l: "length sb = 65" using sb(3) by (auto simp: BRKeyRecoverPubKey_def split: if_splits)
  then obtain v b where vb: "sb = v # b" "length b = 64" by (cases sb) auto
  have "b = take 32 b @ take 32 (drop 32 b)" using vb(2) by (metis append_take_drop_id length_drop take_all le_refl add_diff_cancel_right' numeral_Bit0)
  then have sig: "sig = \<lparr>sig_type = SIGNATURE_TYPE_RECOVERABLE_VRS_EIP, sig_bytes = sb\<rparr>"
    using assms(5) vb unfolding signatureCreate_def BREthereumSignatureType.case Let_def len sb(1) by simp
  then show "sig_type sig = SIGNATURE_TYPE_RECOVERABLE_VRS_EIP" "length (sig_bytes sig) = 65" using l by simp_all
  have "length (pubkey_serialize lib pk False) = 65" using assms(1-3) unfolding secp_recover_laws_def by (metis (full_types))
  then have "fst (BRKeySetPubKey lib (pubkey_serialize lib pk False)) = BRKeyClean\<lparr>pubKey := pubkey_serialize lib pk False\<rparr>"
    by (simp add: BRKeySetPubKey_def BRKeyClean_def)
  then show "fst (signatureExtractAddress lib sig bs) = addressCreateKey (BRKeyClean\<lparr>pubKey := pubkey_serialize lib pk False\<rparr>)"
    using sb(2,3) by (simp add: signatureExtractAddress_def sig Let_def split_beta del: replicate.simps)
qed

lemma transfer_sign_result:
  assumes "transfer_sign sign tx network account = Some (tx', account')" "has_data tx b" "networkGetChainId network = cid"
  shows "has_data tx' b \<and> targetAddress tx' = targetAddress tx \<and> amount tx' = amount tx \<and> gasPrice tx' = gasPrice tx \<and>
    sign (rlpGetData (rlpEncodeListItems (unsigned_items tx' b cid))) = Some (signature tx') \<and>
    (vrs_v (signature tx') = 27 \<or> vrs_v (signature tx') = 28) \<and>
    hash tx' = hashCreateFromData (rlpGetData (rlpEncodeListItems (signed_items tx' b cid))) \<and> chainId tx' = cid"
proof -
  define t where "t = (if nonce tx = TRANSACTION_NONCE_IS_NOT_ASSIGNED then transactionSetNonce tx (fst (accountGetThenIncrementAddressNonce account)) else tx)"
  have t: "has_data t b" "targetAddress t = targetAddress tx" "amount t = amount tx" "gasPrice t = gasPrice tx"
    using assms(2) by (auto simp: t_def has_data_def transactionSetNonce_def)
  obtain sig t2 where s: "sign (rlpGetData (rlpEncodeListItems (unsigned_items t b cid))) = Some sig"
      "transactionSign (t\<lparr>chainId := cid\<rparr>) sig = Some t2"
      "transactionRlpEncode t2 network RLP_TYPE_TRANSACTION_SIGNED \<bind> (\<lambda>(transaction, item).
         Some (transaction\<lparr>hash := hashCreateFromData (rlpGetData item)\<rparr>)) = Some tx'"
    using assms(1,3) encode_unsigned [OF t(1), of network]
    by (auto simp: transfer_sign_def t_def Let_def split_beta split: bind_splits if_splits)
  have t2: "t2 = t\<lparr>chainId := cid, status := TRANSACTION_STATUS_UNKNOWN, signature := sig\<rparr>" "vrs_v sig = 27 \<or> vrs_v sig = 28"
    using s(2) by (auto simp: transactionSign_def split: if_splits)
  have "has_data t2 b" using t(1) t2(1) by (simp add: has_data_def)
  then have "tx' = t2\<lparr>hash := hashCreateFromData (rlpGetData (rlpEncodeListItems (signed_items t2 b cid)))\<rparr>"
    using s(3) assms(3) t2(1) by (auto simp: encode_signed Let_def)
  then show ?thesis using t t2 s(1)
    by (simp add: has_data_def unsigned_items_def signed_items_def tx_fields_def)
qed

text \<open>
  C5: A transaction signed with a private key arrives as the one of its signer. The bytes of the signed form give the
  item back, and decoding it gives nonce, fee, target, amount, data, signature and hash of the signed transaction, with the
  primary address of the account of the key as its source.
\<close>
theorem signed_transfer_source:
  assumes "secp_recover_laws lib" "length (secret key) = 32" "pubkey_create lib (secret key) = Some pk" "\<not> compressed key"
    and "pubKey key = replicate 65 0"
    and "tx_wf tx b" "networkGetChainId network = cid" "0 \<le> cid" "cid < 2 ^ 31"
    and "account = createAccountWithPublicKey (fst (BRKeyPubKey lib key None))"
    and "transferSignWithKey lib tx network account key = Some (tx', account')"
  shows "\<exists>tx'' item. transactionRlpEncode tx' network RLP_TYPE_TRANSACTION_SIGNED = Some (tx'', item) \<and>
    rlpGetItem (rlpGetData item) = Some item \<and>
    transactionRlpDecode lib item network RLP_TYPE_TRANSACTION_SIGNED =
      Some \<lparr>hash = hash tx', sourceAddress = accountGetPrimaryAddress account, targetAddress = targetAddress tx, amount = amount tx,
        gasPrice = gasPrice tx, gasLimit = gasLimit tx', gasEstimate = 0, nonce = nonce tx', chainId = cid,
        data = Some (hex_prefix @ encodeHex b), signature = signature tx', status = TRANSACTION_STATUS_UNKNOWN\<rparr>"
proof -
  have "has_data tx b" using assms(6) by (simp add: tx_wf_def)
  from transfer_sign_result [OF assms(11) [unfolded transferSignWithKey_def] this assms(7)]
  have tx': "has_data tx' b" "targetAddress tx' = targetAddress tx" "amount tx' = amount tx" "gasPrice tx' = gasPrice tx"
      "signatureCreate lib SIGNATURE_TYPE_RECOVERABLE_VRS_EIP (rlpGetData (rlpEncodeListItems (unsigned_items tx' b cid))) key = Some (signature tx')"
      "vrs_v (signature tx') = 27 \<or> vrs_v (signature tx') = 28"
      "hash tx' = hashCreateFromData (rlpGetData (rlpEncodeListItems (signed_items tx' b cid)))"
    by (simp_all add: accountSignBytesWithPrivateKey_def)
  note rec = signature_recovers [OF assms(1-4) tx'(5)]
  have wf: "tx_wf tx' b" "sig_wf (signature tx')" using assms(6) tx' rec(1,2) by (auto simp: tx_wf_def sig_wf_def)
  have "length (pubkey_serialize lib pk False) = 65" using assms(1-3) unfolding secp_recover_laws_def by (metis (full_types))
  then have "accountGetPrimaryAddress account = addressCreateKey (BRKeyClean\<lparr>pubKey := pubkey_serialize lib pk False\<rparr>)"
    using assms(3-5) unfolding assms(10)
    by (simp add: accountGetPrimaryAddress_def createAccountWithPublicKey_def addressDetailFillKey_def addressCreateKey_def
      BRKeyPubKey_def fill_pubKey_def Let_def del: replicate.simps)
  then show ?thesis
    using decode_signed_items [OF wf assms(7-9), of lib] signed_items_read [OF wf, of cid] tx'(1-4,7) rec(3) assms(7)
    by (simp add: encode_signed decoded_def Let_def)
qed

definition sample_key :: BRKey where
  "sample_key = \<lparr>secret = replicate 32 1, pubKey = replicate 65 0, compressed = False\<rparr>"

definition sample_account :: BREthereumAccount where
  "sample_account = createAccountWithPublicKey (fst (BRKeyPubKey vector_secp sample_key None))"

lemma sample_transfer: "\<exists>tx' account'. transferSignWithKey vector_secp (sample_tx []) sample_network sample_account sample_key = Some (tx', account')"
proof -
  have nz: "\<not> UInt256IsZero (replicate 32 1)" by code_simp
  have "\<exists>sig. signatureCreate vector_secp SIGNATURE_TYPE_RECOVERABLE_VRS_EIP bs sample_key = Some sig \<and>
      sig_type sig = SIGNATURE_TYPE_RECOVERABLE_VRS_EIP \<and> vrs_v sig = 28" for bs
    using nz by (simp add: signatureCreate_def BRKeyCompactSign_def vector_secp_def vrs_v_def sample_key_def Let_def del: replicate.simps)
  then obtain sig where sig: "signatureCreate vector_secp SIGNATURE_TYPE_RECOVERABLE_VRS_EIP
        (rlpGetData (rlpEncodeListItems (unsigned_items (sample_tx []) [] 1))) sample_key = Some sig"
      "sig_type sig = SIGNATURE_TYPE_RECOVERABLE_VRS_EIP" "vrs_v sig = 28"
    by blast
  have data: "has_data (sample_tx []) []" "nonce (sample_tx []) = 0" by (simp_all add: has_data_def sample_tx_def transactionCreate_def)
  then have "has_data ((sample_tx [])\<lparr>chainId := 1, status := TRANSACTION_STATUS_UNKNOWN, signature := sig\<rparr>) []"
    by (simp add: has_data_def)
  note enc = encode_signed [OF this, of sample_network]
  show ?thesis
    using sig data(2) enc encode_unsigned [OF data(1), of sample_network] sample_network
    by (simp add: transferSignWithKey_def transfer_sign_def accountSignBytesWithPrivateKey_def transactionSign_def
      TRANSACTION_NONCE_IS_NOT_ASSIGNED_def Let_def)
qed

theorem signed_transfer_source_witness:
  "\<exists>tx' account' tx'' item. transferSignWithKey vector_secp (sample_tx []) sample_network sample_account sample_key = Some (tx', account') \<and>
    transactionRlpEncode tx' sample_network RLP_TYPE_TRANSACTION_SIGNED = Some (tx'', item) \<and>
    map_option sourceAddress (transactionRlpDecode vector_secp item sample_network RLP_TYPE_TRANSACTION_SIGNED) =
      Some (accountGetPrimaryAddress sample_account)"
proof -
  have k: "length (secret sample_key) = 32" "pubkey_create vector_secp (secret sample_key) = Some (replicate 32 1)"
      "\<not> compressed sample_key" "pubKey sample_key = replicate 65 0"
    by (simp_all add: sample_key_def)
  obtain tx' account' where t: "transferSignWithKey vector_secp (sample_tx []) sample_network sample_account sample_key = Some (tx', account')"
    using sample_transfer by blast
  obtain tx'' item where "transactionRlpEncode tx' sample_network RLP_TYPE_TRANSACTION_SIGNED = Some (tx'', item)"
      "map_option sourceAddress (transactionRlpDecode vector_secp item sample_network RLP_TYPE_TRANSACTION_SIGNED) = Some (accountGetPrimaryAddress sample_account)"
    using signed_transfer_source [OF vector_secp_recover_laws k sample_tx(1) sample_network _ _ sample_account_def t] by force
  then show ?thesis using t by blast
qed

end
