(* ===== verification/MnemonicProps.thy ===== *)
theory MnemonicProps
  imports Mnemonic
begin

text \<open>
  What the mnemonic phrases promise: the words and the entropy as streams of bits, the round trip, and that an accepted
  phrase carries the checksum of its entropy.
\<close>

section \<open>Streams of bits\<close>

text \<open>The bit at a position of a list of bytes, the high bit of a byte first.\<close>

definition stream_bit :: "bytes \<Rightarrow> nat \<Rightarrow> bool" where
  "stream_bit buf t = bit (buf ! (t div 8)) (7 - t mod 8)"

lemma word_number_less: "word_number buf i < 2048"
  by (simp add: word_number_def BIP39_WORDLIST_COUNT_def Let_def)

lemma reverse_position: "b < 32 \<Longrightarrow> (31 - b) div 8 = 3 - b div 8 \<and> 7 - (31 - b) mod 8 = (b :: nat) mod 8"
proof -
  assume "b < 32"
  define a c where ac: "a = b div 8" "c = b mod 8"
  have "c < 8" "b = c + 8 * a" by (simp_all add: ac)
  moreover from this \<open>b < 32\<close> have "31 - b = (7 - c) + 8 * (3 - a)" by simp
  moreover have "c \<le> 7" using \<open>c < 8\<close> by simp
  then obtain c' where "7 - c = c'" "c' < 8" "7 - c' = c" by auto
  moreover obtain a' where "3 - a = a'" by auto
  ultimately have "31 - b = c' + 8 * a'" "c' < 8" "7 - c' = c" "3 - a = a'" by simp_all
  then have "(31 - b) div 8 = 3 - a" "7 - (31 - b) mod 8 = c" by simp_all
  then show ?thesis unfolding ac by simp
qed

lemma bit_mod_2048: "m < 11 \<Longrightarrow> bit (n mod 2048 :: nat) m = bit n m"
  using bit_take_bit_iff [of 11 n m] by (simp add: take_bit_eq_mod)

lemma word_number_bit:
  assumes "m < 11" "i * 11 div 8 \<le> length buf"
  shows "bit (word_number buf i) m = stream_bit buf (11 * i + 10 - m)"
proof -
  define p r where pr: "p = i * 11 div 8" "r = (i * 11) mod 8"
  have r: "r < 8" "11 * i = 8 * p + r" by (simp_all add: pr)
  define b where "b = 21 - r + m"
  have b: "b < 32" "32 - (11 + r) + m = b" "11 * i + 10 - m = 8 * p + (31 - b)" using r assms by (simp_all add: b_def)
  have "bit (word_number buf i) m = bit (UInt32GetBE (drop p buf)) b"
    using bit_mod_2048 [OF assms(1)] b(1,2) by (simp add: word_number_def BIP39_WORDLIST_COUNT_def flip: pr) (simp add: bit_simps)
  also have "\<dots> = bit (buf ! (p + (3 - b div 8))) (b mod 8)"
    using b(1) assms(2) by (simp add: bit_UInt32GetBE pr)
  also have "\<dots> = stream_bit buf (8 * p + (31 - b))"
    using reverse_position [OF b(1)] by (simp add: stream_bit_def)
  finally show ?thesis using b(3) by simp
qed

lemma bit_concat_nat:
  assumes "y < 2048"
  shows "bit (x * 2048 + y :: nat) n = (if n < 11 then bit y n else bit x (n - 11))"
proof (cases "n < 11")
  case True
  then show ?thesis using bit_mod_2048 [OF True, of "x * 2048 + y"] assms by simp
next
  case False
  have "drop_bit 11 (x * 2048 + y) = x" using assms by (simp add: drop_bit_eq_div)
  then have "bit x (n - 11) = bit (drop_bit 11 (x * 2048 + y)) (n - 11)" by simp
  then show ?thesis using False by (simp add: bit_drop_bit_eq)
qed

text \<open>A byte of the entropy has the bits of the words at its positions.\<close>

lemma entropy_bit:
  fixes t
  assumes "m < 8" "\<forall>w \<in> set idx. w < 2048" "i * 8 div 11 < length idx"
  defines "t \<equiv> 8 * i + 7 - m"
  shows "bit (entropy_byte idx i) m = (t div 11 < length idx \<and> bit (idx ! (t div 11)) (10 - t mod 11))"
proof -
  define q s where qs: "q = i * 8 div 11" "s = (i * 8) mod 11"
  have s: "s < 11" "8 * i = 11 * q + s" by (simp_all add: qs)
  define y where "y = (if q + 1 < length idx then idx ! (q + 1) else 0)"
  have xy: "idx ! q < 2048" "y < 2048" using assms(2,3) by (auto simp: y_def qs)
  have sh: "(q + 2) * 11 - (i + 1) * 8 = 14 - s" using s by simp
  have e: "entropy_byte idx i = ucast (drop_bit (14 - s) (of_nat (idx ! q * 2048 + y) :: u32) AND 0xff)"
    unfolding entropy_byte_def Let_def qs(1) [symmetric] sh
    by (simp add: y_def BIP39_WORDLIST_COUNT_def)
  have n: "14 - s + m < 32" using assms(1) by simp
  have ff: "x AND 0xff = take_bit 8 x" for x :: u32 by (simp add: take_bit_eq_mask mask_eq_exp_minus_1)
  have "bit (entropy_byte idx i) m = bit (idx ! q * 2048 + y) (14 - s + m)"
    unfolding e ff using assms(1) n by (simp add: bit_simps del: of_nat_add of_nat_mult)
  also have "\<dots> = (if 14 - s + m < 11 then bit y (14 - s + m) else bit (idx ! q) (14 - s + m - 11))"
    by (rule bit_concat_nat [OF xy(2)])
  also have "\<dots> = (t div 11 < length idx \<and> bit (idx ! (t div 11)) (10 - t mod 11))"
  proof (cases "14 - s + m < 11")
    case True
    define d where "d = 10 - (14 - s + m)"
    have d: "d < 11" "14 - s + m = 10 - d" "t = d + 11 * (q + 1)" using True s assms(1) by (simp_all add: t_def d_def)
    obtain q1 where q1: "q + 1 = q1" by simp
    have "t = d + 11 * q1" using d(3) unfolding q1 .
    then have "t div 11 = q1" "t mod 11 = d" using d(1) by simp_all
    then have "t div 11 = q + 1" "t mod 11 = d" unfolding q1 by simp_all
    then show ?thesis using True d(2) by (simp add: y_def)
  next
    case False
    define d where "d = 10 - (14 - s + m - 11)"
    have d: "d < 11" "14 - s + m - 11 = 10 - d" "t = d + 11 * q" using False s assms(1) by (simp_all add: t_def d_def)
    then have e: "t div 11 = q" "t mod 11 = d" by simp_all
    have "q < length idx" using assms(3) by (simp add: qs)
    then show ?thesis unfolding e if_not_P [OF False] d(2) by simp
  qed
  finally show ?thesis .
qed

section \<open>Entropy and words\<close>

lemma u8_eqI: "(\<And>m. m < 8 \<Longrightarrow> bit a m = bit b m) \<Longrightarrow> a = (b :: u8)"
  by (rule bit_word_eqI) simp

text \<open>The entropy of \<open>4 k\<close> bytes and the words of it with its checksum determine each other.\<close>

lemma entropy_of_words:
  assumes "0 < k" "k \<le> 8" "length buf = 4 * k + 32" "idx = map (word_number buf) [0..<3 * k]" "i \<le> 4 * k"
  shows "m < 8 \<Longrightarrow> 8 * i + 7 - m < 33 * k \<Longrightarrow> bit (entropy_byte idx i) m = bit (buf ! i) m"
proof -
  assume m: "m < 8" and t: "8 * i + 7 - m < 33 * k"
  let ?t = "8 * i + 7 - m"
  have idx: "\<forall>w \<in> set idx. w < 2048" "length idx = 3 * k" using assms(4) word_number_less by auto
  have q: "?t div 11 < 3 * k" using t by (simp add: less_mult_imp_div_less)
  have "i * 8 div 11 < 3 * k" using assms(1,5) by (simp add: less_mult_imp_div_less)
  then have "bit (entropy_byte idx i) m = bit (word_number buf (?t div 11)) (10 - ?t mod 11)"
    using entropy_bit [OF m idx(1), of i] idx(2) q assms(4) by simp
  also have "\<dots> = stream_bit buf (11 * (?t div 11) + 10 - (10 - ?t mod 11))"
  proof (rule word_number_bit)
    have "?t div 11 * 11 \<le> 33 * k" using q by simp
    then have "?t div 11 * 11 div 8 \<le> 33 * k" by (metis div_le_dividend le_trans)
    moreover have "33 * k \<le> 264" using assms(2) by simp
    moreover have "?t div 11 * 11 div 8 \<le> 264 div 8" by (rule div_le_mono) (use \<open>?t div 11 * 11 \<le> 33 * k\<close> assms(2) in simp)
    ultimately show "?t div 11 * 11 div 8 \<le> length buf" using assms(3) by simp
  qed simp
  also have "11 * (?t div 11) + 10 - (10 - ?t mod 11) = ?t"
  proof -
    have "?t mod 11 \<le> 10" by simp
    then show ?thesis using mult_div_mod_eq [of 11 ?t] by linarith
  qed
  also have "stream_bit buf ?t = bit (buf ! i) m"
  proof -
    have "?t = 8 * i + (7 - m)" using m by simp
    then have "?t div 8 = i" "?t mod 8 = 7 - m" by simp_all
    then show ?thesis using m by (simp add: stream_bit_def)
  qed
  finally show ?thesis .
qed

text \<open>Conversely, the words of an entropy whose checksum fits are the ones it was read from.\<close>

lemma words_of_entropy:
  assumes "0 < k" "k \<le> 8" "length idx = 3 * k" "\<forall>w \<in> set idx. w < 2048" "4 * k < length buf"
    and "\<And>i. i < 4 * k \<Longrightarrow> buf ! i = entropy_byte idx i"
    and "drop_bit (8 - k) (entropy_byte idx (4 * k)) = drop_bit (8 - k) (buf ! (4 * k))"
    and "j < 3 * k" "m < 11"
  shows "bit (word_number buf j) m = bit (idx ! j) m"
proof -
  let ?t = "11 * j + 10 - m"
  have t: "?t < 33 * k" using assms(8,9) by simp
  then have i: "?t div 8 \<le> 4 * k" using assms(1,2) by simp
  have j: "j * 11 div 8 \<le> length buf" using assms(5,8,1,2) by simp
  obtain d where d: "7 - ?t mod 8 = d" "d < 8" by auto
  have pos: "8 * (?t div 8) + 7 - d = ?t" using mult_div_mod_eq [of 8 ?t] d(1) by linarith
  obtain e where e: "10 - m = e" "e < 11" "10 - e = m" using assms(9) by auto
  have te: "?t = e + 11 * j" using e by linarith
  have tj: "?t div 11 = j" "?t mod 11 = e" unfolding te using e by simp_all
  have "?t div 8 * 8 div 11 < length idx" using t assms(3) by (simp add: less_mult_imp_div_less)
  from entropy_bit [OF d(2) assms(4) this]
  have en: "bit (entropy_byte idx (?t div 8)) d = bit (idx ! j) m"
    unfolding pos tj e(3) using assms(3,8) by simp
  have "bit (word_number buf j) m = bit (buf ! (?t div 8)) d"
    using word_number_bit [OF assms(9) j] d(1) by (simp add: stream_bit_def)
  also have "\<dots> = bit (entropy_byte idx (?t div 8)) d"
  proof (cases "?t div 8 < 4 * k")
    case True
    then show ?thesis using assms(6) by simp
  next
    case False
    then have q: "?t div 8 = 4 * k" using i by simp
    have "8 * (4 * k) + 7 - d < 33 * k" using pos t unfolding q by simp
    then have "8 - k + (d - (8 - k)) = d" using d(2) by simp
    then show ?thesis
      using bit_drop_bit_eq [of "8 - k" "entropy_byte idx (4 * k)"] bit_drop_bit_eq [of "8 - k" "buf ! (4 * k)"] assms(7)
      unfolding q by (metis comp_apply)
  qed
  finally show ?thesis using en by simp
qed

section \<open>Words and phrases\<close>

text \<open>What the code relies on of a list of words.\<close>

definition wordlist_ok :: "bytes list \<Rightarrow> bool" where
  "wordlist_ok wl \<longleftrightarrow> length wl = 2048 \<and> distinct wl \<and> (\<forall>w \<in> set wl. w \<noteq> [] \<and> 0x20 \<notin> set w \<and> 0 \<notin> set w)"

fun phrase_text :: "bytes list \<Rightarrow> bytes" where
  "phrase_text [] = []"
| "phrase_text (w # ws) = w @ concat (map (\<lambda>w. 0x20 # w) ws)"

lemma wordlist_nth:
  "wordlist_ok wl \<Longrightarrow> i < 2048 \<Longrightarrow> wl ! i \<noteq> [] \<and> 0x20 \<notin> set (wl ! i) \<and> 0 \<notin> set (wl ! i)"
  by (metis nth_mem wordlist_ok_def)

lemma takeWhile_word: "0x20 \<notin> set w \<Longrightarrow> r = [] \<or> hd r = (0x20 :: u8) \<Longrightarrow> takeWhile (\<lambda>c. c \<noteq> 0x20) (w @ r) = w"
  by (cases r) (auto simp: takeWhile_append)

lemma dropWhile_word: "0x20 \<notin> set w \<Longrightarrow> r = [] \<or> hd r = (0x20 :: u8) \<Longrightarrow> dropWhile (\<lambda>c. c \<noteq> 0x20) (w @ r) = r"
  by (cases r) (auto simp: dropWhile_append)

lemma find_word_matches:
  assumes "length wl = 2048"
    and "matches = (\<lambda>w. take (length w) t = w \<and> (drop (length w) t = [] \<or> hd (drop (length w) t) = 0x20))"
  shows "find_word wl t = (let i = length (takeWhile (\<lambda>w. \<not> matches w) wl) in if i < 2048 then Some i else None)"
  unfolding assms(2) find_word_def BIP39_WORDLIST_COUNT_def Let_def using assms(1) by simp

lemma find_word_text:
  assumes wl: "wordlist_ok wl" and i: "i < 2048" and r: "r = [] \<or> hd r = 0x20"
  shows "find_word wl (wl ! i @ r) = Some i"
proof -
  define t where "t = wl ! i @ r"
  define matches where
    "matches = (\<lambda>w. take (length w) t = w \<and> (drop (length w) t = [] \<or> hd (drop (length w) t) = 0x20))"
  have l: "length wl = 2048" "distinct wl" using wl by (simp_all add: wordlist_ok_def)
  have "matches (wl ! i)" using r by (simp add: matches_def t_def)
  moreover have "\<not> matches (wl ! j)" if j: "j < i" for j
  proof
    assume "matches (wl ! j)"
    then obtain r' where "t = wl ! j @ r'" "r' = [] \<or> hd r' = 0x20"
      unfolding matches_def by (metis append_take_drop_id)
    then have "wl ! j = wl ! i"
      using takeWhile_word [of "wl ! j" r'] takeWhile_word [of "wl ! i" r] wordlist_nth [OF wl] i j r
      by (simp add: t_def)
    then show False using l i j by (simp add: nth_eq_iff_index_eq)
  qed
  ultimately have "takeWhile (\<lambda>w. \<not> matches w) wl = take i wl"
    using l(1) i by (intro takeWhile_eq_take_P_nth) auto
  then show ?thesis using find_word_matches [OF l(1) matches_def] l(1) i by (simp add: Let_def flip: t_def)
qed

lemma find_word_Some:
  assumes wl: "wordlist_ok wl" and "find_word wl t = Some i"
  shows "i < 2048 \<and> (\<exists>r. t = wl ! i @ r \<and> (r = [] \<or> hd r = 0x20))"
proof -
  define matches where
    "matches = (\<lambda>w. take (length w) t = w \<and> (drop (length w) t = [] \<or> hd (drop (length w) t) = 0x20))"
  have l: "length wl = 2048" using wl by (simp add: wordlist_ok_def)
  have i: "i = length (takeWhile (\<lambda>w. \<not> matches w) wl)" "i < 2048"
    using assms(2) find_word_matches [OF l matches_def] by (auto simp: Let_def split: if_splits)
  then have "matches (wl ! i)" using nth_length_takeWhile [of "\<lambda>w. \<not> matches w" wl] l by simp
  then show ?thesis using i(2) unfolding matches_def by (metis append_take_drop_id)
qed

subsection \<open>Decoding\<close>

text \<open>A phrase of the words with these indexes, possibly with a trailing space.\<close>

definition word_phrase :: "bytes list \<Rightarrow> nat list \<Rightarrow> bytes" where
  "word_phrase wl idx = phrase_text (map ((!) wl) idx)"

lemma word_phrase_Cons:
  "word_phrase wl (i # idx) = wl ! i @ (if idx = [] then [] else 0x20 # word_phrase wl idx)"
  by (cases idx) (simp_all add: word_phrase_def)

lemma decode_words_text:
  assumes wl: "wordlist_ok wl" and s: "s = [] \<or> s = [0x20]"
  shows "\<forall>i \<in> set idx. i < 2048 \<Longrightarrow> idx \<noteq> [] \<Longrightarrow> length idx \<le> n \<Longrightarrow>
    decode_words n wl (Some (word_phrase wl idx @ s)) = (idx, if s = [] then None else Some [])"
proof (induction idx arbitrary: n)
  case (Cons i idx)
  define r where "r = (if idx = [] then s else 0x20 # word_phrase wl idx @ s)"
  obtain n' where n: "n = Suc n'" using Cons.prems(3) by (cases n) auto
  have i: "i < 2048" "r = [] \<or> hd r = 0x20" using Cons.prems(1) s by (auto simp: r_def)
  obtain c w where cw: "wl ! i = c # w" using wordlist_nth [OF wl i(1)] by (cases "wl ! i") auto
  have "word_phrase wl (i # idx) @ s = wl ! i @ r" by (simp add: word_phrase_Cons r_def)
  moreover have "find_word wl (wl ! i @ r) = Some i" by (rule find_word_text [OF wl i])
  moreover have "dropWhile (\<lambda>c. c \<noteq> 0x20) (wl ! i @ r) = r"
    using dropWhile_word i(2) wordlist_nth [OF wl i(1)] by blast
  moreover have "decode_words n' wl (case r of [] \<Rightarrow> None | _ # r \<Rightarrow> Some r) = (idx, if s = [] then None else Some [])"
  proof (cases "idx = []")
    case True
    then show ?thesis using s by (cases n') (auto simp: r_def)
  next
    case False
    then show ?thesis using Cons.IH [of n'] Cons.prems n by (simp add: r_def)
  qed
  ultimately show ?case unfolding n by (simp add: cw split_beta)
qed simp

lemma decode_words_Some:
  assumes wl: "wordlist_ok wl"
  shows "decode_words n wl (Some t) = (idx, e) \<Longrightarrow> e = None \<or> e = Some [] \<Longrightarrow> idx \<noteq> [] \<Longrightarrow>
    (\<forall>i \<in> set idx. i < 2048) \<and> length idx \<le> n \<and> t = word_phrase wl idx @ (if e = None then [] else [0x20])"
proof (induction n arbitrary: t idx)
  case (Suc n)
  obtain c w where t: "t = c # w" using Suc.prems by (cases t) auto
  obtain i where i: "find_word wl t = Some i" using Suc.prems t by (cases "find_word wl t") auto
  obtain r where r: "i < 2048" "t = wl ! i @ r" "r = [] \<or> hd r = 0x20" using find_word_Some [OF wl i] by blast
  define e' where "e' = (case r of [] \<Rightarrow> None | _ # r \<Rightarrow> Some r)"
  have "dropWhile (\<lambda>c. c \<noteq> 0x20) t = r" using dropWhile_word [of "wl ! i"] r wordlist_nth [OF wl r(1)] by simp
  then obtain idx' where d: "decode_words n wl e' = (idx', e)" "idx = i # idx'"
    using Suc.prems(1) i unfolding t by (auto simp: e'_def split: prod.splits)
  show ?case
  proof (cases e')
    case None
    then have "r = []" by (simp add: e'_def split: list.splits)
    then show ?thesis using d None r by (cases n) (auto simp: word_phrase_Cons)
  next
    case (Some t')
    then have r': "r = 0x20 # t'" using r(3) by (auto simp: e'_def split: list.splits)
    show ?thesis
    proof (cases "idx' = []")
      case False
      then show ?thesis using Suc.IH [of t' idx'] d Some Suc.prems(2) r r' by (auto simp: word_phrase_Cons)
    next
      case True
      have "e = Some t'" using d Some True by (cases n; cases t') (auto split: option.splits prod.splits)
      then show ?thesis using d True Suc.prems(2) r r' by (auto simp: word_phrase_Cons)
    qed
  qed
qed auto

subsection \<open>Encoding\<close>

lemma put_word_pad:
  assumes "w \<noteq> []" "length pre + length w \<le> n"
  shows "put_word (Some (pre @ replicate (n - length pre) 0)) (length pre) w =
    Some ((pre @ w) @ replicate (n - length (pre @ w)) 0)"
proof -
  obtain z where "n = length pre + length w + z" using assms(2) le_Suc_ex by blast
  then show ?thesis using assms(1) by (simp add: put_word_def min_def)
qed

lemma put_char_pad:
  "length pre < n \<Longrightarrow> put_char (Some (pre @ replicate (n - length pre) 0)) (length pre) c =
    Some ((pre @ [c]) @ replicate (n - length (pre @ [c])) 0)"
  by (cases "n - length pre") (auto simp: put_char_def list_update_append)

lemma encode_words_pad:
  "[] \<notin> set ws \<Longrightarrow> length (pre @ concat (map (\<lambda>w. 0x20 # w) ws)) \<le> n \<Longrightarrow>
    encode_words (Some (pre @ replicate (n - length pre) 0)) (length pre) False ws =
      (let t = pre @ concat (map (\<lambda>w. 0x20 # w) ws) in (Some (t @ replicate (n - length t) 0), length t))"
proof (induction ws arbitrary: pre)
  case (Cons w ws)
  define pre' where "pre' = pre @ [0x20]"
  have "put_char (Some (pre @ replicate (n - length pre) 0)) (length pre) 0x20 = Some (pre' @ replicate (n - length pre') 0)"
    unfolding pre'_def using Cons.prems(2) by (intro put_char_pad) simp
  moreover have "put_word (Some (pre' @ replicate (n - length pre') 0)) (length pre') w =
      Some ((pre' @ w) @ replicate (n - length (pre' @ w)) 0)"
    using Cons.prems by (intro put_word_pad) (auto simp: pre'_def)
  moreover have "length pre' = length pre + 1" "length pre + 1 + length w = length (pre' @ w)"
      "pre @ concat (map (\<lambda>w. 0x20 # w) (w # ws)) = (pre' @ w) @ concat (map (\<lambda>w. 0x20 # w) ws)"
    by (simp_all add: pre'_def)
  ultimately show ?case using Cons.IH [of "pre' @ w"] Cons.prems by (simp del: append_assoc)
qed simp

lemma encode_words_Some:
  assumes "[] \<notin> set ws" "length (phrase_text ws) \<le> length m" "ws \<noteq> []"
  shows "encode_words (Some m) 0 True ws =
    (Some (phrase_text ws @ replicate (length m - length (phrase_text ws)) 0), length (phrase_text ws))"
proof -
  obtain w ws' where ws: "ws = w # ws'" "w \<noteq> []" using assms(1,3) by (cases ws) auto
  have "put_word (Some m) 0 w = Some (w @ replicate (length m - length w) 0)"
    using assms(2) ws by (auto simp: put_word_def min_def)
  then show ?thesis using encode_words_pad [of ws' w "length m"] assms(1,2) by (simp add: ws(1) Let_def)
qed

lemma encode_words_None: "encode_words None len False ws = (None, len + length (concat (map (\<lambda>w. (0x20 :: u8) # w) ws)))"
  by (induction ws arbitrary: len) (simp_all add: put_word_def put_char_def)

lemma encode_words_size: "encode_words None 0 True ws = (None, length (phrase_text ws))"
  by (cases ws) (simp_all add: put_word_def encode_words_None)

text \<open>The phrase of an entropy.\<close>

definition mnemonic :: "bytes list \<Rightarrow> bytes \<Rightarrow> bytes" where
  "mnemonic wl data = word_phrase wl (map (word_number (data @ BRSHA256 data)) [0..<length data * 3 div 4])"

lemma encode_mnemonic:
  assumes wl: "wordlist_ok wl" and d: "length data = 4 * k" "0 < k"
  shows "BRBIP39Encode None wl (Some data) = (None, length (mnemonic wl data) + 1)"
    and "length (mnemonic wl data) < length m \<Longrightarrow>
      BRBIP39Encode (Some m) wl (Some data) =
        (Some (mnemonic wl data @ replicate (length m - length (mnemonic wl data)) 0), length (mnemonic wl data) + 1)"
proof -
  define ws where "ws = map (\<lambda>i. wl ! word_number (data @ BRSHA256 data) i) [0..<length data * 3 div 4]"
  have ws: "mnemonic wl data = phrase_text ws" by (simp add: mnemonic_def word_phrase_def ws_def comp_def)
  have ne: "[] \<notin> set ws"
  proof
    assume "[] \<in> set ws"
    then obtain i where "wl ! word_number (data @ BRSHA256 data) i = []" by (auto simp: ws_def eq_commute [of "[]"])
    then show False using wordlist_nth [OF wl word_number_less] by blast
  qed
  have nn: "ws \<noteq> []" using d by (simp add: ws_def)
  have e: "BRBIP39Encode ph wl (Some data) = (let (ph', len) = encode_words ph 0 True ws
      in (ph', case ph of None \<Rightarrow> len + 1 | Some m \<Rightarrow> if len + 1 \<le> length m then len + 1 else 0))" for ph
    unfolding BRBIP39Encode_def Let_def ws_def using d(1) by simp
  show "BRBIP39Encode None wl (Some data) = (None, length (mnemonic wl data) + 1)"
    unfolding e ws by (simp add: encode_words_size)
  assume m: "length (mnemonic wl data) < length m"
  then have "encode_words (Some m) 0 True ws =
      (Some (mnemonic wl data @ replicate (length m - length (mnemonic wl data)) 0), length (mnemonic wl data))"
    unfolding ws by (intro encode_words_Some ne nn) simp
  then show "BRBIP39Encode (Some m) wl (Some data) =
      (Some (mnemonic wl data @ replicate (length m - length (mnemonic wl data)) 0), length (mnemonic wl data) + 1)"
    unfolding e using m by simp
qed

section \<open>The round trip\<close>

lemma decode_word_phrase:
  assumes wl: "wordlist_ok wl" and idx: "\<forall>i \<in> set idx. i < 2048" "length idx = 3 * k" "0 < k" "k \<le> 8" and t: "t = [] \<or> t = [0x20]"
    and ent: "ent = map (entropy_byte idx) [0..<4 * k]"
    and valid: "valid \<longleftrightarrow> drop_bit (8 - k) (entropy_byte idx (4 * k)) = drop_bit (8 - k) (BRSHA256 ent ! 0)"
  shows "BRBIP39Decode out wl (word_phrase wl idx @ t) =
    (if valid then poke out 0 ent else out, if valid \<and> room out (4 * k) then 4 * k else 0)"
proof -
  have d: "decode_words 24 wl (Some (word_phrase wl idx @ t)) = (idx, if t = [] then None else Some [])"
    by (rule decode_words_text [OF wl t idx(1)]) (use idx in auto)
  have n: "(3 * k * 11 + 7) div 8 = Suc (4 * k)" "3 * k * 4 div 3 = 4 * k" "3 * k div 3 = k" "3 * k mod 3 = 0" using idx(3,4) by simp_all
  have b: "map (entropy_byte idx) [0..<Suc (4 * k)] = ent @ [entropy_byte idx (4 * k)]" by (simp add: ent)
  have l: "length ent = 4 * k" by (simp add: ent)
  then have l: "take (4 * k) (ent @ [entropy_byte idx (4 * k)]) = ent" "length ent = 4 * k" by simp_all
  have v: "(if t = [] then None else Some []) = None \<or> (if t = [] then None else Some []) = Some []" by simp
  have r0: "room out 0" by (cases out) simp_all
  show ?thesis
    unfolding BRBIP39Decode_def d idx(2) Let_def prod.case n b l(1)
    using v r0 l(2) by (simp add: valid)
qed

lemma mnemonic_words:
  assumes "length data = 4 * k" "0 < k" "k \<le> 8" "idx = map (word_number (data @ BRSHA256 data)) [0..<3 * k]"
  shows "map (entropy_byte idx) [0..<4 * k] = data"
    and "drop_bit (8 - k) (entropy_byte idx (4 * k)) = drop_bit (8 - k) (BRSHA256 data ! 0)"
proof -
  have l: "length (data @ BRSHA256 data) = 4 * k + 32" using assms(1) by simp
  note e = entropy_of_words [OF assms(2,3) l assms(4)]
  show "map (entropy_byte idx) [0..<4 * k] = data"
  proof (rule nth_equalityI)
    fix i assume "i < length (map (entropy_byte idx) [0..<4 * k])"
    then have i: "i < 4 * k" by simp
    have "entropy_byte idx i = (data @ BRSHA256 data) ! i" by (rule u8_eqI, rule e) (use i in simp_all)
    then show "map (entropy_byte idx) [0..<4 * k] ! i = data ! i" using i assms(1) by (simp add: nth_append)
  qed (simp add: assms(1))
  have n: "(data @ BRSHA256 data) ! (4 * k) = BRSHA256 data ! 0" using assms(1) by (simp add: nth_append)
  show "drop_bit (8 - k) (entropy_byte idx (4 * k)) = drop_bit (8 - k) (BRSHA256 data ! 0)"
  proof (rule u8_eqI)
    fix m :: nat assume m: "m < 8"
    have "bit (entropy_byte idx (4 * k)) (8 - k + m) = bit (BRSHA256 data ! 0) (8 - k + m)"
    proof (cases "8 - k + m < 8")
      case True
      have t: "8 * (4 * k) + 7 - (8 - k + m) < 33 * k" using assms(2,3) by simp
      have "4 * k \<le> 4 * k" by simp
      from e [OF this True t] show ?thesis unfolding n .
    next
      case False
      then show ?thesis using bit_imp_le_length [of _ "8 - k + m"] by fastforce
    qed
    then show "bit (drop_bit (8 - k) (entropy_byte idx (4 * k))) m = bit (drop_bit (8 - k) (BRSHA256 data ! 0)) m"
      by (simp add: bit_drop_bit_eq)
  qed
qed

lemma decode_mnemonic:
  assumes "wordlist_ok wl" "length data = 4 * k" "0 < k" "k \<le> 8" "t = [] \<or> t = [0x20]"
  shows "BRBIP39Decode out wl (mnemonic wl data @ t) = (poke out 0 data, if room out (4 * k) then 4 * k else 0)"
proof -
  define idx where "idx = map (word_number (data @ BRSHA256 data)) [0..<3 * k]"
  have idx: "\<forall>i \<in> set idx. i < 2048" "length idx = 3 * k" using word_number_less by (auto simp: idx_def)
  note w = mnemonic_words [OF assms(2,3,4) idx_def]
  have "mnemonic wl data = word_phrase wl idx" using assms(2) by (simp add: mnemonic_def idx_def)
  then show ?thesis
    using decode_word_phrase [OF assms(1) idx assms(3,4,5) w(1) [symmetric] refl, of out] w(2) by simp
qed

text \<open>A phrase that is accepted is the one of the entropy it decodes to.\<close>

lemma accepted_phrase:
  assumes wl: "wordlist_ok wl" and v: "BRBIP39PhraseIsValid wl phrase"
  shows "\<exists>data k t. length data = 4 * k \<and> 0 < k \<and> k \<le> 8 \<and> (t = [] \<or> t = [0x20]) \<and> phrase = mnemonic wl data @ t"
proof -
  obtain idx e where d: "decode_words 24 wl (Some phrase) = (idx, e)" by (metis surj_pair)
  define k where "k = length idx div 3"
  have r: "0 < length idx * 4 div 3" "length idx mod 3 = 0" "e = None \<or> e = Some []"
    using v by (auto simp: BRBIP39PhraseIsValid_def BRBIP39Decode_def d Let_def split: if_splits)
  then have k: "length idx = 3 * k" "0 < k" "idx \<noteq> []" by (auto simp: k_def)
  have w: "\<forall>i \<in> set idx. i < 2048" "length idx \<le> 24" "phrase = word_phrase wl idx @ (if e = None then [] else [0x20])"
    using decode_words_Some [OF wl d r(3) k(3)] by blast+
  define t where "t = (if e = None then [] else [0x20 :: u8])"
  have t: "t = [] \<or> t = [0x20]" by (simp add: t_def)
  have k8: "k \<le> 8" using k w(2) by simp
  define ent where "ent = map (entropy_byte idx) [0..<4 * k]"
  have l: "length ent = 4 * k" by (simp add: ent_def)
  have c: "drop_bit (8 - k) (entropy_byte idx (4 * k)) = drop_bit (8 - k) (BRSHA256 ent ! 0)"
    using v decode_word_phrase [OF wl w(1) k(1,2) k8 t ent_def refl, of None] w(3) t_def
    by (auto simp: BRBIP39PhraseIsValid_def split: if_splits)
  have "word_number (ent @ BRSHA256 ent) j = idx ! j" if j: "j < 3 * k" for j
  proof (rule bit_eqI)
    fix m
    show "bit (word_number (ent @ BRSHA256 ent) j) m = bit (idx ! j) m"
    proof (cases "m < 11")
      case True
      show ?thesis
        by (rule words_of_entropy [OF k(2) k8 k(1) w(1) _ _ _ j True]) (use l c in \<open>simp_all add: nth_append ent_def\<close>)
    next
      case False
      have "n < 2048 \<Longrightarrow> \<not> bit n m" for n :: nat
        using False bit_take_bit_iff [of 11 n m] by (simp add: take_bit_eq_mod)
      then show ?thesis using word_number_less w(1) k(1) j by (metis nth_mem)
    qed
  qed
  then have "map (word_number (ent @ BRSHA256 ent)) [0..<3 * k] = idx" using k(1) by (intro nth_equalityI) simp_all
  then have "mnemonic wl ent = word_phrase wl idx" using l by (simp add: mnemonic_def)
  then have "phrase = mnemonic wl ent @ t" using w(3) by (simp add: t_def)
  then show ?thesis using l k(2) k8 t by blast
qed

lemma mnemonic_no_terminator:
  assumes "wordlist_ok wl"
  shows "0 \<notin> set (mnemonic wl data)"
proof -
  have "0 \<notin> set (phrase_text ws)" if "\<forall>w \<in> set ws. 0 \<notin> set w" for ws using that by (cases ws) auto
  then show ?thesis
    using wordlist_nth [OF assms word_number_less] by (auto simp: mnemonic_def word_phrase_def)
qed

text \<open>The samples use a list of 2048 words of two letters.\<close>

definition sample_wordlist :: "bytes list" where
  "sample_wordlist = map (\<lambda>i. [of_nat (64 + i div 64), of_nat (64 + i mod 64)]) [0..<2048]"

lemma sample_wordlist_ok: "wordlist_ok sample_wordlist"
proof -
  have u: "unat (of_nat n :: u8) = n" if "n < 256" for n using that by (simp add: unat_of_nat)
  have e: "(of_nat m :: u8) = of_nat n \<longleftrightarrow> m = n" if "m < 256" "n < 256" for m n using u that by metis
  have z: "(of_nat (64 + n) :: u8) \<noteq> 0x20" "(of_nat (64 + n) :: u8) \<noteq> 0" if "n < 64" for n
    using e [of "64 + n" 32] e [of "64 + n" 0] that by simp_all
  have "inj_on (\<lambda>i. [of_nat (64 + i div 64), of_nat (64 + i mod 64)] :: u8 list) {0..<2048}"
  proof (rule inj_onI)
    fix i j :: nat
    assume i: "i \<in> {0..<2048}" "j \<in> {0..<2048}"
      and eq: "[of_nat (64 + i div 64), of_nat (64 + i mod 64)] = ([of_nat (64 + j div 64), of_nat (64 + j mod 64)] :: u8 list)"
    have "64 + i div 64 = 64 + j div 64" "64 + i mod 64 = 64 + j mod 64"
      using eq e [of "64 + i div 64" "64 + j div 64"] e [of "64 + i mod 64" "64 + j mod 64"] i
      by (simp_all del: of_nat_add)
    then show "i = j" by (metis add_left_cancel mult_div_mod_eq)
  qed
  moreover have "w \<noteq> [] \<and> 0x20 \<notin> set w \<and> 0 \<notin> set w" if w: "w \<in> set sample_wordlist" for w
  proof -
    obtain i where i: "w = [of_nat (64 + i div 64), of_nat (64 + i mod 64)]" "i < 2048"
      using w by (auto simp: sample_wordlist_def)
    have "i div 64 < 64" "i mod 64 < 64" using i(2) by simp_all
    then show ?thesis using z [of "i div 64"] z [of "i mod 64"] unfolding i(1) by (simp del: of_nat_add)
  qed
  ultimately show ?thesis by (simp add: wordlist_ok_def distinct_map sample_wordlist_def)
qed

text \<open>
  C16: The phrase of an entropy. For every list of 2048 words and every entropy of 4, 8, ... or 32 bytes, the encoder asks for
  the length of the phrase and its terminator, a buffer of that length gets the phrase with its terminator, and decoding
  what the buffer then holds as a string gives exactly the entropy back.
\<close>
theorem mnemonic_round_trip:
  assumes "wordlist_ok wl" "length data = 4 * k" "0 < k" "k \<le> 8" "4 * k \<le> length out"
    and "snd (BRBIP39Encode None wl (Some data)) \<le> length m"
  shows "\<exists>m'. BRBIP39Encode (Some m) wl (Some data) = (Some m', snd (BRBIP39Encode None wl (Some data))) \<and>
    length m' = length m \<and> length (takeWhile (\<lambda>c. c \<noteq> 0) m') + 1 = snd (BRBIP39Encode None wl (Some data)) \<and>
    BRBIP39Decode (Some out) wl (takeWhile (\<lambda>c. c \<noteq> 0) m') = (Some (data @ drop (4 * k) out), 4 * k)"
proof -
  note e = encode_mnemonic [OF assms(1-3)]
  have l: "length (mnemonic wl data) < length m" using assms(6) e(1) by simp
  have "takeWhile (\<lambda>c. c \<noteq> 0) (mnemonic wl data @ replicate (length m - length (mnemonic wl data)) 0) = mnemonic wl data"
    using mnemonic_no_terminator [OF assms(1), of data] by (subst takeWhile_append2) auto
  moreover have "BRBIP39Decode (Some out) wl (mnemonic wl data) = (Some (data @ drop (4 * k) out), 4 * k)"
    using decode_mnemonic [OF assms(1-4), of "[]"] assms(2,5) by simp
  ultimately show ?thesis using e(1) e(2) [OF l] l by simp
qed

theorem mnemonic_round_trip_witness:
  "\<exists>m'. fst (BRBIP39Encode (Some (replicate (snd (BRBIP39Encode None sample_wordlist (Some (replicate 16 7)))) 1)) sample_wordlist
      (Some (replicate 16 7))) = Some m' \<and>
    BRBIP39Decode (Some (replicate 16 0)) sample_wordlist (takeWhile (\<lambda>c. c \<noteq> 0) m') = (Some (replicate 16 7), 16)"
  using mnemonic_round_trip [OF sample_wordlist_ok, of "replicate 16 7" 4 "replicate 16 0"
    "replicate (snd (BRBIP39Encode None sample_wordlist (Some (replicate 16 7)))) 1"]
  by (auto simp del: replicate.simps)

text \<open>
  C17: The phrases that are accepted. A phrase is valid exactly if it is the one that the encoder makes of an entropy of 4,
  8, ... or 32 bytes, so that the checksum in its last word is the one of its entropy, or that phrase with one
  space at its end.
\<close>
theorem mnemonic_accepts:
  assumes "wordlist_ok wl"
  shows "BRBIP39PhraseIsValid wl phrase \<longleftrightarrow> (\<exists>data k t m. length data = 4 * k \<and> 0 < k \<and> k \<le> 8 \<and> (t = [] \<or> t = [0x20]) \<and>
    fst (BRBIP39Encode (Some (replicate (snd (BRBIP39Encode None wl (Some data))) 0)) wl (Some data)) = Some (m @ [0]) \<and>
    phrase = m @ t)"
proof -
  have e: "fst (BRBIP39Encode (Some (replicate (snd (BRBIP39Encode None wl (Some data))) 0)) wl (Some data)) =
      Some (mnemonic wl data @ [0])" if "length data = 4 * k" "0 < k" for data k
    using encode_mnemonic(1) [OF assms that] encode_mnemonic(2) [OF assms that, of "replicate (length (mnemonic wl data) + 1) 0"] by simp
  show ?thesis
  proof
    assume "BRBIP39PhraseIsValid wl phrase"
    then show "\<exists>data k t m. length data = 4 * k \<and> 0 < k \<and> k \<le> 8 \<and> (t = [] \<or> t = [0x20]) \<and>
        fst (BRBIP39Encode (Some (replicate (snd (BRBIP39Encode None wl (Some data))) 0)) wl (Some data)) = Some (m @ [0]) \<and>
        phrase = m @ t"
      using accepted_phrase [OF assms] e by blast
  next
    assume "\<exists>data k t m. length data = 4 * k \<and> 0 < k \<and> k \<le> 8 \<and> (t = [] \<or> t = [0x20]) \<and>
        fst (BRBIP39Encode (Some (replicate (snd (BRBIP39Encode None wl (Some data))) 0)) wl (Some data)) = Some (m @ [0]) \<and>
        phrase = m @ t"
    then obtain data k t m where d: "length data = 4 * k" "0 < k" "k \<le> 8" "t = [] \<or> t = [0x20]"
        "fst (BRBIP39Encode (Some (replicate (snd (BRBIP39Encode None wl (Some data))) 0)) wl (Some data)) = Some (m @ [0])"
        "phrase = m @ t"
      by blast
    have "m = mnemonic wl data" using e [OF d(1,2)] d(5) by simp
    then show "BRBIP39PhraseIsValid wl phrase"
      using decode_mnemonic [OF assms d(1-4), of None] d(2,6) by (simp add: BRBIP39PhraseIsValid_def)
  qed
qed

theorem mnemonic_accepts_witness: "BRBIP39PhraseIsValid sample_wordlist (mnemonic sample_wordlist (replicate 16 7) @ [0x20])"
proof -
  define d where "d = (replicate 16 7 :: bytes)"
  have l: "length d = 4 * 4" by (simp add: d_def)
  have e: "fst (BRBIP39Encode (Some (replicate (snd (BRBIP39Encode None sample_wordlist (Some d))) 0)) sample_wordlist (Some d)) =
      Some (mnemonic sample_wordlist d @ [0])"
    using encode_mnemonic(1) [OF sample_wordlist_ok l]
      encode_mnemonic(2) [OF sample_wordlist_ok l, of "replicate (length (mnemonic sample_wordlist d) + 1) 0"] by simp
  show ?thesis unfolding d_def [symmetric]
    by (rule iffD2 [OF mnemonic_accepts [OF sample_wordlist_ok]], rule exI [of _ d], rule exI [of _ 4],
        rule exI [of _ "[0x20]"], rule exI [of _ "mnemonic sample_wordlist d"]) (use l e in simp)
qed

end
