(* ===== verification/Spec2Isabelle.thy ===== *)
theory Spec2Isabelle
  imports WalletCreate SignProps Scrypt AesProps MerkleTree RlpProps RlpPool EthAccount MnemonicProps
begin

text \<open>
  A verification development for the wallet core: the C library under \<open>support/\<close>, \<open>bitcoin/\<close> and
  \<open>ethereum/\<close> that derives keys, encodes addresses, serializes and signs transactions, checks blocks and keeps
  the state of a wallet.

  \<^bold>\<open>Parts and theories.\<close> The theories follow the calls of the code, from the bottom up.
  \<^item> \<open>Prelude\<close>: output buffers (\<open>NULL\<close> asks for the size, a buffer with room is filled), the contract
    \<open>two_pass_writer\<close> / \<open>buffer_writer\<close> that every writer of the code keeps, and generic lemmas.
  \<^item> \<open>BRInt\<close>, \<open>VarInt\<close>: the byte order accessors of \<open>support/BRInt.h\<close>; \<open>BRVarInt*\<close> of \<open>support/BRAddress.c\<close>.
  \<^item> \<open>Script\<close>: \<open>BRScriptElements\<close>, \<open>BRScriptData\<close>, \<open>BRScriptPushData\<close>, \<open>BRScriptPKH\<close> and
    \<open>BRScriptPubKeyIsValid\<close> of \<open>support/BRAddress.c\<close>.
  \<^item> \<open>BRSet\<close>: the open addressing hash table of \<open>support/BRSet.c\<close>; its clients provide the hash and the
    equality of their items through the locale \<open>item_equality\<close>.
  \<^item> \<open>Hash\<close>, \<open>Mac\<close>: the hash functions, HMAC, PBKDF2, scrypt and the others of \<open>support/BRCrypto.c\<close>;
    \<open>Scrypt\<close>: the scrypt of RFC 7914 on bytes, and that \<open>BRScrypt\<close> computes it.
  \<^item> \<open>Cipher\<close>, \<open>AesProps\<close>: ChaCha20, Poly1305, their authenticated encryption and AES of \<open>support/BRCrypto.c\<close>, and
    that the inverse cipher of AES undoes the cipher and counter mode undoes itself.
  \<^item> \<open>Base58\<close>, \<open>Bech32\<close>, \<open>Address\<close>: \<open>support/BRBase58.c\<close>, \<open>support/BRBech32.c\<close> and the address functions of
    \<open>support/BRAddress.c\<close>.
  \<^item> \<open>Transaction\<close>: \<open>bitcoin/BRTransaction.c\<close>: the structures, the serializer with the two signature
    pre-images, the parser, the sizes, the shuffle.
  \<^item> \<open>Keys\<close>, \<open>BIP32\<close>: \<open>support/BRKey.c\<close> and \<open>support/BRBIP32Sequence.c\<close>.
  \<^item> \<open>Sign\<close>, \<open>SignProps\<close>: \<open>BRTransactionSign\<close> and what it promises.
  \<^item> \<open>Wallet\<close>: the state and the operations of \<open>bitcoin/BRWallet.c\<close>; \<open>WalletInv\<close>, \<open>WalletOps\<close>: its invariant
    and that each operation keeps it; \<open>WalletReturns\<close>: termination; \<open>WalletRun\<close>: the step relation and
    its runs, the order of the transactions and the set of unspent outputs; \<open>WalletCreate\<close>: what a created transaction
    spends, pays and returns as change.
  \<^item> \<open>MerkleBlock\<close>, \<open>MerkleTree\<close>: \<open>bitcoin/BRMerkleBlock.c\<close>, and the trees its walks stand for.
  \<^item> \<open>Mnemonic\<close>, \<open>MnemonicProps\<close>: \<open>support/BRBIP39Mnemonic.c\<close>.
  \<^item> \<open>Hex\<close>, \<open>Rlp\<close>, \<open>RlpProps\<close>, \<open>RlpPool\<close>: \<open>ethereum/util/BRUtilHex.c\<close> and \<open>ethereum/rlp/BRRlpCoder.c\<close>, its
    encoders and decoders as functions on values and its lists of busy and free items over a heap.
  \<^item> \<open>Numbers\<close>, \<open>UInt256Math\<close>, \<open>UInt256Parse\<close>: the 256 bit arithmetic and its text forms of
    \<open>ethereum/util/BRUtilMath.c\<close> and \<open>BRUtilMathParse.c\<close>.
  \<^item> \<open>EthBase\<close>, \<open>EthTx\<close>, \<open>EthTxProps\<close>, \<open>EthAccount\<close>: the base types under \<open>ethereum/base\<close>,
    \<open>ethereum/blockchain/BREthereumTransaction.c\<close> with its status, the account and the signing of a transfer.

  \<^bold>\<open>How the code is modelled.\<close> A struct is a record, a \<open>w\<close> bit integer a \<open>w
  word\<close>, a byte array a list of 8 bit words, a pointer that may be \<open>NULL\<close> an option. A function
  that changes an object returns the new object. An \<open>assert\<close> states a precondition and is not
  modelled, except in the decoders of Ethereum, which run it on what a peer sent: it gives \<open>None\<close>
  there. A read or write outside of an array is a value of its own (\<open>None\<close> or
  \<open>Undefined\<close>). A \<open>while\<close> loop or a recursion that need not end is a
  \<open>partial_function\<close> on options, where \<open>None\<close> means that it does not return; the
  properties of kind termination say when it does. The fuel of the probe loops of \<open>BRSet\<close> is the size
  of its table, and the refinement shows that it is enough as the table is never full.

  \<^bold>\<open>State and locks.\<close> The objects of the transactions of a wallet are shared between
  \<open>allTx\<close> and the array \<open>transactions\<close>; the model keeps them in the map
  \<open>allTx\<close> and has their hashes in the array, so that an update of an object is seen through both. The
  states of a wallet are changed under its lock, so that what it reaches are the results of sequences of steps
  (\<open>wallet_step\<close>, \<open>wallet_run\<close>). Registering and removing a transaction and creating one
  release the lock between their parts; the parts of the first two are steps of their own beside the whole
  operations, and creating changes the wallet only by extending the internal chain, which is a step too, so that
  the properties of runs cover the states in between. A run starts from \<open>BRWalletNew\<close> with
  transactions that all belong to the wallet (the code tests the first one only) or from any consistent store after
  \<open>BRWalletUpdateBalance\<close>. The sets of the wallet are sets; that the hash tables of
  \<open>BRSet\<close> implement them is the property \<open>set_run_refines\<close>, whose requirement on the hash
  and equality of the items is shown for transactions in \<open>Transaction\<close>.

  \<^bold>\<open>What is a parameter.\<close> The functions of secp256k1, a git submodule, are the fields of the
  record \<open>secp\<close> of \<open>Keys\<close>; theorems that rely on them name the documented laws as
  hypotheses (\<open>secp_recover_laws\<close>, \<open>secp_point_laws\<close>, \<open>secp_sign_laws\<close>),
  which the library \<open>vector_secp\<close> satisfies. The random numbers, the time and whether
  \<open>realloc\<close> moves an array are arguments of the operations that use them.

  \<^bold>\<open>What the properties show.\<close> Round trips of the encodings (scripts, transactions, blocks,
  addresses, Base58, Bech32, extended keys, compact signatures, mnemonic phrases, RLP items, Ethereum transactions
  and amounts); exactness of the recognisers and of the parsers of numbers; Keccak against the sponge construction,
  PBKDF2 and scrypt against RFC 8018 and RFC 7914; the hash table against a set and the pool of RLP items against
  its lists; derivation of public keys without the private ones; the signature of an input verifies for the
  returned transaction, and a signed Ethereum transaction is read back with its signer; the partial Merkle trees
  against the full ones, with a proof of inclusion for each reported hash; the 256 bit arithmetic against that of
  the integers; the invariant and the unspent outputs of every run of a wallet; the coins, the fee, the change and
  the reductions of a created transaction; and errors of the code on malformed input.

  \<^bold>\<open>Not modelled.\<close> Memory management and the clearing of secrets; floating point conversions of
  amounts; \<open>BRKeySetPrivKey\<close>, whose hexadecimal branch is \<open>sscanf\<close>; the peer to peer
  protocols, the managers, the light client and the facade under \<open>crypto/\<close>, which run on threads,
  sockets and timers; SQLite storage; the bindings. The remaining components are listed in the manifest with their
  reasons.
\<close>

end
